(* ===== verification/Prelude.thy ===== *)
theory Prelude
  imports Main "HOL-Library.Word"
begin

text \<open>What the components share: byte and word types, big-endian encodings, slices with the program's range
checks, signed 64-bit wrap-around, option and sum bindings, and the locale of a component run: a state,
an invariant and operations that may panic, whose lemmas lift one operation's safety to every run.\<close>

unbundle bit_operations_syntax

named_theorems wire_simps
named_theorems inv_intros

type_synonym u8 = "8 word"
type_synonym u16 = "16 word"
type_synonym u32 = "32 word"
type_synonym u64 = "64 word"
type_synonym bytes = "u8 list"

fun to_be :: "nat \<Rightarrow> 'a::len word \<Rightarrow> bytes" where
  "to_be 0 w = []"
| "to_be (Suc n) w = to_be n (drop_bit 8 w) @ [ucast w]"

definition of_be :: "bytes \<Rightarrow> 'a::len word" where
  "of_be bs = foldl (\<lambda>acc b. push_bit 8 acc OR ucast b) 0 bs"

lemma length_to_be [simp]: "length (to_be n w) = n"
  by (induction n arbitrary: w) auto

lemma of_be_Nil [simp]: "of_be [] = 0"
  by (simp add: of_be_def)

lemma of_be_snoc [simp]: "of_be (bs @ [b]) = push_bit 8 (of_be bs) OR ucast b"
  by (simp add: of_be_def)

lemma take_bit_byte_split:
  "take_bit (8 + m) (w :: 'a::len word) = push_bit 8 (take_bit m (drop_bit 8 w)) OR ucast (ucast w :: u8)"
  by (rule bit_word_eqI) (auto simp: bit_simps)

lemma of_be_to_be: "of_be (to_be n w) = take_bit (8 * n) w"
proof (induction n arbitrary: w)
  case (Suc n)
  then show ?case using take_bit_byte_split[of "8 * n" w] by simp
qed simp

lemma to_be_of_be:
  "8 * length bs \<le> LENGTH('a::len) \<Longrightarrow> to_be (length bs) (of_be bs :: 'a word) = bs"
proof (induction bs rule: rev_induct)
  case (snoc b bs)
  define v where "v = (of_be bs :: 'a word)"
  have le: "8 * length bs + 8 \<le> LENGTH('a)" using snoc.prems by simp
  have small: "take_bit (8 * length bs) v = v"
  proof -
    have "v = of_be (to_be (length bs) v)" using snoc.IH le by (simp add: v_def)
    then show ?thesis by (metis of_be_to_be)
  qed
  have d: "drop_bit 8 (push_bit 8 v OR ucast b) = v"
  proof (rule bit_word_eqI)
    fix n assume "n < LENGTH('a)"
    have "bit v n \<longleftrightarrow> n < 8 * length bs \<and> bit v n"
      using small by (metis bit_take_bit_iff)
    then show "bit (drop_bit 8 (push_bit 8 v OR ucast b)) n = bit v n"
      using le \<open>n < LENGTH('a)\<close> by (auto simp: bit_simps dest: bit_imp_le_length)
  qed
  have u: "ucast (push_bit 8 v OR ucast b) = b"
    using le by (intro bit_word_eqI) (auto simp: bit_simps)
  show ?case using d u snoc.IH le by (simp add: v_def)
qed simp

lemma of_be_to_be_id: "8 * n = LENGTH('a::len) \<Longrightarrow> of_be (to_be n w) = (w :: 'a word)"
  by (simp add: of_be_to_be take_bit_word_eq_self)

definition slice :: "'a list \<Rightarrow> nat \<Rightarrow> nat \<Rightarrow> 'a list" where
  "slice bs i j = take (j - i) (drop i bs)"

definition get_slice :: "'a list \<Rightarrow> nat \<Rightarrow> nat \<Rightarrow> 'a list option" where
  "get_slice bs i j = (if i \<le> j \<and> j \<le> length bs then Some (slice bs i j) else None)"

definition next_multiple_of4 :: "nat \<Rightarrow> nat" where
  "next_multiple_of4 n = (if n mod 4 = 0 then n else n + (4 - n mod 4))"

lemma next_multiple_of4_ge: "n \<le> next_multiple_of4 n"
  using mod_less_divisor[of 4 n] by (auto simp: next_multiple_of4_def)

lemma next_multiple_of4_mod: "next_multiple_of4 n mod 4 = 0"
  unfolding next_multiple_of4_def by presburger

lemma next_multiple_of4_lt: "next_multiple_of4 n < n + 4"
  by (simp add: next_multiple_of4_def)

lemma length_slice: "j \<le> length bs \<Longrightarrow> length (slice bs i j) = j - i"
  by (simp add: slice_def)


lemma word_in_range:
  "unat w < k \<Longrightarrow> w \<in> set (map word_of_nat [0..<k])"
  by (auto intro!: image_eqI[of _ _ "unat w"])

lemma word_lt_range:
  "w < word_of_nat k \<Longrightarrow> w \<in> set (map word_of_nat [0..<k])" for w :: "'a::len word"
proof -
  assume "w < word_of_nat k"
  then have "unat w < unat (word_of_nat k :: 'a word)" by (simp add: word_less_nat_alt)
  also have "\<dots> \<le> k" by (simp add: unsigned_of_nat take_bit_nat_less_eq_self)
  finally show ?thesis by (rule word_in_range)
qed


text \<open>Signed 64-bit arithmetic in a release build: the value modulo \<open>2 ^ 64\<close>, read as signed.\<close>

definition wrap_i64 :: "int \<Rightarrow> int" where
  "wrap_i64 z = sint (word_of_int z :: 64 word)"

lemma wrap_i64_id: "- (2 ^ 63) \<le> z \<Longrightarrow> z < 2 ^ 63 \<Longrightarrow> wrap_i64 z = z"
  by (simp add: wrap_i64_def signed_of_int signed_take_bit_int_eq_self)

definition i64_min :: int where "i64_min = - (2 ^ 63)"
definition i64_max :: int where "i64_max = 2 ^ 63 - 1"


lemma uint_dec: "0 < w \<Longrightarrow> uint (w - 1) = uint w - 1"
  using uint_sub_lem[of 1 w] by (simp add: word_less_def)

lemma uint_inc: "uint w + 1 < 2 ^ LENGTH('a) \<Longrightarrow> uint (w + 1) = uint w + 1" for w :: "'a::len word"
  by (simp add: uint_word_ariths take_bit_int_eq_self)

lemma unat_dec: "0 < w \<Longrightarrow> unat (w - 1) = unat w - 1"
  by (rule unat_minus_one) auto

lemma unat_inc: "unat w + 1 < 2 ^ LENGTH('a) \<Longrightarrow> unat (w + 1) = unat w + 1" for w :: "'a::len word"
  by (simp add: unat_word_ariths)

text \<open>A byte-string literal.\<close>

definition ascii :: "string \<Rightarrow> bytes" where "ascii s = map of_char s"

subsection \<open>Runs of fallible operations\<close>

text \<open>Several components are a state and a list of operations any of which may panic (\<open>None\<close>).  The
locale states the contract one operation owes - defined and invariant-preserving on legal arguments -
and its lemmas lift it to every run.\<close>

primrec run_ops :: "('op \<Rightarrow> 's \<Rightarrow> 's option) \<Rightarrow> 'op list \<Rightarrow> 's \<Rightarrow> 's option" where
  "run_ops step [] s = Some s"
| "run_ops step (a # as) s = (case step a s of None \<Rightarrow> None | Some s' \<Rightarrow> run_ops step as s')"

lemma run_ops_append:
  "run_ops step (as @ bs) s = (case run_ops step as s of None \<Rightarrow> None | Some s' \<Rightarrow> run_ops step bs s')"
  by (induction as arbitrary: s) (auto split: option.splits)

locale guarded_machine =
  fixes step :: "'op \<Rightarrow> 's \<Rightarrow> 's option" and inv :: "'s \<Rightarrow> bool" and legal :: "'op \<Rightarrow> bool"
  assumes step_inv: "inv s \<Longrightarrow> legal a \<Longrightarrow> \<exists>s'. step a s = Some s' \<and> inv s'"
begin

lemma run_inv: "inv s \<Longrightarrow> list_all legal as \<Longrightarrow> \<exists>s'. run_ops step as s = Some s' \<and> inv s'"
proof (induction as arbitrary: s)
  case (Cons a as)
  obtain s' where "step a s = Some s'" "inv s'" using step_inv[OF Cons.prems(1)] Cons.prems(2) by auto
  then show ?case using Cons.IH[of s'] Cons.prems(2) by auto
qed simp

lemma run_prefix_inv:
  assumes "inv s" "list_all legal (as @ bs)"
  shows "\<exists>s'. run_ops step as s = Some s' \<and> inv s'"
  using assms by (intro run_inv) auto

end

end
