(* ===== verification/Float64.thy ===== *)
theory Float64
  imports Complex_Main
begin

text \<open>Rust's \<open>f64\<close>: IEEE 754 binary64 with rounding to nearest, ties to even.  A finite non-zero value
is the rational it denotes, the two zeros and the infinities are separate constructors and all NaNs
are one value (the code never inspects a NaN's payload).  Every operation the program uses is a
function: arithmetic rounds the exact rational result, comparisons follow \<open>PartialOrd\<close>, the
order instance is \<open>total_cmp\<close>, casts to integers saturate as Rust's \<open>as\<close> does and \<open>clamp\<close> is an
option because it panics on reversed bounds.  The lemmas give exactness, monotonicity and magnitude
bounds; the last part gives code equations over integers.\<close>

definition pow2 :: "int \<Rightarrow> rat" where
  "pow2 k = (if 0 \<le> k then 2 ^ nat k else 1 / 2 ^ nat (- k))"

lemma pow2_powi: "pow2 k = 2 powi k"
  unfolding pow2_def power_int_def by (cases "0 \<le> k") (simp_all only: if_True if_False divide_inverse power_inverse mult_1)

lemma pow2_pos [simp]: "0 < pow2 k"
  by (simp add: pow2_def)

lemma pow2_nonneg [simp]: "0 \<le> pow2 k"
  using pow2_pos[of k] by linarith

lemma pow2_not_neg [simp]: "\<not> pow2 k < 0"
  using pow2_pos[of k] by linarith

lemma pow2_neq0 [simp]: "pow2 k \<noteq> 0"
  using pow2_pos[of k] by linarith

lemma pow2_add: "pow2 (a + b) = pow2 a * pow2 b"
  by (simp add: pow2_powi power_int_add)

lemma pow2_diff: "pow2 (a - b) = pow2 a / pow2 b"
  by (simp add: pow2_powi power_int_diff)

lemma pow2_0 [simp]: "pow2 0 = 1" by (simp add: pow2_def)
lemma pow2_1 [simp]: "pow2 1 = 2" by (simp add: pow2_def)

lemma pow2_less: "a < b \<Longrightarrow> pow2 a < pow2 b"
  unfolding pow2_powi by (rule power_int_strict_increasing) auto

lemma pow2_less_iff [simp]: "pow2 a < pow2 b \<longleftrightarrow> a < b"
  using pow2_less[of a b] pow2_less[of b a] by (cases a b rule: linorder_cases) auto

lemma pow2_le_iff [simp]: "pow2 a \<le> pow2 b \<longleftrightarrow> a \<le> b"
  by (simp flip: not_less)

fun bitl :: "int \<Rightarrow> int" where
  "bitl n = (if n \<le> 0 then 0 else 1 + bitl (n div 2))"

declare bitl.simps [simp del]

definition ilog2 :: "rat \<Rightarrow> int" where
  "ilog2 r = (let (a, b) = quotient_of r; k = bitl a - bitl b
              in if pow2 k \<le> r then k else k - 1)"

lemma bitl_nonneg: "0 \<le> bitl a"
proof (induction a rule: bitl.induct)
  case (1 a)
  then show ?case by (subst bitl.simps) auto
qed

lemma bitl_pow2: "0 < a \<Longrightarrow> pow2 (bitl a - 1) \<le> of_int a \<and> of_int a < pow2 (bitl a)"
proof (induction a rule: bitl.induct)
  case (1 a)
  show ?case
  proof (cases "a = 1")
    case True
    then show ?thesis by (simp add: bitl.simps[of 1] bitl.simps[of 0])
  next
    case False
    then have d: "0 < a div 2" using "1.prems" by linarith
    have IH: "pow2 (bitl (a div 2) - 1) \<le> of_int (a div 2)" "of_int (a div 2) < pow2 (bitl (a div 2))"
      using "1.IH" "1.prems" d by auto
    define k where "k = bitl (a div 2)"
    have k0: "0 < k" using d using bitl_nonneg[of "a div 2 div 2"] by (simp add: k_def bitl.simps[of "a div 2"])
    have b: "bitl a = k + 1" using "1.prems" by (simp add: bitl.simps[of a] k_def)
    have p: "pow2 k = of_int (2 ^ nat k)" using k0 by (simp add: pow2_def)
    have "a div 2 < 2 ^ nat k" using IH(2) unfolding k_def[symmetric] p by (simp only: of_int_less_iff)
    then have "a < 2 * 2 ^ nat k" by linarith
    then have "of_int a < (of_int (2 * 2 ^ nat k) :: rat)" by (simp only: of_int_less_iff)
    then have up: "of_int a < pow2 (k + 1)" by (simp add: pow2_add p)
    have "2 * of_int (a div 2) \<le> (of_int a :: rat)"
    proof -
      have "2 * (a div 2) \<le> a" by linarith
      then have "(of_int (2 * (a div 2)) :: rat) \<le> of_int a" by (simp only: of_int_le_iff)
      then show ?thesis by simp
    qed
    moreover have "pow2 k = 2 * pow2 (k - 1)" by (simp add: pow2_diff)
    ultimately have "pow2 k \<le> of_int a" using IH(1) by (simp add: k_def)
    then show ?thesis using up b by simp
  qed
qed

lemma ilog2_spec:
  assumes "0 < r" shows "pow2 (ilog2 r) \<le> r" "r < pow2 (ilog2 r + 1)"
proof -
  obtain a b where q: "quotient_of r = (a, b)" by force
  have b0: "0 < b" using quotient_of_denom_pos[OF q] .
  have r: "r = of_int a / of_int b" using quotient_of_div[OF q] .
  have a0: "0 < a" using assms b0 r by (simp add: zero_less_divide_iff)
  define k where "k = bitl a - bitl b"
  note A = bitl_pow2[OF a0] and B = bitl_pow2[OF b0]
  have up: "r < pow2 (k + 1)"
  proof -
    have "of_int a < pow2 (bitl a)" using A by simp
    also have "\<dots> = pow2 (k + 1) * pow2 (bitl b - 1)" by (simp add: k_def flip: pow2_add)
    also have "\<dots> \<le> pow2 (k + 1) * of_int b" using B by (simp add: mult_left_mono)
    finally show ?thesis using b0 by (simp add: r divide_less_eq)
  qed
  have lo: "pow2 (k - 1) \<le> r"
  proof -
    have "pow2 (k - 1) * of_int b \<le> pow2 (k - 1) * pow2 (bitl b)" using B by (simp add: mult_left_mono)
    also have "\<dots> = pow2 (bitl a - 1)" by (simp add: k_def flip: pow2_add)
    also have "\<dots> \<le> of_int a" using A by simp
    finally show ?thesis using b0 by (simp add: r le_divide_eq)
  qed
  have "ilog2 r = (if pow2 k \<le> r then k else k - 1)" by (simp add: ilog2_def q k_def)
  then show "pow2 (ilog2 r) \<le> r" "r < pow2 (ilog2 r + 1)" using up lo by auto
qed

lemma ilog2_unique: "pow2 k \<le> r \<Longrightarrow> r < pow2 (k + 1) \<Longrightarrow> ilog2 r = k"
proof -
  assume a: "pow2 k \<le> r" "r < pow2 (k + 1)"
  then have "0 < r" using pow2_pos[of k] by linarith
  note s = ilog2_spec[OF this]
  have "pow2 k < pow2 (ilog2 r + 1)" "pow2 (ilog2 r) < pow2 (k + 1)" using a s by linarith+
  then show ?thesis by simp
qed

lemma ilog2_mono: "0 < r \<Longrightarrow> r \<le> s \<Longrightarrow> ilog2 r \<le> ilog2 s"
proof -
  assume a: "0 < r" "r \<le> s"
  have "pow2 (ilog2 r) < pow2 (ilog2 s + 1)"
    using ilog2_spec(1)[OF a(1)] ilog2_spec(2)[of s] a by linarith
  then show ?thesis by simp
qed

definition rne :: "rat \<Rightarrow> int" where
  "rne r = (let f = \<lfloor>r\<rfloor>; d = r - of_int f
            in if d < 1/2 \<or> d = 1/2 \<and> even f then f else f + 1)"

lemma rne_of_int [simp]: "rne (of_int n) = n"
  by (simp add: rne_def)

lemma rne_bounds: "\<lfloor>r\<rfloor> \<le> rne r" "rne r \<le> \<lfloor>r\<rfloor> + 1"
  by (auto simp: rne_def Let_def)

lemma rne_mono: "r \<le> s \<Longrightarrow> rne r \<le> rne s"
proof -
  assume "r \<le> s"
  then have "\<lfloor>r\<rfloor> \<le> \<lfloor>s\<rfloor>" by (rule floor_mono)
  show ?thesis
  proof (cases "\<lfloor>r\<rfloor> = \<lfloor>s\<rfloor>")
    case True
    then show ?thesis using \<open>r \<le> s\<close> by (auto simp: rne_def Let_def)
  next
    case False
    then have "\<lfloor>r\<rfloor> + 1 \<le> \<lfloor>s\<rfloor>" using \<open>\<lfloor>r\<rfloor> \<le> \<lfloor>s\<rfloor>\<close> by simp
    then show ?thesis using rne_bounds(2)[of r] rne_bounds(1)[of s] by linarith
  qed
qed

lemma rne_near: "\<bar>of_int (rne r) - r\<bar> \<le> 1/2"
proof -
  define f where "f = (of_int \<lfloor>r\<rfloor> :: rat)"
  have "f \<le> r" "r < f + 1" unfolding f_def by linarith+
  moreover have "of_int (rne r) = (if r - f < 1/2 \<or> r - f = 1/2 \<and> even \<lfloor>r\<rfloor> then f else f + 1)"
    by (simp add: rne_def Let_def f_def)
  ultimately show ?thesis by (auto simp: abs_if)
qed

lemma rne_minus: "rne (- r) = - rne r"
proof (cases "of_int \<lfloor>r\<rfloor> = r")
  case True
  then show ?thesis by (metis of_int_minus rne_of_int)
next
  case False
  have "of_int \<lfloor>r\<rfloor> < r" using False of_int_floor_le[of r] by linarith
  moreover have "r < of_int \<lfloor>r\<rfloor> + 1" by linarith
  ultimately have "\<lfloor>- r\<rfloor> = - \<lfloor>r\<rfloor> - 1" by (intro floor_unique) auto
  then show ?thesis by (auto simp: rne_def Let_def)
qed

definition rndr :: "rat \<Rightarrow> rat" where
  "rndr r = (if r = 0 then 0
     else let q = max (ilog2 \<bar>r\<bar> - 52) (-1074) in of_int (rne (r / pow2 q)) * pow2 q)"

lemma rndr_0 [simp]: "rndr 0 = 0" by (simp add: rndr_def)

lemma rndr_minus: "rndr (- r) = - rndr r"
  by (simp add: rndr_def Let_def rne_minus)

lemma rndr_int_pow2:
  assumes "r = of_int n * pow2 e" "-1074 \<le> e" "\<bar>n\<bar> < 2 ^ 53"
  shows "rndr r = r"
proof (cases "r = 0")
  case False
  define q where "q = max (ilog2 \<bar>r\<bar> - 52) (-1074)"
  have "\<bar>r\<bar> = of_int \<bar>n\<bar> * pow2 e" by (simp add: assms(1) abs_mult)
  also have "\<dots> < of_int (2 ^ 53) * pow2 e"
    using assms(3) by (intro mult_strict_right_mono) (simp_all only: of_int_less_iff pow2_pos)
  also have "\<dots> = pow2 (53 + e)" by (simp add: pow2_add) (simp add: pow2_def)
  finally have lt: "\<bar>r\<bar> < pow2 (53 + e)" .
  have "pow2 (ilog2 \<bar>r\<bar>) \<le> \<bar>r\<bar>" using ilog2_spec(1)[of "\<bar>r\<bar>"] False by simp
  with lt have "pow2 (ilog2 \<bar>r\<bar>) < pow2 (53 + e)" by (rule order_le_less_trans[rotated])
  then have qe: "q \<le> e" using assms(2) by (simp add: q_def)
  have "r / pow2 q = of_int n * pow2 (e - q)" by (simp add: assms(1) pow2_diff)
  also have "\<dots> = of_int (n * 2 ^ nat (e - q))" using qe by (simp add: pow2_def)
  finally have "of_int (rne (r / pow2 q)) = r / pow2 q" by (simp only: rne_of_int)
  then show ?thesis using False by (simp add: rndr_def Let_def flip: q_def)
qed simp

lemma rndr_pow2_mult: "-1074 \<le> e \<Longrightarrow> rndr (pow2 e) = pow2 e"
  using rndr_int_pow2[of "pow2 e" 1 e] by simp

lemma rndr_mono_pos:
  assumes "0 < r" "r \<le> s" shows "rndr r \<le> rndr s"
proof -
  define kr ks where "kr = ilog2 r" and "ks = ilog2 s"
  define qr qs where "qr = max (kr - 52) (-1074)" and "qs = max (ks - 52) (-1074)"
  have k: "kr \<le> ks" unfolding kr_def ks_def by (rule ilog2_mono[OF assms])
  have Er: "rndr r = of_int (rne (r / pow2 qr)) * pow2 qr"
    and Es: "rndr s = of_int (rne (s / pow2 qs)) * pow2 qs"
    using assms by (auto simp: rndr_def Let_def kr_def ks_def qr_def qs_def)
  show ?thesis
  proof (cases "qr = qs")
    case True
    have "rne (r / pow2 qs) \<le> rne (s / pow2 qs)"
      using assms by (intro rne_mono divide_right_mono) auto
    then show ?thesis by (simp add: Er Es True mult_right_mono)
  next
    case False
    then have lt: "qr \<le> ks" "qs \<le> ks" "kr < ks" using k by (auto simp: qr_def qs_def max_def split: if_splits)
    have m: "r \<le> pow2 ks" "pow2 ks \<le> s"
    proof -
      have a: "pow2 (kr + 1) \<le> pow2 ks" using lt by simp
      have b: "r < pow2 (kr + 1)" unfolding kr_def by (rule ilog2_spec(2)[OF assms(1)])
      show "r \<le> pow2 ks" using a b by linarith
      show "pow2 ks \<le> s" using ilog2_spec(1)[of s] assms by (simp add: ks_def)
    qed
    have i: "pow2 ks / pow2 q = of_int (2 ^ nat (ks - q))" if "q \<le> ks" for q
      using that by (simp flip: pow2_diff) (simp add: pow2_def)
    have "rne (r / pow2 qr) \<le> rne (pow2 ks / pow2 qr)"
      using m by (intro rne_mono divide_right_mono) auto
    then have "of_int (rne (r / pow2 qr)) \<le> pow2 ks / pow2 qr"
      using i[OF lt(1)] by (metis of_int_le_iff rne_of_int)
    then have a: "rndr r \<le> pow2 ks" by (simp add: Er le_divide_eq)
    have "rne (pow2 ks / pow2 qs) \<le> rne (s / pow2 qs)"
      using m by (intro rne_mono divide_right_mono) auto
    then have "pow2 ks / pow2 qs \<le> of_int (rne (s / pow2 qs))"
      using i[OF lt(2)] by (metis of_int_le_iff rne_of_int)
    then have "pow2 ks \<le> rndr s" by (simp add: Es divide_le_eq)
    with a show ?thesis by linarith
  qed
qed

lemma rndr_nonneg: "0 \<le> r \<Longrightarrow> 0 \<le> rndr r"
proof -
  assume "0 \<le> r"
  then have "0 \<le> rne (r / pow2 q)" for q
    using rne_mono[of 0 "r / pow2 q"] rne_of_int[of 0] by simp
  then show ?thesis by (simp add: rndr_def Let_def)
qed

lemma rndr_mono: "r \<le> s \<Longrightarrow> rndr r \<le> rndr s"
proof -
  assume rs: "r \<le> s"
  consider "0 < r" | "r \<le> 0" "0 \<le> s" | "s < 0" by linarith
  then show ?thesis
  proof cases
    case 1 then show ?thesis using rs by (rule rndr_mono_pos)
  next
    case 2
    then have "0 \<le> rndr s" "0 \<le> rndr (- r)" by (auto intro: rndr_nonneg)
    then show ?thesis by (simp add: rndr_minus)
  next
    case 3
    then have "rndr (- s) \<le> rndr (- r)" using rs by (intro rndr_mono_pos) auto
    then show ?thesis by (simp add: rndr_minus)
  qed
qed


datatype f64 = FNaN | FInf bool | FNegZero | FFin rat

fun fval :: "f64 \<Rightarrow> rat" where
  "fval (FFin r) = r"
| "fval _ = 0"

fun is_nan :: "f64 \<Rightarrow> bool" where
  "is_nan FNaN = True"
| "is_nan _ = False"

fun is_finite :: "f64 \<Rightarrow> bool" where
  "is_finite (FFin _) = True"
| "is_finite FNegZero = True"
| "is_finite _ = False"

fun fsign :: "f64 \<Rightarrow> bool" where
  "fsign (FInf b) = b"
| "fsign FNegZero = True"
| "fsign (FFin r) = (r < 0)"
| "fsign FNaN = False"

definition rnd :: "bool \<Rightarrow> rat \<Rightarrow> f64" where
  "rnd neg r = (let v = rndr r in
     if v = 0 then (if r < 0 \<or> r = 0 \<and> neg then FNegZero else FFin 0)
     else if 1024 \<le> ilog2 \<bar>v\<bar> then FInf (r < 0)
     else FFin v)"

definition flit :: "rat \<Rightarrow> f64" where
  "flit r = rnd False r"

definition f_of_int :: "int \<Rightarrow> f64" where
  "f_of_int n = rnd False (of_int n)"

fun fneg :: "f64 \<Rightarrow> f64" where
  "fneg (FFin r) = (if r = 0 then FNegZero else FFin (- r))"
| "fneg FNegZero = FFin 0"
| "fneg (FInf b) = FInf (\<not> b)"
| "fneg FNaN = FNaN"

fun fabs :: "f64 \<Rightarrow> f64" where
  "fabs (FFin r) = FFin \<bar>r\<bar>"
| "fabs FNegZero = FFin 0"
| "fabs (FInf b) = FInf False"
| "fabs FNaN = FNaN"

fun fadd :: "f64 \<Rightarrow> f64 \<Rightarrow> f64" where
  "fadd FNaN _ = FNaN"
| "fadd _ FNaN = FNaN"
| "fadd (FInf a) (FInf b) = (if a = b then FInf a else FNaN)"
| "fadd (FInf a) _ = FInf a"
| "fadd _ (FInf b) = FInf b"
| "fadd FNegZero FNegZero = FNegZero"
| "fadd x y = rnd False (fval x + fval y)"

definition fsub :: "f64 \<Rightarrow> f64 \<Rightarrow> f64" where
  "fsub x y = fadd x (fneg y)"

fun fmul :: "f64 \<Rightarrow> f64 \<Rightarrow> f64" where
  "fmul FNaN _ = FNaN"
| "fmul _ FNaN = FNaN"
| "fmul (FInf a) (FInf b) = FInf (a \<noteq> b)"
| "fmul (FInf a) y = (if fval y = 0 then FNaN else FInf (a \<noteq> fsign y))"
| "fmul x (FInf b) = (if fval x = 0 then FNaN else FInf (b \<noteq> fsign x))"
| "fmul x y = rnd (fsign x \<noteq> fsign y) (fval x * fval y)"

fun fdiv :: "f64 \<Rightarrow> f64 \<Rightarrow> f64" where
  "fdiv FNaN _ = FNaN"
| "fdiv _ FNaN = FNaN"
| "fdiv (FInf a) (FInf b) = FNaN"
| "fdiv (FInf a) y = FInf (a \<noteq> fsign y)"
| "fdiv x (FInf b) = (if fsign x \<noteq> b then FNegZero else FFin 0)"
| "fdiv x y = (if fval y = 0
     then (if fval x = 0 then FNaN else FInf (fsign x \<noteq> fsign y))
     else rnd (fsign x \<noteq> fsign y) (fval x / fval y))"

fun fcls :: "f64 \<Rightarrow> int" where
  "fcls (FInf b) = (if b then -1 else 1)"
| "fcls FNaN = 2"
| "fcls _ = 0"

definition fle :: "f64 \<Rightarrow> f64 \<Rightarrow> bool" where
  "fle x y \<longleftrightarrow> \<not> is_nan x \<and> \<not> is_nan y \<and>
     (fcls x < fcls y \<or> fcls x = fcls y \<and> fval x \<le> fval y)"

definition flt :: "f64 \<Rightarrow> f64 \<Rightarrow> bool" where
  "flt x y \<longleftrightarrow> \<not> is_nan x \<and> \<not> is_nan y \<and>
     (fcls x < fcls y \<or> fcls x = fcls y \<and> fval x < fval y)"

definition feq :: "f64 \<Rightarrow> f64 \<Rightarrow> bool" where
  "feq x y \<longleftrightarrow> fle x y \<and> fle y x"

definition fmax :: "f64 \<Rightarrow> f64 \<Rightarrow> f64" where
  "fmax x y = (if is_nan x then y else if is_nan y then x else if flt x y then y else x)"

definition fmin :: "f64 \<Rightarrow> f64 \<Rightarrow> f64" where
  "fmin x y = (if is_nan x then y else if is_nan y then x else if flt y x then y else x)"

definition fclamp :: "f64 \<Rightarrow> f64 \<Rightarrow> f64 \<Rightarrow> f64 option" where
  "fclamp x lo hi = (if \<not> fle lo hi then None
     else Some (if flt x lo then lo else if flt hi x then hi else x))"

definition fcopysign :: "f64 \<Rightarrow> f64 \<Rightarrow> f64" where
  "fcopysign x s = (if fsign s then fneg (fabs x) else fabs x)"

instantiation f64 :: linorder
begin

definition less_eq_f64 :: "f64 \<Rightarrow> f64 \<Rightarrow> bool" where
  "x \<le> y \<longleftrightarrow> fcls x < fcls y \<or> fcls x = fcls y \<and>
     (fval x < fval y \<or> fval x = fval y \<and> (x = FNegZero \<or> y \<noteq> FNegZero))"

definition less_f64 :: "f64 \<Rightarrow> f64 \<Rightarrow> bool" where
  "(x :: f64) < y \<longleftrightarrow> x \<le> y \<and> \<not> y \<le> x"

instance
proof
  fix x y z :: f64
  show "x < y \<longleftrightarrow> x \<le> y \<and> \<not> y \<le> x" by (rule less_f64_def)
  show "x \<le> x" by (cases x) (auto simp: less_eq_f64_def)
  show "x \<le> y \<Longrightarrow> y \<le> z \<Longrightarrow> x \<le> z"
    by (cases x; cases y; cases z) (auto simp: less_eq_f64_def split: if_splits)
  show "x \<le> y \<Longrightarrow> y \<le> x \<Longrightarrow> x = y"
    by (cases x; cases y) (auto simp: less_eq_f64_def split: if_splits)
  show "x \<le> y \<or> y \<le> x"
    by (cases x; cases y) (auto simp: less_eq_f64_def split: if_splits)
qed

end


fun isqrt :: "int \<Rightarrow> int" where
  "isqrt n = (if n \<le> 0 then 0
     else let r = 2 * isqrt (n div 4) in if (r + 1) * (r + 1) \<le> n then r + 1 else r)"

declare isqrt.simps [simp del]

definition sqrtr :: "rat \<Rightarrow> rat" where
  "sqrtr r = (let q = ilog2 r div 2 - 52; s = r / pow2 (2 * q); n = isqrt \<lfloor>s\<rfloor>;
     h = of_int n + 1/2
   in (if h * h < s \<or> h * h = s \<and> odd n then of_int (n + 1) else of_int n) * pow2 q)"

fun fsqrt :: "f64 \<Rightarrow> f64" where
  "fsqrt (FFin r) = (if r < 0 then FNaN else if r = 0 then FFin 0 else FFin (sqrtr r))"
| "fsqrt FNegZero = FNegZero"
| "fsqrt (FInf b) = (if b then FNaN else FInf False)"
| "fsqrt FNaN = FNaN"

definition ftrunc :: "rat \<Rightarrow> int" where
  "ftrunc r = (if 0 \<le> r then \<lfloor>r\<rfloor> else \<lceil>r\<rceil>)"

fun f_to_int :: "int \<Rightarrow> int \<Rightarrow> f64 \<Rightarrow> int" where
  "f_to_int lo hi FNaN = 0"
| "f_to_int lo hi (FInf b) = (if b then lo else hi)"
| "f_to_int lo hi x = max lo (min hi (ftrunc (fval x)))"

fun fround :: "f64 \<Rightarrow> f64" where
  "fround (FFin r) = (let n = ftrunc (\<bar>r\<bar> + 1/2) in
     if n = 0 then (if r < 0 then FNegZero else FFin 0)
     else FFin (if r < 0 then - of_int n else of_int n))"
| "fround x = x"

fun ffloor :: "f64 \<Rightarrow> f64" where
  "ffloor (FFin r) = FFin (of_int \<lfloor>r\<rfloor>)"
| "ffloor x = x"


lemma isqrt_spec: "0 \<le> n \<Longrightarrow> 0 \<le> isqrt n \<and> isqrt n * isqrt n \<le> n \<and> n < (isqrt n + 1) * (isqrt n + 1)"
proof (induction n rule: isqrt.induct)
  case (1 n)
  show ?case
  proof (cases "n = 0")
    case True
    then show ?thesis by (simp add: isqrt.simps)
  next
    case False
    define s where "s = isqrt (n div 4)"
    have IH: "0 \<le> s" "s * s \<le> n div 4" "n div 4 < (s + 1) * (s + 1)"
      using "1.IH" "1.prems" False by (auto simp: s_def)
    have a: "4 * (s * s) \<le> n" using IH(2) by linarith
    have b: "n < 4 * ((s + 1) * (s + 1))" using IH(3) by linarith
    show ?thesis
      using "1.prems" False IH(1) a b
      by (subst (1 2 3 4 5) isqrt.simps) (auto simp: Let_def algebra_simps simp flip: s_def)
  qed
qed

lemma fval_fcls_inj: "fcls x = fcls y \<Longrightarrow> fval x = fval y \<Longrightarrow> fcls x \<noteq> 0 \<Longrightarrow> x = y"
  by (cases x; cases y) (auto split: if_splits)

lemma fle_refl [simp]: "fle x x \<longleftrightarrow> \<not> is_nan x"
  by (auto simp: fle_def)

lemma fle_trans [trans]: "fle x y \<Longrightarrow> fle y z \<Longrightarrow> fle x z"
  by (auto simp: fle_def)

lemma fle_total: "\<not> is_nan x \<Longrightarrow> \<not> is_nan y \<Longrightarrow> fle x y \<or> fle y x"
  by (auto simp: fle_def)

lemma flt_iff: "flt x y \<longleftrightarrow> fle x y \<and> \<not> fle y x"
  by (auto simp: fle_def flt_def)

lemma flt_imp_fle: "flt x y \<Longrightarrow> fle x y"
  by (simp add: flt_iff)

lemma not_flt: "\<not> is_nan x \<Longrightarrow> \<not> is_nan y \<Longrightarrow> \<not> flt x y \<longleftrightarrow> fle y x"
  by (auto simp: fle_def flt_def)

lemma flt_not_nan: "flt x y \<Longrightarrow> \<not> is_nan x \<and> \<not> is_nan y"
  by (simp add: flt_def)

lemma fle_not_nan: "fle x y \<Longrightarrow> \<not> is_nan x \<and> \<not> is_nan y"
  by (simp add: fle_def)

lemma fle_imp_le: "fle x y \<Longrightarrow> \<not> (x = FFin 0 \<and> y = FNegZero) \<Longrightarrow> x \<le> y"
  by (cases x; cases y) (auto simp: fle_def less_eq_f64_def split: if_splits)

lemma le_imp_fle: "x \<le> y \<Longrightarrow> \<not> is_nan y \<Longrightarrow> fle x y"
  by (cases x; cases y) (auto simp: fle_def less_eq_f64_def split: if_splits)

lemma fle_FFin [simp]: "fle (FFin a) (FFin b) \<longleftrightarrow> a \<le> b"
  by (simp add: fle_def)

lemma flt_FFin [simp]: "flt (FFin a) (FFin b) \<longleftrightarrow> a < b"
  by (simp add: flt_def)

lemma fle_finite: "is_finite x \<Longrightarrow> is_finite y \<Longrightarrow> fle x y \<longleftrightarrow> fval x \<le> fval y"
  by (cases x; cases y) (auto simp: fle_def)

lemma flt_finite: "is_finite x \<Longrightarrow> is_finite y \<Longrightarrow> flt x y \<longleftrightarrow> fval x < fval y"
  by (cases x; cases y) (auto simp: flt_def)

lemma finite_not_nan [simp]: "is_finite x \<Longrightarrow> \<not> is_nan x"
  by (cases x) auto

lemma rnd_not_nan [simp]: "\<not> is_nan (rnd b r)"
  by (simp add: rnd_def Let_def)

lemma ilog2_ge_iff: "0 < v \<Longrightarrow> k \<le> ilog2 v \<longleftrightarrow> pow2 k \<le> v"
proof
  assume v: "0 < v"
  { assume "k \<le> ilog2 v"
    then have "pow2 k \<le> pow2 (ilog2 v)" by simp
    also note ilog2_spec(1)[OF v]
    finally show "pow2 k \<le> v" . }
  { assume "pow2 k \<le> v"
    also note ilog2_spec(2)[OF v]
    finally show "k \<le> ilog2 v" by simp }
qed

lemma rnd_alt: "rnd neg r = (let v = rndr r in
     if v = 0 then (if r < 0 \<or> r = 0 \<and> neg then FNegZero else FFin 0)
     else if pow2 1024 \<le> \<bar>v\<bar> then FInf (r < 0) else FFin v)"
  by (simp add: rnd_def Let_def ilog2_ge_iff)

lemma rndr_sign: "0 \<le> r \<Longrightarrow> 0 \<le> rndr r" "r \<le> 0 \<Longrightarrow> rndr r \<le> 0"
  using rndr_nonneg[of r] rndr_nonneg[of "- r"] by (auto simp: rndr_minus)

lemma fcls_rnd: "fcls (rnd b r) = (if pow2 1024 \<le> rndr r then 1 else if rndr r \<le> - pow2 1024 then -1 else 0)"
proof -
  define P where "P = pow2 1024"
  have "0 < P" by (simp add: P_def)
  then show ?thesis
    using rndr_sign[of r] unfolding rnd_alt Let_def P_def[symmetric]
    by (cases "r < 0") (auto simp: abs_if not_less)
qed

lemma fval_rnd: "fcls (rnd b r) = 0 \<Longrightarrow> fval (rnd b r) = rndr r"
  by (auto simp: rnd_alt Let_def split: if_splits)

lemma fval_rnd_inf: "fcls (rnd b r) \<noteq> 0 \<Longrightarrow> fval (rnd b r) = 0"
  by (auto simp: rnd_alt Let_def split: if_splits)

lemma fle_rnd: "r \<le> s \<Longrightarrow> fle (rnd b r) (rnd c s)"
proof -
  assume "r \<le> s"
  then have m: "rndr r \<le> rndr s" by (rule rndr_mono)
  have p: "0 < pow2 1024" by simp
  show ?thesis
  proof (cases "fcls (rnd b r) = fcls (rnd c s)")
    case True
    then show ?thesis using m fval_rnd[of b r] fval_rnd[of c s] fval_rnd_inf[of b r] fval_rnd_inf[of c s]
      by (cases "fcls (rnd c s) = 0") (auto simp: fle_def)
  next
    case False
    then have "fcls (rnd b r) < fcls (rnd c s)" using m p unfolding fcls_rnd by (auto split: if_splits)
    then show ?thesis by (simp add: fle_def)
  qed
qed

lemma rnd_exact:
  assumes "rndr r = r" "\<bar>r\<bar> < pow2 1024"
  shows "rnd b r = (if r = 0 then (if b then FNegZero else FFin 0) else FFin r)"
  using assms by (simp add: rnd_alt Let_def)

lemma rndr_int: "\<bar>n\<bar> < 2 ^ 53 \<Longrightarrow> rndr (of_int n) = of_int n"
  using rndr_int_pow2[of "of_int n" n 0] by simp

lemma fmin_le_right: "\<not> is_nan y \<Longrightarrow> fle (fmin x y) y"
  by (auto simp: fmin_def not_flt)

lemma fmin_le_left: "\<not> is_nan x \<Longrightarrow> fle (fmin x y) x"
  by (auto simp: fmin_def flt_iff)

lemma fmin_greatest: "fle z x \<Longrightarrow> fle z y \<Longrightarrow> fle z (fmin x y)"
  by (auto simp: fmin_def)

lemma fmin_not_nan: "is_nan (fmin x y) \<longleftrightarrow> is_nan x \<and> is_nan y"
  by (auto simp: fmin_def)

lemma fmax_ge_right: "\<not> is_nan y \<Longrightarrow> fle y (fmax x y)"
  by (auto simp: fmax_def not_flt)

lemma fmax_ge_left: "\<not> is_nan x \<Longrightarrow> fle x (fmax x y)"
  by (auto simp: fmax_def flt_iff)

lemma fmax_least: "fle x z \<Longrightarrow> fle y z \<Longrightarrow> fle (fmax x y) z"
  by (auto simp: fmax_def)

lemma fmax_not_nan: "is_nan (fmax x y) \<longleftrightarrow> is_nan x \<and> is_nan y"
  by (auto simp: fmax_def)

lemma fclamp_bounds:
  "fclamp x lo hi = Some y \<Longrightarrow> \<not> is_nan x \<Longrightarrow> fle lo y \<and> fle y hi"
  by (auto simp: fclamp_def not_flt dest: fle_not_nan split: if_splits)

lemma fclamp_some: "fle lo hi \<Longrightarrow> \<exists>y. fclamp x lo hi = Some y"
  by (simp add: fclamp_def)

lemma fclamp_id: "fle lo x \<Longrightarrow> fle x hi \<Longrightarrow> fclamp x lo hi = Some x"
  by (auto simp: fclamp_def flt_iff dest: fle_trans)

lemma is_nan_fabs [simp]: "is_nan (fabs x) = is_nan x"
  by (cases x) auto

lemma is_nan_fneg [simp]: "is_nan (fneg x) = is_nan x"
  by (cases x) auto

lemma is_nan_fcopysign [simp]: "is_nan (fcopysign x s) = is_nan x"
  by (simp add: fcopysign_def)

lemma fabs_nonneg: "\<not> is_nan x \<Longrightarrow> fle (FFin 0) (fabs x)"
  by (cases x) (auto simp: fle_def)

lemma fadd_not_nan: "is_finite x \<Longrightarrow> is_finite y \<Longrightarrow> \<not> is_nan (fadd x y)"
  by (cases x; cases y) auto

lemma fsub_not_nan: "is_finite x \<Longrightarrow> is_finite y \<Longrightarrow> \<not> is_nan (fsub x y)"
  by (cases x; cases y) (auto simp: fsub_def)

lemma fmul_not_nan: "is_finite x \<Longrightarrow> is_finite y \<Longrightarrow> \<not> is_nan (fmul x y)"
  by (cases x; cases y) auto

lemma fadd_finite: "is_finite x \<Longrightarrow> is_finite y \<Longrightarrow>
  fadd x y = (if x = FNegZero \<and> y = FNegZero then FNegZero else rnd False (fval x + fval y))"
  by (cases x; cases y) auto

lemma fsub_finite: "is_finite x \<Longrightarrow> is_finite y \<Longrightarrow>
  fsub x y = (if x = FNegZero \<and> y = FFin 0 then FNegZero else rnd False (fval x - fval y))"
  by (cases x; cases y) (auto simp: fsub_def)

lemma fmul_finite: "is_finite x \<Longrightarrow> is_finite y \<Longrightarrow>
  fmul x y = rnd (fsign x \<noteq> fsign y) (fval x * fval y)"
  by (cases x; cases y) auto

lemma fdiv_finite: "is_finite x \<Longrightarrow> is_finite y \<Longrightarrow> fval y \<noteq> 0 \<Longrightarrow>
  fdiv x y = rnd (fsign x \<noteq> fsign y) (fval x / fval y)"
  by (cases x; cases y) auto

lemma fle_rnd_0: "0 \<le> r \<Longrightarrow> fle (FFin 0) (rnd b r)"
  using fle_rnd[of 0 r False b] by (simp add: rnd_alt)

lemma rnd_0: "rnd b 0 = (if b then FNegZero else FFin 0)"
  by (simp add: rnd_alt)

lemma nonneg_cases:
  assumes "fle (FFin 0) x"
  obtains "x = FInf False" | "is_finite x" "0 \<le> fval x"
  using assms by (cases x) (auto simp: fle_def split: if_splits)

lemma fadd_nonneg: "fle (FFin 0) x \<Longrightarrow> fle (FFin 0) y \<Longrightarrow> fle (FFin 0) (fadd x y)"
proof (elim nonneg_cases)
  assume f: "is_finite x" "0 \<le> fval x" "is_finite y" "0 \<le> fval y"
  then show ?thesis by (auto simp: fadd_finite fle_rnd_0) (simp add: fle_def)
qed (cases x; cases y; auto simp: fle_def)+

lemma fadd_nonneg_le: "fle (FFin 0) y \<Longrightarrow> is_finite x \<Longrightarrow> rndr (fval x) = fval x \<Longrightarrow> \<bar>fval x\<bar> < pow2 1024 \<Longrightarrow> fle x (fadd x y)"
proof (erule nonneg_cases)
  assume x: "is_finite x" "rndr (fval x) = fval x" "\<bar>fval x\<bar> < pow2 1024" and y: "is_finite y" "0 \<le> fval y"
  show ?thesis
  proof (cases "x = FNegZero \<and> y = FNegZero")
    case True then show ?thesis by (simp add: fle_def)
  next
    case False
    have "fle (rnd False (fval x)) (rnd False (fval x + fval y))" using y by (intro fle_rnd) simp
    moreover have "fle x (rnd False (fval x))" using x by (cases x) (auto simp: rnd_exact fle_def)
    ultimately show ?thesis using False x y by (simp add: fadd_finite) (metis fle_trans)
  qed
next
  assume "is_finite x" "y = FInf False"
  then show ?thesis by (cases x) (auto simp: fle_def)
qed

lemma fmul_nonneg: "fle (FFin 0) x \<Longrightarrow> fle (FFin 0) y \<Longrightarrow> \<not> is_nan (fmul x y) \<Longrightarrow> fle (FFin 0) (fmul x y)"
proof (elim nonneg_cases)
  assume f: "is_finite x" "0 \<le> fval x" "is_finite y" "0 \<le> fval y"
  then show ?thesis by (simp add: fmul_finite fle_rnd_0)
qed (cases x; cases y; auto simp: fle_def not_less split: if_splits)+

lemma fadd_mono_right:
  assumes "fle y z" "is_finite x" "is_finite y" "is_finite z"
  shows "fle (fadd x y) (fadd x z)"
proof -
  have "fval y \<le> fval z" using assms by (simp add: fle_finite)
  then have "fle (rnd False (fval x + fval y)) (rnd False (fval x + fval z))" by (intro fle_rnd) simp
  moreover have "fle a b" if "fcls a = fcls c" "fval a = fval c" "fle c d" "fcls d = fcls b" "fval d = fval b"
      "\<not> is_nan a" "\<not> is_nan b" for a b c d
    using that by (auto simp: fle_def)
  ultimately show ?thesis using assms by (auto simp: fadd_finite rnd_0 fle_def)
qed

lemma fmul_mono_right:
  assumes "fle y z" "is_finite x" "0 \<le> fval x" "is_finite y" "is_finite z"
  shows "fle (fmul x y) (fmul x z)"
  using assms by (simp add: fmul_finite fle_finite mult_left_mono fle_rnd)


lemma ilog2_scale: "0 < r \<Longrightarrow> ilog2 (r * pow2 k) = ilog2 r + k"
proof -
  assume r: "0 < r"
  have "r * pow2 k < pow2 (ilog2 r + 1) * pow2 k"
    using ilog2_spec(2)[OF r] by (rule mult_strict_right_mono) simp
  then have "r * pow2 k < pow2 (ilog2 r + k + 1)" by (simp add: algebra_simps flip: pow2_add)
  then show ?thesis
    using ilog2_spec(1)[OF r] by (intro ilog2_unique) (simp_all add: pow2_add mult_right_mono)
qed

lemma rndr_scale:
  assumes "-1022 \<le> ilog2 \<bar>r\<bar>" "-1022 \<le> ilog2 \<bar>r\<bar> + k"
  shows "rndr (r * pow2 k) = rndr r * pow2 k"
proof (cases "r = 0")
  case False
  have "\<bar>r * pow2 k\<bar> = \<bar>r\<bar> * pow2 k" by (simp add: abs_mult)
  then have i: "ilog2 \<bar>r * pow2 k\<bar> = ilog2 \<bar>r\<bar> + k" using False by (simp add: ilog2_scale)
  have q: "max (ilog2 \<bar>r\<bar> + k - 52) (-1074) = max (ilog2 \<bar>r\<bar> - 52) (-1074) + k"
    using assms by simp
  have d: "r * pow2 k / pow2 (q + k) = r / pow2 q" for q by (simp add: pow2_add)
  show ?thesis using False unfolding rndr_def i q Let_def d by (simp add: pow2_add)
qed simp

lemma rndr_mantissa:
  "\<exists>m q. rndr r = of_int m * pow2 q \<and> -1074 \<le> q \<and> \<bar>m\<bar> \<le> 2 ^ 53"
proof (cases "r = 0")
  case True then show ?thesis by (intro exI[of _ 0]) simp
next
  case False
  define q where "q = max (ilog2 \<bar>r\<bar> - 52) (-1074)"
  have "\<bar>r\<bar> < pow2 (ilog2 \<bar>r\<bar> + 1)" using False by (simp add: ilog2_spec)
  also have "\<dots> \<le> pow2 (53 + q)" by (simp add: q_def)
  also have "\<dots> = of_int (2 ^ 53) * pow2 q" by (simp add: pow2_add) (simp add: pow2_def)
  finally have "\<bar>r\<bar> / pow2 q \<le> of_int (2 ^ 53)" by (simp add: divide_le_eq)
  then have b: "r / pow2 q \<le> of_int (2 ^ 53)" "- of_int (2 ^ 53) \<le> r / pow2 q"
    by (simp_all add: abs_le_iff flip: abs_divide)
       (metis (no_types, opaque_lifting) abs_divide abs_le_iff abs_of_pos pow2_pos minus_le_iff)+
  have "rne (r / pow2 q) \<le> 2 ^ 53" "- (2 ^ 53) \<le> rne (r / pow2 q)"
    using rne_mono[OF b(1)] rne_mono[OF b(2)] unfolding rne_minus rne_of_int by blast+
  then show ?thesis using False
    by (intro exI[of _ "rne (r / pow2 q)"] exI[of _ q]) (simp add: rndr_def Let_def abs_le_iff flip: q_def, simp add: q_def)
qed

lemma rndr_idem [simp]: "rndr (rndr r) = rndr r"
proof -
  obtain m q where m: "rndr r = of_int m * pow2 q" "-1074 \<le> q" "\<bar>m\<bar> \<le> 2 ^ 53"
    using rndr_mantissa by blast
  show ?thesis
  proof (cases "\<bar>m\<bar> = 2 ^ 53")
    case False
    then show ?thesis using m by (intro rndr_int_pow2[of _ m q]) auto
  next
    case True
    then have "m = 2 ^ 52 * 2 \<or> m = - (2 ^ 52) * 2" by (simp add: abs_if split: if_splits)
    then obtain n where n: "m = n * 2" "\<bar>n\<bar> < 2 ^ 53" by fastforce
    then have "rndr r = of_int n * pow2 (q + 1)" by (simp add: m pow2_add)
    then show ?thesis using n m(2) by (intro rndr_int_pow2[of _ n "q + 1"]) auto
  qed
qed


lemma rndr_abs: "rndr \<bar>r\<bar> = \<bar>rndr r\<bar>"
  using rndr_sign[of r] by (cases "0 \<le> r") (auto simp: rndr_minus abs_if not_le)

lemma rndr_ge_pow2: "-1074 \<le> k \<Longrightarrow> pow2 k \<le> r \<Longrightarrow> pow2 k \<le> rndr r"
  using rndr_mono[of "pow2 k" r] by (simp add: rndr_pow2_mult)

lemma rndr_le_pow2: "-1074 \<le> k \<Longrightarrow> r \<le> pow2 k \<Longrightarrow> rndr r \<le> pow2 k"
  using rndr_mono[of r "pow2 k"] by (simp add: rndr_pow2_mult)

lemma rndr_int_ge1: "n \<noteq> 0 \<Longrightarrow> 1 \<le> \<bar>rndr (of_int n)\<bar>"
proof -
  assume "n \<noteq> 0"
  then have "1 \<le> \<bar>n\<bar>" by simp
  then have "(of_int 1 :: rat) \<le> of_int \<bar>n\<bar>" by (simp only: of_int_le_iff)
  then show ?thesis using rndr_ge_pow2[of 0 "\<bar>of_int n\<bar>"] by (simp add: rndr_abs)
qed

lemma ilog2_int_nonneg: "n \<noteq> 0 \<Longrightarrow> 0 \<le> ilog2 \<bar>of_int n\<bar>"
proof -
  assume n: "n \<noteq> 0"
  then have "1 \<le> \<bar>n\<bar>" by simp
  then have "(of_int 1 :: rat) \<le> of_int \<bar>n\<bar>" by (simp only: of_int_le_iff)
  then show ?thesis using n by (subst ilog2_ge_iff) auto
qed

lemma rnd_cong:
  assumes "rndr r = rndr s" "rndr r \<noteq> 0" shows "rnd b r = rnd c s"
proof -
  have "r < 0 \<longleftrightarrow> s < 0" using assms rndr_sign[of r] rndr_sign[of s] by linarith
  then show ?thesis using assms by (simp add: rnd_def Let_def)
qed

lemma rnd_finite: "rndr r \<noteq> 0 \<Longrightarrow> \<bar>r\<bar> \<le> pow2 1023 \<Longrightarrow> rnd b r = FFin (rndr r)"
proof -
  assume a: "rndr r \<noteq> 0" "\<bar>r\<bar> \<le> pow2 1023"
  define P where "P = pow2 1024"
  have "\<bar>rndr r\<bar> \<le> pow2 1023" using rndr_le_pow2[of 1023 "\<bar>r\<bar>"] a by (simp add: rndr_abs)
  also have "\<dots> < P" unfolding P_def by simp
  finally show ?thesis using a(1) unfolding rnd_alt P_def[symmetric] Let_def by simp
qed

lemma fdiv_int_pow2:
  assumes "\<bar>n\<bar> \<le> 2 ^ 64" "0 \<le> k" "k \<le> 900"
  shows "fdiv (f_of_int n) (FFin (pow2 k)) = flit (of_int n / pow2 k)"
proof (cases "n = 0")
  case True
  then show ?thesis by (simp add: f_of_int_def flit_def rnd_0)
next
  case False
  have "\<bar>of_int n\<bar> \<le> (of_int (2 ^ 64) :: rat)" using assms(1) by (simp only: of_int_le_iff flip: of_int_abs)
  also have "\<dots> \<le> pow2 1023" using pow2_le_iff[of 64 1023] by (simp add: pow2_def[of 64] del: pow2_le_iff)
  finally have v: "f_of_int n = FFin (rndr (of_int n))"
    unfolding f_of_int_def using rndr_int_ge1[OF False] by (intro rnd_finite) auto
  define w where "w = (of_int n :: rat)"
  have w0: "rndr w \<noteq> 0" "0 \<le> ilog2 \<bar>w\<bar>" "0 \<le> ilog2 \<bar>rndr w\<bar>"
  proof -
    show "rndr w \<noteq> 0" "0 \<le> ilog2 \<bar>w\<bar>"
      using rndr_int_ge1[OF False] ilog2_int_nonneg[OF False] by (auto simp: w_def)
    then show "0 \<le> ilog2 \<bar>rndr w\<bar>" using rndr_int_ge1[OF False] by (subst ilog2_ge_iff) (auto simp: w_def)
  qed
  have e: "x / pow2 k = x * pow2 (- k)" for x by (simp add: pow2_diff[of 0 k, simplified])
  have s: "rndr (rndr w * pow2 (- k)) = rndr w * pow2 (- k)" "rndr (w * pow2 (- k)) = rndr w * pow2 (- k)"
    using w0 assms by (simp_all add: rndr_scale)
  have "fdiv (f_of_int n) (FFin (pow2 k)) = rnd (rndr w < 0) (rndr w * pow2 (- k))"
    using w0 by (simp add: v flip: w_def e)
  also have "\<dots> = rnd False (w * pow2 (- k))" using w0 s by (intro rnd_cong) auto
  finally show ?thesis by (simp add: flit_def w_def e)
qed


lemma flit_exact:
  assumes "\<bar>n\<bar> < 2 ^ 53" "-1074 \<le> e" "e \<le> 900"
  shows "flit (of_int n * pow2 e) = FFin (of_int n * pow2 e)"
proof -
  define r where "r = of_int n * pow2 e"
  have "\<bar>n\<bar> \<le> 2 ^ 53" using assms(1) by simp
  then have "of_int \<bar>n\<bar> \<le> (of_int (2 ^ 53) :: rat)" by (simp only: of_int_le_iff)
  then have "\<bar>r\<bar> \<le> of_int (2 ^ 53) * pow2 e"
    unfolding r_def by (simp add: abs_mult del: of_int_power)
  also have "\<dots> = pow2 (53 + e)" by (simp add: pow2_add) (simp add: pow2_def)
  also have "\<dots> \<le> pow2 1023" using assms by simp
  finally have b: "\<bar>r\<bar> \<le> pow2 1023" .
  have x: "rndr r = r" by (rule rndr_int_pow2[OF r_def]) (use assms in auto)
  show ?thesis
  proof (cases "r = 0")
    case True then show ?thesis by (simp add: flit_def rnd_0 flip: r_def)
  next
    case False
    then show ?thesis using rnd_finite[of r False] x b by (simp add: flit_def flip: r_def)
  qed
qed


lemma fle_inf_right: "\<not> is_nan x \<Longrightarrow> fle x (FInf False)"
  by (cases x) (auto simp: fle_def)

lemma fle_inf_left: "\<not> is_nan x \<Longrightarrow> fle (FInf True) x"
  by (cases x) (auto simp: fle_def)

lemma fadd_mono:
  assumes "fle y z" "is_finite x" shows "fle (fadd x y) (fadd x z)"
proof (cases "is_finite y \<and> is_finite z")
  case True
  then show ?thesis using assms by (simp add: fadd_mono_right)
next
  case False
  have n: "\<not> is_nan y" "\<not> is_nan z" using assms(1) fle_not_nan by auto
  have m: "\<not> is_nan (fadd x u)" if "\<not> is_nan u" for u using that assms(2) by (cases x; cases u) auto
  consider "z = FInf False" | "y = FInf True"
    using False assms(1) n by (cases y; cases z) (auto simp: fle_def split: if_splits)
  then show ?thesis
  proof cases
    case 1
    then have "fadd x z = FInf False" using assms(2) by (cases x) auto
    then show ?thesis using m[OF n(1)] fle_inf_right by simp
  next
    case 2
    then have "fadd x y = FInf True" using assms(2) by (cases x) auto
    then show ?thesis using m[OF n(2)] fle_inf_left by simp
  qed
qed

lemma fmul_mono:
  assumes "fle y z" "is_finite x" "0 < fval x" shows "fle (fmul x y) (fmul x z)"
proof -
  obtain r where x: "x = FFin r" "0 < r" using assms by (cases x) auto
  show ?thesis
  proof (cases "is_finite y \<and> is_finite z")
    case True
    then show ?thesis using assms by (simp add: fmul_mono_right)
  next
    case False
    have n: "\<not> is_nan y" "\<not> is_nan z" using assms(1) fle_not_nan by auto
    have m: "\<not> is_nan (fmul x y)" "\<not> is_nan (fmul x z)" using n x by (cases y; cases z; simp)+
    consider "z = FInf False" | "y = FInf True"
      using False assms(1) n by (cases y; cases z) (auto simp: fle_def split: if_splits)
    then show ?thesis
    proof cases
      case 1
      then have "fmul x z = FInf False" using x by simp
      then show ?thesis using m fle_inf_right by simp
    next
      case 2
      then have "fmul x y = FInf True" using x by simp
      then show ?thesis using m fle_inf_left by simp
    qed
  qed
qed

lemma fneg_anti: "fle y z \<Longrightarrow> fle (fneg z) (fneg y)"
  by (cases y; cases z) (auto simp: fle_def split: if_splits)

lemma is_finite_fneg [simp]: "is_finite (fneg x) = is_finite x"
  by (cases x) auto

lemma fadd_commute: "fadd x y = fadd y x"
  by (cases x; cases y) (auto simp: add.commute)

lemma fneg_fadd_le:
  assumes "is_finite x" "is_finite y" shows "fle (fneg (fadd x y)) (fadd (fneg x) (fneg y))"
proof -
  have h: "fle (fneg (rnd False r)) (rnd False (- r))" for r
    by (auto simp: rnd_def rndr_minus Let_def fle_def)
  have z: "rnd False 0 = FFin 0" by (simp add: rnd_def)
  show ?thesis using assms h[of "fval x + fval y"]
    by (cases x; cases y) (auto simp: z rnd_0 fle_def[of "FFin 0" "FFin 0"] fle_def[of "FFin 0" FNegZero] fle_def[of FNegZero "FFin 0"])
qed

lemma fle_top: "fle x (FInf False) \<longleftrightarrow> \<not> is_nan x"
  by (cases x) (auto simp: fle_def)

lemma fabs_le_iff: "fle (fabs z) b \<longleftrightarrow> fle z b \<and> fle (fneg b) z"
  by (cases z; cases b) (auto simp: fle_def split: if_splits)

lemma fsub_mono: "fle y z \<Longrightarrow> is_finite x \<Longrightarrow> fle (fsub y x) (fsub z x)"
  unfolding fsub_def fadd_commute[of _ "fneg x"] by (rule fadd_mono) simp_all

lemma fmax_mono: "fle y z \<Longrightarrow> fle (fmax y x) (fmax z x)"
  by (auto simp: fmax_def flt_iff dest: fle_trans fle_not_nan fle_total)


lemma fmax_finite: "is_finite x \<Longrightarrow> is_finite y \<Longrightarrow> is_finite (fmax x y)"
  by (auto simp: fmax_def)

lemma fmin_finite: "is_finite x \<Longrightarrow> is_finite y \<Longrightarrow> is_finite (fmin x y)"
  by (auto simp: fmin_def)

text \<open>Finite and at most \<open>2 ^ k\<close> in magnitude: the bound every operation moves by a known amount.\<close>

definition fbnd :: "int \<Rightarrow> f64 \<Rightarrow> bool" where
  "fbnd k x \<longleftrightarrow> is_finite x \<and> \<bar>fval x\<bar> \<le> pow2 k"

lemma fbnd_finite: "fbnd k x \<Longrightarrow> is_finite x"
  by (simp add: fbnd_def)

lemma fbnd_mono: "fbnd k x \<Longrightarrow> k \<le> l \<Longrightarrow> fbnd l x"
  using pow2_le_iff[of k l] by (auto simp: fbnd_def simp del: pow2_le_iff)

lemma fbnd_rnd: "\<bar>r\<bar> \<le> pow2 k \<Longrightarrow> -1074 \<le> k \<Longrightarrow> k \<le> 1023 \<Longrightarrow> fbnd k (rnd b r)"
proof (cases "rndr r = 0")
  case True
  then show ?thesis by (simp add: rnd_def fbnd_def)
next
  case False
  assume a: "\<bar>r\<bar> \<le> pow2 k" "-1074 \<le> k" "k \<le> 1023"
  then have "\<bar>rndr r\<bar> \<le> pow2 k" using rndr_le_pow2[of k "\<bar>r\<bar>"] by (simp add: rndr_abs)
  moreover have "\<bar>r\<bar> \<le> pow2 1023" using a(1) pow2_le_iff[of k 1023] a(3) by linarith
  ultimately show ?thesis using False by (simp add: rnd_finite fbnd_def)
qed

lemma fbnd_fadd: "fbnd k x \<Longrightarrow> fbnd k y \<Longrightarrow> -1074 \<le> k \<Longrightarrow> k \<le> 1022 \<Longrightarrow> fbnd (k + 1) (fadd x y)"
proof -
  assume a: "fbnd k x" "fbnd k y" "-1074 \<le> k" "k \<le> 1022"
  have "\<bar>fval x + fval y\<bar> \<le> pow2 k + pow2 k" using a by (auto simp: fbnd_def intro: order_trans[OF abs_triangle_ineq])
  then have "\<bar>fval x + fval y\<bar> \<le> pow2 (k + 1)" by (simp add: pow2_add)
  then have "fbnd (k + 1) (rnd False (fval x + fval y))" using a by (intro fbnd_rnd) auto
  then show ?thesis using a by (auto simp: fadd_finite fbnd_def)
qed

lemma fbnd_fneg [simp]: "fbnd k (fneg x) = fbnd k x"
  by (cases x) (auto simp: fbnd_def)

lemma fbnd_fabs [simp]: "fbnd k (fabs x) = fbnd k x"
  by (cases x) (auto simp: fbnd_def)

lemma fbnd_fsub: "fbnd k x \<Longrightarrow> fbnd k y \<Longrightarrow> -1074 \<le> k \<Longrightarrow> k \<le> 1022 \<Longrightarrow> fbnd (k + 1) (fsub x y)"
  by (simp add: fsub_def fbnd_fadd)

lemma fbnd_fmul:
  assumes "fbnd j x" "fbnd k y" "-1074 \<le> j + k" "j + k \<le> 1023"
  shows "fbnd (j + k) (fmul x y)"
proof -
  have "\<bar>fval x * fval y\<bar> \<le> pow2 j * pow2 k"
    using assms by (auto simp: fbnd_def abs_mult intro!: mult_mono)
  then have "fbnd (j + k) (rnd (fsign x \<noteq> fsign y) (fval x * fval y))"
    using assms by (intro fbnd_rnd) (simp_all add: pow2_add)
  then show ?thesis using assms by (simp add: fmul_finite fbnd_finite)
qed

lemma fbnd_fdiv:
  assumes "fbnd j x" "is_finite y" "pow2 k \<le> \<bar>fval y\<bar>" "-1074 \<le> j - k" "j - k \<le> 1023"
  shows "fbnd (j - k) (fdiv x y)"
proof -
  have y0: "fval y \<noteq> 0" using assms(3) pow2_pos[of k] by (cases "fval y = 0") (simp_all add: not_le[symmetric])
  have "\<bar>fval x / fval y\<bar> \<le> pow2 j / pow2 k"
    using assms unfolding abs_divide by (intro frac_le) (auto simp: fbnd_def)
  then have "fbnd (j - k) (rnd (fsign x \<noteq> fsign y) (fval x / fval y))"
    using assms by (intro fbnd_rnd) (simp_all add: pow2_diff)
  then show ?thesis using assms y0 by (simp add: fdiv_finite fbnd_finite)
qed

lemma fbnd_of_int: "\<bar>n\<bar> \<le> 2 ^ k \<Longrightarrow> k \<le> 1023 \<Longrightarrow> fbnd (int k) (f_of_int n)"
proof -
  assume "\<bar>n\<bar> \<le> 2 ^ k" "k \<le> 1023"
  then have "of_int \<bar>n\<bar> \<le> (of_int (2 ^ k) :: rat)" by (simp only: of_int_le_iff)
  then show ?thesis unfolding f_of_int_def using \<open>k \<le> 1023\<close> by (intro fbnd_rnd) (simp_all add: pow2_def)
qed

lemma fbnd_between: "fle lo x \<Longrightarrow> fle x hi \<Longrightarrow> fbnd k lo \<Longrightarrow> fbnd k hi \<Longrightarrow> fbnd k x"
  by (cases x; cases lo; cases hi) (auto simp: fbnd_def fle_def split: if_splits)


lemma fmul_commute: "fmul x y = fmul y x"
  by (cases x; cases y) (auto simp: mult.commute intro: arg_cong2[of _ _ _ _ rnd])

lemma ftrunc_mono: "r \<le> s \<Longrightarrow> ftrunc r \<le> ftrunc s"
proof -
  assume le: "r \<le> s"
  have "\<lceil>r\<rceil> \<le> \<lfloor>s\<rfloor>" if "r < 0" "0 \<le> s"
  proof -
    have "\<lceil>r\<rceil> \<le> 0" "0 \<le> \<lfloor>s\<rfloor>" using that by (simp_all add: ceiling_le_iff)
    then show ?thesis by linarith
  qed
  then show ?thesis using le by (auto simp: ftrunc_def floor_mono ceiling_mono)
qed

lemma f_to_int_bounds: "lo \<le> 0 \<Longrightarrow> 0 \<le> hi \<Longrightarrow> lo \<le> f_to_int lo hi x \<and> f_to_int lo hi x \<le> hi"
  by (cases x) auto

lemma f_to_int_finite: "is_finite x \<Longrightarrow> f_to_int lo hi x = max lo (min hi (ftrunc (fval x)))"
  by (cases x) auto

lemma f_to_int_mono: "fle x y \<Longrightarrow> lo \<le> 0 \<Longrightarrow> 0 \<le> hi \<Longrightarrow> f_to_int lo hi x \<le> f_to_int lo hi y"
proof -
  assume le: "fle x y" and b: "lo \<le> 0" "0 \<le> hi"
  consider "is_finite x \<and> is_finite y" | "x = FInf True" | "y = FInf False"
    using le by (cases x; cases y) (auto simp: fle_def split: if_splits)
  then show ?thesis
  proof cases
    case 1
    then have "fval x \<le> fval y" using le by (simp add: fle_finite)
    from ftrunc_mono[OF this] show ?thesis using 1 by (auto simp: f_to_int_finite)
  next
    case 2
    then show ?thesis using f_to_int_bounds[OF b] by simp
  next
    case 3
    then show ?thesis using f_to_int_bounds[OF b] by simp
  qed
qed

subsection \<open>Evaluation over integers\<close>

text \<open>Code equations that evaluate the operations on integer numerators and denominators, so that
concrete inputs are computed without normalising intermediate fractions.  They change no
definition.\<close>

fun strip2 :: "int \<Rightarrow> int \<Rightarrow> int \<times> int" where
  "strip2 m j = (if 0 < j \<and> even m then strip2 (m div 2) (j - 1) else (m, j))"

declare strip2.simps [simp del]

definition dyadic :: "int \<Rightarrow> int \<Rightarrow> rat" where
  "dyadic m q = of_int m * pow2 q"

lemma strip2_spec:
  "0 \<le> j \<Longrightarrow> strip2 m j = (m', j') \<Longrightarrow> 0 \<le> j' \<and> of_int m' * pow2 (- j') = of_int m * pow2 (- j) \<and> (j' = 0 \<or> odd m')"
proof (induction m j arbitrary: m' j' rule: strip2.induct)
  case (1 m j)
  show ?case
  proof (cases "0 < j \<and> even m")
    case True
    have s: "strip2 (m div 2) (j - 1) = (m', j')" using 1(3) True by (subst (asm) strip2.simps) simp
    have IH: "0 \<le> j' \<and> of_int m' * pow2 (- j') = of_int (m div 2) * pow2 (- (j - 1)) \<and> (j' = 0 \<or> odd m')"
      using 1(1)[OF True _ s] True by simp
    have "of_int (m div 2) * 2 = (of_int m :: rat)" using True by (metis dvd_div_mult_self of_int_mult of_int_numeral)
    moreover have "pow2 (- (j - 1)) = 2 * pow2 (- j)" using pow2_add[of 1 "- j"] by simp
    ultimately show ?thesis using IH by (simp add: mult.assoc[symmetric])
  next
    case False
    then show ?thesis using 1(2,3) by (subst (asm) strip2.simps) auto
  qed
qed

lemma quotient_of_dyadic [code abstract]:
  "quotient_of (dyadic m q) =
     (if 0 \<le> q then (m * 2 ^ nat q, 1)
      else (case strip2 m (- q) of (m', j) \<Rightarrow> (m', 2 ^ nat j)))"
proof (cases "0 \<le> q")
  case True
  then have "dyadic m q = of_int (m * 2 ^ nat q)" by (simp add: dyadic_def pow2_def)
  then show ?thesis using True by (simp only: quotient_of_int if_True of_int_def[symmetric] id_apply)
next
  case False
  obtain m' j where s: "strip2 m (- q) = (m', j)" by force
  have sp: "0 \<le> j" "of_int m' * pow2 (- j) = of_int m * pow2 q" "j = 0 \<or> odd m'"
    using strip2_spec[OF _ s] False by auto
  have "dyadic m q = of_int m' * pow2 (- j)" by (simp add: dyadic_def sp)
  also have "\<dots> = Fract m' (2 ^ nat j)"
    using sp(1) by (simp add: pow2_def Fract_of_int_quotient)
  finally have "quotient_of (dyadic m q) = Rat.normalize (m', 2 ^ nat j)"
    by (simp add: quotient_of_Fract)
  also have "\<dots> = (m', 2 ^ nat j)" using sp by (intro normalize_stable) auto
  finally show ?thesis using False s by simp
qed

definition rdiv :: "int \<Rightarrow> int \<Rightarrow> int" where
  "rdiv p r = (let f = p div r; t = 2 * (p - f * r) in if t < r \<or> t = r \<and> even f then f else f + 1)"

lemma rdiv_rne: "0 < r \<Longrightarrow> rne (of_int p / of_int r) = rdiv p r"
proof -
  assume r: "0 < r"
  define f where "f = p div r"
  have fl: "\<lfloor>of_int p / of_int r :: rat\<rfloor> = f" by (simp add: f_def floor_divide_of_int_eq)
  have d: "of_int p / of_int r - of_int f = (of_int (p - f * r) / of_int r :: rat)"
    using r by (simp add: field_simps)
  have h: "x / y < 1 / 2 \<longleftrightarrow> 2 * x < y" "x / y = 1 / 2 \<longleftrightarrow> 2 * x = y" if "0 < y" for x y :: rat
    using that by (auto simp: field_simps)
  have i: "2 * of_int (p - f * r) < (of_int r :: rat) \<longleftrightarrow> 2 * (p - f * r) < r"
    "2 * of_int (p - f * r) = (of_int r :: rat) \<longleftrightarrow> 2 * (p - f * r) = r"
    using of_int_less_iff[of "2 * (p - f * r)" r, where 'a = rat] of_int_eq_iff[of "2 * (p - f * r)" r, where 'a = rat]
    by (simp_all only: of_int_mult of_int_numeral)
  show ?thesis using r unfolding rne_def rdiv_def fl d Let_def f_def[symmetric] by (simp only: h i of_int_0_less_iff)
qed

definition shift_le :: "int \<Rightarrow> int \<Rightarrow> int \<Rightarrow> bool" where
  "shift_le d k a \<longleftrightarrow> (if 0 \<le> k then d * 2 ^ nat k \<le> a else d \<le> a * 2 ^ nat (- k))"

lemma shift_le_iff: "0 < d \<Longrightarrow> shift_le d k a \<longleftrightarrow> pow2 k \<le> of_int a / of_int d"
proof -
  assume d: "0 < d"
  show ?thesis
  proof (cases "0 \<le> k")
    case True
    then show ?thesis using d of_int_le_iff[of "d * 2 ^ nat k" a, where 'a = rat]
      by (simp add: shift_le_def pow2_def le_divide_eq mult.commute)
  next
    case False
    then show ?thesis using d of_int_le_iff[of d "a * 2 ^ nat (- k)", where 'a = rat]
      by (simp add: shift_le_def pow2_def field_simps)
  qed
qed

definition ilogq :: "int \<Rightarrow> int \<Rightarrow> int" where
  "ilogq a d = (let k = bitl a - bitl d in if shift_le d k a then k else k - 1)"

lemma ilogq_ilog2: "0 < a \<Longrightarrow> 0 < d \<Longrightarrow> ilog2 (of_int a / of_int d) = ilogq a d"
proof -
  assume a: "0 < a" and d: "0 < d"
  define k where "k = bitl a - bitl d"
  note A = bitl_pow2[OF a] and D = bitl_pow2[OF d]
  have up: "of_int a / of_int d < pow2 (k + 1)"
  proof -
    have "of_int a < pow2 (bitl a)" using A by simp
    also have "\<dots> = pow2 (k + 1) * pow2 (bitl d - 1)" by (simp add: k_def flip: pow2_add)
    also have "\<dots> \<le> pow2 (k + 1) * of_int d" using D by (simp add: mult_left_mono)
    finally show ?thesis using d by (simp add: divide_less_eq)
  qed
  have lo: "pow2 (k - 1) \<le> of_int a / of_int d"
  proof -
    have "pow2 (k - 1) * of_int d \<le> pow2 (k - 1) * pow2 (bitl d)" using D by (simp add: mult_left_mono)
    also have "\<dots> = pow2 (bitl a - 1)" by (simp add: k_def flip: pow2_add)
    also have "\<dots> \<le> of_int a" using A by simp
    finally show ?thesis using d by (simp add: le_divide_eq)
  qed
  show ?thesis
    using up lo shift_le_iff[OF d, of k a] ilog2_unique[of k] ilog2_unique[of "k - 1"]
    by (simp add: ilogq_def Let_def flip: k_def)
qed

definition rndq :: "bool \<Rightarrow> int \<Rightarrow> int \<Rightarrow> f64" where
  "rndq neg n d = rnd neg (of_int n / of_int d)"

lemma rndq_minus [simp]: "rndq neg (- n) (- d) = rndq neg n d"
  by (simp add: rndq_def)

definition mant :: "int \<Rightarrow> int \<Rightarrow> int \<Rightarrow> int" where
  "mant a d q = (if 0 \<le> q then rdiv a (d * 2 ^ nat q) else rdiv (a * 2 ^ nat (- q)) d)"

lemma mant_rne: "0 < d \<Longrightarrow> rne (of_int a / of_int d / pow2 q) = mant a d q"
proof -
  assume d: "0 < d"
  show ?thesis
  proof (cases "0 \<le> q")
    case True
    have "of_int a / of_int d / pow2 q = (of_int a / of_int (d * 2 ^ nat q) :: rat)"
      using True by (simp only: pow2_def if_True of_int_mult of_int_power of_int_numeral divide_divide_eq_left)
    note e = this
    show ?thesis using True d rdiv_rne[of "d * 2 ^ nat q" a] unfolding e by (simp add: mant_def)
  next
    case False
    then have "of_int a / of_int d / pow2 q = (of_int (a * 2 ^ nat (- q)) / of_int d :: rat)" by (simp add: pow2_def)
    then show ?thesis using False d rdiv_rne[of d "a * 2 ^ nat (- q)"] by (simp add: mant_def)
  qed
qed

lemma mant_code [code]:
  "mant a d q =
     (if d \<le> 0 \<or> 0 \<le> q then (if 0 \<le> q then rdiv a (d * 2 ^ nat q) else rdiv (a * 2 ^ nat (- q)) d)
      else (case strip2 d (- q) of (d', t) \<Rightarrow> if d' = 1 then a * 2 ^ nat t else rdiv (a * 2 ^ nat t) d'))"
proof (cases "d \<le> 0 \<or> 0 \<le> q")
  case True
  then show ?thesis by (auto simp: mant_def)
next
  case False
  then have q: "q < 0" and d: "0 < d" by auto
  obtain d' t where s: "strip2 d (- q) = (d', t)" by force
  have sp: "0 \<le> t" "of_int d' * pow2 (- t) = of_int d * pow2 q" using strip2_spec[OF _ s] q by auto
  then have d': "0 < d'" using d by (metis mult_pos_pos of_int_0_less_iff pow2_pos zero_less_mult_pos2)
  have p: "of_int d' * 2 ^ nat (- q) = (of_int d * 2 ^ nat t :: rat)"
  proof -
    have "of_int d' * pow2 (- t) * (pow2 t * pow2 (- q)) = of_int d * pow2 q * (pow2 t * pow2 (- q))" using sp by simp
    moreover have "pow2 (- t) * pow2 t = 1" "pow2 q * pow2 (- q) = 1" by (simp_all flip: pow2_add)
    ultimately have "of_int d' * pow2 (- q) = of_int d * pow2 t" by (metis mult.assoc mult.commute mult.left_neutral)
    then show ?thesis using q sp by (simp add: pow2_def)
  qed
  have "of_int (a * 2 ^ nat (- q)) / of_int d = (of_int (a * 2 ^ nat t) / of_int d' :: rat)"
    using p d d' by (simp add: frac_eq_eq) (metis mult.assoc mult.commute)
  then have "rdiv (a * 2 ^ nat (- q)) d = rdiv (a * 2 ^ nat t) d'"
    by (metis rdiv_rne d d')
  moreover have "rdiv x 1 = x" for x by (simp add: rdiv_def)
  ultimately show ?thesis using False s q by (auto simp: mant_def)
qed

fun pack :: "bool \<Rightarrow> int \<Rightarrow> int \<Rightarrow> f64" where
  "pack s m q = (if m = 0 then (if s then FNegZero else FFin 0)
     else if 1024 \<le> bitl m - 1 + q then FInf s
     else FFin (dyadic (if s then - m else m) q))"

lemma rndq_code [code]:
  "rndq neg n d =
     (if d \<le> 0 then rnd neg (of_int n / of_int d)
      else if n = 0 then (if neg then FNegZero else FFin 0)
      else let q = max (ilogq \<bar>n\<bar> d - 52) (-1074) in pack (n < 0) (mant \<bar>n\<bar> d q) q)"
proof (cases "0 < d \<and> n \<noteq> 0")
  case False
  then show ?thesis by (auto simp: rndq_def rnd_0)
next
  case True
  define r where "r = of_int \<bar>n\<bar> / (of_int d :: rat)"
  define q where "q = max (ilogq \<bar>n\<bar> d - 52) (-1074)"
  define m where "m = mant \<bar>n\<bar> d q"
  have r0: "0 < r" using True by (simp add: r_def)
  have q: "q = max (ilog2 \<bar>r\<bar> - 52) (-1074)" using True r0 ilogq_ilog2[of "\<bar>n\<bar>" d] by (simp add: q_def r_def)
  have v: "rndr r = of_int m * pow2 q"
    using r0 True mant_rne[of d "\<bar>n\<bar>" q] by (simp add: rndr_def q m_def Let_def) (simp add: r_def)
  have m0: "0 \<le> m"
  proof (rule ccontr)
    assume "\<not> 0 \<le> m"
    then have "of_int m * pow2 q < 0" by (simp add: mult_neg_pos)
    then show False using v rndr_nonneg[of r] r0 by simp
  qed
  have il: "ilog2 \<bar>rndr r\<bar> = bitl m - 1 + q" if "m \<noteq> 0"
  proof -
    have "0 < m" using m0 that by simp
    then have "ilog2 (of_int m) = bitl m - 1" using bitl_pow2[of m] by (intro ilog2_unique) auto
    then show ?thesis using \<open>0 < m\<close> v by (simp add: abs_mult ilog2_scale)
  qed
  have sgn: "of_int n / of_int d = (if n < 0 then - r else r)" by (simp add: r_def)
  have "rnd neg (of_int n / of_int d) = pack (n < 0) m q"
    using True r0 v il unfolding sgn rnd_def by (auto simp: rndr_minus Let_def dyadic_def)
  then show ?thesis using True by (simp add: rndq_def q_def m_def Let_def)
qed

lemma rnd_quotient [code]: "rnd neg r = (case quotient_of r of (a, b) \<Rightarrow> rndq neg a b)"
  using quotient_of_div[of r] by (cases "quotient_of r") (simp add: rndq_def)

lemma frac_ops:
  fixes a b c d :: rat
  assumes "0 < b" "0 < d"
  shows "a / b + c / d = (a * d + c * b) / (b * d)" "(a / b) * (c / d) = (a * c) / (b * d)"
    "(a / b) / (c / d) = (a * d) / (b * c)" "(a / b) / (c / d) = (- a * d) / (b * - c)"
  using assms by (simp_all add: field_simps)

lemma rnd_ops:
  assumes "quotient_of r = (a, b)" "quotient_of s = (c, d)"
  shows "rnd neg (r + s) = rndq neg (a * d + c * b) (b * d)"
    and "rnd neg (r * s) = rndq neg (a * c) (b * d)"
    and "rnd neg (r / s) = rndq neg (a * d) (b * c)"
    and "rnd neg (r / s) = rndq neg (- a * d) (b * - c)"
proof -
  have r: "r = of_int a / of_int b" "s = of_int c / of_int d" and p: "(0 :: rat) < of_int b" "(0 :: rat) < of_int d"
    using assms[THEN quotient_of_div] assms[THEN quotient_of_denom_pos] by simp_all
  show "rnd neg (r + s) = rndq neg (a * d + c * b) (b * d)"
    unfolding rndq_def r frac_ops(1)[OF p] by simp
  show "rnd neg (r * s) = rndq neg (a * c) (b * d)"
    unfolding rndq_def r frac_ops(2)[OF p] by simp
  show "rnd neg (r / s) = rndq neg (a * d) (b * c)"
    unfolding rndq_def r frac_ops(3)[OF p] by simp
  show "rnd neg (r / s) = rndq neg (- a * d) (b * - c)"
    unfolding rndq_def r frac_ops(4)[OF p] by simp
qed

declare fadd.simps [code] fmul.simps [code] fdiv.simps [code]

lemma fadd_code [code]:
  "fadd (FFin r) (FFin s) = (case quotient_of r of (a, b) \<Rightarrow> case quotient_of s of (c, d) \<Rightarrow>
     rndq False (a * d + c * b) (b * d))"
  by (cases "quotient_of r"; cases "quotient_of s") (simp add: rnd_ops)

lemma fmul_code [code]:
  "fmul (FFin r) (FFin s) = (case quotient_of r of (a, b) \<Rightarrow> case quotient_of s of (c, d) \<Rightarrow>
     rndq ((a < 0) \<noteq> (c < 0)) (a * c) (b * d))"
proof -
  obtain a b c d where q: "quotient_of r = (a, b)" "quotient_of s = (c, d)" by fastforce
  have "r < 0 \<longleftrightarrow> a < 0" "s < 0 \<longleftrightarrow> c < 0"
    using q[THEN quotient_of_div] q[THEN quotient_of_denom_pos] by (auto simp: divide_less_0_iff)
  then show ?thesis using q by (simp add: rnd_ops)
qed

lemma fdiv_code [code]:
  "fdiv (FFin r) (FFin s) = (case quotient_of r of (a, b) \<Rightarrow> case quotient_of s of (c, d) \<Rightarrow>
     if c = 0 then (if a = 0 then FNaN else FInf (a < 0))
     else if c < 0 then rndq (\<not> a < 0) (- a * d) (b * - c) else rndq (a < 0) (a * d) (b * c))"
proof -
  obtain a b c d where q: "quotient_of r = (a, b)" "quotient_of s = (c, d)" by fastforce
  have "r < 0 \<longleftrightarrow> a < 0" "s < 0 \<longleftrightarrow> c < 0" "r = 0 \<longleftrightarrow> a = 0" "s = 0 \<longleftrightarrow> c = 0"
    using q[THEN quotient_of_div] q[THEN quotient_of_denom_pos] by (auto simp: divide_less_0_iff)
  then show ?thesis using q rndq_minus[of _ "a * d" "b * c"] rndq_minus[of _ 0 c] by (auto simp: rnd_ops)
qed

lemma f_of_int_code [code]: "f_of_int n = rndq False n 1"
  by (simp add: f_of_int_def rndq_def)


lemma sqrtr_code [code]:
  "sqrtr r = (case quotient_of r of (a, b) \<Rightarrow>
     if r \<le> 0 then Code.abort (STR ''sqrtr'') (\<lambda>_. sqrtr r)
     else let q = ilogq a b div 2 - 52;
          n = isqrt (if 0 \<le> q then a div (b * 2 ^ nat (2 * q)) else (a * 2 ^ nat (- 2 * q)) div b);
          h = of_int n + 1/2; s = r / pow2 (2 * q)
     in dyadic (if h * h < s \<or> h * h = s \<and> odd n then n + 1 else n) q)"
proof (cases "0 < r")
  case True
  obtain a b where q: "quotient_of r = (a, b)" by force
  have r: "r = of_int a / of_int b" and b: "0 < b" using quotient_of_div[OF q] quotient_of_denom_pos[OF q] by auto
  then have a: "0 < a" using True by (simp add: zero_less_divide_iff)
  have fl: "\<lfloor>r / pow2 (2 * k)\<rfloor> = (if 0 \<le> k then a div (b * 2 ^ nat (2 * k)) else (a * 2 ^ nat (- 2 * k)) div b)" for k
  proof (cases "0 \<le> k")
    case True
    then have "r / pow2 (2 * k) = of_int a / of_int (b * 2 ^ nat (2 * k))" by (simp add: r pow2_def)
    then show ?thesis using True by (simp only: floor_divide_of_int_eq if_True)
  next
    case False
    then have "r / pow2 (2 * k) = of_int (a * 2 ^ nat (- 2 * k)) / of_int b" by (simp add: r pow2_def)
    then show ?thesis using False by (simp only: floor_divide_of_int_eq if_False)
  qed
  show ?thesis
    using True ilogq_ilog2[OF a b]
    by (simp only: sqrtr_def q Let_def fl dyadic_def prod.case r[symmetric] not_le[symmetric] if_False simp_thms
        if_distrib[of "\<lambda>n. of_int n * _"] if_distrib[of of_int])
next
  case False
  then show ?thesis by (cases "quotient_of r") simp
qed


subsection \<open>The sign bit\<close>

lemma rnd_sign: "0 \<le> r \<Longrightarrow> \<not> fsign (rnd False r)"
  using rndr_nonneg[of r] by (auto simp: rnd_def Let_def)

lemma fsign_fabs [simp]: "\<not> fsign (fabs x)"
  by (cases x) auto

lemma fsign_fmul: "\<not> fsign x \<Longrightarrow> \<not> fsign y \<Longrightarrow> \<not> fsign (fmul x y)"
  by (cases x; cases y) (auto simp: rnd_sign not_less)

lemma fsign_fdiv: "\<not> fsign x \<Longrightarrow> \<not> fsign y \<Longrightarrow> \<not> fsign (fdiv x y)"
  by (cases x; cases y) (auto simp: rnd_sign not_less)

lemma fsign_fadd: "\<not> fsign x \<Longrightarrow> \<not> fsign y \<Longrightarrow> \<not> fsign (fadd x y)"
  by (cases x; cases y) (auto simp: rnd_sign not_less)

lemma fsign_fmin: "\<not> fsign x \<Longrightarrow> \<not> fsign y \<Longrightarrow> \<not> fsign (fmin x y)"
  by (auto simp: fmin_def)

lemma fsign_fmax: "\<not> fsign x \<Longrightarrow> \<not> fsign y \<Longrightarrow> \<not> fsign (fmax x y)"
  by (auto simp: fmax_def)

lemma fsign_nonneg: "\<not> fsign x \<Longrightarrow> \<not> is_nan x \<Longrightarrow> fle (FFin 0) x"
  by (cases x) (auto simp: fle_def)

lemma flt0_sign: "flt (FFin 0) x \<Longrightarrow> \<not> fsign x"
  by (cases x) (auto simp: flt_def)

lemma fadd_finite_not_nan: "is_finite x \<Longrightarrow> \<not> is_nan y \<Longrightarrow> \<not> is_nan (fadd x y)"
  by (cases x; cases y) auto


lemma not_fle: "\<not> is_nan x \<Longrightarrow> \<not> is_nan y \<Longrightarrow> \<not> fle x y \<longleftrightarrow> flt y x"
  by (auto simp: fle_def flt_def)

lemma flt_trans: "flt x y \<Longrightarrow> flt y z \<Longrightarrow> flt x z"
  by (auto simp: flt_def)

section \<open>Rounding errors\<close>

lemma rndr_err:
  assumes "\<bar>r\<bar> \<le> pow2 k" "- 1022 \<le> k"
  shows "\<bar>rndr r - r\<bar> \<le> pow2 (k - 53)"
proof (cases "r = 0")
  case False
  define q where "q = max (ilog2 \<bar>r\<bar> - 52) (-1074)"
  have "pow2 (ilog2 \<bar>r\<bar>) \<le> \<bar>r\<bar>" using ilog2_spec(1)[of "\<bar>r\<bar>"] False by simp
  then have "pow2 (ilog2 \<bar>r\<bar>) \<le> pow2 k" using assms(1) by (rule order_trans)
  then have qk: "q - 1 \<le> k - 53" using assms(2) by (simp add: q_def)
  define e where "e = of_int (rne (r / pow2 q)) - r / pow2 q"
  have "rndr r - r = e * pow2 q"
    using False by (simp add: rndr_def Let_def e_def algebra_simps flip: q_def)
  moreover have "\<bar>e\<bar> \<le> 1 / 2" unfolding e_def by (rule rne_near)
  ultimately have "\<bar>rndr r - r\<bar> \<le> 1 / 2 * pow2 q"
    using mult_right_mono[of "\<bar>e\<bar>" "1 / 2" "pow2 q"] by (simp add: abs_mult)
  also have "\<dots> = pow2 (q - 1)" by (simp add: pow2_diff)
  also have "\<dots> \<le> pow2 (k - 53)" using qk by simp
  finally show ?thesis .
qed simp

lemma rnd_err:
  assumes "\<bar>r\<bar> \<le> pow2 k" "- 1022 \<le> k" "k \<le> 1023"
  shows "\<bar>fval (rnd b r) - r\<bar> \<le> pow2 (k - 53)"
proof -
  have "is_finite (rnd b r)" using fbnd_rnd[OF assms(1) _ assms(3)] assms(2) by (simp add: fbnd_def)
  then have "fval (rnd b r) = rndr r" by (intro fval_rnd) (cases "rnd b r"; simp)
  then show ?thesis using rndr_err[OF assms(1,2)] by simp
qed

lemma fadd_err:
  assumes "fbnd k x" "fbnd k y" "- 1022 \<le> k" "k \<le> 1022"
  shows "\<bar>fval (fadd x y) - (fval x + fval y)\<bar> \<le> pow2 (k - 52)"
proof -
  have "\<bar>fval x + fval y\<bar> \<le> pow2 (k + 1)"
    using assms abs_triangle_ineq[of "fval x" "fval y"] by (simp add: fbnd_def pow2_add)
  from rnd_err[OF this, of False] assms show ?thesis
    by (auto simp: fadd_finite fbnd_def add.commute)
qed

lemma fsub_err:
  assumes "fbnd k x" "fbnd k y" "- 1022 \<le> k" "k \<le> 1022"
  shows "\<bar>fval (fsub x y) - (fval x - fval y)\<bar> \<le> pow2 (k - 52)"
proof -
  have "fval (fneg y) = - fval y" by (cases y) auto
  then show ?thesis using fadd_err[of k x "fneg y"] assms by (simp add: fsub_def)
qed

lemma fhalf_err:
  assumes "fbnd k x" "- 1021 \<le> k" "k \<le> 1023"
  shows "\<bar>fval (fdiv x (FFin 2)) - fval x / 2\<bar> \<le> pow2 (k - 54)"
proof -
  have "\<bar>fval x / 2\<bar> \<le> pow2 (k - 1)" using assms by (simp add: fbnd_def pow2_diff)
  from rnd_err[OF this] assms show ?thesis by (simp add: fdiv_finite fbnd_def)
qed

lemma pow2_2: "pow2 2 = 4" by (simp add: pow2_def)

lemma f_of_int_exact: "\<bar>n\<bar> < 2 ^ 53 \<Longrightarrow> f_of_int n = FFin (of_int n)"
  using flit_exact[of n 0] by (simp add: f_of_int_def flit_def)

end
