(* ===== verification/VClock.thy ===== *)
theory VClock
  imports Prelude Float64
begin

text \<open>The virtual clock, \<open>crates/rusty_time-core/src/vclock.rs\<close>: a disciplined view of time
for hosts whose clock cannot be adjusted.  Its state is a record, its two mutating operations are
functions on it, and a run is a list of calls.\<close>

subsection \<open>State and operations\<close>

record VirtualClock =
  vc_offset :: f64
  vc_skew_ppm :: f64
  vc_last_update_mono :: "f64 option"
  vc_err_at_update :: f64
  vc_err_growth_ppm :: f64
  vc_high_water :: f64

definition vc_new :: VirtualClock where
  "vc_new = \<lparr> vc_offset = FFin 0, vc_skew_ppm = FFin 0, vc_last_update_mono = None,
     vc_err_at_update = FInf False, vc_err_growth_ppm = FFin 15, vc_high_water = FInf True \<rparr>"

definition micro :: f64 where "micro = flit (1 / 1000000)"

definition vc_update :: "f64 \<Rightarrow> f64 \<Rightarrow> f64 option \<Rightarrow> f64 \<Rightarrow> VirtualClock \<Rightarrow> VirtualClock" where
  "vc_update mono_s offset skew error_bound c =
     c\<lparr> vc_offset := offset,
        vc_skew_ppm := (case skew of Some s \<Rightarrow> s | None \<Rightarrow> vc_skew_ppm c),
        vc_last_update_mono := Some mono_s,
        vc_err_at_update := fmax error_bound (FFin 0) \<rparr>"

definition vc_corrected :: "f64 \<Rightarrow> f64 \<Rightarrow> VirtualClock \<Rightarrow> f64" where
  "vc_corrected mono_s raw_wall c =
     (case vc_last_update_mono c of
        Some t0 \<Rightarrow>
          (let dt = fmax (fsub mono_s t0) (FFin 0)
           in fsub (fadd raw_wall (vc_offset c)) (fmul (fmul (vc_skew_ppm c) micro) dt))
      | None \<Rightarrow> raw_wall)"

definition vc_now :: "f64 \<Rightarrow> f64 \<Rightarrow> VirtualClock \<Rightarrow> f64 \<times> VirtualClock" where
  "vc_now mono_s raw_wall c =
     (let corrected = vc_corrected mono_s raw_wall c in
      if flt corrected (vc_high_water c) then (vc_high_water c, c)
      else (corrected, c\<lparr> vc_high_water := corrected \<rparr>))"

definition vc_confidence :: "VirtualClock \<Rightarrow> f64 \<Rightarrow> f64" where
  "vc_confidence c mono_s =
     (case vc_last_update_mono c of
        Some t0 \<Rightarrow>
          (let dt = fmax (fsub mono_s t0) (FFin 0)
           in fadd (vc_err_at_update c) (fmul (fmul (vc_err_growth_ppm c) micro) dt))
      | None \<Rightarrow> FInf False)"

definition vc_is_synchronized :: "VirtualClock \<Rightarrow> bool" where
  "vc_is_synchronized c \<longleftrightarrow> vc_last_update_mono c \<noteq> None"

subsection \<open>Runs\<close>

datatype vcall = VUpdate f64 f64 "f64 option" f64 | VNow f64 f64

fun vc_run :: "vcall list \<Rightarrow> VirtualClock \<Rightarrow> f64 list \<times> VirtualClock" where
  "vc_run [] c = ([], c)"
| "vc_run (VUpdate m off sk e # calls) c = vc_run calls (vc_update m off sk e c)"
| "vc_run (VNow m w # calls) c =
     (case vc_now m w c of (t, c') \<Rightarrow> (case vc_run calls c' of (ts, c'') \<Rightarrow> (t # ts, c'')))"

lemma vc_now_high_water: "vc_now m w c = (t, c') \<Longrightarrow> vc_high_water c' = t"
  by (auto simp: vc_now_def Let_def split: if_splits)

lemma vc_now_ge: "vc_now m w c = (t, c') \<Longrightarrow> \<not> is_nan t \<Longrightarrow> \<not> is_nan (vc_high_water c) \<Longrightarrow> fle (vc_high_water c) t"
  by (auto simp: vc_now_def Let_def not_flt split: if_splits)

lemma vc_update_high_water [simp]: "vc_high_water (vc_update m off sk e c) = vc_high_water c"
  by (simp add: vc_update_def)

lemma vc_run_sorted:
  "vc_run calls c = (ts, c') \<Longrightarrow> \<not> is_nan (vc_high_water c) \<Longrightarrow> list_all (\<lambda>t. \<not> is_nan t) ts \<Longrightarrow>
     sorted_wrt fle (vc_high_water c # ts)"
proof (induction calls c arbitrary: ts c' rule: vc_run.induct)
  case (3 m w calls c)
  obtain t c1 where n: "vc_now m w c = (t, c1)" by force
  obtain ts' c2 where r: "vc_run calls c1 = (ts', c2)" by force
  have ts: "ts = t # ts'" using 3(2) n r by simp
  have h: "vc_high_water c1 = t" using n by (rule vc_now_high_water)
  have t: "\<not> is_nan t" "list_all (\<lambda>t. \<not> is_nan t) ts'" using 3(4) ts by simp_all
  have ge: "fle (vc_high_water c) t" using vc_now_ge[OF n t(1) 3(3)] .
  have "sorted_wrt fle (vc_high_water c1 # ts')"
    by (rule 3(1)[OF n[symmetric] r]) (use t h in auto)
  then show ?case using ge ts h by (auto intro: fle_trans)
qed auto

subsection \<open>Properties\<close>

text \<open>C3: the times a virtual clock hands out never go backwards, over any sequence
of measurements and readings starting from a fresh clock, as long as no reading is NaN.\<close>

theorem vclock_monotone:
  assumes "list_all (\<lambda>t. \<not> is_nan t) (fst (vc_run calls vc_new))"
  shows "sorted_wrt fle (fst (vc_run calls vc_new))"
proof -
  obtain ts c' where r: "vc_run calls vc_new = (ts, c')" by force
  have "\<not> is_nan (vc_high_water vc_new)" by (simp add: vc_new_def)
  from vc_run_sorted[OF r this] show ?thesis using assms r by simp
qed

lemma vclock_monotone_witness:
  "fst (vc_run [VNow (FFin 0) (FFin 100), VUpdate (FFin 1) (FFin (-5)) None (FFin 1), VNow (FFin 2) (FFin 102)] vc_new)
     = [FFin 100, FFin 100] \<and>
   sorted_wrt fle (fst (vc_run [VNow (FFin 0) (FFin 100), VUpdate (FFin 1) (FFin (-5)) None (FFin 1),
     VNow (FFin 2) (FFin 102)] vc_new))"
proof -
  have e: "fst (vc_run [VNow (FFin 0) (FFin 100), VUpdate (FFin 1) (FFin (-5)) None (FFin 1), VNow (FFin 2) (FFin 102)] vc_new)
     = [FFin 100, FFin 100]" by code_simp
  from vclock_monotone[of "[VNow (FFin 0) (FFin 100), VUpdate (FFin 1) (FFin (-5)) None (FFin 1), VNow (FFin 2) (FFin 102)]"]
  show ?thesis unfolding e by simp
qed

text \<open>The guard does not survive a NaN: one NaN reading becomes the high-water mark, every later
comparison with it is false, and time may then go backwards.\<close>

lemma vclock_nan_defeats_guard:
  "fst (vc_run [VNow (FFin 0) (FFin 100), VUpdate (FFin 1) FNaN None (FFin 1), VNow (FFin 2) (FFin 101),
      VUpdate (FFin 3) (FFin (-50)) None (FFin 1), VNow (FFin 4) (FFin 102)] vc_new)
     = [FFin 100, FNaN, FFin 52]"
  by code_simp


lemma growth_finite: "is_finite (fmul (FFin 15) micro)" "0 < fval (fmul (FFin 15) micro)"
  by code_simp+

text \<open>Between updates the advertised error bound only widens: it is
monotone in the monotonic clock, never below the bound of the last measurement, and infinite before
the first.\<close>

theorem vclock_confidence_grows:
  assumes "fle m1 m2" and "is_finite m" and "is_finite e"
  shows "fle (vc_confidence (vc_update m off sk e vc_new) m1) (vc_confidence (vc_update m off sk e vc_new) m2)
    \<and> vc_confidence vc_new m1 = FInf False"
proof
  show "fle (vc_confidence (vc_update m off sk e vc_new) m1) (vc_confidence (vc_update m off sk e vc_new) m2)"
    unfolding vc_confidence_def vc_update_def vc_new_def Let_def
    using assms growth_finite by (simp add: fmax_finite fadd_mono fmul_mono fmax_mono fsub_mono)
  show "vc_confidence vc_new m1 = FInf False" by (simp add: vc_confidence_def vc_new_def)
qed

lemma vclock_confidence_grows_witness:
  "fle (vc_confidence (vc_update (FFin 1) (FFin 0) None (FFin 1) vc_new) (FFin 2))
       (vc_confidence (vc_update (FFin 1) (FFin 0) None (FFin 1) vc_new) (FFin 1000)) \<and>
   vc_confidence (vc_update (FFin 1) (FFin 0) None (FFin 1) vc_new) (FFin 2) \<noteq>
       vc_confidence (vc_update (FFin 1) (FFin 0) None (FFin 1) vc_new) (FFin 1000)"
proof
  show "fle (vc_confidence (vc_update (FFin 1) (FFin 0) None (FFin 1) vc_new) (FFin 2))
       (vc_confidence (vc_update (FFin 1) (FFin 0) None (FFin 1) vc_new) (FFin 1000))"
    by (rule vclock_confidence_grows[THEN conjunct1]) simp_all
qed code_simp

end
