(* ===== verification/Slew.thy ===== *)
theory Slew
  imports Prelude Float64
begin

text \<open>The conversions from a discipline plan to a platform's clock knob,
\<open>crates/rusty_time-clock/src/slew.rs\<close>.  An \<open>i64\<close> is an integer with its wrap-around
written out, \<open>clamp\<close> is an option (it panics when the bounds are reversed) and \<open>as\<close> casts saturate.\<close>

subsection \<open>Definitions\<close>

definition MACOS_MAX_HORIZON_S :: f64 where "MACOS_MAX_HORIZON_S = FFin 1024"
definition LINUX_MAX_ADJ_FREQ_PPM :: f64 where "LINUX_MAX_ADJ_FREQ_PPM = FFin 500"
definition LINUX_TICK_RANGE_FRACTION :: f64 where "LINUX_TICK_RANGE_FRACTION = flit (1 / 10)"
definition one_e_minus6 :: f64 where "one_e_minus6 = flit (1 / 1000000)"
definition one_e6 :: f64 where "one_e6 = FFin 1000000"

definition macos_adjtime_amount :: "f64 \<Rightarrow> f64 \<Rightarrow> f64 \<Rightarrow> f64" where
  "macos_adjtime_amount freq_ppm drain_offset drain_rate_ppm =
     (let horizon_s =
        (if flt (FFin 0) drain_rate_ppm
         then fmin (fdiv (fabs drain_offset) (fmul drain_rate_ppm one_e_minus6)) MACOS_MAX_HORIZON_S
         else FFin 0)
      in fadd drain_offset (fmul (fmul freq_ppm one_e_minus6) horizon_s))"

definition total_ppm :: "f64 \<Rightarrow> f64 \<Rightarrow> f64 \<Rightarrow> f64 \<Rightarrow> f64 option" where
  "total_ppm freq_ppm drain_offset drain_rate_ppm max_ppm =
     (let drain = fcopysign drain_rate_ppm drain_offset
      in fclamp (fadd freq_ppm drain) (fneg max_ppm) max_ppm)"









definition linux_max_slew_ppm :: "int \<Rightarrow> f64" where
  "linux_max_slew_ppm nominal_tick_us =
     (if nominal_tick_us \<le> 0 then LINUX_MAX_ADJ_FREQ_PPM
      else fadd (fmul (ffloor (fmul (f_of_int nominal_tick_us) LINUX_TICK_RANGE_FRACTION))
                  (fdiv one_e6 (f_of_int nominal_tick_us))) LINUX_MAX_ADJ_FREQ_PPM)"

definition windows_adjustment :: "u64 \<Rightarrow> f64 \<Rightarrow> u64" where
  "windows_adjustment increment tot =
     (let scaled = fmul (f_of_int (uint increment)) (fadd (FFin 1) (fmul tot one_e_minus6))
      in if fle scaled (FFin 0) then 0 else word_of_int (f_to_int 0 (2 ^ 64 - 1) scaled))"

subsection \<open>Bounds\<close>




lemma f_of_int_pos: "0 < n \<Longrightarrow> n \<le> 2 ^ 64 \<Longrightarrow> 0 < fval (f_of_int n) \<and> is_finite (f_of_int n)"
proof -
  assume n: "0 < n" "n \<le> 2 ^ 64"
  have b: "fbnd (int 64) (f_of_int n)" using n by (intro fbnd_of_int) auto
  have "1 \<le> \<bar>rndr (of_int n)\<bar>" "0 \<le> rndr (of_int n)" using n by (auto intro: rndr_int_ge1 rndr_nonneg)
  then have "0 < rndr (of_int n)" by linarith
  then show ?thesis using b by (auto simp: f_of_int_def rnd_def Let_def fbnd_def split: if_splits)
qed






subsection \<open>Properties\<close>



text \<open>The unsigned Windows adjustment never wraps: a smaller request
never gives a larger increment, so a request to slow down, however absurd, cannot become a forward
jump.\<close>

theorem windows_adjustment_monotone:
  assumes "fle tot1 tot2"
  shows "windows_adjustment inc tot1 \<le> windows_adjustment inc tot2"
proof -
  define sc where "sc = (\<lambda>tot. fmul (f_of_int (uint inc)) (fadd (FFin 1) (fmul tot one_e_minus6)))"
  have w: "uint (windows_adjustment inc tot) = (if fle (sc tot) (FFin 0) then 0 else f_to_int 0 (2 ^ 64 - 1) (sc tot))" for tot
    using f_to_int_bounds[of 0 "2 ^ 64 - 1" "sc tot"]
    by (simp add: windows_adjustment_def sc_def Let_def unsigned_of_int take_bit_int_eq_self)
  have e: "is_finite one_e_minus6" "0 < fval one_e_minus6" by code_simp+
  have inner: "fle (fadd (FFin 1) (fmul tot1 one_e_minus6)) (fadd (FFin 1) (fmul tot2 one_e_minus6))"
    using assms e fmul_mono by (intro fadd_mono) (simp_all add: fmul_commute[of _ one_e_minus6])
  show ?thesis
  proof (cases "inc = 0")
    case True
    have "f_to_int 0 m (fmul (FFin 0) x) = 0" if "0 \<le> m" for x m
      using that by (cases x) (auto simp: rnd_0 ftrunc_def)
    then have "uint (windows_adjustment inc tot) = 0" for tot
      unfolding w sc_def using True by (simp add: f_of_int_def rnd_0)
    then show ?thesis by (simp add: word_le_def)
  next
    case False
    then have "0 < uint inc" using uint_nonnegative[of inc] by (metis order_le_less uint_0_iff)
    moreover have "uint inc \<le> 2 ^ 64" using uint_bounded[of inc] by simp
    ultimately have "0 < fval (f_of_int (uint inc)) \<and> is_finite (f_of_int (uint inc))"
      by (rule f_of_int_pos)
    then have sm: "fle (sc tot1) (sc tot2)" using inner unfolding sc_def by (intro fmul_mono) auto
    then have "fle (sc tot2) (FFin 0) \<Longrightarrow> fle (sc tot1) (FFin 0)" by (rule fle_trans)
    then show ?thesis
      using f_to_int_mono[OF sm, of 0 "2 ^ 64 - 1"] f_to_int_bounds[of 0 "2 ^ 64 - 1" "sc tot2"]
      by (auto simp: word_le_def w)
  qed
qed

lemma windows_adjustment_monotone_witness:
  "windows_adjustment 1000 (FFin (-2000000)) = 0 \<and>
   windows_adjustment 1000 (FFin (-2000000)) \<le> windows_adjustment 1000 (FFin (-1000))"
proof
  show "windows_adjustment 1000 (FFin (-2000000)) \<le> windows_adjustment 1000 (FFin (-1000))"
    by (rule windows_adjustment_monotone) simp
qed code_simp

lemma total_ppm_bounds:
  assumes "\<not> is_nan (fadd freq (fcopysign rate off))" and "fle (FFin 0) mx"
  shows "\<exists>y. total_ppm freq off rate mx = Some y \<and> fle (fneg mx) y \<and> fle y mx"
proof -
  have "fle (fneg mx) mx" using fneg_anti[OF assms(2)] assms(2) by (auto intro: fle_trans simp: fle_def)
  then obtain y where y: "total_ppm freq off rate mx = Some y"
    using fclamp_some unfolding total_ppm_def Let_def by blast
  then show ?thesis
    using fclamp_bounds assms(1) unfolding total_ppm_def Let_def by blast
qed

end
