(* ===== verification/Discipline.thy ===== *)
theory Discipline
  imports Prelude Float64
begin

text \<open>The clock-discipline loop, \<open>crates/rusty_time-core/src/discipline.rs\<close>.  The state is the
record of the struct's fields; \<open>on_estimate_with_leap\<close> is the composition, in source order, of the
steps its body is made of, each a definition of its own.  \<open>u32\<close> counters are words, so \<open>+= 1\<close>
wraps as in a release build; the \<open>i8\<close> poll exponent is an integer, because it only moves
towards another \<open>i8\<close> it was just compared with.  The two frequency clamps panic on reversed bounds,
so the step returns an option.\<close>

subsection \<open>Configuration, commands and state\<close>

datatype LeapMode = LeapSlew | LeapStep | LeapIgnore

record DisciplineConfig =
  cf_makestep_threshold :: "f64 option"
  cf_makestep_limit :: u32
  cf_max_slew_ppm :: f64
  cf_max_freq_ppm :: f64
  cf_min_poll :: int
  cf_max_poll :: int
  cf_iburst :: bool
  cf_freq_integral_gain :: f64
  cf_poll_down_noise_ratio :: f64
  cf_poll_up_streak :: u32
  cf_weight_floor_ratio :: f64
  cf_offset_weight_floor_ratio :: f64
  cf_offset_age_halflife_s :: f64
  cf_offset_weight_dispersion_k :: f64
  cf_slope_density_weighting :: bool
  cf_corr_time_s :: f64
  cf_adaptive_window :: bool
  cf_corr_time_max_s :: f64
  cf_leap_mode :: LeapMode
  cf_max_change_s :: "f64 option"
  cf_max_change_start :: u32
  cf_max_change_ignore :: int
  cf_corr_time_ratio :: f64

datatype ClockCommand =
    Step (step_add: f64)
  | Slew (slew_freq: f64) (slew_offset: f64) (slew_rate: f64)

datatype ChangeVerdict = Accepted | Refused f64 u32 | GiveUp f64

record Plan =
  pl_command :: ClockCommand
  pl_next_poll_s :: f64
  pl_reset_register :: bool
  pl_verdict :: ChangeVerdict

definition IBURST_COUNT :: u32 where "IBURST_COUNT = 4"
definition IBURST_SPACING_S :: f64 where "IBURST_SPACING_S = FFin 2"
definition CORR_TIME_RATIO :: f64 where "CORR_TIME_RATIO = FFin 1"
definition ACQUIRE_CORR_RATIO :: f64 where "ACQUIRE_CORR_RATIO = FFin 1"
definition ACQUIRE_NOISE_MULTIPLE :: f64 where "ACQUIRE_NOISE_MULTIPLE = FFin 10"
definition ACQUIRE_UPDATES :: u32 where "ACQUIRE_UPDATES = 8"
definition ACQUIRE_SLEW_SHARE :: f64 where "ACQUIRE_SLEW_SHARE = FFin (1/4)"
definition ACQUIRE_FULL_SPEED_CONFIDENCE :: f64 where "ACQUIRE_FULL_SPEED_CONFIDENCE = FFin 10000"
definition FREQ_TRUST_SLEW_SHARE :: f64 where "FREQ_TRUST_SLEW_SHARE = FFin (1/4)"
definition MAX_ACQUIRE_BURST :: u32 where "MAX_ACQUIRE_BURST = 16"
definition FREQ_INTEGRAL_GAIN :: f64 where "FREQ_INTEGRAL_GAIN = FFin 0"
definition POLL_DOWN_NOISE_RATIO :: f64 where "POLL_DOWN_NOISE_RATIO = FFin 10"
definition CORR_TIME_MAX_S :: f64 where "CORR_TIME_MAX_S = FFin 128"
definition LEAP_EXEMPTION_S :: f64 where "LEAP_EXEMPTION_S = FFin 2"
definition POLL_UP_STREAK :: u32 where "POLL_UP_STREAK = 3"
definition OFFSET_EWMA_ALPHA :: f64 where "OFFSET_EWMA_ALPHA = FFin (1/4)"
definition ACQUIRE_DONE_S :: f64 where "ACQUIRE_DONE_S = flit (1 / 1000)"

text \<open>The out-of-range branch of \<open>exp2i\<close> (\<open>powi\<close>) is unreachable: every caller passes an \<open>i8\<close>.\<close>

definition exp2i :: "int \<Rightarrow> f64" where
  "exp2i k = (if -1022 \<le> k \<and> k \<le> 1023 then FFin (pow2 k) else rnd False (pow2 k))"

definition config_default :: DisciplineConfig where
  "config_default = \<lparr>
     cf_makestep_threshold = Some (FFin 1), cf_makestep_limit = 3,
     cf_max_slew_ppm = FFin 83333, cf_max_freq_ppm = FFin 500,
     cf_min_poll = 6, cf_max_poll = 10, cf_iburst = True,
     cf_freq_integral_gain = FREQ_INTEGRAL_GAIN,
     cf_poll_down_noise_ratio = POLL_DOWN_NOISE_RATIO, cf_poll_up_streak = POLL_UP_STREAK,
     cf_weight_floor_ratio = FFin (1/8), cf_offset_weight_floor_ratio = FFin (1/32),
     cf_offset_age_halflife_s = FInf False, cf_offset_weight_dispersion_k = FFin 0,
     cf_slope_density_weighting = False, cf_corr_time_s = FFin 0, cf_adaptive_window = True,
     cf_corr_time_max_s = CORR_TIME_MAX_S, cf_leap_mode = LeapSlew,
     cf_max_change_s = None, cf_max_change_start = 1, cf_max_change_ignore = 2,
     cf_corr_time_ratio = FFin 0 \<rparr>"

record Discipline =
  d_cfg :: DisciplineConfig
  d_freq_ppm :: f64
  d_updates :: u32
  d_poll :: int
  d_stable_streak :: u32
  d_iburst_left :: u32
  d_last_drain_share :: f64
  d_burst_used :: u32
  d_offset_ewma :: f64
  d_ewma_seeded :: bool
  d_change_refusals :: u32

definition discipline_new :: "DisciplineConfig \<Rightarrow> Discipline" where
  "discipline_new cfg = \<lparr>
     d_cfg = cfg, d_freq_ppm = FFin 0, d_updates = 0, d_poll = cf_min_poll cfg, d_stable_streak = 0,
     d_iburst_left = (if cf_iburst cfg then IBURST_COUNT else 0), d_last_drain_share = FFin 0,
     d_burst_used = 0, d_offset_ewma = FFin 0, d_ewma_seeded = False, d_change_refusals = 0 \<rparr>"

subsection \<open>The steps of one update\<close>

definition acquire_share :: "f64 \<Rightarrow> f64 \<Rightarrow> f64" where
  "acquire_share offset noise =
     (let confidence = fdiv (fabs offset) (fmax noise (flit (1 / 1000000000)))
      in if fle ACQUIRE_FULL_SPEED_CONFIDENCE confidence then FFin 1 else ACQUIRE_SLEW_SHARE)"

definition peek_poll_interval :: "Discipline \<Rightarrow> f64" where
  "peek_poll_interval d = (if 0 < d_iburst_left d then IBURST_SPACING_S else exp2i (d_poll d))"

definition take_poll_interval :: "Discipline \<Rightarrow> f64 \<times> Discipline" where
  "take_poll_interval d =
     (if 0 < d_iburst_left d
      then (IBURST_SPACING_S, d\<lparr> d_iburst_left := d_iburst_left d - 1, d_burst_used := d_burst_used d + 1 \<rparr>)
      else (exp2i (d_poll d), d))"

definition leap_exempt :: "Discipline \<Rightarrow> f64 \<Rightarrow> bool \<Rightarrow> bool" where
  "leap_exempt d offset leap_pending \<longleftrightarrow>
     leap_pending \<and> cf_leap_mode (d_cfg d) \<noteq> LeapIgnore \<and> fle (fabs offset) LEAP_EXEMPTION_S"

definition step_plan :: "f64 \<Rightarrow> Discipline \<Rightarrow> Plan \<times> Discipline" where
  "step_plan offset d =
     (case take_poll_interval d of (poll, d') \<Rightarrow>
        (\<lparr> pl_command = Step offset, pl_next_poll_s = poll, pl_reset_register = True, pl_verdict = Accepted \<rparr>, d'))"

definition guard_refuses :: "Discipline \<Rightarrow> f64 \<Rightarrow> bool \<Rightarrow> bool" where
  "guard_refuses d offset leap_pending \<longleftrightarrow>
     (case cf_max_change_s (d_cfg d) of
        None \<Rightarrow> False
      | Some limit \<Rightarrow> \<not> leap_exempt d offset leap_pending \<and>
          cf_max_change_start (d_cfg d) < d_updates d \<and> \<not> fle (fabs offset) limit)"

definition sat_inc :: "u32 \<Rightarrow> u32" where
  "sat_inc w = (if w = - 1 then - 1 else w + 1)"

definition refuse_plan :: "f64 \<Rightarrow> Discipline \<Rightarrow> Plan \<times> Discipline" where
  "refuse_plan offset d =
     (let refusals = sat_inc (d_change_refusals d);
          spent = (0 \<le> cf_max_change_ignore (d_cfg d) \<and> cf_max_change_ignore (d_cfg d) < uint refusals);
          d1 = d\<lparr> d_change_refusals := refusals, d_stable_streak := 0 \<rparr>
      in case take_poll_interval d1 of (poll, d2) \<Rightarrow>
        (\<lparr> pl_command = Slew (d_freq_ppm d) (FFin 0) (FFin 0), pl_next_poll_s = poll,
           pl_reset_register = False,
           pl_verdict = (if spent then GiveUp offset else Refused offset refusals) \<rparr>, d2))"

definition makestep_applies :: "Discipline \<Rightarrow> f64 \<Rightarrow> bool" where
  "makestep_applies d offset \<longleftrightarrow>
     (case cf_makestep_threshold (d_cfg d) of
        None \<Rightarrow> False
      | Some threshold \<Rightarrow> flt threshold (fabs offset) \<and> d_updates d \<le> cf_makestep_limit (d_cfg d))"

definition clamp_max_freq :: "Discipline \<Rightarrow> f64 \<Rightarrow> f64 option" where
  "clamp_max_freq d x = fclamp x (fneg (cf_max_freq_ppm (d_cfg d))) (cf_max_freq_ppm (d_cfg d))"

definition measure_freq :: "f64 option \<Rightarrow> Discipline \<Rightarrow> Discipline option" where
  "measure_freq freq_meas d =
     (case freq_meas of
        None \<Rightarrow> Some d
      | Some fm \<Rightarrow>
          if flt FREQ_TRUST_SLEW_SHARE (d_last_drain_share d) then Some d
          else map_option (\<lambda>f. d\<lparr> d_freq_ppm := f \<rparr>) (clamp_max_freq d (fadd (d_freq_ppm d) fm)))"

definition noise_of :: "f64 \<Rightarrow> f64" where
  "noise_of offset_sd = fmax offset_sd (flit (1 / 10000000))"

definition update_ewma :: "f64 \<Rightarrow> Discipline \<Rightarrow> Discipline" where
  "update_ewma offset d =
     (if d_ewma_seeded d
      then d\<lparr> d_offset_ewma := fadd (fmul (fsub (FFin 1) OFFSET_EWMA_ALPHA) (d_offset_ewma d))
                (fmul OFFSET_EWMA_ALPHA offset) \<rparr>
      else d\<lparr> d_offset_ewma := offset, d_ewma_seeded := True \<rparr>)"

definition integral_trim :: "f64 \<Rightarrow> Discipline \<Rightarrow> Discipline option" where
  "integral_trim noise d =
     (if \<not> feq (cf_freq_integral_gain (d_cfg d)) (FFin 0) \<and> ACQUIRE_UPDATES < d_updates d \<and>
         flt noise (fabs (d_offset_ewma d))
      then let implied = fmul (fdiv (d_offset_ewma d) (fmul CORR_TIME_RATIO (peek_poll_interval d))) (FFin 1000000)
           in map_option (\<lambda>f. d\<lparr> d_freq_ppm := f \<rparr>)
                (clamp_max_freq d (fadd (d_freq_ppm d) (fmul (cf_freq_integral_gain (d_cfg d)) implied)))
      else Some d)"

definition adapt_poll :: "f64 \<Rightarrow> f64 \<Rightarrow> Discipline \<Rightarrow> Discipline" where
  "adapt_poll offset noise d =
     (if flt (fabs offset) (fmul (FFin 2) noise)
      then (let streak = d_stable_streak d + 1 in
            if cf_poll_up_streak (d_cfg d) \<le> streak \<and> d_poll d < cf_max_poll (d_cfg d)
            then d\<lparr> d_poll := d_poll d + 1, d_stable_streak := 0 \<rparr>
            else d\<lparr> d_stable_streak := streak \<rparr>)
      else (if flt (fmul (cf_poll_down_noise_ratio (d_cfg d)) noise) (fabs offset) \<and>
               cf_min_poll (d_cfg d) < d_poll d
            then d\<lparr> d_stable_streak := 0, d_poll := d_poll d - 1 \<rparr>
            else d\<lparr> d_stable_streak := 0 \<rparr>))"

definition extend_burst :: "f64 \<Rightarrow> f64 \<Rightarrow> Discipline \<Rightarrow> Discipline" where
  "extend_burst offset noise d =
     (if d_iburst_left d = 0 \<and> cf_iburst (d_cfg d) \<and> d_burst_used d < MAX_ACQUIRE_BURST \<and>
         flt (fmax ACQUIRE_DONE_S (fmul (FFin 2) noise)) (fabs offset)
      then d\<lparr> d_iburst_left := 1 \<rparr> else d)"

definition correction_time :: "Discipline \<Rightarrow> f64 \<Rightarrow> f64" where
  "correction_time d poll_s =
     (let ratio = (if flt (FFin 0) (cf_corr_time_ratio (d_cfg d)) then cf_corr_time_ratio (d_cfg d) else CORR_TIME_RATIO)
      in if flt (FFin 0) (cf_corr_time_s (d_cfg d)) then cf_corr_time_s (d_cfg d)
         else fmin (fmul ratio poll_s) (cf_corr_time_max_s (d_cfg d)))"

definition wanted_rate :: "f64 \<Rightarrow> f64 \<Rightarrow> Discipline \<Rightarrow> f64" where
  "wanted_rate offset noise d =
     (let poll_s = peek_poll_interval d in
      if d_updates d \<le> ACQUIRE_UPDATES \<and> flt (fmul ACQUIRE_NOISE_MULTIPLE noise) (fabs offset)
      then fmin (fmul (fdiv (fabs offset) (fmul ACQUIRE_CORR_RATIO poll_s)) (FFin 1000000))
             (fmul (cf_max_slew_ppm (d_cfg d)) (acquire_share offset noise))
      else fmul (fdiv (fabs offset) (correction_time d poll_s)) (FFin 1000000))"

definition slew_plan :: "f64 \<Rightarrow> f64 \<Rightarrow> Discipline \<Rightarrow> Plan \<times> Discipline" where
  "slew_plan offset noise d =
     (let rate = fmin (wanted_rate offset noise d) (cf_max_slew_ppm (d_cfg d));
          d1 = d\<lparr> d_last_drain_share :=
                 (if flt (FFin 0) (cf_max_slew_ppm (d_cfg d)) then fdiv rate (cf_max_slew_ppm (d_cfg d)) else FFin 0) \<rparr>
      in case take_poll_interval d1 of (poll, d2) \<Rightarrow>
        (\<lparr> pl_command = Slew (d_freq_ppm d) offset rate, pl_next_poll_s = poll,
           pl_reset_register = False, pl_verdict = Accepted \<rparr>, d2))"

definition steer :: "f64 \<Rightarrow> f64 option \<Rightarrow> f64 \<Rightarrow> Discipline \<Rightarrow> (Plan \<times> Discipline) option" where
  "steer offset freq_meas offset_sd d =
     (let noise = noise_of offset_sd in
      case measure_freq freq_meas d of
        None \<Rightarrow> None
      | Some d1 \<Rightarrow>
          (case integral_trim noise (update_ewma offset d1) of
             None \<Rightarrow> None
           | Some d2 \<Rightarrow> Some (slew_plan offset noise (extend_burst offset noise (adapt_poll offset noise d2)))))"

definition on_estimate_with_leap ::
  "f64 \<Rightarrow> f64 option \<Rightarrow> f64 \<Rightarrow> bool \<Rightarrow> Discipline \<Rightarrow> (Plan \<times> Discipline) option" where
  "on_estimate_with_leap offset freq_meas offset_sd leap_pending d0 =
     (let d = d0\<lparr> d_updates := d_updates d0 + 1 \<rparr> in
      if leap_exempt d offset leap_pending \<and> cf_leap_mode (d_cfg d) = LeapStep
      then Some (step_plan offset (d\<lparr> d_stable_streak := 0, d_change_refusals := 0 \<rparr>))
      else if guard_refuses d offset leap_pending then Some (refuse_plan offset d)
      else let d1 = d\<lparr> d_change_refusals := 0 \<rparr> in
        if makestep_applies d1 offset then Some (step_plan offset (d1\<lparr> d_stable_streak := 0 \<rparr>))
        else steer offset freq_meas offset_sd d1)"

definition on_estimate :: "f64 \<Rightarrow> f64 option \<Rightarrow> f64 \<Rightarrow> Discipline \<Rightarrow> (Plan \<times> Discipline) option" where
  "on_estimate offset freq_meas offset_sd d = on_estimate_with_leap offset freq_meas offset_sd False d"

definition retry_interval_s :: "Discipline \<Rightarrow> f64" where
  "retry_interval_s d = peek_poll_interval d"


subsection \<open>Well-formedness\<close>

definition cfg_ok :: "DisciplineConfig \<Rightarrow> bool" where
  "cfg_ok c \<longleftrightarrow>
     fle (FFin 0) (cf_max_freq_ppm c) \<and> is_finite (cf_max_freq_ppm c) \<and>
     \<not> is_nan (cf_max_slew_ppm c) \<and> \<not> fsign (cf_max_slew_ppm c) \<and> \<not> fsign (cf_corr_time_max_s c) \<and>
     is_finite (cf_freq_integral_gain c) \<and>
     -128 \<le> cf_min_poll c \<and> cf_min_poll c \<le> cf_max_poll c \<and> cf_max_poll c \<le> 127"

definition freq_ok :: "DisciplineConfig \<Rightarrow> f64 \<Rightarrow> bool" where
  "freq_ok c f \<longleftrightarrow> fle (fneg (cf_max_freq_ppm c)) f \<and> fle f (cf_max_freq_ppm c)"

definition disc_ok :: "Discipline \<Rightarrow> bool" where
  "disc_ok d \<longleftrightarrow> cfg_ok (d_cfg d) \<and> freq_ok (d_cfg d) (d_freq_ppm d) \<and>
     cf_min_poll (d_cfg d) \<le> d_poll d \<and> d_poll d \<le> cf_max_poll (d_cfg d) \<and>
     uint (d_burst_used d) + uint (d_iburst_left d) \<le> 16"

definition poll_ok :: "DisciplineConfig \<Rightarrow> f64 \<Rightarrow> bool" where
  "poll_ok c s \<longleftrightarrow> s = FFin 2 \<or> (\<exists>k. cf_min_poll c \<le> k \<and> k \<le> cf_max_poll c \<and> s = FFin (pow2 k))"

definition plan_ok :: "DisciplineConfig \<Rightarrow> Plan \<Rightarrow> bool" where
  "plan_ok c p \<longleftrightarrow> poll_ok c (pl_next_poll_s p) \<and>
     (case pl_command p of
        Step _ \<Rightarrow> pl_reset_register p
      | Slew f _ r \<Rightarrow> \<not> pl_reset_register p \<and> freq_ok c f \<and> fle (FFin 0) r \<and> fle r (cf_max_slew_ppm c))"

lemma exp2i_i8: "-128 \<le> k \<Longrightarrow> k \<le> 127 \<Longrightarrow> exp2i k = FFin (pow2 k)"
  by (simp add: exp2i_def)

lemma fneg_le_self: "fle (FFin 0) m \<Longrightarrow> fle (fneg m) m"
  by (cases m) (auto simp: fle_def)

lemma config_default_ok: "cfg_ok config_default"
  by (simp add: cfg_ok_def config_default_def CORR_TIME_MAX_S_def FREQ_INTEGRAL_GAIN_def feq_def)

lemma discipline_new_ok: "cfg_ok c \<Longrightarrow> disc_ok (discipline_new c)"
  by (auto simp: disc_ok_def discipline_new_def freq_ok_def cfg_ok_def IBURST_COUNT_def fle_def
      split: f64.splits) (cases "cf_max_freq_ppm c"; auto simp: fle_def)+

lemma clamp_max_freq_ok:
  assumes "cfg_ok (d_cfg d)" "\<not> is_nan x"
  shows "\<exists>f. clamp_max_freq d x = Some f \<and> freq_ok (d_cfg d) f"
proof -
  have "fle (fneg (cf_max_freq_ppm (d_cfg d))) (cf_max_freq_ppm (d_cfg d))"
    using assms(1) by (intro fneg_le_self) (simp add: cfg_ok_def)
  then obtain f where "clamp_max_freq d x = Some f" using fclamp_some unfolding clamp_max_freq_def by blast
  then show ?thesis using fclamp_bounds assms(2) by (auto simp: clamp_max_freq_def freq_ok_def)
qed

lemma freq_ok_finite: "cfg_ok c \<Longrightarrow> freq_ok c f \<Longrightarrow> is_finite f"
  by (cases f; cases "cf_max_freq_ppm c") (auto simp: cfg_ok_def freq_ok_def fle_def split: if_splits)

lemma take_poll_ok:
  assumes "disc_ok d" "take_poll_interval d = (s, d')"
  shows "poll_ok (d_cfg d) s \<and> disc_ok d' \<and> d_cfg d' = d_cfg d \<and> d_freq_ppm d' = d_freq_ppm d"
proof (cases "0 < d_iburst_left d")
  case True
  then have "uint (d_iburst_left d - 1) = uint (d_iburst_left d) - 1"
    by (rule uint_dec)
  moreover have "uint (d_burst_used d + 1) = uint (d_burst_used d) + 1"
  proof (rule uint_inc)
    have "uint (d_burst_used d) \<le> 16" using assms(1) uint_nonnegative[of "d_iburst_left d"] unfolding disc_ok_def by linarith
    then show "uint (d_burst_used d) + 1 < 2 ^ LENGTH(32)" by simp
  qed
  ultimately show ?thesis using True assms
    by (auto simp: take_poll_interval_def disc_ok_def poll_ok_def IBURST_SPACING_S_def)
next
  case False
  then show ?thesis using assms
    by (auto simp: take_poll_interval_def disc_ok_def poll_ok_def cfg_ok_def exp2i_i8)
qed

lemma step_plan_ok:
  "disc_ok d \<Longrightarrow> step_plan x d = (p, d') \<Longrightarrow> plan_ok (d_cfg d) p \<and> disc_ok d' \<and> d_cfg d' = d_cfg d"
  using take_poll_ok[of d] by (auto simp: step_plan_def plan_ok_def split: prod.splits)

lemma refuse_plan_ok:
  assumes "disc_ok d" "refuse_plan x d = (p, d')"
  shows "plan_ok (d_cfg d) p \<and> disc_ok d' \<and> d_cfg d' = d_cfg d"
proof -
  define e where "e = d\<lparr> d_change_refusals := sat_inc (d_change_refusals d), d_stable_streak := 0 \<rparr>"
  have e: "disc_ok e" "d_cfg e = d_cfg d" using assms(1) by (simp_all add: disc_ok_def e_def)
  obtain s d2 where t: "take_poll_interval e = (s, d2)" by force
  note k = take_poll_ok[OF e(1) t]
  have z: "fle (FFin 0) (cf_max_slew_ppm (d_cfg d))" "freq_ok (d_cfg d) (d_freq_ppm d)"
    using assms(1) by (auto simp: disc_ok_def cfg_ok_def fsign_nonneg)
  show ?thesis using assms(2) t k e z by (auto simp: refuse_plan_def plan_ok_def Let_def simp flip: e_def)
qed

lemma measure_freq_ok:
  assumes "disc_ok d" "\<forall>f. fm = Some f \<longrightarrow> \<not> is_nan f"
  shows "\<exists>d'. measure_freq fm d = Some d' \<and> disc_ok d' \<and> d_cfg d' = d_cfg d"
proof -
  have c: "cfg_ok (d_cfg d)" "is_finite (d_freq_ppm d)"
    using assms(1) freq_ok_finite by (auto simp: disc_ok_def)
  then have "\<not> is_nan (fadd (d_freq_ppm d) f)" if "fm = Some f" for f
    using that assms(2) by (simp add: fadd_finite_not_nan)
  then show ?thesis using assms clamp_max_freq_ok[OF c(1)]
    by (fastforce simp: measure_freq_def disc_ok_def split: option.splits)
qed

lemma peek_poll_pow2: "disc_ok d \<Longrightarrow> \<exists>k. -1074 \<le> k \<and> k \<le> 127 \<and> peek_poll_interval d = FFin (pow2 k)"
proof (cases "0 < d_iburst_left d")
  case True
  then show ?thesis by (intro exI[of _ 1]) (simp add: peek_poll_interval_def IBURST_SPACING_S_def)
next
  case False
  assume "disc_ok d"
  then show ?thesis using False
    by (intro exI[of _ "d_poll d"]) (simp add: peek_poll_interval_def exp2i_i8 disc_ok_def cfg_ok_def)
qed

lemma corr_period_pow2: "disc_ok d \<Longrightarrow> \<exists>k. fmul CORR_TIME_RATIO (peek_poll_interval d) = FFin (pow2 k)"
proof -
  assume "disc_ok d"
  then obtain k where k: "-1074 \<le> k" "k \<le> 127" "peek_poll_interval d = FFin (pow2 k)" using peek_poll_pow2 by blast
  have "pow2 k < pow2 1024" using k by simp
  then have "rnd b (pow2 k) = FFin (pow2 k)" for b
    using k rnd_exact[of "pow2 k" b] by (simp add: rndr_pow2_mult abs_of_pos)
  then show ?thesis using k by (intro exI[of _ k]) (simp add: CORR_TIME_RATIO_def fmul_finite)
qed

lemma fmul_nonzero_not_nan: "is_finite g \<Longrightarrow> \<not> feq g (FFin 0) \<Longrightarrow> \<not> is_nan x \<Longrightarrow> \<not> is_nan (fmul g x)"
  by (cases g; cases x) (auto simp: feq_def fle_def)

lemma fdiv_pow2_not_nan: "\<not> is_nan x \<Longrightarrow> \<not> is_nan (fdiv x (FFin (pow2 k)))"
  by (cases x) simp_all

lemma feq_FFin: "feq (FFin a) (FFin b) \<longleftrightarrow> a = b"
  by (auto simp: feq_def)

lemma integral_term_not_nan:
  "is_finite g \<Longrightarrow> \<not> feq g (FFin 0) \<Longrightarrow> \<not> is_nan e \<Longrightarrow>
   \<not> is_nan (fmul g (fmul (fdiv e (FFin (pow2 k))) (FFin 1000000)))"
  using fmul_nonzero_not_nan[of "FFin 1000000" "fdiv e (FFin (pow2 k))"]
  by (simp add: fmul_nonzero_not_nan fdiv_pow2_not_nan fmul_commute[of _ "FFin 1000000"] feq_FFin)

text \<open>The integral correction, whatever the gain: it never panics, and the clamp keeps the frequency
within the ceiling.\<close>

lemma integral_trim_ok:
  assumes d: "disc_ok d"
  shows "\<exists>d'. integral_trim noise d = Some d' \<and> disc_ok d' \<and> d_cfg d' = d_cfg d \<and> d_burst_used d' = d_burst_used d"
proof (cases "\<not> feq (cf_freq_integral_gain (d_cfg d)) (FFin 0) \<and> ACQUIRE_UPDATES < d_updates d \<and> flt noise (fabs (d_offset_ewma d))")
  case True
  obtain k where k: "fmul CORR_TIME_RATIO (peek_poll_interval d) = FFin (pow2 k)" using corr_period_pow2[OF d] by blast
  have c: "cfg_ok (d_cfg d)" "is_finite (cf_freq_integral_gain (d_cfg d))" "is_finite (d_freq_ppm d)"
    using d freq_ok_finite[of "d_cfg d" "d_freq_ppm d"] by (simp_all add: disc_ok_def cfg_ok_def)
  have "\<not> is_nan (d_offset_ewma d)" using True flt_not_nan[of noise "fabs (d_offset_ewma d)"] by simp
  then have "\<not> is_nan (fadd (d_freq_ppm d)
      (fmul (cf_freq_integral_gain (d_cfg d)) (fmul (fdiv (d_offset_ewma d) (FFin (pow2 k))) (FFin 1000000))))"
    using c True by (intro fadd_finite_not_nan integral_term_not_nan) simp_all
  from clamp_max_freq_ok[OF c(1) this] show ?thesis
    using True k d by (auto simp: integral_trim_def Let_def disc_ok_def)
next
  case False
  then show ?thesis using d by (simp only: integral_trim_def if_False) blast
qed

lemma update_ewma_ok: "disc_ok (update_ewma x d) = disc_ok d" "d_cfg (update_ewma x d) = d_cfg d"
  by (simp_all add: update_ewma_def disc_ok_def)

lemma adapt_poll_ok: "disc_ok d \<Longrightarrow> disc_ok (adapt_poll x n d)" "d_cfg (adapt_poll x n d) = d_cfg d"
  by (simp_all add: adapt_poll_def disc_ok_def Let_def)

lemma extend_burst_ok: "disc_ok d \<Longrightarrow> disc_ok (extend_burst x n d)" "d_cfg (extend_burst x n d) = d_cfg d"
  by (auto simp: extend_burst_def disc_ok_def MAX_ACQUIRE_BURST_def word_less_def)

lemma peek_sign: "disc_ok d \<Longrightarrow> \<not> fsign (peek_poll_interval d)"
  by (simp add: peek_poll_interval_def IBURST_SPACING_S_def exp2i_i8 disc_ok_def cfg_ok_def)

lemma correction_time_sign:
  "cfg_ok (d_cfg d) \<Longrightarrow> \<not> fsign s \<Longrightarrow> \<not> fsign (correction_time d s)"
  using flt0_sign[of "cf_corr_time_ratio (d_cfg d)"] flt0_sign[of "cf_corr_time_s (d_cfg d)"]
  by (simp add: correction_time_def Let_def cfg_ok_def CORR_TIME_RATIO_def fsign_fmin fsign_fmul)

lemma wanted_rate_sign: "disc_ok d \<Longrightarrow> \<not> fsign (wanted_rate x n d)"
proof -
  assume d: "disc_ok d"
  then have c: "cfg_ok (d_cfg d)" "\<not> fsign (cf_max_slew_ppm (d_cfg d))" by (auto simp: disc_ok_def cfg_ok_def)
  show ?thesis
    using peek_sign[OF d] correction_time_sign[OF c(1) peek_sign[OF d]] c(2)
    by (simp add: wanted_rate_def Let_def acquire_share_def ACQUIRE_CORR_RATIO_def ACQUIRE_SLEW_SHARE_def
        fsign_fmin fsign_fmul fsign_fdiv)
qed

lemma slew_plan_ok:
  assumes "disc_ok d" "slew_plan x n d = (p, d')"
  shows "plan_ok (d_cfg d) p \<and> disc_ok d' \<and> d_cfg d' = d_cfg d"
proof -
  define r where "r = fmin (wanted_rate x n d) (cf_max_slew_ppm (d_cfg d))"
  have m: "\<not> is_nan (cf_max_slew_ppm (d_cfg d))" "\<not> fsign (cf_max_slew_ppm (d_cfg d))"
    using assms(1) by (auto simp: disc_ok_def cfg_ok_def)
  have r: "fle (FFin 0) r" "fle r (cf_max_slew_ppm (d_cfg d))"
    unfolding r_def
    by (rule fsign_nonneg, rule fsign_fmin[OF wanted_rate_sign[OF assms(1)] m(2)], simp add: fmin_not_nan m,
        rule fmin_le_right[OF m(1)])
  define e where "e = d\<lparr> d_last_drain_share :=
      (if flt (FFin 0) (cf_max_slew_ppm (d_cfg d)) then fdiv r (cf_max_slew_ppm (d_cfg d)) else FFin 0) \<rparr>"
  have e: "disc_ok e" "d_cfg e = d_cfg d" using assms(1) by (simp_all add: disc_ok_def e_def)
  obtain s d2 where t: "take_poll_interval e = (s, d2)" by force
  have f: "freq_ok (d_cfg d) (d_freq_ppm d)" using assms(1) by (simp add: disc_ok_def)
  show ?thesis using assms(2) t take_poll_ok[OF e(1) t] e r f
    by (auto simp: slew_plan_def plan_ok_def Let_def simp flip: r_def e_def)
qed

lemma on_estimate_ok:
  assumes d: "disc_ok d" and fm: "\<forall>f. fm = Some f \<longrightarrow> \<not> is_nan f"
  shows "\<exists>p d'. on_estimate_with_leap x fm sd leap d = Some (p, d') \<and>
           plan_ok (d_cfg d) p \<and> disc_ok d' \<and> d_cfg d' = d_cfg d"
proof -
  have steer_ok: "\<exists>p d'. steer x fm sd e = Some (p, d') \<and> plan_ok (d_cfg e) p \<and> disc_ok d' \<and> d_cfg d' = d_cfg e"
    if e: "disc_ok e" for e
  proof -
    obtain d1 where 1: "measure_freq fm e = Some d1" "disc_ok d1" "d_cfg d1 = d_cfg e"
      using measure_freq_ok[OF e fm] by blast
    define d2 where "d2 = update_ewma x d1"
    have "disc_ok d2" "d_cfg d2 = d_cfg e" using 1 by (simp_all add: d2_def update_ewma_ok)
    then obtain d2' where t: "integral_trim (noise_of sd) d2 = Some d2'" and 2: "disc_ok d2'" "d_cfg d2' = d_cfg e"
      and b2: "d_burst_used d2' = d_burst_used d2"
      using integral_trim_ok by metis
    define d3 where "d3 = extend_burst x (noise_of sd) (adapt_poll x (noise_of sd) d2')"
    have 3: "disc_ok d3" "d_cfg d3 = d_cfg e" using 2 by (simp_all add: d3_def adapt_poll_ok extend_burst_ok)
    obtain p d' where p: "slew_plan x (noise_of sd) d3 = (p, d')" by force
    show ?thesis using slew_plan_ok[OF 3(1) p] 1 3 t p
      by (simp add: steer_def Let_def flip: d2_def d3_def)
  qed
  define d1 where "d1 = d\<lparr> d_updates := d_updates d + 1 \<rparr>"
  have ok: "disc_ok d1" "disc_ok (d1\<lparr> d_change_refusals := 0 \<rparr>)"
      "disc_ok (d1\<lparr> d_stable_streak := 0, d_change_refusals := 0 \<rparr>)"
      "disc_ok (d1\<lparr> d_change_refusals := 0, d_stable_streak := 0 \<rparr>)" "d_cfg d1 = d_cfg d"
    using d by (simp_all add: disc_ok_def d1_def)
  obtain p1 e1 p2 e2 p3 e3 where
    s: "step_plan x (d1\<lparr> d_stable_streak := 0, d_change_refusals := 0 \<rparr>) = (p1, e1)"
      "refuse_plan x d1 = (p2, e2)" "step_plan x (d1\<lparr> d_change_refusals := 0, d_stable_streak := 0 \<rparr>) = (p3, e3)"
    by (metis surj_pair)
  show ?thesis
    using step_plan_ok[OF ok(3) s(1)] refuse_plan_ok[OF ok(1) s(2)] step_plan_ok[OF ok(4) s(3)] steer_ok[OF ok(2)] s ok(5)
    unfolding on_estimate_with_leap_def Let_def d1_def[symmetric] by auto
qed


subsection \<open>Runs\<close>

record EstEvent =
  es_offset :: f64
  es_freq :: "f64 option"
  es_sd :: f64
  es_leap :: bool

fun disc_run :: "EstEvent list \<Rightarrow> Discipline \<Rightarrow> (Plan list \<times> Discipline) option" where
  "disc_run [] d = Some ([], d)"
| "disc_run (e # es) d =
     (case on_estimate_with_leap (es_offset e) (es_freq e) (es_sd e) (es_leap e) d of
        None \<Rightarrow> None
      | Some (p, d') \<Rightarrow> (case disc_run es d' of None \<Rightarrow> None | Some (ps, d'') \<Rightarrow> Some (p # ps, d'')))"

definition est_ok :: "EstEvent \<Rightarrow> bool" where
  "est_ok e \<longleftrightarrow> (case es_freq e of None \<Rightarrow> True | Some f \<Rightarrow> \<not> is_nan f)"

lemma disc_run_ok:
  "disc_ok d \<Longrightarrow> list_all est_ok es \<Longrightarrow>
   \<exists>ps d'. disc_run es d = Some (ps, d') \<and> length ps = length es \<and> list_all (plan_ok (d_cfg d)) ps \<and> disc_ok d'"
proof (induction es arbitrary: d)
  case (Cons e es)
  have "\<forall>f. es_freq e = Some f \<longrightarrow> \<not> is_nan f" using Cons.prems(2) by (auto simp: est_ok_def)
  from on_estimate_ok[OF Cons.prems(1) this] obtain p d' where
    p: "on_estimate_with_leap (es_offset e) (es_freq e) (es_sd e) (es_leap e) d = Some (p, d')"
      "plan_ok (d_cfg d) p" "disc_ok d'" "d_cfg d' = d_cfg d" by blast
  obtain ps d'' where "disc_run es d' = Some (ps, d'')" "length ps = length es"
      "list_all (plan_ok (d_cfg d')) ps" "disc_ok d''"
    using Cons.IH[OF p(3)] Cons.prems(2) by auto
  then show ?case using p by simp
qed auto

subsection \<open>The maximum-change guard\<close>

definition out_of_limit :: "DisciplineConfig \<Rightarrow> EstEvent \<Rightarrow> bool" where
  "out_of_limit c e \<longleftrightarrow> (case cf_max_change_s c of None \<Rightarrow> False | Some l \<Rightarrow> \<not> fle (fabs (es_offset e)) l) \<and> \<not> es_leap e"

lemma take_poll_keeps:
  assumes "take_poll_interval d = (s, d')"
  shows "d_cfg d' = d_cfg d" "d_freq_ppm d' = d_freq_ppm d" "d_updates d' = d_updates d"
    "d_change_refusals d' = d_change_refusals d"
  using assms by (auto simp: take_poll_interval_def split: if_splits)

lemma refuse_step:
  assumes "out_of_limit (d_cfg d) e" "cf_max_change_start (d_cfg d) < d_updates d + 1"
  shows "\<exists>s d'. on_estimate_with_leap (es_offset e) (es_freq e) (es_sd e) (es_leap e) d =
     Some (\<lparr> pl_command = Slew (d_freq_ppm d) (FFin 0) (FFin 0), pl_next_poll_s = s, pl_reset_register = False,
       pl_verdict = (if 0 \<le> cf_max_change_ignore (d_cfg d) \<and> cf_max_change_ignore (d_cfg d) < uint (sat_inc (d_change_refusals d))
          then GiveUp (es_offset e) else Refused (es_offset e) (sat_inc (d_change_refusals d))) \<rparr>, d') \<and>
     d_cfg d' = d_cfg d \<and> d_freq_ppm d' = d_freq_ppm d \<and> d_updates d' = d_updates d + 1 \<and>
     d_change_refusals d' = sat_inc (d_change_refusals d)"
proof -
  define d1 where "d1 = d\<lparr> d_updates := d_updates d + 1 \<rparr>"
  define e1 where "e1 = d1\<lparr> d_change_refusals := sat_inc (d_change_refusals d1), d_stable_streak := 0 \<rparr>"
  obtain s d' where t: "take_poll_interval e1 = (s, d')" by force
  have "\<not> es_leap e" using assms(1) by (simp add: out_of_limit_def)
  then have "\<not> leap_exempt d1 (es_offset e) (es_leap e)" "guard_refuses d1 (es_offset e) (es_leap e)"
    using assms by (auto simp: out_of_limit_def leap_exempt_def guard_refuses_def d1_def split: option.splits)
  then have "on_estimate_with_leap (es_offset e) (es_freq e) (es_sd e) (es_leap e) d = Some (refuse_plan (es_offset e) d1)"
    unfolding on_estimate_with_leap_def Let_def d1_def[symmetric] by simp
  then show ?thesis using t take_poll_keeps[OF t]
    by (auto simp: refuse_plan_def Let_def d1_def e1_def)
qed


lemma refuse_run:
  assumes "list_all (out_of_limit (d_cfg d)) es"
    and "cf_max_change_start (d_cfg d) \<le> d_updates d" and "uint (d_updates d) + int (length es) < 2 ^ 32"
    and "0 \<le> cf_max_change_ignore (d_cfg d)" and "uint (d_change_refusals d) + int (length es) < 2 ^ 32"
  shows "\<exists>ps d'. disc_run es d = Some (ps, d') \<and>
     list_all (\<lambda>p. pl_command p = Slew (d_freq_ppm d) (FFin 0) (FFin 0)) ps \<and>
     map (\<lambda>p. case pl_verdict p of GiveUp _ \<Rightarrow> True | _ \<Rightarrow> False) ps =
       map (\<lambda>i. cf_max_change_ignore (d_cfg d) \<le> uint (d_change_refusals d) + int i) [0..<length es]"
  using assms
proof (induction es arbitrary: d)
  case (Cons e es)
  let ?r = "d_change_refusals d"
  have u: "uint (d_updates d + 1) = uint (d_updates d) + 1" using Cons.prems(3) by (intro uint_inc) simp
  then have st: "cf_max_change_start (d_cfg d) < d_updates d + 1" using Cons.prems(2) by (simp add: word_less_def word_le_def)
  have "?r \<noteq> - 1" using Cons.prems(5) by (auto simp: unsigned_minus_1_eq_mask mask_eq_exp_minus_1)
  then have sr: "sat_inc ?r = ?r + 1" "uint (?r + 1) = uint ?r + 1"
    using Cons.prems(5) by (auto simp: sat_inc_def intro!: uint_inc)
  obtain s d' where o: "on_estimate_with_leap (es_offset e) (es_freq e) (es_sd e) (es_leap e) d =
     Some (\<lparr> pl_command = Slew (d_freq_ppm d) (FFin 0) (FFin 0), pl_next_poll_s = s, pl_reset_register = False,
       pl_verdict = (if 0 \<le> cf_max_change_ignore (d_cfg d) \<and> cf_max_change_ignore (d_cfg d) < uint (sat_inc ?r)
          then GiveUp (es_offset e) else Refused (es_offset e) (sat_inc ?r)) \<rparr>, d')"
    and k: "d_cfg d' = d_cfg d" "d_freq_ppm d' = d_freq_ppm d" "d_updates d' = d_updates d + 1"
      "d_change_refusals d' = sat_inc ?r"
    using refuse_step[OF _ st] Cons.prems(1) by fastforce
  have le: "cf_max_change_start (d_cfg d') \<le> d_updates d'" using st k by simp
  obtain ps d'' where ps: "disc_run es d' = Some (ps, d'')"
     "list_all (\<lambda>p. pl_command p = Slew (d_freq_ppm d') (FFin 0) (FFin 0)) ps"
     "map (\<lambda>p. case pl_verdict p of GiveUp _ \<Rightarrow> True | _ \<Rightarrow> False) ps =
       map (\<lambda>i. cf_max_change_ignore (d_cfg d') \<le> uint (d_change_refusals d') + int i) [0..<length es]"
    using Cons.IH[of d'] Cons.prems k u sr le by auto
  have m: "map (\<lambda>i. g (Suc i)) [0..<n] = map g [1..<Suc n]" for g :: "nat \<Rightarrow> bool" and n
    by (simp add: map_Suc_upt[symmetric] comp_def del: upt_Suc)
  show ?case
    using o ps k sr Cons.prems(4) m[of "\<lambda>i. cf_max_change_ignore (d_cfg d) \<le> uint ?r + int i" "length es"]
    by (simp add: upt_conv_Cons add.assoc del: upt_Suc)
qed simp

subsection \<open>Polling\<close>

definition fast_poll :: "Plan \<Rightarrow> bool" where
  "fast_poll p \<longleftrightarrow> pl_next_poll_s p = IBURST_SPACING_S"

definition burst_step :: "Discipline \<Rightarrow> Plan \<times> Discipline \<Rightarrow> bool" where
  "burst_step d r \<longleftrightarrow> uint (d_burst_used (snd r)) = uint (d_burst_used d) + (if fast_poll (fst r) then 1 else 0)"

lemma pow2_not_2: "2 \<le> k \<Longrightarrow> pow2 k \<noteq> 2"
  using pow2_le_iff[of 2 k] by (auto simp: pow2_def simp del: pow2_le_iff)

lemma take_poll_burst:
  assumes "disc_ok d" "2 \<le> cf_min_poll (d_cfg d)" "take_poll_interval d = (s, d')"
  shows "uint (d_burst_used d') = uint (d_burst_used d) + (if s = IBURST_SPACING_S then 1 else 0)"
proof (cases "0 < d_iburst_left d")
  case True
  have "uint (d_burst_used d) \<le> 16" using assms(1) uint_nonnegative[of "d_iburst_left d"] unfolding disc_ok_def by linarith
  then have "uint (d_burst_used d + 1) = uint (d_burst_used d) + 1" by (intro uint_inc) simp
  then show ?thesis using True assms(3) by (auto simp: take_poll_interval_def)
next
  case False
  then have "s = FFin (pow2 (d_poll d))" "d' = d"
    using assms by (auto simp: take_poll_interval_def disc_ok_def cfg_ok_def exp2i_i8)
  moreover have "2 \<le> d_poll d" using assms by (simp add: disc_ok_def)
  ultimately show ?thesis using pow2_not_2 by (simp add: IBURST_SPACING_S_def)
qed

lemma plans_burst:
  assumes "disc_ok d" "2 \<le> cf_min_poll (d_cfg d)"
  shows "burst_step d (step_plan x d)" "burst_step d (refuse_plan x d)" "burst_step d (slew_plan x n d)"
proof -
  have *: "uint (d_burst_used d') = uint (d_burst_used d) + (if s = IBURST_SPACING_S then 1 else 0)"
    if "take_poll_interval e = (s, d')" "disc_ok e" "d_cfg e = d_cfg d" "d_burst_used e = d_burst_used d" for e s d'
    using take_poll_burst[of e s d'] that assms by simp
  obtain s d' where t: "take_poll_interval d = (s, d')" by force
  show "burst_step d (step_plan x d)"
    using *[OF t assms(1)] t by (simp add: burst_step_def fast_poll_def step_plan_def)
  define e where "e = d\<lparr> d_change_refusals := sat_inc (d_change_refusals d), d_stable_streak := 0 \<rparr>"
  have e: "disc_ok e" "d_cfg e = d_cfg d" "d_burst_used e = d_burst_used d" using assms(1) by (simp_all add: disc_ok_def e_def)
  obtain s1 d1 where t1: "take_poll_interval e = (s1, d1)" by force
  show "burst_step d (refuse_plan x d)"
    using *[OF t1 e] t1 by (simp add: burst_step_def fast_poll_def refuse_plan_def Let_def flip: e_def)
  define g where "g = (\<lambda>z. d\<lparr> d_last_drain_share := z \<rparr>)"
  have g: "disc_ok (g z)" "d_cfg (g z) = d_cfg d" "d_burst_used (g z) = d_burst_used d" for z
    using assms(1) by (simp_all add: disc_ok_def g_def)
  define z where "z = (if flt (FFin 0) (cf_max_slew_ppm (d_cfg d))
      then fdiv (fmin (wanted_rate x n d) (cf_max_slew_ppm (d_cfg d))) (cf_max_slew_ppm (d_cfg d)) else FFin 0)"
  obtain s2 d2 where t2: "take_poll_interval (g z) = (s2, d2)" by force
  show "burst_step d (slew_plan x n d)"
    using *[OF t2 g] t2 unfolding burst_step_def fast_poll_def slew_plan_def Let_def g_def z_def by simp
qed

text \<open>The four shapes of an update, by the branch that produced it.\<close>

lemma on_estimate_cases:
  assumes "on_estimate_with_leap x fm sd leap d = Some r"
  obtains
    (leap) "leap_exempt (d\<lparr> d_updates := d_updates d + 1 \<rparr>) x leap" "cf_leap_mode (d_cfg d) = LeapStep"
      "r = step_plan x (d\<lparr> d_updates := d_updates d + 1, d_stable_streak := 0, d_change_refusals := 0 \<rparr>)"
  | (refuse) "guard_refuses (d\<lparr> d_updates := d_updates d + 1 \<rparr>) x leap"
      "r = refuse_plan x (d\<lparr> d_updates := d_updates d + 1 \<rparr>)"
  | (makestep) "\<not> guard_refuses (d\<lparr> d_updates := d_updates d + 1 \<rparr>) x leap"
      "makestep_applies (d\<lparr> d_updates := d_updates d + 1, d_change_refusals := 0 \<rparr>) x"
      "r = step_plan x (d\<lparr> d_updates := d_updates d + 1, d_change_refusals := 0, d_stable_streak := 0 \<rparr>)"
  | (steer) "\<not> guard_refuses (d\<lparr> d_updates := d_updates d + 1 \<rparr>) x leap"
      "steer x fm sd (d\<lparr> d_updates := d_updates d + 1, d_change_refusals := 0 \<rparr>) = Some r"
proof -
  have c: "d_cfg (d\<lparr> d_updates := u \<rparr>) = d_cfg d" for u by simp
  note u = assms[unfolded on_estimate_with_leap_def Let_def c]
  show ?thesis
  proof (cases "leap_exempt (d\<lparr> d_updates := d_updates d + 1 \<rparr>) x leap \<and> cf_leap_mode (d_cfg d) = LeapStep")
    case True
    show ?thesis by (rule that(1)) (use True u in \<open>simp_all only: simp_thms if_True option.inject\<close>)
  next
    case l: False
    show ?thesis
    proof (cases "guard_refuses (d\<lparr> d_updates := d_updates d + 1 \<rparr>) x leap")
      case True
      show ?thesis by (rule that(2)) (use True l u in \<open>simp_all only: simp_thms if_True if_False option.inject\<close>)
    next
      case g: False
      show ?thesis
      proof (cases "makestep_applies (d\<lparr> d_updates := d_updates d + 1, d_change_refusals := 0 \<rparr>) x")
        case True
        show ?thesis by (rule that(3)) (use True g l u in \<open>simp_all only: simp_thms if_True if_False option.inject\<close>)
      next
        case False
        show ?thesis by (rule that(4)) (use False g l u in \<open>simp_all only: simp_thms if_True if_False\<close>)
      qed
    qed
  qed
qed

lemma burst_kept [simp]:
  "d_burst_used (update_ewma x d) = d_burst_used d" "d_burst_used (adapt_poll x n d) = d_burst_used d"
  "d_burst_used (extend_burst x n d) = d_burst_used d"
  by (simp_all add: update_ewma_def adapt_poll_def extend_burst_def Let_def)

lemma measure_freq_burst: "measure_freq fm d = Some d' \<Longrightarrow> d_burst_used d' = d_burst_used d"
  by (auto simp: measure_freq_def split: option.splits if_splits)

lemma on_estimate_burst:
  assumes d: "disc_ok d" and fm: "\<forall>f. fm = Some f \<longrightarrow> \<not> is_nan f" and m: "2 \<le> cf_min_poll (d_cfg d)"
    and o: "on_estimate_with_leap x fm sd leap d = Some r"
  shows "burst_step d r"
proof -
  have steer: "burst_step e r" if e: "disc_ok e" "d_cfg e = d_cfg d" "steer x fm sd e = Some r" for e
  proof -
    obtain d1 where 1: "measure_freq fm e = Some d1" "disc_ok d1" "d_cfg d1 = d_cfg e"
      using measure_freq_ok[OF e(1) fm] by blast
    define d2 where "d2 = update_ewma x d1"
    have "disc_ok d2" "d_cfg d2 = d_cfg e" using 1 by (simp_all add: d2_def update_ewma_ok)
    then obtain d2' where t: "integral_trim (noise_of sd) d2 = Some d2'" and 2: "disc_ok d2'" "d_cfg d2' = d_cfg e"
      and b2: "d_burst_used d2' = d_burst_used d2"
      using integral_trim_ok by metis
    define d3 where "d3 = extend_burst x (noise_of sd) (adapt_poll x (noise_of sd) d2')"
    have 3: "disc_ok d3" "d_cfg d3 = d_cfg e" using 2 by (simp_all add: d3_def adapt_poll_ok extend_burst_ok)
    have "r = slew_plan x (noise_of sd) d3"
      using e(3) 1 t by (simp add: steer_def Let_def flip: d2_def d3_def)
    moreover have "d_burst_used d3 = d_burst_used e" using measure_freq_burst[OF 1(1)] b2 by (simp add: d3_def d2_def)
    ultimately show ?thesis using plans_burst(3)[OF 3(1), of x "noise_of sd"] 3 e m by (simp add: burst_step_def)
  qed
  have b: "burst_step e r \<Longrightarrow> d_burst_used e = d_burst_used d \<Longrightarrow> burst_step d r" for e
    by (simp add: burst_step_def)
  have ok: "disc_ok (d\<lparr> d_updates := u, d_change_refusals := c, d_stable_streak := s \<rparr>)" "disc_ok (d\<lparr> d_updates := u \<rparr>)"
    "disc_ok (d\<lparr> d_updates := u, d_change_refusals := c \<rparr>)"
    "disc_ok (d\<lparr> d_updates := u, d_stable_streak := s, d_change_refusals := c \<rparr>)" for u c s
    using d by (simp_all add: disc_ok_def)
  from o show ?thesis
  proof (cases rule: on_estimate_cases)
    case leap
    show ?thesis by (rule b[of "d\<lparr> d_updates := d_updates d + 1, d_stable_streak := 0, d_change_refusals := 0 \<rparr>"])
        (simp_all add: leap(3) plans_burst(1)[OF ok(4)] m)
  next
    case refuse
    show ?thesis by (rule b[of "d\<lparr> d_updates := d_updates d + 1 \<rparr>"]) (simp_all add: refuse(2) plans_burst(2)[OF ok(2)] m)
  next
    case makestep
    show ?thesis by (rule b[of "d\<lparr> d_updates := d_updates d + 1, d_change_refusals := 0, d_stable_streak := 0 \<rparr>"])
        (simp_all add: makestep(3) plans_burst(1)[OF ok(1)] m)
  next
    case steer': steer
    show ?thesis by (rule b[OF steer[OF ok(3) _ steer'(2)]]) simp_all
  qed
qed

lemma disc_run_burst:
  "disc_ok d \<Longrightarrow> list_all est_ok es \<Longrightarrow> 2 \<le> cf_min_poll (d_cfg d) \<Longrightarrow> disc_run es d = Some (ps, d') \<Longrightarrow>
   disc_ok d' \<and> uint (d_burst_used d') = uint (d_burst_used d) + int (length (filter fast_poll ps))"
proof (induction es arbitrary: d ps)
  case (Cons e es)
  have fm: "\<forall>f. es_freq e = Some f \<longrightarrow> \<not> is_nan f" using Cons.prems(2) by (auto simp: est_ok_def)
  obtain p d1 ps' where
    o: "on_estimate_with_leap (es_offset e) (es_freq e) (es_sd e) (es_leap e) d = Some (p, d1)"
    and r: "disc_run es d1 = Some (ps', d')" and ps: "ps = p # ps'"
    using Cons.prems(4) by (auto split: option.splits)
  have d1: "disc_ok d1" "d_cfg d1 = d_cfg d"
    using on_estimate_ok[OF Cons.prems(1) fm, of "es_offset e" "es_sd e" "es_leap e"] o by simp_all
  show ?case
    using Cons.IH[OF d1(1) _ _ r] Cons.prems d1 on_estimate_burst[OF Cons.prems(1) fm Cons.prems(3) o]
    by (auto simp: ps burst_step_def)
qed simp


subsection \<open>Properties\<close>

text \<open>C5: from a fresh loop, any sequence of estimates produces a plan for every
estimate without panicking, and every plan is within limits: the frequency within the configured maximum,
the drain rate between zero and the slew ceiling, the poll interval the burst spacing or a power of two
between the configured bounds, and a register reset exactly on a step.  The offsets and noise figures may
have any value at all (NaN and infinities included); a measured frequency, when there is one, is any value
but NaN (\<open>est_ok\<close>).  The conditions on the configuration (\<open>cfg_ok\<close>) are: the frequency ceiling is finite
and not negative, the slew ceiling is not NaN and has no minus sign, the longest correction time has no
minus sign, the integral gain is any finite number - zero, positive or negative, so the integral
correction may be on - and the poll bounds are ordered and fit an \<open>i8\<close>.\<close>

theorem discipline_run_safe:
  assumes "cfg_ok cfg" "list_all est_ok es"
  shows "\<exists>ps d'. disc_run es (discipline_new cfg) = Some (ps, d') \<and> length ps = length es \<and>
     list_all (plan_ok cfg) ps \<and> disc_ok d'"
  using disc_run_ok[OF discipline_new_ok[OF assms(1)] assms(2)] by (simp add: discipline_new_def)

definition ev :: "f64 \<Rightarrow> f64 option \<Rightarrow> EstEvent" where
  "ev x f = \<lparr> es_offset = x, es_freq = f, es_sd = flit (1 / 1000), es_leap = False \<rparr>"

text \<open>The witness runs with the integral correction on, past the acquisition updates.\<close>

definition config_integral :: "f64 \<Rightarrow> DisciplineConfig" where
  "config_integral g = config_default\<lparr> cf_freq_integral_gain := g \<rparr>"

lemma config_integral_ok: "is_finite g \<Longrightarrow> cfg_ok (config_integral g)"
  using config_default_ok by (simp add: cfg_ok_def config_integral_def)

definition demo_estimates :: "EstEvent list" where
  "demo_estimates = [ev FNaN None, ev (FFin 5) (Some (FFin 1000)), ev (FInf True) (Some (FInf False))]
     @ replicate 12 (ev (FFin (1/4)) None)"

lemma discipline_run_safe_witness:
  "\<exists>ps d'. disc_run demo_estimates (discipline_new (config_integral (FFin (-3)))) = Some (ps, d') \<and>
     length ps = 15 \<and> list_all (plan_ok (config_integral (FFin (-3)))) ps \<and> disc_ok d'"
proof -
  have "list_all est_ok demo_estimates" by (simp add: demo_estimates_def est_ok_def ev_def list_all_iff)
  from discipline_run_safe[OF config_integral_ok this] have
    "\<exists>ps d'. disc_run demo_estimates (discipline_new (config_integral (FFin (-3)))) = Some (ps, d') \<and>
     length ps = length demo_estimates \<and> list_all (plan_ok (config_integral (FFin (-3)))) ps \<and> disc_ok d'" by simp
  then show ?thesis by (simp add: demo_estimates_def)
qed

text \<open>Twelve estimates of a quarter of a second with a gain of one push the commanded frequency to the
ceiling of 500 ppm and no further.\<close>

lemma integral_hits_the_ceiling:
  "map_option (\<lambda>(ps, d). d_freq_ppm d) (disc_run (replicate 12 (ev (FFin (1/4)) None)) (discipline_new (config_integral (FFin 1))))
     = Some (FFin 500)"
  by code_simp

text \<open>A gain that is NaN is outside \<open>cfg_ok\<close>, and the clamp does not help: \<open>f64::clamp\<close> returns a NaN
argument unchanged, so the commanded frequency becomes NaN.\<close>

lemma nan_gain_poisons_frequency:
  "map_option (\<lambda>(ps, d). is_nan (d_freq_ppm d)) (disc_run (replicate 9 (ev (FFin (1/4)) None)) (discipline_new (config_integral FNaN)))
     = Some True"
  by code_simp

text \<open>C6: once the start-up allowance is spent, a run of estimates beyond the
maximum-change limit (NaN included) moves nothing: every plan holds the frequency already commanded
and drains zero, and the verdicts give up exactly from the refusal after the configured allowance.\<close>

theorem guard_holds_the_clock:
  assumes "list_all (out_of_limit (d_cfg d)) es"
    and "cf_max_change_start (d_cfg d) \<le> d_updates d" and "uint (d_updates d) + int (length es) < 2 ^ 32"
    and "0 \<le> cf_max_change_ignore (d_cfg d)" and "uint (d_change_refusals d) + int (length es) < 2 ^ 32"
  shows "\<exists>ps d'. disc_run es d = Some (ps, d') \<and>
     list_all (\<lambda>p. pl_command p = Slew (d_freq_ppm d) (FFin 0) (FFin 0)) ps \<and>
     map (\<lambda>p. case pl_verdict p of GiveUp _ \<Rightarrow> True | _ \<Rightarrow> False) ps =
       map (\<lambda>i. cf_max_change_ignore (d_cfg d) \<le> uint (d_change_refusals d) + int i) [0..<length es]"
  using assms by (rule refuse_run)

lemma guard_holds_the_clock_witness:
  "let d = (discipline_new (config_default\<lparr> cf_max_change_s := Some (FFin 1) \<rparr>))\<lparr> d_updates := 1, d_freq_ppm := FFin 3 \<rparr>
   in \<exists>ps d'. disc_run [ev FNaN None, ev (FFin (-7)) None, ev (FInf False) (Some (FFin 1))] d = Some (ps, d') \<and>
     list_all (\<lambda>p. pl_command p = Slew (FFin 3) (FFin 0) (FFin 0)) ps \<and>
     map (\<lambda>p. case pl_verdict p of GiveUp _ \<Rightarrow> True | _ \<Rightarrow> False) ps = [False, False, True]"
proof -
  define d where "d = (discipline_new (config_default\<lparr> cf_max_change_s := Some (FFin 1) \<rparr>))\<lparr> d_updates := 1, d_freq_ppm := FFin 3 \<rparr>"
  have f: "d_updates d = 1" "d_change_refusals d = 0" "d_freq_ppm d = FFin 3" "cf_max_change_ignore (d_cfg d) = 2"
    "cf_max_change_start (d_cfg d) = 1" "cf_max_change_s (d_cfg d) = Some (FFin 1)"
    by (simp_all add: d_def discipline_new_def config_default_def)
  have "\<exists>ps d'. disc_run [ev FNaN None, ev (FFin (-7)) None, ev (FInf False) (Some (FFin 1))] d = Some (ps, d') \<and>
     list_all (\<lambda>p. pl_command p = Slew (d_freq_ppm d) (FFin 0) (FFin 0)) ps \<and>
     map (\<lambda>p. case pl_verdict p of GiveUp _ \<Rightarrow> True | _ \<Rightarrow> False) ps =
       map (\<lambda>i. cf_max_change_ignore (d_cfg d) \<le> uint (d_change_refusals d) + int i)
         [0..<length [ev FNaN None, ev (FFin (-7)) None, ev (FInf False) (Some (FFin 1))]]"
    by (rule guard_holds_the_clock) (simp_all add: f out_of_limit_def ev_def fle_def)
  then show ?thesis by (simp add: f upt_conv_Cons Let_def flip: d_def)
qed

text \<open>C7: the clock is stepped only by an announced leap second in step mode,
by at most two seconds, or inside the makestep window for an offset above its threshold that also
passed the maximum-change guard; the step is the offset itself.\<close>

theorem step_only_when_licensed:
  assumes "on_estimate_with_leap x fm sd leap d = Some (p, d')" and "pl_command p = Step s"
  shows "s = x \<and> pl_verdict p = Accepted \<and>
    (leap \<and> cf_leap_mode (d_cfg d) = LeapStep \<and> fle (fabs x) (FFin 2) \<or>
     (\<exists>thr. cf_makestep_threshold (d_cfg d) = Some thr \<and> flt thr (fabs x) \<and>
        d_updates d + 1 \<le> cf_makestep_limit (d_cfg d) \<and>
        \<not> guard_refuses (d\<lparr> d_updates := d_updates d + 1 \<rparr>) x leap))"
proof -
  have st: "pl_command (fst (step_plan y e)) = Step y" "pl_verdict (fst (step_plan y e)) = Accepted" for y e
    by (simp_all add: step_plan_def split: prod.splits)
  have rf: "\<exists>a b c. pl_command (fst (refuse_plan y e)) = Slew a b c" for y e
    by (simp add: refuse_plan_def Let_def split: prod.splits)
  have sl: "\<exists>a b c. pl_command (fst (slew_plan y n e)) = Slew a b c" for y n e
    by (simp add: slew_plan_def Let_def split: prod.splits)
  from assms(1) show ?thesis
  proof (cases rule: on_estimate_cases)
    case leap
    then show ?thesis using assms(2) st[of x] by (metis LEAP_EXEMPTION_S_def ClockCommand.inject(1) fst_conv leap_exempt_def)
  next
    case refuse
    then show ?thesis using assms(2) rf by (metis ClockCommand.distinct(1) fst_conv)
  next
    case makestep
    then have "s = x" "pl_verdict p = Accepted" using assms(2) st[of x] by (metis ClockCommand.inject(1) fst_conv)+
    then show ?thesis using makestep(1,2) by (auto simp: makestep_applies_def split: option.splits)
  next
    case steer
    then have "\<exists>n e. slew_plan x n e = (p, d')" by (auto simp: steer_def Let_def split: option.splits)
    then show ?thesis using assms(2) sl by (metis ClockCommand.distinct(1) fst_conv)
  qed
qed

lemma step_only_when_licensed_witness:
  "\<exists>p d'. on_estimate_with_leap (FFin 5) None (FFin 0) False (discipline_new config_default) = Some (p, d') \<and>
     pl_command p = Step (FFin 5) \<and> pl_verdict p = Accepted"
proof -
  define d where "d = discipline_new config_default"
  obtain p d' where s: "step_plan (FFin 5) (d\<lparr> d_updates := 1, d_change_refusals := 0, d_stable_streak := 0 \<rparr>) = (p, d')"
    by force
  have f: "d_updates d = 0" "cf_max_change_s (d_cfg d) = None" "cf_makestep_threshold (d_cfg d) = Some (FFin 1)"
    "cf_makestep_limit (d_cfg d) = 3"
    by (simp_all add: d_def discipline_new_def config_default_def)
  have o: "on_estimate_with_leap (FFin 5) None (FFin 0) False d = Some (p, d')"
    using s by (simp add: on_estimate_with_leap_def Let_def leap_exempt_def guard_refuses_def makestep_applies_def f)
  have c: "pl_command p = Step (FFin 5)" using s by (auto simp: step_plan_def split: prod.splits)
  show ?thesis using o c step_only_when_licensed[OF o c] unfolding d_def by blast
qed

text \<open>However the estimates go, at most sixteen plans of a run use the two-second
burst spacing; the rest poll at a power of two of at least four seconds.\<close>

theorem burst_is_bounded:
  assumes "cfg_ok cfg" "2 \<le> cf_min_poll cfg" "list_all est_ok es"
    and "disc_run es (discipline_new cfg) = Some (ps, d')"
  shows "length (filter fast_poll ps) \<le> 16"
proof -
  have "disc_ok d' \<and> uint (d_burst_used d') = uint (d_burst_used (discipline_new cfg)) + int (length (filter fast_poll ps))"
    using disc_run_burst[OF discipline_new_ok[OF assms(1)] assms(3) _ assms(4)] assms(2)
    by (simp add: discipline_new_def)
  moreover have "uint (d_burst_used d') \<le> 16" if "disc_ok d'"
    using that uint_nonnegative[of "d_iburst_left d'"] unfolding disc_ok_def by linarith
  ultimately show ?thesis by (simp add: discipline_new_def)
qed

lemma burst_is_bounded_witness:
  "\<exists>ps d'. disc_run (replicate 40 (ev (FFin 5) None)) (discipline_new config_default) = Some (ps, d') \<and>
     length ps = 40 \<and> length (filter fast_poll ps) \<le> 16"
proof -
  have ok: "list_all est_ok (replicate 40 (ev (FFin 5) None))" by (simp add: list_all_iff est_ok_def ev_def)
  obtain ps d' where r: "disc_run (replicate 40 (ev (FFin 5) None)) (discipline_new config_default) = Some (ps, d')"
    "length ps = 40"
    using disc_run_ok[OF discipline_new_ok[OF config_default_ok] ok] by auto
  have "length (filter fast_poll ps) \<le> 16"
    using burst_is_bounded[OF config_default_ok _ ok r(1)] by (simp add: config_default_def)
  then show ?thesis using r by blast
qed

text \<open>A NaN offset with no maximum-change limit is not refused: its drain is commanded at the whole slew
ceiling, because \<open>min\<close> ignores a NaN rate.\<close>

lemma nan_drains_at_ceiling:
  "map_option (\<lambda>(p, _). pl_command p) (on_estimate FNaN None (FFin 0) (discipline_new config_default))
     = Some (Slew (FFin 0) FNaN (FFin 83333))"
  by code_simp

end
