(* ===== verification/Refclock.thy ===== *)
theory Refclock
  imports Discipline
begin

text \<open>Reference-clock samples, \<open>crates/rusty_time-core/src/refclock.rs\<close>: what a GPS, PPS or PTP
reading must satisfy before it is believed.\<close>

subsection \<open>Definitions\<close>

datatype LeapWarning = NoLeap | AddSecond | DeleteSecond | NotSynchronized

definition leap_warning_from_wire :: "int \<Rightarrow> LeapWarning" where
  "leap_warning_from_wire v =
     (if v = 0 then NoLeap else if v = 1 then AddSecond else if v = 2 then DeleteSecond else NotSynchronized)"

record RefclockSample =
  rs_local_s :: f64
  rs_offset_s :: f64
  rs_precision_log2 :: int
  rs_leap :: LeapWarning

datatype RefclockError = RefNotSynchronized | RefOffsetTooLarge | RefImplausible | RefStale

definition MAX_REFCLOCK_OFFSET_S :: f64 where "MAX_REFCLOCK_OFFSET_S = FFin 16"
definition MIN_PLAUSIBLE_UNIX_S :: f64 where "MIN_PLAUSIBLE_UNIX_S = FFin 1577836800"

definition reference_s :: "RefclockSample \<Rightarrow> f64" where
  "reference_s s = fadd (rs_local_s s) (rs_offset_s s)"

definition refclock_validate :: "RefclockSample \<Rightarrow> f64 option \<Rightarrow> RefclockError + unit" where
  "refclock_validate s last_local =
     (if rs_leap s = NotSynchronized then Inl RefNotSynchronized
      else if \<not> is_finite (rs_local_s s) \<or> \<not> is_finite (rs_offset_s s) \<or>
              flt (rs_local_s s) MIN_PLAUSIBLE_UNIX_S \<or> flt (reference_s s) MIN_PLAUSIBLE_UNIX_S
      then Inl RefImplausible
      else if (case last_local of Some previous \<Rightarrow> fle (rs_local_s s) previous | None \<Rightarrow> False)
      then Inl RefStale
      else if flt MAX_REFCLOCK_OFFSET_S (fabs (rs_offset_s s)) then Inl RefOffsetTooLarge
      else Inr ())"

definition refclock_dispersion_s :: "RefclockSample \<Rightarrow> f64" where
  "refclock_dispersion_s s = exp2i (rs_precision_log2 s)"

text \<open>A polling loop keeps the local time of the last reading it accepted.\<close>

fun refclock_accept :: "f64 option \<Rightarrow> RefclockSample list \<Rightarrow> RefclockSample list" where
  "refclock_accept prev [] = []"
| "refclock_accept prev (s # ss) =
     (case refclock_validate s prev of
        Inr _ \<Rightarrow> s # refclock_accept (Some (rs_local_s s)) ss
      | Inl _ \<Rightarrow> refclock_accept prev ss)"

subsection \<open>Properties\<close>

definition believable :: "RefclockSample \<Rightarrow> bool" where
  "believable s \<longleftrightarrow> rs_leap s \<noteq> NotSynchronized \<and> is_finite (rs_local_s s) \<and> is_finite (rs_offset_s s) \<and>
     1577836800 \<le> fval (rs_local_s s) \<and> \<bar>fval (rs_offset_s s)\<bar> \<le> 16"

lemma refclock_validate_Inr:
  assumes "refclock_validate s prev = Inr u"
  shows "believable s" "case prev of Some p \<Rightarrow> \<not> is_nan p \<longrightarrow> flt p (rs_local_s s) | None \<Rightarrow> True"
proof -
  have "\<bar>fval (rs_offset_s s)\<bar> \<le> 16"
    using assms by (cases "rs_offset_s s")
      (auto simp: refclock_validate_def MAX_REFCLOCK_OFFSET_S_def not_less split: if_splits option.splits)
  moreover have "1577836800 \<le> fval (rs_local_s s)"
    using assms by (auto simp: refclock_validate_def MIN_PLAUSIBLE_UNIX_S_def flt_finite not_less split: if_splits)
  ultimately show "believable s"
    using assms by (auto simp: believable_def refclock_validate_def split: if_splits)
  show "case prev of Some p \<Rightarrow> \<not> is_nan p \<longrightarrow> flt p (rs_local_s s) | None \<Rightarrow> True"
    using assms by (cases prev) (auto simp: refclock_validate_def not_fle[symmetric] split: if_splits)
qed

lemma refclock_accept_ok:
  "(case prev of Some p \<Rightarrow> \<not> is_nan p | None \<Rightarrow> True) \<Longrightarrow>
   list_all believable (refclock_accept prev ss) \<and>
   sorted_wrt flt ((case prev of Some p \<Rightarrow> [p] | None \<Rightarrow> []) @ map rs_local_s (refclock_accept prev ss))"
proof (induction prev ss rule: refclock_accept.induct)
  case (2 prev s ss)
  show ?case
  proof (cases "refclock_validate s prev")
    case (Inl e)
    then show ?thesis using 2 by simp
  next
    case (Inr u)
    note v = refclock_validate_Inr[OF Inr]
    have n: "\<not> is_nan (rs_local_s s)" using v(1) by (simp add: believable_def)
    have IH: "list_all believable (refclock_accept (Some (rs_local_s s)) ss)"
      "sorted_wrt flt (rs_local_s s # map rs_local_s (refclock_accept (Some (rs_local_s s)) ss))"
      using 2(2)[OF Inr] n by simp_all
    show ?thesis using IH v Inr 2(3) flt_trans by (cases prev) auto
  qed
qed (auto split: option.splits)

text \<open>From a stream of readings, whatever a dead or faulty producer puts in
them, every reading accepted is synchronised, plausible and within sixteen seconds, and the local
times of accepted readings strictly increase: a frozen segment is accepted at most once.\<close>

theorem refclock_never_repeats:
  "list_all believable (refclock_accept None ss) \<and>
   sorted_wrt flt (map rs_local_s (refclock_accept None ss))"
  using refclock_accept_ok[of None ss] by simp

end
