(* ===== verification/Ntp.thy ===== *)
theory Ntp
  imports Prelude Float64
begin

text \<open>The packet codec, \<open>crates/rusty_time-core/src/ntp.rs\<close>: timestamps and their era arithmetic, the 16.16
format, the 48-byte header with its parser and writer, extension-field iteration, and the offset/delay
formula.  Floating-point values are those of \<open>Float64\<close>.\<close>

definition HEADER_LEN :: nat where "HEADER_LEN = 48"
definition UNIX_EPOCH_OFFSET :: u64 where "UNIX_EPOCH_OFFSET = 2208988800"
definition FRAC :: f64 where "FRAC = FFin 4294967296"

datatype NtpTimestamp = NtpTimestamp (ts_bits: u64)

definition ts_ZERO :: NtpTimestamp where "ts_ZERO = NtpTimestamp 0"

definition from_parts :: "u32 \<Rightarrow> u32 \<Rightarrow> NtpTimestamp" where
  "from_parts seconds fraction = NtpTimestamp (push_bit 32 (ucast seconds) OR ucast fraction)"

definition ts_seconds :: "NtpTimestamp \<Rightarrow> u32" where
  "ts_seconds t = ucast (drop_bit 32 (ts_bits t))"

definition ts_fraction :: "NtpTimestamp \<Rightarrow> u32" where
  "ts_fraction t = ucast (ts_bits t)"

definition from_unix :: "64 word \<Rightarrow> u32 \<Rightarrow> NtpTimestamp" where
  "from_unix secs nanos =
     (let ntp_secs = secs + UNIX_EPOCH_OFFSET;
          frac = (push_bit 32 (ucast nanos)) div (1000000000 :: u64)
      in NtpTimestamp (push_bit 32 (ntp_secs AND 0xFFFFFFFF) OR (frac AND 0xFFFFFFFF)))"

definition seconds_since :: "NtpTimestamp \<Rightarrow> NtpTimestamp \<Rightarrow> f64" where
  "seconds_since self earlier =
     (let diff = sint (ts_bits self - ts_bits earlier) in fdiv (f_of_int diff) FRAC)"

definition ts_is_zero :: "NtpTimestamp \<Rightarrow> bool" where
  "ts_is_zero t \<longleftrightarrow> ts_bits t = 0"

datatype NtpShort = NtpShort (short_bits: u32)

definition short_to_seconds :: "NtpShort \<Rightarrow> f64" where
  "short_to_seconds s = fdiv (f_of_int (uint (short_bits s))) (FFin 65536)"

definition short_from_seconds :: "f64 \<Rightarrow> NtpShort" where
  "short_from_seconds s =
     (let clamped = the (fclamp s (FFin 0) (flit (65535999 / 1000)))
      in NtpShort (word_of_int (f_to_int 0 4294967295 (fmul clamped (FFin 65536)))))"

datatype LeapIndicator = NoWarning | LastMinute61 | LastMinute59 | Unsynchronized

definition leap_from_bits :: "u8 \<Rightarrow> LeapIndicator" where
  "leap_from_bits b = (let m = b AND 3 in
     if m = 0 then NoWarning else if m = 1 then LastMinute61
     else if m = 2 then LastMinute59 else Unsynchronized)"

fun leap_bits :: "LeapIndicator \<Rightarrow> u8" where
  "leap_bits NoWarning = 0"
| "leap_bits LastMinute61 = 1"
| "leap_bits LastMinute59 = 2"
| "leap_bits Unsynchronized = 3"

datatype Mode = Reserved | SymmetricActive | SymmetricPassive | Client | Server
  | Broadcast | Control | Private

definition mode_from_bits :: "u8 \<Rightarrow> Mode" where
  "mode_from_bits b = (let m = b AND 7 in
     if m = 1 then SymmetricActive else if m = 2 then SymmetricPassive
     else if m = 3 then Client else if m = 4 then Server
     else if m = 5 then Broadcast else if m = 6 then Control
     else if m = 7 then Private else Reserved)"

fun mode_bits :: "Mode \<Rightarrow> u8" where
  "mode_bits Reserved = 0"
| "mode_bits SymmetricActive = 1"
| "mode_bits SymmetricPassive = 2"
| "mode_bits Client = 3"
| "mode_bits Server = 4"
| "mode_bits Broadcast = 5"
| "mode_bits Control = 6"
| "mode_bits Private = 7"

datatype ParseError = TooShort nat | BadVersion u8

record NtpPacket =
  p_leap :: LeapIndicator
  p_version :: u8
  p_mode :: Mode
  p_stratum :: u8
  p_poll :: "8 word"
  p_precision :: "8 word"
  p_root_delay :: NtpShort
  p_root_dispersion :: NtpShort
  p_reference_id :: bytes
  p_reference_ts :: NtpTimestamp
  p_origin_ts :: NtpTimestamp
  p_receive_ts :: NtpTimestamp
  p_transmit_ts :: NtpTimestamp

definition be_u32 :: "nat \<Rightarrow> bytes \<Rightarrow> u32" where
  "be_u32 off h = of_be (slice h off (off + 4))"

definition be_u64 :: "nat \<Rightarrow> bytes \<Rightarrow> u64" where
  "be_u64 off h = of_be (slice h off (off + 8))"

definition client_request :: "u8 \<Rightarrow> NtpTimestamp \<Rightarrow> NtpPacket" where
  "client_request ver tx = \<lparr>
     p_leap = NoWarning, p_version = ver, p_mode = Client, p_stratum = 0, p_poll = 0, p_precision = 0x20,
     p_root_delay = NtpShort 0, p_root_dispersion = NtpShort 0, p_reference_id = replicate 4 0,
     p_reference_ts = ts_ZERO, p_origin_ts = ts_ZERO, p_receive_ts = ts_ZERO, p_transmit_ts = tx \<rparr>"

definition parse :: "bytes \<Rightarrow> ParseError + NtpPacket" where
  "parse buf =
     (if length buf < HEADER_LEN then Inl (TooShort (length buf))
      else let h = take HEADER_LEN buf; b0 = h ! 0; ver = drop_bit 3 b0 AND 7 in
        if \<not> (3 \<le> ver \<and> ver \<le> 4) then Inl (BadVersion ver)
        else Inr \<lparr>
          p_leap = leap_from_bits (drop_bit 6 b0), p_version = ver, p_mode = mode_from_bits b0,
          p_stratum = h ! 1, p_poll = h ! 2, p_precision = h ! 3,
          p_root_delay = NtpShort (be_u32 4 h), p_root_dispersion = NtpShort (be_u32 8 h),
          p_reference_id = slice h 12 16,
          p_reference_ts = NtpTimestamp (be_u64 16 h), p_origin_ts = NtpTimestamp (be_u64 24 h),
          p_receive_ts = NtpTimestamp (be_u64 32 h), p_transmit_ts = NtpTimestamp (be_u64 40 h) \<rparr>)"

definition to_bytes :: "NtpPacket \<Rightarrow> bytes" where
  "to_bytes p =
     [push_bit 6 (leap_bits (p_leap p)) OR push_bit 3 (p_version p AND 7) OR mode_bits (p_mode p),
      p_stratum p, p_poll p, p_precision p]
     @ to_be 4 (short_bits (p_root_delay p)) @ to_be 4 (short_bits (p_root_dispersion p))
     @ p_reference_id p
     @ to_be 8 (ts_bits (p_reference_ts p)) @ to_be 8 (ts_bits (p_origin_ts p))
     @ to_be 8 (ts_bits (p_receive_ts p)) @ to_be 8 (ts_bits (p_transmit_ts p))"

definition packet_ok :: "NtpPacket \<Rightarrow> bool" where
  "packet_ok p \<longleftrightarrow> length (p_reference_id p) = 4"

lemma length_to_bytes: "packet_ok p \<Longrightarrow> length (to_bytes p) = HEADER_LEN"
  by (simp add: to_bytes_def packet_ok_def HEADER_LEN_def)

lemma leap_from_bits_byte0:
  "leap_from_bits (drop_bit 6 (push_bit 6 (leap_bits l) OR push_bit 3 (v AND 7) OR mode_bits m)) = l"
proof -
  have "drop_bit 6 (push_bit 6 (leap_bits l) OR push_bit 3 (v AND 7) OR mode_bits m) = leap_bits l"
    by (cases l; cases m; rule bit_word_eqI) (auto simp: bit_simps numeral_eq_Suc less_Suc_eq)
  then show ?thesis by (cases l) (auto simp: leap_from_bits_def)
qed

lemma mode_from_bits_byte0:
  "mode_from_bits (push_bit 6 (leap_bits l) OR push_bit 3 (v AND 7) OR mode_bits m) = m"
proof -
  have "(push_bit 6 (leap_bits l) OR push_bit 3 (v AND 7) OR mode_bits m) AND 7 = mode_bits m"
    by (cases l; cases m; rule bit_word_eqI) (auto simp: bit_simps numeral_eq_Suc less_Suc_eq)
  then show ?thesis by (cases m) (auto simp: mode_from_bits_def)
qed

lemma seven_mask: "(7 :: u8) = mask 3"
  by (simp add: mask_eq_exp_minus_1)

lemma three_mask: "(3 :: u8) = mask 2"
  by (simp add: mask_eq_exp_minus_1)

lemma mode_bits_mask: "mode_bits m = take_bit 3 (mode_bits m)"
  by (cases m) simp_all

lemma mode_bits_high: "3 \<le> n \<Longrightarrow> \<not> bit (mode_bits m) n"
  by (subst mode_bits_mask) (simp add: bit_simps)

lemma version_byte0:
  "drop_bit 3 (push_bit 6 (leap_bits l) OR push_bit 3 (v AND 7) OR mode_bits m) AND 7 = v AND 7"
  unfolding seven_mask by (rule bit_word_eqI) (auto simp: bit_simps mode_bits_high)


lemma slice_append1: "j \<le> length xs \<Longrightarrow> slice (xs @ ys) i j = slice xs i j"
  by (simp add: slice_def)

lemma slice_append2: "length xs \<le> i \<Longrightarrow> slice (xs @ ys) i j = slice ys (i - length xs) (j - length xs)"
  by (simp add: slice_def)

lemma slice_all: "length xs = j \<Longrightarrow> slice xs 0 j = xs"
  by (simp add: slice_def)

lemma slice_concat: "i \<le> j \<Longrightarrow> j \<le> k \<Longrightarrow> slice bs i j @ slice bs j k = slice bs i k"
proof -
  assume "i \<le> j" "j \<le> k"
  then have "take (k - i) (drop i bs) = take (j - i) (drop i bs) @ take (k - j) (drop (j - i) (drop i bs))"
    by (metis take_add le_add_diff_inverse2 Nat.diff_diff_right add_diff_assoc2 add.commute diff_add_inverse Nat.add_diff_assoc)
  then show ?thesis using \<open>i \<le> j\<close> by (simp add: slice_def)
qed

lemma to_bytes_head:
  "to_bytes p ! 0 = push_bit 6 (leap_bits (p_leap p)) OR push_bit 3 (p_version p AND 7) OR mode_bits (p_mode p)"
  "to_bytes p ! 1 = p_stratum p" "to_bytes p ! 2 = p_poll p" "to_bytes p ! 3 = p_precision p"
  by (simp_all add: to_bytes_def)

lemma be_fields_to_bytes:
  assumes "packet_ok p"
  shows "be_u32 4 (to_bytes p) = short_bits (p_root_delay p)"
    "be_u32 8 (to_bytes p) = short_bits (p_root_dispersion p)"
    "slice (to_bytes p) 12 16 = p_reference_id p"
    "be_u64 16 (to_bytes p) = ts_bits (p_reference_ts p)"
    "be_u64 24 (to_bytes p) = ts_bits (p_origin_ts p)"
    "be_u64 32 (to_bytes p) = ts_bits (p_receive_ts p)"
    "be_u64 40 (to_bytes p) = ts_bits (p_transmit_ts p)"
  using assms
  by (simp_all add: be_u32_def be_u64_def to_bytes_def packet_ok_def slice_def of_be_to_be_id)

lemma version34_mask: "3 \<le> v \<Longrightarrow> v \<le> 4 \<Longrightarrow> v AND 7 = (v :: u8)"
proof -
  assume "3 \<le> v" "v \<le> 4"
  then have "3 \<le> unat v" "unat v \<le> 4" by (simp_all add: word_le_nat_alt)
  then have "unat v = 3 \<or> unat v = 4" by linarith
  then have "v = 3 \<or> v = 4" using word_in_range[of v 5] by (auto simp: upt_conv_Cons)
  then show ?thesis by auto
qed

lemma parse_to_bytes_gen:
  assumes "packet_ok p" "3 \<le> p_version p" "p_version p \<le> 4"
  shows "parse (to_bytes p @ rest) = Inr p"
proof -
  have len: "length (to_bytes p) = 48" using length_to_bytes[OF assms(1)] by (simp add: HEADER_LEN_def)
  have t: "take 48 (to_bytes p @ rest) = to_bytes p" using len by simp
  have v: "drop_bit 3 (to_bytes p ! 0) AND 7 = p_version p"
    unfolding to_bytes_head version_byte0 by (rule version34_mask[OF assms(2,3)])
  have l: "leap_from_bits (drop_bit 6 (to_bytes p ! 0)) = p_leap p"
    and m: "mode_from_bits (to_bytes p ! 0) = p_mode p"
    unfolding to_bytes_head by (rule leap_from_bits_byte0, rule mode_from_bits_byte0)
  show ?thesis
    unfolding parse_def HEADER_LEN_def Let_def t v l m be_fields_to_bytes[OF assms(1)] to_bytes_head(2-)
    using assms len by simp
qed

lemma and3_cases: "(b :: u8) AND 3 \<in> {0, 1, 2, 3}"
proof -
  have "b AND mask 2 < 2 ^ 2" by (rule and_mask_less') simp
  then have "b AND 3 < word_of_nat 4" by (simp add: mask_eq_exp_minus_1)
  from word_lt_range[OF this] show ?thesis by (simp add: upt_conv_Cons)
qed

lemma and7_cases: "(b :: u8) AND 7 \<in> {0, 1, 2, 3, 4, 5, 6, 7}"
proof -
  have "b AND mask 3 < 2 ^ 3" by (rule and_mask_less') simp
  then have "b AND 7 < word_of_nat 8" by (simp add: mask_eq_exp_minus_1)
  from word_lt_range[OF this] show ?thesis by (simp add: upt_conv_Cons)
qed

lemma leap_bits_from_bits: "leap_bits (leap_from_bits b) = b AND 3"
  using and3_cases[of b] by (auto simp: leap_from_bits_def)

lemma mode_bits_from_bits: "mode_bits (mode_from_bits b) = b AND 7"
  using and7_cases[of b] by (auto simp: mode_from_bits_def)

lemma byte0_rejoin:
  "push_bit 6 (drop_bit 6 b AND 3) OR push_bit 3 (drop_bit 3 b AND 7) OR (b AND 7) = (b :: u8)"
proof (rule bit_word_eqI)
  fix n assume "n < LENGTH(8)"
  then show "bit (push_bit 6 (drop_bit 6 b AND 3) OR push_bit 3 (drop_bit 3 b AND 7) OR (b AND 7)) n = bit b n"
    unfolding seven_mask three_mask by (cases "6 \<le> n") (auto simp: bit_simps)
qed

lemma to_be_be_u32: "i + 4 \<le> length h \<Longrightarrow> to_be 4 (be_u32 i h) = slice h i (i + 4)"
  using to_be_of_be[of "slice h i (i + 4)", where 'a=32] by (simp add: be_u32_def length_slice)

lemma to_be_be_u64: "i + 8 \<le> length h \<Longrightarrow> to_be 8 (be_u64 i h) = slice h i (i + 8)"
  using to_be_of_be[of "slice h i (i + 8)", where 'a=64] by (simp add: be_u64_def length_slice)

lemma slice_first4: "4 \<le> length h \<Longrightarrow> [h ! 0, h ! 1, h ! 2, h ! 3] = slice h 0 4"
  by (cases h; cases "tl h"; cases "tl (tl h)"; cases "tl (tl (tl h))") (auto simp: slice_def)

lemma to_bytes_parse_gen:
  assumes "parse buf = Inr p"
  shows "to_bytes p = take HEADER_LEN buf" "packet_ok p" "3 \<le> p_version p" "p_version p \<le> 4"
proof -
  define h where "h = take 48 buf"
  have len: "length h = 48"
    using assms by (auto simp: parse_def h_def HEADER_LEN_def split: if_splits)
  have b0: "push_bit 6 (leap_bits (p_leap p)) OR push_bit 3 (p_version p AND 7) OR mode_bits (p_mode p) = h ! 0"
    using assms byte0_rejoin[of "h ! 0"]
    by (auto simp: parse_def Let_def HEADER_LEN_def leap_bits_from_bits mode_bits_from_bits and.assoc
        simp flip: h_def split: if_splits)
  have f: "p_stratum p = h ! 1" "p_poll p = h ! 2" "p_precision p = h ! 3"
     "short_bits (p_root_delay p) = be_u32 4 h" "short_bits (p_root_dispersion p) = be_u32 8 h"
     "p_reference_id p = slice h 12 16"
     "ts_bits (p_reference_ts p) = be_u64 16 h" "ts_bits (p_origin_ts p) = be_u64 24 h"
     "ts_bits (p_receive_ts p) = be_u64 32 h" "ts_bits (p_transmit_ts p) = be_u64 40 h"
     "3 \<le> p_version p" "p_version p \<le> 4"
    using assms by (auto simp: parse_def Let_def HEADER_LEN_def simp flip: h_def split: if_splits)
  have "to_bytes p = slice h 0 4 @ slice h 4 8 @ slice h 8 12 @ slice h 12 16 @ slice h 16 24
      @ slice h 24 32 @ slice h 32 40 @ slice h 40 48"
    unfolding to_bytes_def b0 f using len
    by (simp add: to_be_be_u32 to_be_be_u64 flip: slice_first4)
  also have "\<dots> = h" using len by (simp add: slice_concat slice_all)
  finally show "to_bytes p = take HEADER_LEN buf" by (simp add: h_def HEADER_LEN_def)
  show "packet_ok p" using len f by (simp add: packet_ok_def length_slice)
  show "3 \<le> p_version p" "p_version p \<le> 4" using f by auto
qed

subsection \<open>Extension fields\<close>

record ExtensionField =
  ef_field_type :: u16
  ef_value :: bytes

datatype Trailer = Extension ExtensionField | Opaque bytes

definition ext_next :: "bytes \<Rightarrow> (Trailer \<times> bytes) option" where
  "ext_next rest =
     (if rest = [] then None
      else if 4 \<le> length rest then
        (let len = unat (of_be (slice rest 2 4) :: u16) in
         if 16 \<le> len \<and> len mod 4 = 0 \<and> len \<le> length rest
         then Some (Extension \<lparr>ef_field_type = of_be (slice rest 0 2), ef_value = slice rest 4 len\<rparr>, drop len rest)
         else Some (Opaque rest, []))
      else Some (Opaque rest, []))"

lemma ext_next_shorter: "ext_next rest = Some (t, rest') \<Longrightarrow> length rest' < length rest"
  by (auto simp: ext_next_def Let_def split: if_splits)

function ext_collect :: "bytes \<Rightarrow> Trailer list" where
  "ext_collect rest = (case ext_next rest of None \<Rightarrow> [] | Some (t, rest') \<Rightarrow> t # ext_collect rest')"
  by auto
termination by (relation "measure length") (auto dest: ext_next_shorter)

declare ext_collect.simps [simp del]

definition extension_fields :: "bytes \<Rightarrow> Trailer list" where
  "extension_fields packet = ext_collect (if HEADER_LEN \<le> length packet then drop HEADER_LEN packet else [])"

definition offset_delay :: "f64 \<Rightarrow> f64 \<Rightarrow> f64 \<Rightarrow> f64 \<Rightarrow> f64 \<times> f64" where
  "offset_delay t1 t2 t3 t4 =
     (let offset = fdiv (fadd (fsub t2 t1) (fsub t3 t4)) (FFin 2);
          delay = fsub (fsub t4 t1) (fsub t3 t2)
      in (offset, delay))"

definition trailer_bytes :: "Trailer \<Rightarrow> bytes" where
  "trailer_bytes t = (case t of
     Extension f \<Rightarrow> to_be 2 (ef_field_type f) @ to_be 2 (word_of_nat (length (ef_value f) + 4) :: u16) @ ef_value f
   | Opaque b \<Rightarrow> b)"

definition trailer_wf :: "Trailer \<Rightarrow> bool" where
  "trailer_wf t = (case t of
     Extension f \<Rightarrow> 12 \<le> length (ef_value f) \<and> length (ef_value f) mod 4 = 0 \<and> length (ef_value f) + 4 < 65536
   | Opaque b \<Rightarrow> b \<noteq> [])"

lemma of_be_slice_unat_bound: "unat (of_be bs :: u16) < 65536"
  using unsigned_less[of "of_be bs :: u16"] by simp

lemma ext_next_split:
  assumes "ext_next rest = Some (t, rest')"
  shows "rest = trailer_bytes t @ rest'" "trailer_wf t" "case t of Extension _ \<Rightarrow> True | Opaque _ \<Rightarrow> rest' = []"
proof -
  define len where "len = unat (of_be (slice rest 2 4) :: u16)"
  show "rest = trailer_bytes t @ rest'"
  proof (cases "4 \<le> length rest \<and> 16 \<le> len \<and> len mod 4 = 0 \<and> len \<le> length rest")
    case True
    then have l4: "4 \<le> len" "length rest \<ge> 4" by auto
    have t: "t = Extension \<lparr>ef_field_type = of_be (slice rest 0 2), ef_value = slice rest 4 len\<rparr>"
      and r: "rest' = drop len rest"
      using assms True by (auto simp: ext_next_def Let_def simp flip: len_def split: if_splits)
    have b0: "to_be 2 (of_be (slice rest 0 2) :: u16) = slice rest 0 2"
      and b2: "to_be 2 (of_be (slice rest 2 4) :: u16) = slice rest 2 4"
      using to_be_of_be[of "slice rest 0 2", where 'a=16] to_be_of_be[of "slice rest 2 4", where 'a=16] l4
      by (simp_all add: length_slice)
    have w: "word_of_nat (length (slice rest 4 len) + 4) = (of_be (slice rest 2 4) :: u16)"
      using True l4 by (simp add: length_slice len_def)
    have "trailer_bytes t @ rest' = slice rest 0 2 @ slice rest 2 4 @ slice rest 4 len @ slice rest len (length rest)"
      unfolding t r trailer_bytes_def Trailer.case ExtensionField.simps w b0 b2 by (simp add: slice_def[of rest len])
    also have "\<dots> = rest" using l4 True by (simp add: slice_concat slice_all)
    finally show ?thesis by simp
  next
    case False
    then show ?thesis using assms by (auto simp: ext_next_def Let_def trailer_bytes_def simp flip: len_def split: if_splits)
  qed
  show "trailer_wf t"
    using assms of_be_slice_unat_bound[of "slice rest 2 4"]
    by (auto simp: ext_next_def Let_def trailer_wf_def length_slice mod_diff_left_eq split: if_splits)
  show "case t of Extension _ \<Rightarrow> True | Opaque _ \<Rightarrow> rest' = []"
    using assms by (auto simp: ext_next_def Let_def split: if_splits)
qed


lemma ext_collect_Nil [simp]: "ext_collect [] = []"
  by (simp add: ext_collect.simps ext_next_def)

lemma ext_collect_split:
  "concat (map trailer_bytes (ext_collect rest)) = rest \<and>
   (\<forall>t \<in> set (ext_collect rest). trailer_wf t) \<and>
   (\<forall>t \<in> set (butlast (ext_collect rest)). \<exists>f. t = Extension f)"
proof (induction rest rule: ext_collect.induct)
  case (1 rest)
  show ?case
  proof (cases "ext_next rest")
    case None
    then have "rest = []" by (auto simp: ext_next_def Let_def split: if_splits)
    then show ?thesis by simp
  next
    case (Some a)
    then obtain t r where n: "ext_next rest = Some (t, r)" by (cases a) auto
    note s = ext_next_split[OF n] and IH = "1.IH"[OF n refl]
    have c: "ext_collect rest = t # ext_collect r" by (simp add: ext_collect.simps[of rest] n)
    show ?thesis unfolding c using IH s(2,3) s(1)[symmetric] by (cases t) auto
  qed
qed


lemma seconds_since_exact:
  "seconds_since a b = flit (of_int (sint (ts_bits a - ts_bits b)) / 2 ^ 32)"
proof -
  have "\<bar>sint (ts_bits a - ts_bits b)\<bar> \<le> 2 ^ 64"
    using sint_ge[of "ts_bits a - ts_bits b"] sint_lt[of "ts_bits a - ts_bits b"] by simp
  from fdiv_int_pow2[OF this, of 32] show ?thesis by (simp add: seconds_since_def FRAC_def pow2_def)
qed

lemma mask32: "(0xFFFFFFFF :: u64) = mask 32"
  by (simp add: mask_eq_exp_minus_1)

definition nanos_frac :: "u32 \<Rightarrow> int" where
  "nanos_frac n = uint n * 2 ^ 32 div 1000000000 mod 2 ^ 32"

lemma from_unix_word:
  "ts_bits (from_unix s n) = word_of_int (2 ^ 32 * (sint s + 2208988800) + nanos_frac n)"
proof -
  define f :: u64 where "f = push_bit 32 (ucast n) div 1000000000"
  have uf: "uint f = uint n * 2 ^ 32 div 1000000000"
  proof -
    have "uint n * 2 ^ 32 < 2 ^ 64" using uint_bounded[of n] by simp
    then have "uint (push_bit 32 (ucast n :: u64)) = uint n * 2 ^ 32"
      by (simp add: push_bit_eq_mult uint_word_ariths unsigned_ucast_eq take_bit_int_eq_self)
    then show ?thesis by (simp add: f_def uint_div)
  qed
  have fm: "f AND mask 32 = word_of_int (nanos_frac n)"
  proof -
    have "f AND mask 32 = word_of_int (uint (f AND mask 32))" by simp
    also have "uint (f AND mask 32) = nanos_frac n"
      unfolding take_bit_eq_mask[symmetric] unsigned_take_bit_eq uf nanos_frac_def by (simp only: take_bit_eq_mod)
    finally show ?thesis .
  qed
  have "ts_bits (from_unix s n) = push_bit 32 ((s + UNIX_EPOCH_OFFSET) AND mask 32) OR (f AND mask 32)"
    by (simp add: from_unix_def mask32 f_def Let_def)
  also have "\<dots> = push_bit 32 (s + UNIX_EPOCH_OFFSET) OR (f AND mask 32)"
    by (rule bit_word_eqI) (auto simp: bit_simps)
  also have "\<dots> = push_bit 32 (s + UNIX_EPOCH_OFFSET) + (f AND mask 32)"
    by (rule disjunctive_add[symmetric]) (auto simp: bit_simps)
  also have "push_bit 32 (s + UNIX_EPOCH_OFFSET) = word_of_int (2 ^ 32 * (sint s + 2208988800))"
    by (simp add: push_bit_eq_mult UNIX_EPOCH_OFFSET_def)
  finally show ?thesis by (simp add: fm)
qed

lemma era_arithmetic_gen:
  assumes "\<bar>sint s1 - sint s2\<bar> < 2 ^ 31 - 1"
  shows "seconds_since (from_unix s1 n1) (from_unix s2 n2)
           = flit (of_int (sint s1 - sint s2) + of_int (nanos_frac n1 - nanos_frac n2) / 2 ^ 32)"
proof -
  define D where "D = 2 ^ 32 * (sint s1 - sint s2) + (nanos_frac n1 - nanos_frac n2)"
  have b: "\<bar>nanos_frac n1 - nanos_frac n2\<bar> < 2 ^ 32"
    unfolding nanos_frac_def using pos_mod_bound[of "2 ^ 32 :: int"] pos_mod_sign[of "2 ^ 32 :: int"]
    by (smt (verit) zero_less_power)
  have "\<bar>D\<bar> < 2 ^ 63" using assms b unfolding D_def by simp
  then have sD: "sint (word_of_int D :: u64) = D"
    by (simp add: signed_of_int signed_take_bit_int_eq_self)
  have "ts_bits (from_unix s1 n1) - ts_bits (from_unix s2 n2) = word_of_int D"
    unfolding from_unix_word D_def by (simp add: algebra_simps)
  then have "seconds_since (from_unix s1 n1) (from_unix s2 n2) = flit (of_int D / 2 ^ 32)"
    unfolding seconds_since_exact using sD by (simp only:)
  moreover have "of_int D / 2 ^ 32 = (of_int (sint s1 - sint s2) + of_int (nanos_frac n1 - nanos_frac n2) / 2 ^ 32 :: rat)"
    unfolding D_def by (simp add: add_divide_distrib)
  ultimately show ?thesis by (simp only:)
qed


lemma short_to_seconds_val: "short_to_seconds s = FFin (of_int (uint (short_bits s)) / 65536)"
proof -
  define n where "n = uint (short_bits s)"
  have n: "0 \<le> n" "n < 2 ^ 32" using uint_bounded[of "short_bits s"] by (simp_all add: n_def)
  have "fdiv (f_of_int n) (FFin (pow2 16)) = flit (of_int n / pow2 16)"
    using n by (intro fdiv_int_pow2) auto
  also have "of_int n / pow2 16 = of_int n * pow2 (- 16)"
    by (simp add: pow2_def)
  also have "flit \<dots> = FFin (of_int n * pow2 (- 16))"
    using n by (intro flit_exact) auto
  finally show ?thesis by (simp add: short_to_seconds_def pow2_def n_def)
qed

lemma short_limit: "flit (65535999 / 1000) = FFin (9007199117302039 / 137438953472)"
  by code_simp

lemma short_round_trip_gen:
  assumes "short_bits s \<le> 4294967230"
  shows "short_from_seconds (short_to_seconds s) = s"
proof -
  define n where "n = uint (short_bits s)"
  have n: "0 \<le> n" "n \<le> 4294967230" using assms by (simp_all add: n_def word_le_def)
  have c: "fclamp (FFin (of_int n / 65536)) (FFin 0) (flit (65535999 / 1000)) = Some (FFin (of_int n / 65536))"
    using n unfolding short_limit by (intro fclamp_id) (simp_all add: field_simps)
  have "fmul (FFin (of_int n / 65536)) (FFin 65536) = flit (of_int n * pow2 0)"
    using n by (simp add: flit_def not_less)
  also have "\<dots> = FFin (of_int n)" using n by (subst flit_exact) auto
  finally show ?thesis
    using n unfolding short_from_seconds_def short_to_seconds_val n_def[symmetric] c
    by (simp add: Let_def ftrunc_def) (simp add: n_def)
qed


subsection \<open>Properties\<close>

lemma parse_error:
  "parse buf = Inl e \<longleftrightarrow>
     (if length buf < HEADER_LEN then e = TooShort (length buf)
      else (let v = drop_bit 3 (buf ! 0) AND 7 in \<not> (3 \<le> v \<and> v \<le> 4) \<and> e = BadVersion v))"
  by (auto simp: parse_def Let_def HEADER_LEN_def)

text \<open>C1: parsing accepts a buffer exactly when its first 48 bytes are the
serialisation of a version 3 or 4 packet, and then returns that packet: \<open>parse\<close> and
\<open>to_bytes\<close> are mutually inverse on the accepted language, whatever follows the header.\<close>

theorem parse_iff_to_bytes:
  "parse buf = Inr p \<longleftrightarrow>
     packet_ok p \<and> 3 \<le> p_version p \<and> p_version p \<le> 4 \<and>
     HEADER_LEN \<le> length buf \<and> take HEADER_LEN buf = to_bytes p"
proof
  assume a: "parse buf = Inr p"
  then have "HEADER_LEN \<le> length buf" by (auto simp: parse_def split: if_splits)
  then show "packet_ok p \<and> 3 \<le> p_version p \<and> p_version p \<le> 4 \<and>
     HEADER_LEN \<le> length buf \<and> take HEADER_LEN buf = to_bytes p"
    using to_bytes_parse_gen[OF a] by simp
next
  assume a: "packet_ok p \<and> 3 \<le> p_version p \<and> p_version p \<le> 4 \<and>
     HEADER_LEN \<le> length buf \<and> take HEADER_LEN buf = to_bytes p"
  then have "parse (to_bytes p @ drop HEADER_LEN buf) = Inr p" by (intro parse_to_bytes_gen) auto
  then show "parse buf = Inr p" using a by (metis append_take_drop_id)
qed

text \<open>Iterating the extension fields of a packet loses and invents nothing:
re-encoding the items in order gives exactly the bytes after the header, every extension is a
well-formed RFC 7822 field (length a multiple of four and at least sixteen), and an opaque item
can only be the last one.\<close>

theorem trailer_partition:
  "concat (map trailer_bytes (extension_fields packet)) = drop HEADER_LEN packet \<and>
   list_all trailer_wf (extension_fields packet) \<and>
   list_all (\<lambda>t. case t of Extension _ \<Rightarrow> True | Opaque _ \<Rightarrow> False) (butlast (extension_fields packet))"
proof -
  have "drop HEADER_LEN packet = (if HEADER_LEN \<le> length packet then drop HEADER_LEN packet else [])" by simp
  then show ?thesis
    unfolding extension_fields_def list_all_iff
    using ext_collect_split[of "if HEADER_LEN \<le> length packet then drop HEADER_LEN packet else []"]
    by (fastforce split: Trailer.split)
qed

text \<open>The difference of two timestamps built from Unix times less than 68 years
apart is the correctly rounded true difference, even when the 32-bit NTP second counter wraps
between them (the 2036 era change).\<close>

theorem era_arithmetic:
  assumes "\<bar>sint s1 - sint s2\<bar> < 2 ^ 31 - 1"
  shows "seconds_since (from_unix s1 n1) (from_unix s2 n2)
           = flit (of_int (sint s1 - sint s2) + of_int (nanos_frac n1 - nanos_frac n2) / 2 ^ 32)"
  by (rule era_arithmetic_gen[OF assms])

lemma era_arithmetic_witness:
  "seconds_since (from_unix 2085978500 0) (from_unix 2085978490 0) = FFin 10 \<and>
   ts_bits (from_unix 2085978500 0) < ts_bits (from_unix 2085978490 0)"
proof
  have "flit 10 = FFin 10" by code_simp
  then show "seconds_since (from_unix 2085978500 0) (from_unix 2085978490 0) = FFin 10"
    using era_arithmetic[of 2085978500 2085978490 0 0] by simp
qed code_simp

text \<open>Converting a 16.16 fixed-point value to seconds and back is the identity
for every code up to 4294967230; the remaining 65 codes are above the clamp of 65535.999 s.\<close>

theorem short_round_trip:
  assumes "short_bits s \<le> 4294967230"
  shows "short_from_seconds (short_to_seconds s) = s"
  by (rule short_round_trip_gen[OF assms])

lemma short_round_trip_witness:
  "short_from_seconds (short_to_seconds (NtpShort 4294967230)) = NtpShort 4294967230 \<and>
   short_from_seconds (short_to_seconds (NtpShort 4294967231)) \<noteq> NtpShort 4294967231"
proof
  show "short_from_seconds (short_to_seconds (NtpShort 4294967230)) = NtpShort 4294967230"
    by (rule short_round_trip) simp
qed code_simp

section \<open>Accuracy of the offset\<close>

text \<open>C25: the four-timestamp formula bounds its own error.  Let the server's clock be
\<open>theta\<close> ahead, the request take \<open>d1\<close> and the reply \<open>d2\<close>, with all four readings below \<open>2 ^ k\<close> seconds.  Then the
computed offset differs from \<open>theta\<close> by at most half the computed delay, up to rounding below \<open>2 ^ (k - 49)\<close>
seconds, whatever the asymmetry of the path.\<close>

theorem offset_error_bound:
  assumes b: "fbnd k t1" "fbnd k t2" "fbnd k t3" "fbnd k t4" and k: "- 1021 \<le> k" "k \<le> 1000"
    and path: "fval t2 = fval t1 + d1 + theta" "fval t3 = fval t4 - d2 + theta" "0 \<le> d1" "0 \<le> d2"
  shows "\<bar>fval (fst (offset_delay t1 t2 t3 t4)) - theta\<bar> \<le> fval (snd (offset_delay t1 t2 t3 t4)) / 2 + pow2 (k - 49)"
proof -
  define a where "a = fsub t2 t1"
  define e where "e = fsub t3 t4"
  define u where "u = fsub t4 t1"
  define v where "v = fsub t3 t2"
  have bb: "fbnd (k + 1) a" "fbnd (k + 1) e" "fbnd (k + 1) u" "fbnd (k + 1) v"
    unfolding a_def e_def u_def v_def using b k by (auto intro!: fbnd_fsub)
  have p: "pow2 (k - 50) = 2 * pow2 (k - 51)" "pow2 (k - 49) = 4 * pow2 (k - 51)" "pow2 (k - 52) = pow2 (k - 51) / 2"
    using pow2_add[of "k - 51" 1] pow2_add[of "k - 51" 2] pow2_add[of "k - 52" 1] by (simp_all add: pow2_2)
  have s: "\<bar>fval a - (fval t2 - fval t1)\<bar> \<le> pow2 (k - 52)" "\<bar>fval e - (fval t3 - fval t4)\<bar> \<le> pow2 (k - 52)"
    "\<bar>fval u - (fval t4 - fval t1)\<bar> \<le> pow2 (k - 52)" "\<bar>fval v - (fval t3 - fval t2)\<bar> \<le> pow2 (k - 52)"
    unfolding a_def e_def u_def v_def using b k by (auto intro!: fsub_err)
  have t: "\<bar>fval (fadd a e) - (fval a + fval e)\<bar> \<le> pow2 (k - 51)" "\<bar>fval (fsub u v) - (fval u - fval v)\<bar> \<le> pow2 (k - 51)"
    using fadd_err[OF bb(1,2)] fsub_err[OF bb(3,4)] k by simp_all
  have "fbnd (k + 2) (fadd a e)" using fbnd_fadd[OF bb(1,2)] k by (simp add: add.commute)
  then have h: "\<bar>fval (fdiv (fadd a e) (FFin 2)) - fval (fadd a e) / 2\<bar> \<le> pow2 (k - 52)"
    using fhalf_err[of "k + 2"] k by simp
  have od: "offset_delay t1 t2 t3 t4 = (fdiv (fadd a e) (FFin 2), fsub u v)"
    by (simp add: offset_delay_def a_def e_def u_def v_def)
  show ?thesis unfolding od fst_conv snd_conv
    using s t h path p by linarith
qed

lemma offset_error_bound_witness:
  "let t = FFin 1; d1 = 1 / 2; d2 = 1 / 4; theta = 1 in
   \<bar>fval (fst (offset_delay (FFin 0) (FFin (3 / 2)) (FFin (7 / 4)) t)) - theta\<bar>
     \<le> fval (snd (offset_delay (FFin 0) (FFin (3 / 2)) (FFin (7 / 4)) t)) / 2 + pow2 (1 - 49)"
  unfolding Let_def
  by (rule offset_error_bound[where ?d1.0 = "1 / 2" and ?d2.0 = "1 / 4"]) (simp_all add: fbnd_def)

end
