(* ===== verification/KeyIndex.thy ===== *)
theory KeyIndex
  imports Ntp Float64 "HOL-Library.Multiset"
begin

text \<open>The client index of \<open>crates/rusty_time-core/src/server.rs\<close>: the seeded hasher and the
open-addressed table from client key to slot number, with linear probing and backward-shift deletion.
\<open>usize\<close> is 64 bits and is a \<open>nat\<close> here with the wrapping subtraction written out.  The probing loops end
only at a free bucket; they carry the bucket count as fuel and return \<open>None\<close> if it runs out, and the
lemmas show that it never does while one bucket is free.  How a key type feeds the hasher (its \<open>Hash\<close>
implementation, not code of this repository) is the parameter \<open>kh\<close>.\<close>

subsection \<open>Records and slots\<close>

record ClientRecord =
  cl_last_seen :: f64
  cl_tokens :: f64
  cl_requests :: u64
  cl_responses :: u64
  cl_dropped :: u64
  cl_drops_since_kod :: u32
  cl_last_receive :: NtpTimestamp
  cl_last_transmit :: NtpTimestamp
  cl_last_receive_sent :: NtpTimestamp
  cl_interleaved_now :: bool

record 'k Slot =
  sl_key :: 'k
  sl_record :: ClientRecord
  sl_prev :: u32
  sl_next :: u32
  sl_generation :: u32

subsection \<open>The seeded hasher\<close>

definition MIX :: u64 where "MIX = 0x9e3779b185ebca87"

datatype HashWrite = WBytes bytes | WU8 u8 | WU32 u32 | WU64 u64 | WUsize u64

definition mix :: "u64 \<Rightarrow> u64 \<Rightarrow> u64" where
  "mix st v = (st XOR v) * MIX"

definition le_u64 :: "bytes \<Rightarrow> u64" where
  "le_u64 bs = of_be (rev bs)"

function write_bytes :: "u64 \<Rightarrow> bytes \<Rightarrow> u64" where
  "write_bytes st bs =
     (if 8 \<le> length bs then write_bytes (mix st (le_u64 (take 8 bs))) (drop 8 bs)
      else if bs = [] then st
      else mix st (le_u64 (bs @ replicate (8 - length bs) 0) XOR push_bit 56 (of_nat (length bs))))"
  by pat_completeness auto
termination by (relation "measure (length \<circ> snd)") auto

declare write_bytes.simps [simp del]

fun hasher_write :: "HashWrite \<Rightarrow> u64 \<Rightarrow> u64" where
  "hasher_write (WBytes bs) st = write_bytes st bs"
| "hasher_write (WU8 v) st = mix st (ucast v)"
| "hasher_write (WU32 v) st = mix st (ucast v)"
| "hasher_write (WU64 v) st = mix st v"
| "hasher_write (WUsize v) st = mix st v"

definition finish_shift :: "nat \<Rightarrow> u64 \<Rightarrow> u64" where
  "finish_shift n z = z XOR drop_bit n z"

definition finish :: "u64 \<Rightarrow> u64" where
  "finish st = finish_shift 31 (finish_shift 27 (finish_shift 30 st * 0xbf58476d1ce4e5b9) * 0x94d049bb133111eb)"

definition hash_of :: "('k \<Rightarrow> HashWrite list) \<Rightarrow> u64 \<Rightarrow> 'k \<Rightarrow> u32" where
  "hash_of kh seed key = ucast (finish (fold hasher_write (kh key) seed))"

subsection \<open>The index\<close>

record Bucket =
  bk_hash :: u32
  bk_handle :: u32

definition EMPTY :: u32 where "EMPTY = 0xffffffff"

record Index =
  ix_buckets :: "Bucket list"
  ix_mask :: nat
  ix_len :: nat
  ix_seed :: u64

function next_pow2_from :: "nat \<Rightarrow> nat \<Rightarrow> nat" where
  "next_pow2_from p n = (if n \<le> p \<or> p = 0 then p else next_pow2_from (2 * p) n)"
  by pat_completeness auto
termination by (relation "measure (\<lambda>(p, n). n - p)") auto

declare next_pow2_from.simps [simp del]

definition with_capacity :: "nat \<Rightarrow> u64 \<Rightarrow> Index option" where
  "with_capacity c seed =
     (let n = next_pow2_from 1 (max c 1 * 4)
      in if n - 1 \<le> 2 ^ 32 - 1
         then Some \<lparr> ix_buckets = replicate n \<lparr> bk_hash = 0, bk_handle = EMPTY \<rparr>, ix_mask = n - 1, ix_len = 0, ix_seed = seed \<rparr>
         else None)"

definition key_at :: "'k Slot list \<Rightarrow> u32 \<Rightarrow> 'k option" where
  "key_at slots h = (if unat h < length slots then Some (sl_key (slots ! unat h)) else None)"

fun probe_from :: "nat \<Rightarrow> Index \<Rightarrow> u32 \<Rightarrow> 'k \<Rightarrow> 'k Slot list \<Rightarrow> nat \<Rightarrow> nat option option" where
  "probe_from 0 ix hash key slots i = None"
| "probe_from (Suc fuel) ix hash key slots i =
     (if bk_handle (ix_buckets ix ! i) = EMPTY then Some None
      else if bk_hash (ix_buckets ix ! i) = hash \<and> key_at slots (bk_handle (ix_buckets ix ! i)) = Some key then Some (Some i)
      else probe_from fuel ix hash key slots ((i + 1) AND ix_mask ix))"

definition probe :: "u32 \<Rightarrow> 'k \<Rightarrow> 'k Slot list \<Rightarrow> Index \<Rightarrow> nat option option" where
  "probe hash key slots ix = probe_from (length (ix_buckets ix)) ix hash key slots (unat hash AND ix_mask ix)"

definition index_get :: "('k \<Rightarrow> HashWrite list) \<Rightarrow> 'k \<Rightarrow> 'k Slot list \<Rightarrow> Index \<Rightarrow> u32 option option" where
  "index_get kh key slots ix =
     map_option (map_option (\<lambda>i. bk_handle (ix_buckets ix ! i))) (probe (hash_of kh (ix_seed ix) key) key slots ix)"

fun find_free :: "nat \<Rightarrow> Index \<Rightarrow> nat \<Rightarrow> nat option" where
  "find_free 0 ix i = None"
| "find_free (Suc fuel) ix i =
     (if bk_handle (ix_buckets ix ! i) \<noteq> EMPTY then find_free fuel ix ((i + 1) AND ix_mask ix) else Some i)"

definition put_bucket :: "u32 \<Rightarrow> u32 \<Rightarrow> Index \<Rightarrow> nat \<Rightarrow> Index" where
  "put_bucket hash handle ix i =
     ix\<lparr> ix_buckets := (ix_buckets ix)[i := \<lparr> bk_hash = hash, bk_handle = handle \<rparr>], ix_len := ix_len ix + 1 \<rparr>"

definition set_handle :: "u32 \<Rightarrow> Index \<Rightarrow> nat \<Rightarrow> Index" where
  "set_handle handle ix i = ix\<lparr> ix_buckets := (ix_buckets ix)[i := (ix_buckets ix ! i)\<lparr> bk_handle := handle \<rparr>] \<rparr>"

fun insert_at :: "u32 \<Rightarrow> u32 \<Rightarrow> Index \<Rightarrow> nat option option \<Rightarrow> Index option" where
  "insert_at hash handle ix None = None"
| "insert_at hash handle ix (Some (Some i)) = Some (set_handle handle ix i)"
| "insert_at hash handle ix (Some None) =
     map_option (put_bucket hash handle ix) (find_free (length (ix_buckets ix)) ix (unat hash AND ix_mask ix))"

definition index_insert :: "('k \<Rightarrow> HashWrite list) \<Rightarrow> 'k \<Rightarrow> u32 \<Rightarrow> 'k Slot list \<Rightarrow> Index \<Rightarrow> Index option" where
  "index_insert kh key handle slots ix =
     insert_at (hash_of kh (ix_seed ix) key) handle ix (probe (hash_of kh (ix_seed ix) key) key slots ix)"

definition wsub :: "nat \<Rightarrow> nat \<Rightarrow> nat" where
  "wsub a b = (a + 2 ^ 64 - b) mod 2 ^ 64"

definition may_fill :: "Index \<Rightarrow> nat \<Rightarrow> nat \<Rightarrow> bool" where
  "may_fill ix hole i \<longleftrightarrow>
     wsub hole (unat (bk_hash (ix_buckets ix ! i)) AND ix_mask ix) AND ix_mask ix
       < wsub i (unat (bk_hash (ix_buckets ix ! i)) AND ix_mask ix) AND ix_mask ix"

definition pull_back :: "Index \<Rightarrow> nat \<Rightarrow> nat \<Rightarrow> Index" where
  "pull_back ix hole i = set_handle EMPTY (ix\<lparr> ix_buckets := (ix_buckets ix)[hole := ix_buckets ix ! i] \<rparr>) i"

fun shift_back :: "nat \<Rightarrow> Index \<Rightarrow> nat \<Rightarrow> nat \<Rightarrow> Index option" where
  "shift_back 0 ix hole i = None"
| "shift_back (Suc fuel) ix hole i =
     (if bk_handle (ix_buckets ix ! i) = EMPTY then Some ix
      else if may_fill ix hole i then shift_back fuel (pull_back ix hole i) i ((i + 1) AND ix_mask ix)
      else shift_back fuel ix hole ((i + 1) AND ix_mask ix))"

fun remove_at :: "Index \<Rightarrow> nat option option \<Rightarrow> Index option" where
  "remove_at ix None = None"
| "remove_at ix (Some None) = Some ix"
| "remove_at ix (Some (Some hole)) =
     shift_back (length (ix_buckets ix)) ((set_handle EMPTY ix hole)\<lparr> ix_len := ix_len ix - 1 \<rparr>) hole ((hole + 1) AND ix_mask ix)"

definition index_remove :: "('k \<Rightarrow> HashWrite list) \<Rightarrow> 'k \<Rightarrow> 'k Slot list \<Rightarrow> Index \<Rightarrow> Index option" where
  "index_remove kh key slots ix = remove_at ix (probe (hash_of kh (ix_seed ix) key) key slots ix)"

subsection \<open>Cyclic distances\<close>

definition cdist :: "nat \<Rightarrow> nat \<Rightarrow> nat \<Rightarrow> nat" where
  "cdist n a b = (b + n - a) mod n"

lemma cdist_less: "0 < n \<Longrightarrow> cdist n a b < n"
  by (simp add: cdist_def)

lemma cdist_unique: "p < n \<Longrightarrow> d < n \<Longrightarrow> cdist n p ((p + d) mod n) = d"
proof (cases "p + d < n")
  case False
  assume "p < n" "d < n"
  then have "(p + d) mod n = p + d - n" using False by (simp add: mod_if)
  then show ?thesis using False \<open>d < n\<close> by (simp add: cdist_def)
qed (simp add: cdist_def)

lemma add_dist: "a < n \<Longrightarrow> b < n \<Longrightarrow> (a + cdist n a b) mod n = b"
proof -
  assume "a < n" "b < n"
  then have "(a + (b + n - a)) mod n = b" by simp
  then show ?thesis by (simp add: cdist_def mod_add_right_eq)
qed

lemma dist_eq_iff: "a < n \<Longrightarrow> b < n \<Longrightarrow> d < n \<Longrightarrow> cdist n a b = d \<longleftrightarrow> (a + d) mod n = b"
  using cdist_unique[of a n d] add_dist[of a n b] by auto

text \<open>Coordinates that start just after a free bucket \<open>e\<close>: bucket \<open>cpos n e x\<close> has coordinate \<open>x\<close> and
\<open>e\<close> itself is the last one, so no probe run wraps around in them.\<close>

definition cpos :: "nat \<Rightarrow> nat \<Rightarrow> nat \<Rightarrow> nat" where
  "cpos n e x = (e + 1 + x) mod n"

lemma cpos_less: "0 < n \<Longrightarrow> cpos n e x < n"
  by (simp add: cpos_def)

lemma cpos_add: "(cpos n e x + d) mod n = cpos n e (x + d)"
  unfolding cpos_def by (metis mod_add_left_eq add.assoc)

lemma cpos_last: "e < n \<Longrightarrow> cpos n e (n - 1) = e"
  by (simp add: cpos_def)

lemma cpos_cong: "cpos n e (x + n) = cpos n e x"
proof -
  have "e + 1 + (x + n) = (e + 1 + x) + n" by simp
  then show ?thesis unfolding cpos_def by (metis mod_add_self2)
qed

lemma dist_cpos:
  assumes "a < n" "b < n"
  shows "cdist n (cpos n e a) (cpos n e b) = (if a \<le> b then b - a else b + n - a)"
proof -
  have c: "cpos n e a < n" "cpos n e b < n" using assms by (simp_all add: cpos_less)
  show ?thesis
  proof (cases "a \<le> b")
    case True
    have "(cpos n e a + (b - a)) mod n = cpos n e b" using cpos_add[of n e a "b - a"] True by simp
    then show ?thesis using True assms by (simp add: dist_eq_iff[OF c])
  next
    case False
    have "(cpos n e a + (b + n - a)) mod n = cpos n e (b + n)" using cpos_add[of n e a "b + n - a"] False assms by simp
    then have "(cpos n e a + (b + n - a)) mod n = cpos n e b" by (simp only: cpos_cong)
    moreover have "b + n - a < n" using False assms by linarith
    ultimately show ?thesis using False by (simp add: dist_eq_iff[OF c])
  qed
qed

lemma cpos_inj: "a < n \<Longrightarrow> b < n \<Longrightarrow> cpos n e a = cpos n e b \<Longrightarrow> a = b"
  using dist_cpos[of a n b e] dist_cpos[of a n a e] by (auto split: if_splits)

lemma cpos_surj: "e < n \<Longrightarrow> j < n \<Longrightarrow> \<exists>x<n. cpos n e x = j"
proof (intro exI conjI)
  assume "e < n" "j < n"
  then show "cdist n (cpos n e 0) j < n" by (simp add: cdist_less)
  have "cpos n e 0 < n" using \<open>e < n\<close> by (simp add: cpos_less)
  then show "cpos n e (cdist n (cpos n e 0) j) = j"
    using add_dist[of "cpos n e 0" n j] \<open>j < n\<close> by (simp add: cpos_add)
qed

subsection \<open>The probe invariant\<close>

definition occ :: "Bucket \<Rightarrow> bool" where "occ b \<longleftrightarrow> bk_handle b \<noteq> EMPTY"

definition ideal_of :: "nat \<Rightarrow> Bucket \<Rightarrow> nat" where "ideal_of n b = unat (bk_hash b) mod n"

definition entries :: "Bucket list \<Rightarrow> Bucket multiset" where "entries bs = filter_mset occ (mset bs)"

text \<open>Every entry is reachable by a forward scan from its own ideal bucket.\<close>

definition path_ok :: "Bucket list \<Rightarrow> bool" where
  "path_ok bs \<longleftrightarrow> (\<forall>j < length bs. occ (bs ! j) \<longrightarrow>
     (\<forall>d \<le> cdist (length bs) (ideal_of (length bs) (bs ! j)) j.
        occ (bs ! ((ideal_of (length bs) (bs ! j) + d) mod length bs))))"

definition lin_ok :: "Bucket list \<Rightarrow> nat \<Rightarrow> bool" where
  "lin_ok bs e \<longleftrightarrow> (\<forall>x < length bs. occ (bs ! cpos (length bs) e x) \<longrightarrow>
     (\<exists>y \<le> x. ideal_of (length bs) (bs ! cpos (length bs) e x) = cpos (length bs) e y \<and>
        (\<forall>z. y \<le> z \<and> z \<le> x \<longrightarrow> occ (bs ! cpos (length bs) e z))))"

lemma path_imp_lin:
  assumes p: "path_ok bs" and e: "e < length bs" "\<not> occ (bs ! e)"
  shows "lin_ok bs e"
  unfolding lin_ok_def
proof (intro allI impI)
  fix x assume x: "x < length bs" and o: "occ (bs ! cpos (length bs) e x)"
  let ?n = "length bs"
  let ?j = "cpos ?n e x"
  have n: "0 < ?n" using e by linarith
  obtain y where y: "y < ?n" "cpos ?n e y = ideal_of ?n (bs ! ?j)"
    using cpos_surj[OF e(1), of "ideal_of ?n (bs ! ?j)"] n by (auto simp: ideal_of_def)
  have path: "occ (bs ! cpos ?n e (y + d))" if "d \<le> cdist ?n (cpos ?n e y) ?j" for d
    using p o n that unfolding path_ok_def by (metis cpos_add cpos_less y(2))
  have yx: "y \<le> x"
  proof (rule ccontr)
    assume "\<not> y \<le> x"
    then have "cdist ?n (cpos ?n e y) ?j = x + ?n - y" using dist_cpos[of y ?n x e] y(1) x by simp
    then have "occ (bs ! cpos ?n e (y + (?n - 1 - y)))" by (intro path) linarith
    then show False using y(1) e cpos_last[OF e(1)] by simp
  qed
  have "occ (bs ! cpos ?n e z)" if "y \<le> z" "z \<le> x" for z
    using path[of "z - y"] that yx dist_cpos[of y ?n x e] y(1) x by simp
  then show "\<exists>y\<le>x. ideal_of ?n (bs ! ?j) = cpos ?n e y \<and> (\<forall>z. y \<le> z \<and> z \<le> x \<longrightarrow> occ (bs ! cpos ?n e z))"
    using yx y(2) by (intro exI[of _ y]) auto
qed

lemma lin_imp_path:
  assumes l: "lin_ok bs e" and e: "e < length bs"
  shows "path_ok bs"
  unfolding path_ok_def
proof (intro allI impI)
  fix j d assume j: "j < length bs" "occ (bs ! j)"
    and d: "d \<le> cdist (length bs) (ideal_of (length bs) (bs ! j)) j"
  let ?n = "length bs"
  obtain x where x: "x < ?n" "cpos ?n e x = j" using cpos_surj[OF e j(1)] by blast
  obtain y where y: "y \<le> x" "ideal_of ?n (bs ! j) = cpos ?n e y" "\<forall>z. y \<le> z \<and> z \<le> x \<longrightarrow> occ (bs ! cpos ?n e z)"
    using l x j(2) unfolding lin_ok_def by blast
  have "cdist ?n (cpos ?n e y) (cpos ?n e x) = x - y" using dist_cpos[of y ?n x e] x y(1) by simp
  then have "y + d \<le> x" using d x y by simp
  then show "occ (bs ! ((ideal_of ?n (bs ! j) + d) mod ?n))" using y by (simp add: cpos_add)
qed

subsection \<open>The probing loops stop\<close>

definition shape :: "Index \<Rightarrow> bool" where
  "shape ix \<longleftrightarrow> (\<exists>k \<le> 32. length (ix_buckets ix) = 2 ^ k \<and> ix_mask ix = 2 ^ k - 1)"

lemma shape_and: "shape ix \<Longrightarrow> a AND ix_mask ix = a mod length (ix_buckets ix)"
proof -
  assume "shape ix"
  then obtain k where k: "length (ix_buckets ix) = 2 ^ k" "ix_mask ix = mask k" by (auto simp: shape_def mask_eq_exp_minus_1)
  then show ?thesis by (simp only: k take_bit_eq_mask[symmetric] take_bit_eq_mod)
qed

lemma shape_wsub:
  assumes "shape ix" "a < length (ix_buckets ix)" "b < length (ix_buckets ix)"
  shows "wsub a b AND ix_mask ix = cdist (length (ix_buckets ix)) b a"
proof -
  let ?n = "length (ix_buckets ix)"
  obtain k where k: "k \<le> 32" "?n = 2 ^ k" using assms(1) by (auto simp: shape_def)
  have d: "?n dvd 2 ^ 64" unfolding k(2) using k(1) by (intro le_imp_power_dvd) simp
  have le: "?n \<le> 2 ^ 64" using d by (simp add: dvd_imp_le)
  have "wsub a b AND ix_mask ix = (a + 2 ^ 64 - b) mod ?n"
    using d by (simp add: shape_and[OF assms(1)] wsub_def mod_mod_cancel)
  also have "a + 2 ^ 64 - b = (a + ?n - b) + (2 ^ 64 - ?n)" using assms(3) le by linarith
  also have "\<dots> mod ?n = (a + ?n - b) mod ?n" using d by (metis dvd_diff_nat dvd_refl mod_add_right_eq mod_eq_0_iff_dvd add.right_neutral)
  finally show ?thesis by (simp add: cdist_def)
qed

lemma shape_pos: "shape ix \<Longrightarrow> 0 < length (ix_buckets ix)"
  by (auto simp: shape_def)

lemma shape_mod_less: "shape ix \<Longrightarrow> a mod length (ix_buckets ix) < length (ix_buckets ix)"
  by (rule mod_less_divisor[OF shape_pos])

definition hits :: "'k Slot list \<Rightarrow> u32 \<Rightarrow> 'k \<Rightarrow> Bucket \<Rightarrow> bool" where
  "hits slots hash key b \<longleftrightarrow> occ b \<and> bk_hash b = hash \<and> key_at slots (bk_handle b) = Some key"

lemma probe_from_spec:
  assumes ix: "shape ix" and "m < fuel"
    and "\<forall>d < m. occ (ix_buckets ix ! ((s + d) mod length (ix_buckets ix))) \<and>
           \<not> hits slots hash key (ix_buckets ix ! ((s + d) mod length (ix_buckets ix)))"
    and "\<not> occ (ix_buckets ix ! ((s + m) mod length (ix_buckets ix))) \<or>
           hits slots hash key (ix_buckets ix ! ((s + m) mod length (ix_buckets ix)))"
  shows "probe_from fuel ix hash key slots (s mod length (ix_buckets ix)) =
     Some (if occ (ix_buckets ix ! ((s + m) mod length (ix_buckets ix)))
           then Some ((s + m) mod length (ix_buckets ix)) else None)"
  using assms(2-)
proof (induction m arbitrary: s fuel)
  case 0
  then obtain f where "fuel = Suc f" by (cases fuel) auto
  then show ?case using 0 by (auto simp: occ_def hits_def)
next
  case (Suc m)
  let ?n = "length (ix_buckets ix)"
  obtain f where f: "fuel = Suc f" "m < f" using Suc.prems(1) by (cases fuel) auto
  have s: "(Suc s + d) mod ?n = (s + Suc d) mod ?n" for d by simp
  have here: "occ (ix_buckets ix ! (s mod ?n))" "\<not> hits slots hash key (ix_buckets ix ! (s mod ?n))"
    using Suc.prems(2)[rule_format, of 0] by simp_all
  have "probe_from f ix hash key slots (Suc s mod ?n) =
     Some (if occ (ix_buckets ix ! ((Suc s + m) mod ?n)) then Some ((Suc s + m) mod ?n) else None)"
    using Suc.prems(2,3) f(2) by (intro Suc.IH) (auto simp: s simp del: add_Suc add_Suc_right)
  then show ?case using here f(1) ix by (auto simp: occ_def hits_def shape_and mod_Suc_eq)
qed

lemma find_free_spec:
  assumes ix: "shape ix" and "m < fuel"
    and "\<forall>d < m. occ (ix_buckets ix ! ((s + d) mod length (ix_buckets ix)))"
    and "\<not> occ (ix_buckets ix ! ((s + m) mod length (ix_buckets ix)))"
  shows "find_free fuel ix (s mod length (ix_buckets ix)) = Some ((s + m) mod length (ix_buckets ix))"
  using assms(2-)
proof (induction m arbitrary: s fuel)
  case 0
  then obtain f where "fuel = Suc f" by (cases fuel) auto
  then show ?case using 0 by (auto simp: occ_def)
next
  case (Suc m)
  let ?n = "length (ix_buckets ix)"
  obtain f where f: "fuel = Suc f" "m < f" using Suc.prems(1) by (cases fuel) auto
  have s: "(Suc s + d) mod ?n = (s + Suc d) mod ?n" for d by simp
  have here: "occ (ix_buckets ix ! (s mod ?n))" using Suc.prems(2)[rule_format, of 0] by simp
  have "find_free f ix (Suc s mod ?n) = Some ((Suc s + m) mod ?n)"
    using Suc.prems(2,3) f(2) by (intro Suc.IH) (auto simp: s simp del: add_Suc add_Suc_right)
  then show ?case using here f(1) ix by (simp add: occ_def shape_and mod_Suc_eq)
qed

text \<open>Some offset below the bucket count stops a scan, because one bucket is free.\<close>

lemma first_stop:
  assumes "e < length bs" "\<not> occ (bs ! e)" "s < length bs"
  obtains m where "m < length bs" "\<forall>d < m. \<not> (\<not> occ (bs ! ((s + d) mod length bs)) \<or> P (bs ! ((s + d) mod length bs)))"
    "\<not> occ (bs ! ((s + m) mod length bs)) \<or> P (bs ! ((s + m) mod length bs))"
proof -
  let ?Q = "\<lambda>d. \<not> occ (bs ! ((s + d) mod length bs)) \<or> P (bs ! ((s + d) mod length bs))"
  have q: "?Q (cdist (length bs) s e)" using add_dist[OF assms(3,1)] assms(2) by simp
  have "(LEAST d. ?Q d) \<le> cdist (length bs) s e" using q by (rule Least_le)
  also have "\<dots> < length bs" using assms by (intro cdist_less) linarith
  finally have "(LEAST d. ?Q d) < length bs" .
  moreover have "?Q (LEAST d. ?Q d)" using q by (rule LeastI)
  moreover have "\<forall>d < (LEAST d. ?Q d). \<not> ?Q d" using not_less_Least by blast
  ultimately show ?thesis using that by blast
qed

subsection \<open>The backward shift\<close>

text \<open>The loop's invariant in coordinates: the hole is at \<open>p\<close>, the scan at \<open>q\<close>; everything strictly between
is occupied and may not move back into the hole; runs are complete except where they cross the hole.\<close>

definition shifting :: "Bucket list \<Rightarrow> nat \<Rightarrow> nat \<Rightarrow> nat \<Rightarrow> bool" where
  "shifting bs e p q \<longleftrightarrow>
     p < q \<and> q < length bs \<and> e < length bs \<and> \<not> occ (bs ! e) \<and> \<not> occ (bs ! cpos (length bs) e p) \<and>
     (\<forall>z. p < z \<and> z < q \<longrightarrow> occ (bs ! cpos (length bs) e z)) \<and>
     (\<forall>x < length bs. occ (bs ! cpos (length bs) e x) \<longrightarrow>
        (\<exists>y \<le> x. ideal_of (length bs) (bs ! cpos (length bs) e x) = cpos (length bs) e y \<and>
           (\<forall>z. y \<le> z \<and> z \<le> x \<longrightarrow> z = p \<or> occ (bs ! cpos (length bs) e z)) \<and>
           (p < x \<and> x < q \<longrightarrow> p < y)))"

lemma shifting_done:
  assumes "shifting bs e p q" "\<not> occ (bs ! cpos (length bs) e q)"
  shows "lin_ok bs e"
  unfolding lin_ok_def
proof (intro allI impI)
  fix x assume x: "x < length bs" "occ (bs ! cpos (length bs) e x)"
  obtain y where y: "y \<le> x" "ideal_of (length bs) (bs ! cpos (length bs) e x) = cpos (length bs) e y"
    "\<And>z. y \<le> z \<Longrightarrow> z \<le> x \<Longrightarrow> z = p \<or> occ (bs ! cpos (length bs) e z)" "p < x \<and> x < q \<longrightarrow> p < y"
    using assms(1) x unfolding shifting_def by blast
  have p: "p < q" "\<not> occ (bs ! cpos (length bs) e p)" using assms(1) by (simp_all add: shifting_def)
  have "\<not> (y \<le> p \<and> p \<le> x)"
  proof
    assume a: "y \<le> p \<and> p \<le> x"
    then have px: "p < x" using p(2) x(2) by (cases "p = x") auto
    then have "q \<le> x" using y(4) a by linarith
    then have "q = p \<or> occ (bs ! cpos (length bs) e q)" using a p(1) by (intro y(3)) linarith+
    then show False using p(1) assms(2) by simp
  qed
  then show "\<exists>y\<le>x. ideal_of (length bs) (bs ! cpos (length bs) e x) = cpos (length bs) e y \<and>
      (\<forall>z. y \<le> z \<and> z \<le> x \<longrightarrow> occ (bs ! cpos (length bs) e z))"
    using y by blast
qed

lemma shifting_keep:
  assumes J: "shifting bs e p q" and o: "occ (bs ! cpos (length bs) e q)"
    and y: "ideal_of (length bs) (bs ! cpos (length bs) e q) = cpos (length bs) e y" "y < length bs" "p < y"
  shows "shifting bs e p (Suc q)"
proof -
  let ?n = "length bs"
  have q: "q < ?n" "e < ?n" and f: "\<not> occ (bs ! e)" using J by (simp_all add: shifting_def)
  have "q \<noteq> ?n - 1" using o f cpos_last[OF q(2)] by auto
  then have "Suc q < ?n" using q by linarith
  moreover have "occ (bs ! cpos ?n e z)" if "p < z" "z < Suc q" for z
    using that o J by (cases "z = q") (auto simp: shifting_def)
  moreover have "\<exists>y\<le>x. ideal_of ?n (bs ! cpos ?n e x) = cpos ?n e y \<and>
      (\<forall>z. y \<le> z \<and> z \<le> x \<longrightarrow> z = p \<or> occ (bs ! cpos ?n e z)) \<and> (p < x \<and> x < Suc q \<longrightarrow> p < y)"
    if x: "x < ?n" "occ (bs ! cpos ?n e x)" for x
  proof -
    obtain y' where y': "y' \<le> x" "ideal_of ?n (bs ! cpos ?n e x) = cpos ?n e y'"
      "\<forall>z. y' \<le> z \<and> z \<le> x \<longrightarrow> z = p \<or> occ (bs ! cpos ?n e z)" "p < x \<and> x < q \<longrightarrow> p < y'"
      using J x unfolding shifting_def by blast
    have "x = q \<longrightarrow> y' = y" using y y' x cpos_inj[of y' ?n y e] by auto
    then show ?thesis using y' y(3) by (intro exI[of _ y']) auto
  qed
  ultimately show ?thesis using J by (auto simp: shifting_def)
qed

lemma shifting_move:
  assumes J: "shifting bs e p q" and o: "occ (bs ! cpos (length bs) e q)"
    and y: "ideal_of (length bs) (bs ! cpos (length bs) e q) = cpos (length bs) e y" "y < length bs" "y \<le> p"
    and v: "\<not> occ v"
  shows "shifting (bs[cpos (length bs) e p := bs ! cpos (length bs) e q, cpos (length bs) e q := v]) e q (Suc q)"
proof -
  let ?n = "length bs" and ?c = "cpos (length bs) e"
  have q: "p < q" "q < ?n" "e < ?n" and f: "\<not> occ (bs ! e)" "\<not> occ (bs ! ?c p)" using J by (simp_all add: shifting_def)
  have qn: "q \<noteq> ?n - 1" using o f cpos_last[OF q(3)] by auto
  have pn: "p < ?n - 1" using q by linarith
  have cl: "?c z < ?n" for z using q by (intro cpos_less) linarith
  define bs' where "bs' = bs[?c p := bs ! ?c q, ?c q := v]"
  have len: "length bs' = ?n" by (simp add: bs'_def)
  have at: "bs' ! ?c z = (if z = q then v else if z = p then bs ! ?c q else bs ! ?c z)" if "z < ?n" for z
  proof -
    have "?c z = ?c q \<longleftrightarrow> z = q" "?c z = ?c p \<longleftrightarrow> z = p" "?c p \<noteq> ?c q"
      using that q cpos_inj[of z ?n q e] cpos_inj[of z ?n p e] cpos_inj[of p ?n q e] by auto
    with cl[of p] cl[of q] show ?thesis unfolding bs'_def
      by (cases "z = q"; cases "z = p") (simp_all add: nth_list_update)
  qed
  have e': "\<not> occ (bs' ! e)"
    using at[of "?n - 1"] qn pn q f cpos_last[OF q(3)] by simp
  have B: "\<exists>y\<le>x. ideal_of ?n (bs' ! ?c x) = ?c y \<and> (\<forall>z. y \<le> z \<and> z \<le> x \<longrightarrow> z = q \<or> occ (bs' ! ?c z)) \<and>
      (q < x \<and> x < Suc q \<longrightarrow> q < y)" if x: "x < ?n" "occ (bs' ! ?c x)" for x
  proof (cases "x = p")
    case True
    obtain y' where y': "y' \<le> q" "ideal_of ?n (bs ! ?c q) = ?c y'" "\<forall>z. y' \<le> z \<and> z \<le> q \<longrightarrow> z = p \<or> occ (bs ! ?c z)"
      using J o q unfolding shifting_def by blast
    then have "y' = y" using y q by (intro cpos_inj[of y' ?n y e]) simp_all
    then have run: "\<forall>z. y \<le> z \<and> z \<le> p \<longrightarrow> z = p \<or> occ (bs ! ?c z)"
      using y'(3) q by (meson less_imp_le order_trans)
    have "occ (bs' ! ?c z)" if "y \<le> z" "z \<le> p" for z
    proof -
      have "z = p \<or> occ (bs ! ?c z)" using run that by blast
      moreover have "z < ?n" "z \<noteq> q" using that q by linarith+
      ultimately show ?thesis using at[of z] o by (cases "z = p"; simp)
    qed
    moreover have "bs' ! ?c p = bs ! ?c q" using at[of p] q by simp
    ultimately show ?thesis using True y q by (intro exI[of _ y]) simp
  next
    case False
    have xq: "x \<noteq> q" using x(2) at[of q] q v by (cases "x = q") simp_all
    then have ox: "occ (bs ! ?c x)" using x(2) at[OF x(1)] False by simp
    then obtain y' where y': "y' \<le> x" "ideal_of ?n (bs ! ?c x) = ?c y'" "\<forall>z. y' \<le> z \<and> z \<le> x \<longrightarrow> z = p \<or> occ (bs ! ?c z)"
      using J x unfolding shifting_def by blast
    have "z = q \<or> occ (bs' ! ?c z)" if "y' \<le> z" "z \<le> x" for z
    proof -
      have "z < ?n" using that x(1) by linarith
      moreover have "z = p \<or> occ (bs ! ?c z)" using y'(3) that by blast
      ultimately show ?thesis using at[of z] o by (cases "z = q"; cases "z = p"; simp)
    qed
    then show ?thesis using xq False x y' at[of x] by (intro exI[of _ y']) simp
  qed
  have C: "q < Suc q" "Suc q < ?n" using q qn by linarith+
  have D: "\<not> occ (bs' ! ?c q)" using at[OF q(2)] v by simp
  have E: "\<forall>z. q < z \<and> z < Suc q \<longrightarrow> occ (bs' ! ?c z)" by auto
  have "shifting bs' e q (Suc q)"
    unfolding shifting_def len using C q(3) e' D E B by blast
  then show ?thesis by (simp only: bs'_def)
qed

lemma entries_update:
  assumes "i < length bs"
  shows "entries (bs[i := b]) = (if occ b then {#b#} else {#}) + (entries bs - (if occ (bs ! i) then {#bs ! i#} else {#}))"
  using assms by (auto simp: entries_def mset_update)

lemma entries_move:
  assumes "p < length bs" "q < length bs" "p \<noteq> q" "\<not> occ (bs ! p)" "\<not> occ v"
  shows "entries (bs[p := bs ! q, q := v]) = entries bs"
proof -
  have "bs ! q \<in># entries bs" if "occ (bs ! q)" using that assms by (simp add: entries_def)
  then show ?thesis using assms by (auto simp: entries_update)
qed

lemma shift_back_spec:
  assumes "shape ix" "shifting (ix_buckets ix) e p q" "length (ix_buckets ix) - q \<le> fuel"
  shows "\<exists>ix'. shift_back fuel ix (cpos (length (ix_buckets ix)) e p) (cpos (length (ix_buckets ix)) e q) = Some ix' \<and>
     shape ix' \<and> lin_ok (ix_buckets ix') e \<and> entries (ix_buckets ix') = entries (ix_buckets ix) \<and>
     length (ix_buckets ix') = length (ix_buckets ix) \<and> ix_len ix' = ix_len ix \<and> ix_seed ix' = ix_seed ix"
  using assms
proof (induction fuel arbitrary: ix p q)
  case 0
  then show ?case by (simp add: shifting_def)
next
  case (Suc fuel)
  let ?bs = "ix_buckets ix"
  let ?n = "length ?bs" and ?c = "cpos (length (ix_buckets ix)) e"
  note J = Suc.prems(2)
  have q: "p < q" "q < ?n" "e < ?n" "\<not> occ (?bs ! ?c p)" using J by (simp_all add: shifting_def)
  have cl: "?c z < ?n" for z using q by (intro cpos_less) linarith
  note c = cl[of p] cl[of q]
  have step: "(?c q + 1) AND ix_mask ix = ?c (Suc q)" using Suc.prems(1) by (simp add: shape_and cpos_def mod_Suc_eq)
  show ?case
  proof (cases "occ (?bs ! ?c q)")
    case False
    then show ?thesis using shifting_done[OF J] Suc.prems(1) by (auto simp: occ_def)
  next
    case o: True
    then obtain y where y: "y \<le> q" "ideal_of ?n (?bs ! ?c q) = ?c y" using J unfolding shifting_def by blast
    then have yn: "y < ?n" using q by linarith
    have i: "unat (bk_hash (?bs ! ?c q)) AND ix_mask ix = ?c y"
      using y(2) Suc.prems(1) by (simp add: shape_and ideal_of_def)
    note yl = cl[of y]
    have d: "may_fill ix (?c p) (?c q) \<longleftrightarrow> y \<le> p"
      using y(1) yn q dist_cpos[OF yn, of p e] dist_cpos[OF yn, of q e]
      by (simp add: may_fill_def i shape_wsub[OF Suc.prems(1) c(1) yl] shape_wsub[OF Suc.prems(1) c(2) yl]) linarith
    show ?thesis
    proof (cases "y \<le> p")
      case True
      let ?v = "(?bs ! ?c q)\<lparr> bk_handle := EMPTY \<rparr>"
      have v: "\<not> occ ?v" by (simp add: occ_def)
      have ne: "?c p \<noteq> ?c q" using cpos_inj[of p ?n q e] q by auto
      have pb: "ix_buckets (pull_back ix (?c p) (?c q)) = ?bs[?c p := ?bs ! ?c q, ?c q := ?v]"
        using ne c by (simp add: pull_back_def set_handle_def)
      have sh: "shape (pull_back ix (?c p) (?c q))" using Suc.prems(1) by (simp add: shape_def pull_back_def set_handle_def)
      have J': "shifting (ix_buckets (pull_back ix (?c p) (?c q))) e q (Suc q)"
        unfolding pb by (rule shifting_move[OF J o y(2) yn True v])
      have en: "entries (ix_buckets (pull_back ix (?c p) (?c q))) = entries ?bs"
        unfolding pb by (rule entries_move[OF c ne q(4) v])
      show ?thesis using Suc.IH[OF sh J'] Suc.prems(3) o d True step en
        by (auto simp: occ_def pb) (simp_all add: pull_back_def set_handle_def)
    next
      case False
      then have J': "shifting ?bs e p (Suc q)" using shifting_keep[OF J o y(2) yn] by simp
      show ?thesis using Suc.IH[OF Suc.prems(1) J'] Suc.prems(3) o d False step by (auto simp: occ_def)
    qed
  qed
qed

text \<open>Clearing one entry's handle leaves exactly the state the shift loop starts from.\<close>

lemma shifting_init:
  assumes l: "lin_ok bs e" and e: "e < length bs" "\<not> occ (bs ! e)" and p: "p < length bs - 1" and v: "\<not> occ v"
  shows "shifting (bs[cpos (length bs) e p := v]) e p (Suc p)"
proof -
  let ?n = "length bs" and ?c = "cpos (length bs) e"
  let ?bs = "bs[?c p := v]"
  have cl: "?c z < ?n" for z using e by (intro cpos_less) linarith
  have at: "?bs ! ?c z = (if z = p then v else bs ! ?c z)" if "z < ?n" for z
    using that p cl cpos_inj[of z ?n p e] by (auto simp: nth_list_update)
  have e': "\<not> occ (?bs ! e)" using at[of "?n - 1"] p e cpos_last[OF e(1)] by simp
  have "\<exists>y\<le>x. ideal_of ?n (?bs ! ?c x) = ?c y \<and> (\<forall>z. y \<le> z \<and> z \<le> x \<longrightarrow> z = p \<or> occ (?bs ! ?c z)) \<and>
      (p < x \<and> x < Suc p \<longrightarrow> p < y)" if x: "x < ?n" "occ (?bs ! ?c x)" for x
  proof -
    have xp: "x \<noteq> p" using x at v by auto
    then have "occ (bs ! ?c x)" using x at by simp
    then obtain y where "y \<le> x" "ideal_of ?n (bs ! ?c x) = ?c y" "\<forall>z. y \<le> z \<and> z \<le> x \<longrightarrow> occ (bs ! ?c z)"
      using l x unfolding lin_ok_def by blast
    then show ?thesis using xp x at by (intro exI[of _ y]) auto
  qed
  moreover have "Suc p < ?n" using p by linarith
  moreover have "\<not> occ (?bs ! ?c p)" using at[of p] v p by simp
  ultimately show ?thesis using e e' unfolding shifting_def by auto
qed

subsection \<open>The index as a finite map\<close>

definition bkey :: "'k Slot list \<Rightarrow> Bucket \<Rightarrow> 'k" where
  "bkey slots b = sl_key (slots ! unat (bk_handle b))"

definition index_ok :: "('k \<Rightarrow> HashWrite list) \<Rightarrow> 'k Slot list \<Rightarrow> Index \<Rightarrow> bool" where
  "index_ok kh slots ix \<longleftrightarrow> shape ix \<and> path_ok (ix_buckets ix) \<and>
     ix_len ix = size (entries (ix_buckets ix)) \<and> size (entries (ix_buckets ix)) < length (ix_buckets ix) \<and>
     (\<forall>b \<in># entries (ix_buckets ix). unat (bk_handle b) < length slots \<and>
        bk_hash b = hash_of kh (ix_seed ix) (bkey slots b)) \<and>
     (\<forall>k. count (image_mset (bkey slots) (entries (ix_buckets ix))) k \<le> 1)"

definition imap :: "'k Slot list \<Rightarrow> Index \<Rightarrow> 'k \<Rightarrow> u32 option" where
  "imap slots ix = map_of (map (\<lambda>b. (bkey slots b, bk_handle b)) (filter occ (ix_buckets ix)))"

lemma set_entries: "set_mset (entries bs) = set (filter occ bs)"
  by (simp add: entries_def)

lemma entry_nth: "i < length bs \<Longrightarrow> occ (bs ! i) \<Longrightarrow> bs ! i \<in># entries bs"
  by (simp add: entries_def)

lemma entry_obtain: "b \<in># entries bs \<Longrightarrow> \<exists>i < length bs. bs ! i = b \<and> occ b"
  by (auto simp: entries_def in_set_conv_nth)

lemma distinct_keys:
  assumes "\<forall>k. count (image_mset f (entries bs)) k \<le> 1"
  shows "distinct (map f (filter occ bs))"
proof -
  have "mset (map f (filter occ bs)) = image_mset f (entries bs)" by (simp add: entries_def)
  then have "count (mset (map f (filter occ bs))) k \<le> 1" for k using assms by simp
  then show ?thesis
    by (metis (no_types, lifting) One_nat_def count_mset_0_iff distinct_count_atmost_1 le_antisym not_less_eq_eq le_zero_eq)
qed

lemma distinct_filter_nth:
  "distinct (map f (filter P xs)) \<Longrightarrow> i < length xs \<Longrightarrow> j < length xs \<Longrightarrow> P (xs ! i) \<Longrightarrow> P (xs ! j) \<Longrightarrow>
   f (xs ! i) = f (xs ! j) \<Longrightarrow> i = j"
proof (induction xs arbitrary: i j)
  case (Cons x xs)
  have m: "f (xs ! k) \<in> f ` set (filter P xs)" if "k < length xs" "P (xs ! k)" for k
    using that by (intro imageI) simp
  show ?case
  proof (cases i; cases j)
    fix i' j' assume "i = Suc i'" "j = Suc j'"
    then show ?thesis using Cons.IH[of i' j'] Cons.prems by (auto split: if_splits)
  next
    fix j' assume "i = 0" "j = Suc j'"
    then show ?thesis using Cons.prems m[of j'] by (auto split: if_splits)
  next
    fix i' assume "i = Suc i'" "j = 0"
    then show ?thesis using Cons.prems m[of i'] by (auto split: if_splits)
  qed simp
qed simp

lemma imap_iff:
  assumes "index_ok kh slots ix"
  shows "imap slots ix k = Some h \<longleftrightarrow> (\<exists>b \<in># entries (ix_buckets ix). bkey slots b = k \<and> bk_handle b = h)"
proof -
  have "distinct (map fst (map (\<lambda>b. (bkey slots b, bk_handle b)) (filter occ (ix_buckets ix))))"
    using distinct_keys[of "bkey slots"] assms by (simp add: index_ok_def comp_def)
  then show ?thesis by (auto simp: imap_def map_of_eq_Some_iff set_entries)
qed

lemma imap_None: "index_ok kh slots ix \<Longrightarrow> imap slots ix k = None \<longleftrightarrow> (\<forall>b \<in># entries (ix_buckets ix). bkey slots b \<noteq> k)"
  using imap_iff[of kh slots ix k] by (metis not_None_eq)

lemma imap_eqI:
  assumes "index_ok kh slots ix" "\<And>k h. m k = Some h \<longleftrightarrow> (\<exists>b \<in># entries (ix_buckets ix). bkey slots b = k \<and> bk_handle b = h)"
  shows "imap slots ix = m"
proof
  fix k
  have "imap slots ix k = Some h \<longleftrightarrow> m k = Some h" for h using imap_iff[OF assms(1)] assms(2) by simp
  then show "imap slots ix k = m k" by (cases "m k"; cases "imap slots ix k") auto
qed

lemma free_bucket:
  assumes "size (entries bs) < length bs" shows "\<exists>e < length bs. \<not> occ (bs ! e)"
proof (rule ccontr)
  assume "\<not> ?thesis"
  then have "filter occ bs = bs" by (auto simp: filter_id_conv in_set_conv_nth)
  then show False using assms by (simp add: entries_def mset_filter[symmetric] del: mset_filter)
qed

lemma probe_correct:
  assumes ok: "index_ok kh slots ix" and h: "hash = hash_of kh (ix_seed ix) key"
  shows "\<exists>m < length (ix_buckets ix). \<exists>i. i = (unat hash + m) mod length (ix_buckets ix) \<and>
     (\<forall>d < m. occ (ix_buckets ix ! ((unat hash + d) mod length (ix_buckets ix)))) \<and>
     (if occ (ix_buckets ix ! i) then probe hash key slots ix = Some (Some i) \<and> bkey slots (ix_buckets ix ! i) = key
      else probe hash key slots ix = Some None \<and> (\<forall>b \<in># entries (ix_buckets ix). bkey slots b \<noteq> key))"
proof -
  let ?bs = "ix_buckets ix"
  let ?n = "length ?bs" and ?s = "unat hash mod length ?bs"
  have sh: "shape ix" and path: "path_ok ?bs" using ok by (simp_all add: index_ok_def)
  have s: "?s < ?n" by (rule shape_mod_less[OF sh])
  obtain e where e: "e < ?n" "\<not> occ (?bs ! e)" using ok free_bucket[of ?bs] by (auto simp: index_ok_def)
  obtain m where m: "m < ?n" "\<forall>d < m. \<not> (\<not> occ (?bs ! ((?s + d) mod ?n)) \<or> hits slots hash key (?bs ! ((?s + d) mod ?n)))"
    "\<not> occ (?bs ! ((?s + m) mod ?n)) \<or> hits slots hash key (?bs ! ((?s + m) mod ?n))"
    using first_stop[OF e s] by blast
  have sd: "(?s + d) mod ?n = (unat hash + d) mod ?n" for d by (simp add: mod_add_left_eq)
  define i where "i = (unat hash + m) mod ?n"
  have p: "probe hash key slots ix = Some (if occ (?bs ! i) then Some i else None)"
    using probe_from_spec[OF sh m(1), of ?s slots hash key] m(2,3) unfolding sd i_def
    by (simp add: probe_def shape_and[OF sh])
  have kt: "key_at slots (bk_handle b) = Some (bkey slots b)" if "b \<in># entries ?bs" for b
    using that ok by (auto simp: key_at_def bkey_def index_ok_def)
  have "bkey slots (?bs ! i) = key" if "occ (?bs ! i)"
    using m(3) that kt[OF entry_nth[of i ?bs]] s unfolding sd i_def[symmetric] by (auto simp: hits_def i_def shape_mod_less[OF sh])
  moreover have "bkey slots b \<noteq> key" if f: "\<not> occ (?bs ! i)" and b: "b \<in># entries ?bs" for b
  proof
    assume k: "bkey slots b = key"
    obtain j where j: "j < ?n" "?bs ! j = b" "occ b" using entry_obtain[OF b] by blast
    have hb: "bk_hash b = hash" using ok b k h by (auto simp: index_ok_def)
    have id: "ideal_of ?n (?bs ! j) = ?s" by (simp add: ideal_of_def j hb)
    have "hits slots hash key (?bs ! ((?s + cdist ?n ?s j) mod ?n))"
      using j hb kt[OF b] k add_dist[OF s j(1)] by (simp add: hits_def)
    then have "m \<le> cdist ?n ?s j" using m(2) by (meson not_le_imp_less)
    then have "occ (?bs ! ((?s + m) mod ?n))" using path j id unfolding path_ok_def by metis
    then show False using f unfolding sd i_def by blast
  qed
  moreover have "\<forall>d < m. occ (?bs ! ((unat hash + d) mod ?n))" using m(2) by (simp only: sd) blast
  moreover have "if occ (?bs ! i) then probe hash key slots ix = Some (Some i) \<and> bkey slots (?bs ! i) = key
      else probe hash key slots ix = Some None \<and> (\<forall>b \<in># entries ?bs. bkey slots b \<noteq> key)"
    using p calculation by simp
  ultimately show ?thesis using m(1) i_def by blast
qed

lemma get_correct: "index_ok kh slots ix \<Longrightarrow> index_get kh key slots ix = Some (imap slots ix key)"
proof -
  assume ok: "index_ok kh slots ix"
  obtain m i where "i = (unat (hash_of kh (ix_seed ix) key) + m) mod length (ix_buckets ix)"
    and p: "if occ (ix_buckets ix ! i) then probe (hash_of kh (ix_seed ix) key) key slots ix = Some (Some i) \<and> bkey slots (ix_buckets ix ! i) = key
      else probe (hash_of kh (ix_seed ix) key) key slots ix = Some None \<and> (\<forall>b \<in># entries (ix_buckets ix). bkey slots b \<noteq> key)"
    using probe_correct[OF ok refl, of key] by blast
  then have i: "i < length (ix_buckets ix)" using ok by (simp add: index_ok_def shape_mod_less)
  show ?thesis
  proof (cases "occ (ix_buckets ix ! i)")
    case True
    then have "imap slots ix key = Some (bk_handle (ix_buckets ix ! i))"
      using p i entry_nth[OF i True] by (auto simp: imap_iff[OF ok])
    then show ?thesis using True p by (simp add: index_get_def)
  next
    case False
    then have "imap slots ix key = None" using p by (simp add: imap_None[OF ok])
    then show ?thesis using False p by (simp add: index_get_def)
  qed
qed

lemma get_hole:
  assumes ok: "index_ok kh slots ix" and k: "imap slots ix key = Some h"
  shows "\<exists>i < length (ix_buckets ix). occ (ix_buckets ix ! i) \<and> bkey slots (ix_buckets ix ! i) = key \<and>
     bk_handle (ix_buckets ix ! i) = h \<and> probe (hash_of kh (ix_seed ix) key) key slots ix = Some (Some i)"
proof -
  obtain m i where i: "i = (unat (hash_of kh (ix_seed ix) key) + m) mod length (ix_buckets ix)"
    and p: "if occ (ix_buckets ix ! i) then probe (hash_of kh (ix_seed ix) key) key slots ix = Some (Some i) \<and> bkey slots (ix_buckets ix ! i) = key
      else probe (hash_of kh (ix_seed ix) key) key slots ix = Some None \<and> (\<forall>b \<in># entries (ix_buckets ix). bkey slots b \<noteq> key)"
    using probe_correct[OF ok refl, of key] by blast
  have il: "i < length (ix_buckets ix)" using ok i by (simp add: index_ok_def shape_mod_less)
  have o: "occ (ix_buckets ix ! i)" using p k imap_None[OF ok, of key] by (cases "occ (ix_buckets ix ! i)") auto
  then have "imap slots ix key = Some (bk_handle (ix_buckets ix ! i))"
    using p il entry_nth[OF il o] by (auto simp: imap_iff[OF ok])
  then show ?thesis using k o p il by auto
qed

lemma path_ok_cong:
  assumes "path_ok bs" "length bs' = length bs" "\<And>j. j < length bs \<Longrightarrow> occ (bs' ! j) = occ (bs ! j)"
    "\<And>j. j < length bs \<Longrightarrow> bk_hash (bs' ! j) = bk_hash (bs ! j)"
  shows "path_ok bs'"
proof (cases "bs = []")
  case False
  then have "x mod length bs < length bs" for x by simp
  then show ?thesis using assms unfolding path_ok_def ideal_of_def by simp
qed (use assms in \<open>simp add: path_ok_def\<close>)

lemma shape_update: "shape ix \<Longrightarrow> length bs = length (ix_buckets ix) \<Longrightarrow> shape (ix\<lparr> ix_buckets := bs, ix_len := l \<rparr>)"
  by (simp add: shape_def)

lemma insert_new:
  assumes ok: "index_ok kh slots ix" and new: "imap slots ix key = None"
    and h: "key_at slots handle = Some key" "handle \<noteq> EMPTY" and room: "Suc (ix_len ix) < length (ix_buckets ix)"
  shows "\<exists>ix'. index_insert kh key handle slots ix = Some ix' \<and> index_ok kh slots ix' \<and>
     imap slots ix' = (imap slots ix)(key \<mapsto> handle) \<and> length (ix_buckets ix') = length (ix_buckets ix) \<and>
     ix_len ix' = Suc (ix_len ix) \<and> ix_seed ix' = ix_seed ix"
proof -
  let ?bs = "ix_buckets ix" and ?h = "hash_of kh (ix_seed ix) key"
  let ?n = "length ?bs"
  have sh: "shape ix" and path: "path_ok ?bs" using ok by (simp_all add: index_ok_def)
  obtain m i where m: "m < ?n" and i: "i = (unat ?h + m) mod ?n" and run: "\<forall>d < m. occ (?bs ! ((unat ?h + d) mod ?n))"
    and p: "if occ (?bs ! i) then probe ?h key slots ix = Some (Some i) \<and> bkey slots (?bs ! i) = key
      else probe ?h key slots ix = Some None \<and> (\<forall>b \<in># entries ?bs. bkey slots b \<noteq> key)"
    using probe_correct[OF ok refl, of key] by blast
  have il: "i < ?n" using i by (simp add: shape_mod_less[OF sh])
  have f: "\<not> occ (?bs ! i)"
    using p new entry_nth[OF il] imap_None[OF ok, of key] by (cases "occ (?bs ! i)") auto
  define b where "b = \<lparr> bk_hash = ?h, bk_handle = handle \<rparr>"
  define ix' where "ix' = put_bucket ?h handle ix i"
  have ob: "occ b" using h(2) by (simp add: b_def occ_def)
  have bs': "ix_buckets ix' = ?bs[i := b]" by (simp add: ix'_def put_bucket_def b_def)
  have "find_free ?n ix (unat ?h mod ?n) = Some i"
    using find_free_spec[OF sh m, of "unat ?h"] run f by (simp add: i)
  then have ins: "index_insert kh key handle slots ix = Some ix'"
    using p f by (simp add: index_insert_def ix'_def shape_and[OF sh])
  have en: "entries (ix_buckets ix') = add_mset b (entries ?bs)" using il f ob by (simp add: bs' entries_update)
  have at: "?bs[i := b] ! j = (if j = i then b else ?bs ! j)" if "j < ?n" for j using that by simp
  have oc: "occ (?bs[i := b] ! j)" if "j < ?n" "occ (?bs ! j)" for j using that ob il by (cases "j = i") simp_all
  have "occ (?bs[i := b] ! ((ideal_of ?n (?bs[i := b] ! j) + d) mod ?n))"
    if j: "j < ?n" "occ (?bs[i := b] ! j)" and d: "d \<le> cdist ?n (ideal_of ?n (?bs[i := b] ! j)) j" for j d
  proof (cases "j = i")
    case True
    have idl: "ideal_of ?n (?bs[i := b] ! j) = unat ?h mod ?n" using True il at by (simp add: ideal_of_def b_def)
    have "cdist ?n (unat ?h mod ?n) i = m" using cdist_unique[OF shape_mod_less[OF sh] m] by (simp add: i mod_add_left_eq)
    then have "d < m \<or> d = m" using d True idl by auto
    then show ?thesis using run oc[OF shape_mod_less[OF sh]] at[OF il] ob idl i by (auto simp: mod_add_left_eq)
  next
    case False
    then have e: "?bs[i := b] ! j = ?bs ! j" using j at by simp
    then have "occ (?bs ! ((ideal_of ?n (?bs ! j) + d) mod ?n))" using path j d unfolding path_ok_def by simp
    then show ?thesis using oc[OF shape_mod_less[OF sh]] e by simp
  qed
  then have path': "path_ok (ix_buckets ix')" by (simp add: path_ok_def bs')
  have kb: "bkey slots b = key" "unat (bk_handle b) < length slots"
    using h(1) by (auto simp: b_def bkey_def key_at_def split: if_splits)
  have "count (image_mset (bkey slots) (entries ?bs)) key = 0"
    using new imap_None[OF ok, of key] by (auto simp: count_eq_zero_iff)
  then have uniq: "\<forall>k. count (image_mset (bkey slots) (entries (ix_buckets ix'))) k \<le> 1"
    using ok kb(1) by (simp add: index_ok_def en)
  have fl: "ix_len ix' = Suc (ix_len ix)" "ix_seed ix' = ix_seed ix" "length (ix_buckets ix') = ?n" "shape ix'"
    using sh by (simp_all add: ix'_def put_bucket_def shape_def)
  have "\<forall>x \<in># entries (ix_buckets ix'). unat (bk_handle x) < length slots \<and>
      bk_hash x = hash_of kh (ix_seed ix') (bkey slots x)"
    using ok kb by (simp add: index_ok_def en fl b_def)
  then have "index_ok kh slots ix'"
    using ok path' uniq room fl by (simp add: index_ok_def en)
  moreover from this have "imap slots ix' = (imap slots ix)(key \<mapsto> handle)"
    using kb p f by (intro imap_eqI) (auto simp: en imap_iff[OF ok] b_def)
  ultimately show ?thesis using ins fl by blast
qed

lemma insert_over:
  assumes ok: "index_ok kh slots ix" and old: "imap slots ix key = Some h0"
    and h: "key_at slots handle = Some key" "handle \<noteq> EMPTY"
  shows "\<exists>ix'. index_insert kh key handle slots ix = Some ix' \<and> index_ok kh slots ix' \<and>
     imap slots ix' = (imap slots ix)(key \<mapsto> handle) \<and> length (ix_buckets ix') = length (ix_buckets ix) \<and>
     ix_len ix' = ix_len ix \<and> ix_seed ix' = ix_seed ix"
proof -
  let ?bs = "ix_buckets ix"
  obtain i where i: "i < length ?bs" "occ (?bs ! i)" "bkey slots (?bs ! i) = key"
    and p: "probe (hash_of kh (ix_seed ix) key) key slots ix = Some (Some i)"
    using get_hole[OF ok old] by blast
  define b where "b = (?bs ! i)\<lparr> bk_handle := handle \<rparr>"
  define ix' where "ix' = set_handle handle ix i"
  have ob: "occ b" using h(2) by (simp add: b_def occ_def)
  have fl: "ix_buckets ix' = ?bs[i := b]" "ix_len ix' = ix_len ix" "ix_seed ix' = ix_seed ix" "ix_mask ix' = ix_mask ix"
    by (simp_all add: ix'_def set_handle_def b_def)
  define M where "M = entries ?bs - {#?bs ! i#}"
  have en: "entries ?bs = add_mset (?bs ! i) M" using entry_nth[OF i(1,2)] by (simp add: M_def)
  have en': "entries (ix_buckets ix') = add_mset b M" using i ob by (simp add: fl entries_update M_def)
  have kb: "bkey slots b = key" "unat (bk_handle b) < length slots" "bk_hash b = bk_hash (?bs ! i)"
    using h(1) by (auto simp: b_def bkey_def key_at_def split: if_splits)
  have "path_ok (ix_buckets ix')"
  proof (rule path_ok_cong)
    show "path_ok ?bs" using ok by (simp add: index_ok_def)
    show "occ (ix_buckets ix' ! j) = occ (?bs ! j)" "bk_hash (ix_buckets ix' ! j) = bk_hash (?bs ! j)" if "j < length ?bs" for j
      using that i ob kb(3) by (cases "j = i"; simp add: fl)+
  qed (simp add: fl)
  then have ok': "index_ok kh slots ix'"
    using ok i(3) kb unfolding index_ok_def en en' by (auto simp: fl shape_def)
  moreover have "imap slots ix' = (imap slots ix)(key \<mapsto> handle)"
  proof (rule imap_eqI[OF ok'])
    fix k h
    have "count (image_mset (bkey slots) M) key = 0" using ok i(3) unfolding index_ok_def en by (auto dest: spec[of _ key])
    then have "\<forall>x \<in># M. bkey slots x \<noteq> key" by (auto simp: count_eq_zero_iff)
    then show "((imap slots ix)(key \<mapsto> handle)) k = Some h \<longleftrightarrow> (\<exists>b \<in># entries (ix_buckets ix'). bkey slots b = k \<and> bk_handle b = h)"
      using i(3) kb by (auto simp: en' en imap_iff[OF ok] b_def)
  qed
  ultimately show ?thesis using p fl by (auto simp: index_insert_def ix'_def)
qed

lemma remove_correct:
  assumes ok: "index_ok kh slots ix" and old: "imap slots ix key = Some h"
  shows "\<exists>ix'. index_remove kh key slots ix = Some ix' \<and> index_ok kh slots ix' \<and>
     imap slots ix' = (imap slots ix)(key := None) \<and> length (ix_buckets ix') = length (ix_buckets ix) \<and>
     Suc (ix_len ix') = ix_len ix \<and> ix_seed ix' = ix_seed ix"
proof -
  let ?bs = "ix_buckets ix"
  let ?n = "length ?bs"
  obtain i where i: "i < ?n" "occ (?bs ! i)" "bkey slots (?bs ! i) = key"
    and p: "probe (hash_of kh (ix_seed ix) key) key slots ix = Some (Some i)"
    using get_hole[OF ok old] by blast
  have sh: "shape ix" and path: "path_ok ?bs" using ok by (simp_all add: index_ok_def)
  obtain e where e: "e < ?n" "\<not> occ (?bs ! e)" using ok free_bucket[of ?bs] by (auto simp: index_ok_def)
  obtain q where q: "q < ?n" "cpos ?n e q = i" using cpos_surj[OF e(1) i(1)] by blast
  have "q \<noteq> ?n - 1" using q(2) cpos_last[OF e(1)] i(2) e(2) by auto
  then have q1: "q < ?n - 1" using q(1) by linarith
  define v where "v = (?bs ! i)\<lparr> bk_handle := EMPTY \<rparr>"
  have ov: "\<not> occ v" by (simp add: v_def occ_def)
  define ix1 where "ix1 = (set_handle EMPTY ix i)\<lparr> ix_len := ix_len ix - 1 \<rparr>"
  have fl: "ix_buckets ix1 = ?bs[i := v]" "ix_len ix1 = ix_len ix - 1" "ix_seed ix1 = ix_seed ix" "ix_mask ix1 = ix_mask ix"
    by (simp_all add: ix1_def set_handle_def v_def)
  have sh1: "shape ix1" using sh by (simp add: shape_def fl)
  have J: "shifting (ix_buckets ix1) e q (Suc q)"
    using shifting_init[OF path_imp_lin[OF path e] e q1 ov] q(2) by (simp add: fl)
  have nx: "(i + 1) AND ix_mask ix = cpos ?n e (Suc q)" unfolding shape_and[OF sh] q(2)[symmetric] cpos_add by simp
  obtain ix' where s: "shift_back ?n ix1 i ((i + 1) AND ix_mask ix) = Some ix'"
    and r: "shape ix'" "lin_ok (ix_buckets ix') e" "entries (ix_buckets ix') = entries (ix_buckets ix1)"
      "length (ix_buckets ix') = ?n" "ix_len ix' = ix_len ix - 1" "ix_seed ix' = ix_seed ix"
    using shift_back_spec[OF sh1 J, of ?n] q(2) nx by (auto simp: fl)
  define M where "M = entries ?bs - {#?bs ! i#}"
  have en: "entries ?bs = add_mset (?bs ! i) M" using entry_nth[OF i(1,2)] by (simp add: M_def)
  have en': "entries (ix_buckets ix') = M" using i ov by (simp add: r(3) fl entries_update M_def)
  have "path_ok (ix_buckets ix')" using r(2) e r(4) by (intro lin_imp_path) auto
  then have ok': "index_ok kh slots ix'"
  proof -
    have c: "count (image_mset (bkey slots) M) k \<le> count (image_mset (bkey slots) (entries ?bs)) k" for k by (simp add: en)
    have "count (image_mset (bkey slots) (entries ?bs)) k \<le> 1" for k using ok by (simp add: index_ok_def)
    then have "count (image_mset (bkey slots) M) k \<le> 1" for k using c le_trans by blast
    moreover assume "path_ok (ix_buckets ix')"
    ultimately show ?thesis using ok r(1,4,5,6) by (simp add: index_ok_def en en')
  qed
  moreover have "imap slots ix' = (imap slots ix)(key := None)"
  proof (rule imap_eqI[OF ok'])
    fix k h
    have "count (image_mset (bkey slots) M) key = 0" using ok i(3) unfolding index_ok_def en by (auto dest: spec[of _ key])
    then have "\<forall>x \<in># M. bkey slots x \<noteq> key" by (auto simp: count_eq_zero_iff)
    then show "((imap slots ix)(key := None)) k = Some h \<longleftrightarrow> (\<exists>b \<in># entries (ix_buckets ix'). bkey slots b = k \<and> bk_handle b = h)"
      using i(3) by (auto simp: en' en imap_iff[OF ok])
  qed
  moreover have "Suc (ix_len ix') = ix_len ix" using ok r(5) unfolding index_ok_def en by simp
  moreover have "index_remove kh key slots ix = Some ix'" using p s by (simp add: index_remove_def ix1_def)
  ultimately show ?thesis using r by blast
qed

lemma index_frame:
  assumes ok: "index_ok kh slots ix" and a: "\<And>h. h \<in> ran (imap slots ix) \<Longrightarrow> key_at slots' h = key_at slots h"
  shows "index_ok kh slots' ix \<and> imap slots' ix = imap slots ix"
proof -
  have b: "unat (bk_handle b) < length slots' \<and> bkey slots' b = bkey slots b" if "b \<in># entries (ix_buckets ix)" for b
  proof -
    have "imap slots ix (bkey slots b) = Some (bk_handle b)" using that by (auto simp: imap_iff[OF ok])
    then have "key_at slots' (bk_handle b) = key_at slots (bk_handle b)" using a by (auto simp: ran_def)
    moreover have "unat (bk_handle b) < length slots" using ok that by (simp add: index_ok_def)
    ultimately show ?thesis by (auto simp: key_at_def bkey_def split: if_splits)
  qed
  then have "image_mset (bkey slots') (entries (ix_buckets ix)) = image_mset (bkey slots) (entries (ix_buckets ix))"
    by (intro image_mset_cong) simp
  then have ok': "index_ok kh slots' ix" using ok b by (simp add: index_ok_def)
  moreover have "imap slots' ix = imap slots ix" using b by (intro imap_eqI[OF ok']) (auto simp: imap_iff[OF ok])
  ultimately show ?thesis by blast
qed

lemma imap_key: "index_ok kh slots ix \<Longrightarrow> imap slots ix k = Some h \<Longrightarrow> key_at slots h = Some k \<and> h \<noteq> EMPTY"
proof -
  assume ok: "index_ok kh slots ix" and "imap slots ix k = Some h"
  then obtain b where b: "b \<in># entries (ix_buckets ix)" "bkey slots b = k" "bk_handle b = h" by (auto simp: imap_iff[OF ok])
  moreover have "occ b" using b(1) by (simp add: entries_def)
  ultimately show ?thesis using ok by (auto simp: index_ok_def key_at_def bkey_def occ_def)
qed

lemma imap_card: "index_ok kh slots ix \<Longrightarrow> finite (dom (imap slots ix)) \<and> card (dom (imap slots ix)) = ix_len ix"
proof -
  assume ok: "index_ok kh slots ix"
  have d: "distinct (map (bkey slots) (filter occ (ix_buckets ix)))" using ok by (intro distinct_keys) (simp add: index_ok_def)
  have "dom (imap slots ix) = set (map (bkey slots) (filter occ (ix_buckets ix)))"
    by (simp add: imap_def dom_map_of_conv_image_fst image_image)
  moreover have "length (filter occ (ix_buckets ix)) = ix_len ix"
    using ok by (simp add: index_ok_def entries_def mset_filter[symmetric] del: mset_filter)
  ultimately show ?thesis using distinct_card[OF d] by simp
qed

text \<open>A fresh table has room for its capacity with three quarters of the buckets free.\<close>

lemma next_pow2_ge: "0 < p \<Longrightarrow> n \<le> next_pow2_from p n"
proof (induction p n rule: next_pow2_from.induct)
  case (1 p n)
  then show ?case by (subst next_pow2_from.simps) auto
qed

lemma next_pow2_pow: "\<exists>k. next_pow2_from (2 ^ j) n = 2 ^ k"
proof (induction "2 ^ j :: nat" n arbitrary: j rule: next_pow2_from.induct)
  case (1 n)
  then show ?case
  proof (cases "n \<le> 2 ^ j")
    case False
    then show ?thesis using "1.hyps"[of "Suc j"] by (subst next_pow2_from.simps) auto
  qed (auto simp: next_pow2_from.simps)
qed

lemma with_capacity_ok:
  assumes "with_capacity c seed = Some ix"
  shows "index_ok kh slots ix \<and> imap slots ix = Map.empty \<and> ix_len ix = 0 \<and> 4 * max c 1 \<le> length (ix_buckets ix) \<and>
     length (ix_buckets ix) \<le> 2 ^ 32"
proof -
  define n where "n = next_pow2_from 1 (max c 1 * 4)"
  have n4: "max c 1 * 4 \<le> n" unfolding n_def by (rule next_pow2_ge) simp
  obtain k where k: "n = 2 ^ k" unfolding n_def using next_pow2_pow[of 0 "max c 1 * 4"] by auto
  have a: "n - 1 \<le> 2 ^ 32 - 1 \<and>
      ix = \<lparr> ix_buckets = replicate n \<lparr> bk_hash = 0, bk_handle = EMPTY \<rparr>, ix_mask = n - 1, ix_len = 0, ix_seed = seed \<rparr>"
    using assms unfolding with_capacity_def n_def Let_def by (auto split: if_splits)
  then have le: "n \<le> 2 ^ 32" using n4 by linarith
  note ix = conjunct2[OF a]
  have "(2 :: nat) ^ k \<le> 2 ^ 32" using le by (simp only: k)
  then have "k \<le> 32" by (rule power_le_imp_le_exp[rotated]) simp
  then have "shape ix" using k by (auto simp: shape_def ix)
  moreover have o: "\<not> occ (ix_buckets ix ! j)" if "j < n" for j using that by (simp add: ix occ_def)
  then have "path_ok (ix_buckets ix)" by (simp add: path_ok_def ix)
  moreover have en: "entries (ix_buckets ix) = {#}" using o by (auto simp: entries_def ix occ_def)
  ultimately have ok: "index_ok kh slots ix" using n4 by (auto simp: index_ok_def ix)
  then have "imap slots ix = Map.empty" by (intro imap_eqI) (auto simp: en)
  then show ?thesis using ok n4 le by (simp add: ix)
qed

subsection \<open>The contract the client table relies on\<close>

text \<open>The index as a map from keys to slots, relative to the slot store that holds the keys.  The laws are
those of a finite map with \<open>insert\<close> and \<open>remove\<close>, plus a frame law: the index only looks at the keys of
slots it names.  Every operation returns, so \<open>None\<close> (a scan that never ends) does not occur.\<close>

locale slot_index =
  fixes inv :: "'s \<Rightarrow> 'x \<Rightarrow> bool" and keyof :: "'s \<Rightarrow> 'h \<Rightarrow> 'k option" and amap :: "'s \<Rightarrow> 'x \<Rightarrow> 'k \<Rightarrow> 'h option"
    and room :: "'x \<Rightarrow> nat" and num :: "'x \<Rightarrow> nat" and proper :: "'h \<Rightarrow> bool"
    and get :: "'k \<Rightarrow> 's \<Rightarrow> 'x \<Rightarrow> 'h option option"
    and ins :: "'k \<Rightarrow> 'h \<Rightarrow> 's \<Rightarrow> 'x \<Rightarrow> 'x option" and rem :: "'k \<Rightarrow> 's \<Rightarrow> 'x \<Rightarrow> 'x option"
  assumes get_law: "inv s x \<Longrightarrow> get k s x = Some (amap s x k)"
    and ins_law: "inv s x \<Longrightarrow> keyof s h = Some k \<Longrightarrow> proper h \<Longrightarrow> Suc (num x) < room x \<Longrightarrow>
      \<exists>x'. ins k h s x = Some x' \<and> inv s x' \<and> amap s x' = (amap s x)(k \<mapsto> h) \<and> room x' = room x"
    and rem_law: "inv s x \<Longrightarrow> amap s x k = Some h \<Longrightarrow>
      \<exists>x'. rem k s x = Some x' \<and> inv s x' \<and> amap s x' = (amap s x)(k := None) \<and> room x' = room x"
    and key_law: "inv s x \<Longrightarrow> amap s x k = Some h \<Longrightarrow> keyof s h = Some k \<and> proper h"
    and num_law: "inv s x \<Longrightarrow> finite (dom (amap s x)) \<and> card (dom (amap s x)) = num x"
    and frame_law: "inv s x \<Longrightarrow> (\<And>h. h \<in> ran (amap s x) \<Longrightarrow> keyof s' h = keyof s h) \<Longrightarrow>
      inv s' x \<and> amap s' x = amap s x"
begin

lemma one_key: "inv s x \<Longrightarrow> amap s x k = Some h \<Longrightarrow> amap s x k' = Some h \<Longrightarrow> k = k'"
  by (metis key_law option.inject)

lemma num_ran: "inv s x \<Longrightarrow> finite (ran (amap s x)) \<and> card (ran (amap s x)) = num x"
proof -
  assume i: "inv s x"
  have "ran (amap s x) = (the \<circ> amap s x) ` dom (amap s x)" by (force simp: ran_def dom_def)
  moreover have "inj_on (the \<circ> amap s x) (dom (amap s x))" using one_key[OF i] by (auto intro!: inj_onI)
  ultimately show ?thesis using num_law[OF i] by (metis card_image finite_imageI)
qed

lemma num_ins: "inv s x \<Longrightarrow> amap s x k = None \<Longrightarrow> inv s' x' \<Longrightarrow> amap s' x' = (amap s x)(k \<mapsto> h) \<Longrightarrow> num x' = Suc (num x)"
  using num_law[of s x] num_law[of s' x'] by (auto simp: card_insert_if domIff)

lemma num_rem: "inv s x \<Longrightarrow> amap s x k = Some h \<Longrightarrow> inv s' x' \<Longrightarrow> amap s' x' = (amap s x)(k := None) \<Longrightarrow> num x = Suc (num x')"
  using num_law[of s x] num_law[of s' x'] card_Suc_Diff1[of "dom (amap s x)" k] by (auto simp: domI)

text \<open>Adding a key under a slot the index does not name yet, after the slot was given that key.\<close>

lemma add_fresh:
  assumes i: "inv s x" and new: "amap s x k = None" and h: "h \<notin> ran (amap s x)" "proper h" and room: "Suc (num x) < room x"
    and s': "keyof s' h = Some k" "\<And>h'. h' \<in> ran (amap s x) \<Longrightarrow> keyof s' h' = keyof s h'"
  shows "\<exists>x'. ins k h s' x = Some x' \<and> inv s' x' \<and> amap s' x' = (amap s x)(k \<mapsto> h) \<and> room x' = room x \<and>
    num x' = Suc (num x) \<and> ran (amap s' x') = insert h (ran (amap s x))"
proof -
  have f: "inv s' x" "amap s' x = amap s x" using frame_law[OF i s'(2)] by blast+
  obtain x' where x': "ins k h s' x = Some x'" "inv s' x'" "amap s' x' = (amap s x)(k \<mapsto> h)" "room x' = room x"
    using ins_law[OF f(1) s'(1) h(2) room] unfolding f(2) by blast
  moreover have "num x' = Suc (num x)" using num_ins[OF i new x'(2,3)] .
  moreover have "ran (amap s' x') = insert h (ran (amap s x))" unfolding x'(3) using new by (rule ran_map_upd)
  ultimately show ?thesis by blast
qed

lemma drop_key:
  assumes i: "inv s x" and k: "amap s x k = Some h"
  shows "\<exists>x'. rem k s x = Some x' \<and> inv s x' \<and> amap s x' = (amap s x)(k := None) \<and> room x' = room x \<and>
    num x = Suc (num x') \<and> ran (amap s x') = ran (amap s x) - {h}"
proof -
  obtain x' where x': "rem k s x = Some x'" "inv s x'" "amap s x' = (amap s x)(k := None)" "room x' = room x"
    using rem_law[OF i k] by blast
  moreover have "num x = Suc (num x')" using num_rem[OF i k x'(2,3)] .
  moreover have "ran (amap s x') = ran (amap s x) - {h}"
  proof -
    have only: "k' = k" if "amap s x k' = Some h" for k' using one_key[OF i that k] .
    have "(\<exists>a. ((amap s x)(k := None)) a = Some b) \<longleftrightarrow> (\<exists>a. amap s x a = Some b) \<and> b \<noteq> h" for b
      using only k by (metis fun_upd_apply option.distinct(1) option.inject)
    then show ?thesis unfolding x'(3) ran_def by blast
  qed
  ultimately show ?thesis by blast
qed

end

interpretation ix: slot_index "index_ok kh" key_at imap "\<lambda>x. length (ix_buckets x)" ix_len "\<lambda>h. h \<noteq> EMPTY"
  "index_get kh" "index_insert kh" "index_remove kh" for kh
proof
  fix s x k h
  assume i: "index_ok kh s x"
  show "index_get kh k s x = Some (imap s x k)" using i by (rule get_correct)
  show "finite (dom (imap s x)) \<and> card (dom (imap s x)) = ix_len x" using i by (rule imap_card)
  show "imap s x k = Some h \<Longrightarrow> key_at s h = Some k \<and> h \<noteq> EMPTY" using i by (rule imap_key)
  show "imap s x k = Some h \<Longrightarrow> \<exists>x'. index_remove kh k s x = Some x' \<and> index_ok kh s x' \<and>
      imap s x' = (imap s x)(k := None) \<and> length (ix_buckets x') = length (ix_buckets x)"
    using remove_correct[OF i] by blast
  show "key_at s h = Some k \<Longrightarrow> h \<noteq> EMPTY \<Longrightarrow> Suc (ix_len x) < length (ix_buckets x) \<Longrightarrow>
      \<exists>x'. index_insert kh k h s x = Some x' \<and> index_ok kh s x' \<and> imap s x' = (imap s x)(k \<mapsto> h) \<and>
        length (ix_buckets x') = length (ix_buckets x)"
    using insert_new[OF i] insert_over[OF i] by (cases "imap s x k") blast+
  fix s'
  show "(\<And>h. h \<in> ran (imap s x) \<Longrightarrow> key_at s' h = key_at s h) \<Longrightarrow> index_ok kh s' x \<and> imap s' x = imap s x"
    using index_frame[OF i] by blast
qed

subsection \<open>Runs\<close>

datatype 'k ix_op = IxInsert u32 | IxRemove 'k

fun ix_step :: "('k \<Rightarrow> HashWrite list) \<Rightarrow> 'k Slot list \<Rightarrow> 'k ix_op \<Rightarrow> Index \<Rightarrow> Index option" where
  "ix_step kh slots (IxInsert h) x = index_insert kh (sl_key (slots ! unat h)) h slots x"
| "ix_step kh slots (IxRemove k) x = index_remove kh k slots x"

fun map_step :: "'k Slot list \<Rightarrow> 'k ix_op \<Rightarrow> ('k \<Rightarrow> u32 option) \<Rightarrow> 'k \<Rightarrow> u32 option" where
  "map_step slots (IxInsert h) m = m(sl_key (slots ! unat h) \<mapsto> h)"
| "map_step slots (IxRemove k) m = m(k := None)"

definition ix_legal :: "'k Slot list \<Rightarrow> 'k ix_op \<Rightarrow> bool" where
  "ix_legal slots a \<longleftrightarrow> (case a of IxInsert h \<Rightarrow> unat h < length slots \<and> h \<noteq> EMPTY | IxRemove k \<Rightarrow> True)"

lemma remove_absent:
  "index_ok kh slots x \<Longrightarrow> imap slots x k = None \<Longrightarrow> index_remove kh k slots x = Some x"
proof -
  assume ok: "index_ok kh slots x" and n: "imap slots x k = None"
  have "map_option (map_option (\<lambda>i. bk_handle (ix_buckets x ! i))) (probe (hash_of kh (ix_seed x) k) k slots x) = Some None"
    using get_correct[OF ok, of k] n by (simp add: index_get_def)
  then show ?thesis by (auto simp: index_remove_def)
qed

lemma handles_bounded: "index_ok kh slots x \<Longrightarrow> ix_len x \<le> length slots"
proof -
  assume ok: "index_ok kh slots x"
  have "unat ` ran (imap slots x) \<subseteq> {..<length slots}"
    using imap_key[OF ok] by (fastforce simp: ran_def key_at_def split: if_splits)
  then have "card (unat ` ran (imap slots x)) \<le> length slots" by (metis card_lessThan card_mono finite_lessThan)
  moreover have "card (unat ` ran (imap slots x)) = card (ran (imap slots x))" by (intro card_image inj_onI word_unat_eq_iff[THEN iffD2])
  ultimately show ?thesis using ix.num_ran[OF ok] by simp
qed

lemma ix_step_refines:
  assumes ok: "index_ok kh slots x" and l: "ix_legal slots a" and room: "Suc (length slots) < length (ix_buckets x)"
  shows "\<exists>x'. ix_step kh slots a x = Some x' \<and> index_ok kh slots x' \<and> imap slots x' = map_step slots a (imap slots x) \<and>
     length (ix_buckets x') = length (ix_buckets x)"
proof (cases a)
  case (IxInsert h)
  then have "key_at slots h = Some (sl_key (slots ! unat h))" "h \<noteq> EMPTY" using l by (simp_all add: ix_legal_def key_at_def)
  then show ?thesis using ix.ins_law[OF ok] handles_bounded[OF ok] room IxInsert by simp
next
  case (IxRemove k)
  show ?thesis
  proof (cases "imap slots x k")
    case None
    then have "(imap slots x)(k := None) = imap slots x" by auto
    then show ?thesis using remove_absent[OF ok None] ok IxRemove by simp
  next
    case (Some h)
    then show ?thesis using remove_correct[OF ok Some] IxRemove by auto
  qed
qed

lemma ix_run_refines:
  assumes "index_ok kh slots x" "list_all (ix_legal slots) ops" "Suc (length slots) < length (ix_buckets x)"
  shows "\<exists>x'. run_ops (ix_step kh slots) ops x = Some x' \<and> index_ok kh slots x' \<and> imap slots x' = fold (map_step slots) ops (imap slots x)"
  using assms
proof (induction ops arbitrary: x)
  case (Cons a ops)
  then obtain x1 where "ix_step kh slots a x = Some x1" "index_ok kh slots x1" "imap slots x1 = map_step slots a (imap slots x)"
    "length (ix_buckets x1) = length (ix_buckets x)" using ix_step_refines[of kh slots x a] by auto
  then show ?case using Cons.IH[of x1] Cons.prems by simp
qed simp

text \<open>C12: the open-addressed index is a finite map.  From a fresh table sized for the slots,
every sequence of insertions and removals runs to the end (no scan loops for ever), and afterwards a lookup
of any key returns exactly what the sequence of map updates gives: no key is lost by a backward shift, none
reappears, whatever the hash function of the keys and however they collide.\<close>

theorem index_refines_map:
  assumes "with_capacity c seed = Some x" and "length slots \<le> max c 1" and "list_all (ix_legal slots) ops"
  shows "\<exists>x'. run_ops (ix_step kh slots) ops x = Some x' \<and>
     (\<forall>k. index_get kh k slots x' = Some (fold (map_step slots) ops Map.empty k))"
proof -
  note w = with_capacity_ok[OF assms(1), of kh slots]
  have "4 * max c 1 \<le> length (ix_buckets x)" "1 \<le> max c 1" using w by simp_all
  then have "Suc (length slots) < length (ix_buckets x)" using assms(2) by linarith
  then obtain x' where "run_ops (ix_step kh slots) ops x = Some x'" "index_ok kh slots x'"
    "imap slots x' = fold (map_step slots) ops (imap slots x)"
    using ix_run_refines[of kh slots x ops] w assms(3) by auto
  then show ?thesis using w ix.get_law by fastforce
qed

definition demo_slots :: "u32 Slot list" where
  "demo_slots = map (\<lambda>k. \<lparr> sl_key = k,
      sl_record = \<lparr> cl_last_seen = FFin 0, cl_tokens = FFin 0, cl_requests = 0, cl_responses = 0, cl_dropped = 0,
        cl_drops_since_kod = 0, cl_last_receive = ts_ZERO, cl_last_transmit = ts_ZERO, cl_last_receive_sent = ts_ZERO, cl_interleaved_now = False \<rparr>,
      sl_prev = EMPTY, sl_next = EMPTY, sl_generation = 0 \<rparr>) [10, 20, 30]"

lemma index_refines_map_witness:
  "\<exists>x x'. with_capacity 3 5 = Some x \<and>
     run_ops (ix_step (\<lambda>k. []) demo_slots) [IxInsert 0, IxInsert 1, IxInsert 2, IxRemove 10] x = Some x' \<and>
     index_get (\<lambda>k. []) 10 demo_slots x' = Some None \<and> index_get (\<lambda>k. []) 30 demo_slots x' = Some (Some 2)"
proof -
  have "with_capacity 3 5 \<noteq> None" by (simp add: with_capacity_def next_pow2_from.simps)
  then obtain x where x: "with_capacity 3 5 = Some x" by blast
  have "length demo_slots \<le> max 3 1" "list_all (ix_legal demo_slots) [IxInsert 0, IxInsert 1, IxInsert 2, IxRemove 10]"
    by (simp_all add: demo_slots_def ix_legal_def EMPTY_def)
  from index_refines_map[OF x this, of "\<lambda>k. []"] x show ?thesis by (auto simp: demo_slots_def)
qed

end
