(* ===== verification/ClientTable.thy ===== *)
theory ClientTable
  imports KeyIndex "HOL-Library.Monad_Syntax"
begin

text \<open>The server's client table, \<open>crates/rusty_time-core/src/server.rs\<close>: slots in stable storage, an
intrusive recency list threaded through them by \<open>u32\<close> links, the index of \<open>KeyIndex\<close> from key to slot, a
token bucket per client and one for the whole server, and the interleaved-mode bookkeeping.  An operation
returns \<open>None\<close> exactly where the code would panic on an index or scan for ever.  Counters are words.\<close>

subsection \<open>Policy and dispositions\<close>

record RateLimitConfig =
  rl_interval_log2 :: int
  rl_burst :: u32
  rl_leak_shift :: u8
  rl_global_rate_hz :: f64
  rl_global_burst :: f64

definition rate_limit_default :: RateLimitConfig where
  "rate_limit_default = \<lparr> rl_interval_log2 = 3, rl_burst = 8, rl_leak_shift = 2,
     rl_global_rate_hz = FFin 20000, rl_global_burst = FFin 40000 \<rparr>"

datatype Disposition = Respond | KissOfDeath | Drop

definition mark_server_timestamps :: "NtpTimestamp \<Rightarrow> NtpTimestamp \<Rightarrow> NtpTimestamp \<times> NtpTimestamp" where
  "mark_server_timestamps receive transmit =
     (NtpTimestamp (ts_bits receive OR 1), NtpTimestamp (ts_bits transmit AND NOT 1))"

datatype ResponseMode = Basic | Interleaved NtpTimestamp

definition client_record_new :: "f64 \<Rightarrow> u32 \<Rightarrow> ClientRecord" where
  "client_record_new now burst = \<lparr>
     cl_last_seen = now, cl_tokens = f_of_int (uint burst), cl_requests = 0, cl_responses = 0, cl_dropped = 0,
     cl_drops_since_kod = 0, cl_last_receive = ts_ZERO, cl_last_transmit = ts_ZERO,
     cl_last_receive_sent = ts_ZERO, cl_interleaved_now = False \<rparr>"

record ServerStats =
  ss_requests :: u64
  ss_responses :: u64
  ss_dropped_rate_limit :: u64
  ss_kiss_of_death :: u64
  ss_interleaved_responses :: u64
  ss_refused :: u64
  ss_evicted :: u64

definition NIL :: u32 where "NIL = 0xffffffff"

record ClientHandle =
  ch_slot :: u32
  ch_generation :: u32

definition INVALID :: ClientHandle where
  "INVALID = \<lparr> ch_slot = NIL, ch_generation = 0 \<rparr>"

subsection \<open>The table\<close>

record 'k ClientTable =
  tb_index :: Index
  tb_slots :: "'k Slot list"
  tb_free :: "u32 list"
  tb_mru :: u32
  tb_lru :: u32
  tb_global_tokens :: f64
  tb_global_last :: "f64 option"
  tb_global_drops_since_kod :: u32
  tb_capacity :: nat
  tb_config :: RateLimitConfig
  tb_refill_per_s :: f64
  tb_stats :: ServerStats

definition table_new :: "nat \<Rightarrow> RateLimitConfig \<Rightarrow> u64 \<Rightarrow> 'k ClientTable option" where
  "table_new capacity config seed = map_option (\<lambda>ix. \<lparr>
     tb_index = ix, tb_slots = [], tb_free = [], tb_mru = NIL, tb_lru = NIL,
     tb_global_tokens = rl_global_burst config, tb_global_last = None, tb_global_drops_since_kod = 0,
     tb_capacity = max capacity 1, tb_config = config, tb_refill_per_s = FFin (pow2 (- rl_interval_log2 config)),
     tb_stats = \<lparr> ss_requests = 0, ss_responses = 0, ss_dropped_rate_limit = 0, ss_kiss_of_death = 0,
       ss_interleaved_responses = 0, ss_refused = 0, ss_evicted = 0 \<rparr> \<rparr>)
     (with_capacity (max capacity 1) seed)"

subsection \<open>Recency list\<close>

definition slot_at :: "u32 \<Rightarrow> 'k Slot list \<Rightarrow> 'k Slot option" where
  "slot_at i slots = (if unat i < length slots then Some (slots ! unat i) else None)"

definition upd_slot :: "u32 \<Rightarrow> ('k Slot \<Rightarrow> 'k Slot) \<Rightarrow> 'k Slot list \<Rightarrow> 'k Slot list option" where
  "upd_slot i f slots = (if unat i < length slots then Some (slots[unat i := f (slots ! unat i)]) else None)"

definition set_next :: "u32 \<Rightarrow> u32 \<Rightarrow> 'k ClientTable \<Rightarrow> 'k ClientTable option" where
  "set_next i n t = map_option (\<lambda>ss. t\<lparr> tb_slots := ss \<rparr>) (upd_slot i (sl_next_update (\<lambda>_. n)) (tb_slots t))"

definition set_prev :: "u32 \<Rightarrow> u32 \<Rightarrow> 'k ClientTable \<Rightarrow> 'k ClientTable option" where
  "set_prev i p t = map_option (\<lambda>ss. t\<lparr> tb_slots := ss \<rparr>) (upd_slot i (sl_prev_update (\<lambda>_. p)) (tb_slots t))"

definition unlink :: "u32 \<Rightarrow> 'k ClientTable \<Rightarrow> 'k ClientTable option" where
  "unlink i t = do {
     slot \<leftarrow> slot_at i (tb_slots t);
     t1 \<leftarrow> (if sl_prev slot = NIL then Some (t\<lparr> tb_mru := sl_next slot \<rparr>) else set_next (sl_prev slot) (sl_next slot) t);
     if sl_next slot = NIL then Some (t1\<lparr> tb_lru := sl_prev slot \<rparr>) else set_prev (sl_next slot) (sl_prev slot) t1
   }"

definition link_front :: "u32 \<Rightarrow> 'k ClientTable \<Rightarrow> 'k ClientTable option" where
  "link_front i t = do {
     ss \<leftarrow> upd_slot i (\<lambda>s. s\<lparr> sl_prev := NIL, sl_next := tb_mru t \<rparr>) (tb_slots t);
     t1 \<leftarrow> (if tb_mru t = NIL then Some (t\<lparr> tb_slots := ss, tb_lru := i \<rparr>)
             else set_prev (tb_mru t) i (t\<lparr> tb_slots := ss \<rparr>));
     Some (t1\<lparr> tb_mru := i \<rparr>)
   }"

definition touch :: "u32 \<Rightarrow> 'k ClientTable \<Rightarrow> 'k ClientTable option" where
  "touch i t = (if tb_mru t = i then Some t else do { t1 \<leftarrow> unlink i t; link_front i t1 })"

definition table_len :: "'k ClientTable \<Rightarrow> nat" where
  "table_len t = ix_len (tb_index t)"

definition table_get :: "('k \<Rightarrow> HashWrite list) \<Rightarrow> 'k \<Rightarrow> 'k ClientTable \<Rightarrow> ClientRecord option option" where
  "table_get kh key t = do {
     r \<leftarrow> index_get kh key (tb_slots t) (tb_index t);
     case r of None \<Rightarrow> Some None
     | Some i \<Rightarrow> do { slot \<leftarrow> slot_at i (tb_slots t); Some (Some (sl_record slot)) }
   }"

fun walk_recent :: "'k Slot list \<Rightarrow> nat \<Rightarrow> u32 \<Rightarrow> ('k \<times> ClientRecord) list option" where
  "walk_recent slots 0 cur = Some []"
| "walk_recent slots (Suc limit) cur =
     (if cur = NIL then Some []
      else do {
        slot \<leftarrow> slot_at cur slots;
        rest \<leftarrow> walk_recent slots limit (sl_next slot);
        Some ((sl_key slot, sl_record slot) # rest)
      })"

definition most_recent :: "nat \<Rightarrow> 'k ClientTable \<Rightarrow> ('k \<times> ClientRecord) list option" where
  "most_recent limit t = walk_recent (tb_slots t) limit (tb_mru t)"

subsection \<open>Slots\<close>

definition bump_evicted :: "'k ClientTable \<Rightarrow> 'k ClientTable" where
  "bump_evicted t = t\<lparr> tb_stats := (tb_stats t)\<lparr> ss_evicted := ss_evicted (tb_stats t) + 1 \<rparr> \<rparr>"

definition evict_one :: "('k \<Rightarrow> HashWrite list) \<Rightarrow> 'k ClientTable \<Rightarrow> 'k ClientTable option" where
  "evict_one kh t =
     (if tb_lru t = NIL then Some t
      else do {
        t1 \<leftarrow> unlink (tb_lru t) t;
        slot \<leftarrow> slot_at (tb_lru t) (tb_slots t1);
        ix \<leftarrow> index_remove kh (sl_key slot) (tb_slots t1) (tb_index t1);
        Some (bump_evicted (t1\<lparr> tb_index := ix, tb_free := tb_lru t # tb_free t1 \<rparr>))
      })"

text \<open>The free list is a stack; its head here is the end the code pushes to and pops from.\<close>

definition alloc_slot :: "'k \<Rightarrow> ClientRecord \<Rightarrow> 'k ClientTable \<Rightarrow> (u32 \<times> 'k ClientTable) option" where
  "alloc_slot key rec t =
     (case tb_free t of
        i # rest \<Rightarrow> do {
          ss \<leftarrow> upd_slot i (\<lambda>s. s\<lparr> sl_key := key, sl_record := rec, sl_prev := NIL, sl_next := NIL,
                 sl_generation := sl_generation s + 1 \<rparr>) (tb_slots t);
          t1 \<leftarrow> link_front i (t\<lparr> tb_free := rest, tb_slots := ss \<rparr>);
          Some (i, t1)
        }
      | [] \<Rightarrow> do {
          let i = of_nat (length (tb_slots t));
          t1 \<leftarrow> link_front i (t\<lparr> tb_slots := tb_slots t @
                 [\<lparr> sl_key = key, sl_record = rec, sl_prev = NIL, sl_next = NIL, sl_generation = 0 \<rparr>] \<rparr>);
          Some (i, t1)
        })"

definition resolve :: "ClientHandle \<Rightarrow> 'k ClientTable \<Rightarrow> nat option" where
  "resolve h t = do {
     slot \<leftarrow> slot_at (ch_slot h) (tb_slots t);
     if sl_generation slot = ch_generation h then Some (unat (ch_slot h)) else None
   }"

definition handle_for :: "u32 \<Rightarrow> 'k ClientTable \<Rightarrow> ClientHandle option" where
  "handle_for i t = do {
     slot \<leftarrow> slot_at i (tb_slots t);
     Some \<lparr> ch_slot = i, ch_generation = sl_generation slot \<rparr>
   }"

subsection \<open>Admission\<close>

definition refill_global :: "f64 \<Rightarrow> 'k ClientTable \<Rightarrow> 'k ClientTable" where
  "refill_global now t =
     (let last = (case tb_global_last t of Some l \<Rightarrow> l | None \<Rightarrow> now);
          elapsed = fmax (fsub now last) (FFin 0)
      in t\<lparr> tb_global_tokens := fmin (fadd (tb_global_tokens t) (fmul elapsed (rl_global_rate_hz (tb_config t))))
                                  (rl_global_burst (tb_config t)),
            tb_global_last := Some now \<rparr>)"

definition leak_period :: "RateLimitConfig \<Rightarrow> u32" where
  "leak_period cfg = push_bit (min (unat (rl_leak_shift cfg)) 16) 1"

definition deny_global :: "'k ClientTable \<Rightarrow> Disposition \<times> 'k ClientTable" where
  "deny_global t =
     (let drops = tb_global_drops_since_kod t + 1;
          st = (tb_stats t)\<lparr> ss_dropped_rate_limit := ss_dropped_rate_limit (tb_stats t) + 1 \<rparr>
      in if leak_period (tb_config t) \<le> drops
         then (KissOfDeath, t\<lparr> tb_global_drops_since_kod := 0,
                 tb_stats := st\<lparr> ss_kiss_of_death := ss_kiss_of_death st + 1 \<rparr> \<rparr>)
         else (Drop, t\<lparr> tb_global_drops_since_kod := drops, tb_stats := st \<rparr>))"

definition add_client :: "('k \<Rightarrow> HashWrite list) \<Rightarrow> 'k \<Rightarrow> f64 \<Rightarrow> 'k ClientTable \<Rightarrow> (u32 \<times> 'k ClientTable) option" where
  "add_client kh key now t = do {
     t1 \<leftarrow> (if tb_capacity t \<le> table_len t then evict_one kh t else Some t);
     (i, t2) \<leftarrow> alloc_slot key (client_record_new now (rl_burst (tb_config t1))) t1;
     ix \<leftarrow> index_insert kh key i (tb_slots t2) (tb_index t2);
     Some (i, t2\<lparr> tb_index := ix \<rparr>)
   }"

definition slot_for :: "('k \<Rightarrow> HashWrite list) \<Rightarrow> 'k \<Rightarrow> f64 \<Rightarrow> 'k ClientTable \<Rightarrow> (u32 \<times> 'k ClientTable) option" where
  "slot_for kh key now t = do {
     r \<leftarrow> index_get kh key (tb_slots t) (tb_index t);
     case r of Some i \<Rightarrow> do { t1 \<leftarrow> touch i t; Some (i, t1) }
     | None \<Rightarrow> add_client kh key now t
   }"

definition refill_record :: "RateLimitConfig \<Rightarrow> f64 \<Rightarrow> f64 \<Rightarrow> ClientRecord \<Rightarrow> ClientRecord" where
  "refill_record cfg rate now r =
     (let elapsed = fmax (fsub now (cl_last_seen r)) (FFin 0)
      in r\<lparr> cl_tokens := fmin (fadd (cl_tokens r) (fmul elapsed rate)) (f_of_int (uint (rl_burst cfg))),
            cl_last_seen := now, cl_requests := cl_requests r + 1 \<rparr>)"

definition charge_record :: "RateLimitConfig \<Rightarrow> f64 \<Rightarrow> f64 \<Rightarrow> ClientRecord \<Rightarrow> Disposition \<times> ClientRecord" where
  "charge_record cfg rate now r0 =
     (let r = refill_record cfg rate now r0; drops = cl_drops_since_kod r + 1
      in if fle (FFin 1) (cl_tokens r)
         then (Respond, r\<lparr> cl_tokens := fsub (cl_tokens r) (FFin 1), cl_responses := cl_responses r + 1 \<rparr>)
         else if leak_period cfg \<le> drops
         then (KissOfDeath, r\<lparr> cl_dropped := cl_dropped r + 1, cl_drops_since_kod := 0 \<rparr>)
         else (Drop, r\<lparr> cl_dropped := cl_dropped r + 1, cl_drops_since_kod := drops \<rparr>))"

fun account :: "Disposition \<Rightarrow> 'k ClientTable \<Rightarrow> 'k ClientTable" where
  "account Respond t = t\<lparr> tb_stats := (tb_stats t)\<lparr> ss_responses := ss_responses (tb_stats t) + 1 \<rparr>,
     tb_global_tokens := fsub (tb_global_tokens t) (FFin 1) \<rparr>"
| "account KissOfDeath t = t\<lparr> tb_stats := (tb_stats t)\<lparr> ss_dropped_rate_limit := ss_dropped_rate_limit (tb_stats t) + 1,
     ss_kiss_of_death := ss_kiss_of_death (tb_stats t) + 1 \<rparr> \<rparr>"
| "account Drop t = t\<lparr> tb_stats := (tb_stats t)\<lparr> ss_dropped_rate_limit := ss_dropped_rate_limit (tb_stats t) + 1 \<rparr> \<rparr>"

definition charge_slot :: "u32 \<Rightarrow> f64 \<Rightarrow> 'k ClientTable \<Rightarrow> ((Disposition \<times> ClientHandle) \<times> 'k ClientTable) option" where
  "charge_slot i now t = do {
     handle \<leftarrow> handle_for i t;
     slot \<leftarrow> slot_at i (tb_slots t);
     let (d, r) = charge_record (tb_config t) (tb_refill_per_s t) now (sl_record slot);
     ss \<leftarrow> upd_slot i (sl_record_update (\<lambda>_. r)) (tb_slots t);
     Some ((d, handle), account d (t\<lparr> tb_slots := ss \<rparr>))
   }"

definition global_blocked :: "'k ClientTable \<Rightarrow> bool" where
  "global_blocked t \<longleftrightarrow> flt (FFin 0) (rl_global_rate_hz (tb_config t)) \<and> flt (tb_global_tokens t) (FFin 1)"

definition count_request :: "'k ClientTable \<Rightarrow> 'k ClientTable" where
  "count_request t = t\<lparr> tb_stats := (tb_stats t)\<lparr> ss_requests := ss_requests (tb_stats t) + 1 \<rparr> \<rparr>"

definition global_step :: "f64 \<Rightarrow> 'k ClientTable \<Rightarrow> 'k ClientTable" where
  "global_step now t =
     (if flt (FFin 0) (rl_global_rate_hz (tb_config t)) then refill_global now (count_request t) else count_request t)"

definition admit_handle ::
  "('k \<Rightarrow> HashWrite list) \<Rightarrow> 'k \<Rightarrow> f64 \<Rightarrow> 'k ClientTable \<Rightarrow> ((Disposition \<times> ClientHandle) \<times> 'k ClientTable) option" where
  "admit_handle kh key now t =
     (let t1 = global_step now t in
      if global_blocked t1 then Some ((fst (deny_global t1), INVALID), snd (deny_global t1))
      else do { (i, t2) \<leftarrow> slot_for kh key now t1; charge_slot i now t2 })"

definition admit :: "('k \<Rightarrow> HashWrite list) \<Rightarrow> 'k \<Rightarrow> f64 \<Rightarrow> 'k ClientTable \<Rightarrow> (Disposition \<times> 'k ClientTable) option" where
  "admit kh key now t = map_option (\<lambda>(dh, t'). (fst dh, t')) (admit_handle kh key now t)"

subsection \<open>Interleaved mode\<close>

definition choose_mode :: "ClientRecord \<Rightarrow> NtpTimestamp \<Rightarrow> ResponseMode \<times> ClientRecord" where
  "choose_mode r origin =
     (if ts_is_zero (cl_last_receive_sent r) \<or> ts_is_zero (cl_last_transmit r) then (Basic, r)
      else let interleaved = (origin = cl_last_receive_sent r \<and> \<not> ts_is_zero origin)
        in (if interleaved then Interleaved (cl_last_transmit r) else Basic, r\<lparr> cl_interleaved_now := interleaved \<rparr>))"

definition count_mode :: "ResponseMode \<Rightarrow> 'k ClientTable \<Rightarrow> 'k ClientTable" where
  "count_mode m t = (case m of Basic \<Rightarrow> t | Interleaved _ \<Rightarrow>
     t\<lparr> tb_stats := (tb_stats t)\<lparr> ss_interleaved_responses := ss_interleaved_responses (tb_stats t) + 1 \<rparr> \<rparr>)"

definition set_record :: "nat \<Rightarrow> ClientRecord \<Rightarrow> 'k ClientTable \<Rightarrow> 'k ClientTable" where
  "set_record i r t = t\<lparr> tb_slots := (tb_slots t)[i := (tb_slots t ! i)\<lparr> sl_record := r \<rparr>] \<rparr>"

definition response_mode_at :: "ClientHandle \<Rightarrow> NtpTimestamp \<Rightarrow> 'k ClientTable \<Rightarrow> ResponseMode \<times> 'k ClientTable" where
  "response_mode_at h origin t =
     (case resolve h t of
        None \<Rightarrow> (Basic, t)
      | Some i \<Rightarrow> (case choose_mode (sl_record (tb_slots t ! i)) origin of (m, r) \<Rightarrow> (m, count_mode m (set_record i r t))))"

definition response_mode :: "('k \<Rightarrow> HashWrite list) \<Rightarrow> 'k \<Rightarrow> NtpTimestamp \<Rightarrow> 'k ClientTable \<Rightarrow> (ResponseMode \<times> 'k ClientTable) option" where
  "response_mode kh key origin t = do {
     r \<leftarrow> index_get kh key (tb_slots t) (tb_index t);
     case r of None \<Rightarrow> Some (Basic, t)
     | Some i \<Rightarrow> do { h \<leftarrow> handle_for i t; Some (response_mode_at h origin t) }
   }"

definition note_response_at :: "ClientHandle \<Rightarrow> NtpTimestamp \<Rightarrow> NtpTimestamp \<Rightarrow> 'k ClientTable \<Rightarrow> 'k ClientTable" where
  "note_response_at h receive sent t =
     (case resolve h t of None \<Rightarrow> t
      | Some i \<Rightarrow> set_record i ((sl_record (tb_slots t ! i))\<lparr> cl_last_receive := receive, cl_last_receive_sent := sent \<rparr>) t)"

definition note_response :: "('k \<Rightarrow> HashWrite list) \<Rightarrow> 'k \<Rightarrow> NtpTimestamp \<Rightarrow> NtpTimestamp \<Rightarrow> 'k ClientTable \<Rightarrow> 'k ClientTable option" where
  "note_response kh key receive sent t = do {
     r \<leftarrow> index_get kh key (tb_slots t) (tb_index t);
     case r of None \<Rightarrow> Some t
     | Some i \<Rightarrow> do { h \<leftarrow> handle_for i t; Some (note_response_at h receive sent t) }
   }"

definition note_transmit_at :: "ClientHandle \<Rightarrow> NtpTimestamp \<Rightarrow> 'k ClientTable \<Rightarrow> 'k ClientTable" where
  "note_transmit_at h transmit t =
     (case resolve h t of None \<Rightarrow> t
      | Some i \<Rightarrow> set_record i ((sl_record (tb_slots t ! i))\<lparr> cl_last_transmit := transmit \<rparr>) t)"

definition note_transmit :: "('k \<Rightarrow> HashWrite list) \<Rightarrow> 'k \<Rightarrow> NtpTimestamp \<Rightarrow> 'k ClientTable \<Rightarrow> 'k ClientTable option" where
  "note_transmit kh key transmit t = do {
     r \<leftarrow> index_get kh key (tb_slots t) (tb_index t);
     case r of None \<Rightarrow> Some t
     | Some i \<Rightarrow> do {
         slot \<leftarrow> slot_at i (tb_slots t);
         Some (set_record (unat i) ((sl_record slot)\<lparr> cl_last_transmit := transmit \<rparr>) t)
       }
   }"

definition note_refused :: "'k ClientTable \<Rightarrow> 'k ClientTable" where
  "note_refused t = t\<lparr> tb_stats := (tb_stats t)\<lparr> ss_refused := ss_refused (tb_stats t) + 1 \<rparr> \<rparr>"

subsection \<open>The recency list as a segment\<close>

fun hd_or :: "'a \<Rightarrow> 'a list \<Rightarrow> 'a" where
  "hd_or d [] = d" | "hd_or d (x # xs) = x"

fun last_or :: "'a \<Rightarrow> 'a list \<Rightarrow> 'a" where
  "last_or d [] = d" | "last_or d (x # xs) = last_or x xs"

lemma hd_or_append: "hd_or d (xs @ ys) = hd_or (hd_or d ys) xs"
  by (cases xs) auto

lemma last_or_append: "last_or d (xs @ ys) = last_or (last_or d xs) ys"
  by (induction xs arbitrary: d) auto

lemma last_or_snoc [simp]: "last_or d (xs @ [x]) = x"
  by (simp add: last_or_append)

lemma last_or_in: "last_or d xs = d \<and> xs = [] \<or> last_or d xs \<in> set xs"
  by (induction xs arbitrary: d) auto

fun dll :: "'k Slot list \<Rightarrow> u32 \<Rightarrow> u32 list \<Rightarrow> u32 \<Rightarrow> bool" where
  "dll S p [] q = True"
| "dll S p (x # xs) q =
     (unat x < length S \<and> sl_prev (S ! unat x) = p \<and> sl_next (S ! unat x) = hd_or q xs \<and> dll S x xs q)"

lemma dll_append: "dll S p (xs @ ys) q \<longleftrightarrow> dll S p xs (hd_or q ys) \<and> dll S (last_or p xs) ys q"
  by (induction xs arbitrary: p) (auto simp: hd_or_append)

lemma dll_range: "dll S p xs q \<Longrightarrow> x \<in> set xs \<Longrightarrow> unat x < length S"
  by (induction xs arbitrary: p) auto

lemma unat_inj: "unat x = unat y \<longleftrightarrow> x = (y :: 'a::len word)"
  by (simp add: word_unat_eq_iff)

lemma dll_frame:
  "length S' = length S \<Longrightarrow> (\<And>x. x \<in> set xs \<Longrightarrow> sl_prev (S' ! unat x) = sl_prev (S ! unat x) \<and> sl_next (S' ! unat x) = sl_next (S ! unat x)) \<Longrightarrow>
   dll S' p xs q = dll S p xs q"
  by (induction xs arbitrary: p) auto

lemma dll_frame1: "x \<notin> set xs \<Longrightarrow> dll (S[unat x := s]) p xs q = dll S p xs q"
proof (rule dll_frame)
  fix y assume "x \<notin> set xs" "y \<in> set xs"
  then have "unat x \<noteq> unat y" by (auto simp: unat_inj)
  then show "sl_prev (S[unat x := s] ! unat y) = sl_prev (S ! unat y) \<and> sl_next (S[unat x := s] ! unat y) = sl_next (S ! unat y)"
    by simp
qed simp

lemma dll_relink_next:
  "dll S p (xs @ [x]) q \<Longrightarrow> distinct (xs @ [x]) \<Longrightarrow> dll (S[unat x := (S ! unat x)\<lparr> sl_next := n \<rparr>]) p (xs @ [x]) n"
  by (auto simp: dll_append dll_frame1)

lemma dll_relink_prev:
  "dll S p (x # xs) q \<Longrightarrow> distinct (x # xs) \<Longrightarrow> dll (S[unat x := (S ! unat x)\<lparr> sl_prev := m \<rparr>]) m (x # xs) q"
  by (auto simp: dll_frame1)

text \<open>What relinking leaves alone.\<close>

definition strip :: "'k Slot \<Rightarrow> 'k \<times> ClientRecord \<times> u32" where
  "strip s = (sl_key s, sl_record s, sl_generation s)"

definition content :: "'k ClientTable \<Rightarrow> ('k \<times> ClientRecord \<times> u32) list" where
  "content t = map strip (tb_slots t)"

definition links :: "'k ClientTable \<Rightarrow> u32 list \<Rightarrow> bool" where
  "links t xs \<longleftrightarrow> dll (tb_slots t) NIL xs NIL \<and> tb_mru t = hd_or NIL xs \<and> tb_lru t = last_or NIL xs \<and>
     distinct xs \<and> NIL \<notin> set xs"

definition relinked :: "'k ClientTable \<Rightarrow> 'k ClientTable \<Rightarrow> bool" where
  "relinked t t' \<longleftrightarrow> content t' = content t \<and>
     t'\<lparr> tb_slots := [], tb_mru := 0, tb_lru := 0 \<rparr> = t\<lparr> tb_slots := [], tb_mru := 0, tb_lru := 0 \<rparr>"

lemma relinked_refl: "relinked t t"
  by (simp add: relinked_def)

lemma relinked_trans: "relinked t u \<Longrightarrow> relinked u v \<Longrightarrow> relinked t v"
  by (simp add: relinked_def)

lemma relinked_fields:
  assumes "relinked t t'"
  shows "tb_index t' = tb_index t" "tb_free t' = tb_free t" "tb_global_tokens t' = tb_global_tokens t"
    "tb_global_last t' = tb_global_last t" "tb_global_drops_since_kod t' = tb_global_drops_since_kod t"
    "tb_capacity t' = tb_capacity t" "tb_config t' = tb_config t" "tb_refill_per_s t' = tb_refill_per_s t"
    "tb_stats t' = tb_stats t" "length (tb_slots t') = length (tb_slots t)" "content t' = content t"
proof -
  have e: "t'\<lparr> tb_slots := [], tb_mru := 0, tb_lru := 0 \<rparr> = t\<lparr> tb_slots := [], tb_mru := 0, tb_lru := 0 \<rparr>"
    and c: "content t' = content t" using assms by (simp_all add: relinked_def)
  show "tb_index t' = tb_index t" using arg_cong[OF e, of tb_index] by simp
  show "tb_free t' = tb_free t" using arg_cong[OF e, of tb_free] by simp
  show "tb_global_tokens t' = tb_global_tokens t" using arg_cong[OF e, of tb_global_tokens] by simp
  show "tb_global_last t' = tb_global_last t" using arg_cong[OF e, of tb_global_last] by simp
  show "tb_global_drops_since_kod t' = tb_global_drops_since_kod t" using arg_cong[OF e, of tb_global_drops_since_kod] by simp
  show "tb_capacity t' = tb_capacity t" using arg_cong[OF e, of tb_capacity] by simp
  show "tb_config t' = tb_config t" using arg_cong[OF e, of tb_config] by simp
  show "tb_refill_per_s t' = tb_refill_per_s t" using arg_cong[OF e, of tb_refill_per_s] by simp
  show "tb_stats t' = tb_stats t" using arg_cong[OF e, of tb_stats] by simp
  show "length (tb_slots t') = length (tb_slots t)" using arg_cong[OF c, of length] by (simp add: content_def)
  show "content t' = content t" by (rule c)
qed

lemma content_nth: "content t' = content t \<Longrightarrow> i < length (tb_slots t) \<Longrightarrow>
    sl_key (tb_slots t' ! i) = sl_key (tb_slots t ! i) \<and> sl_record (tb_slots t' ! i) = sl_record (tb_slots t ! i) \<and>
    sl_generation (tb_slots t' ! i) = sl_generation (tb_slots t ! i)"
proof -
  assume c: "content t' = content t" and i: "i < length (tb_slots t)"
  have "length (tb_slots t') = length (tb_slots t)" using arg_cong[OF c, of length] by (simp add: content_def)
  then show ?thesis using arg_cong[OF c, of "\<lambda>c. c ! i"] i by (simp add: content_def strip_def)
qed

lemma strip_update: "i < length S \<Longrightarrow> strip s = strip (S ! i) \<Longrightarrow> map strip (S[i := s]) = map strip S"
  by (simp add: map_update list_update_same_conv)

lemma set_next_ok:
  "unat i < length (tb_slots t) \<Longrightarrow>
   set_next i n t = Some (t\<lparr> tb_slots := (tb_slots t)[unat i := (tb_slots t ! unat i)\<lparr> sl_next := n \<rparr>] \<rparr>)"
  by (simp add: set_next_def upd_slot_def)

lemma set_prev_ok:
  "unat i < length (tb_slots t) \<Longrightarrow>
   set_prev i p t = Some (t\<lparr> tb_slots := (tb_slots t)[unat i := (tb_slots t ! unat i)\<lparr> sl_prev := p \<rparr>] \<rparr>)"
  by (simp add: set_prev_def upd_slot_def)

lemma join_front:
  assumes "dll (tb_slots t) NIL as x" "dll (tb_slots t) x bs NIL" "distinct (as @ x # bs)" "NIL \<notin> set as" "tb_mru t = hd_or NIL (as @ [x])"
  shows "\<exists>t1. (if last_or NIL as = NIL then Some (t\<lparr> tb_mru := n \<rparr>) else set_next (last_or NIL as) n t) = Some t1 \<and>
     dll (tb_slots t1) NIL as n \<and> dll (tb_slots t1) x bs NIL \<and> tb_mru t1 = hd_or n as \<and> tb_lru t1 = tb_lru t \<and> relinked t t1"
proof (cases as rule: rev_cases)
  case Nil
  then show ?thesis using assms by (simp add: relinked_def content_def)
next
  case (snoc as' y)
  have y: "y \<noteq> NIL" "unat y < length (tb_slots t)" "y \<notin> set bs" using assms snoc dll_range[OF assms(1), of y] by auto
  let ?S = "(tb_slots t)[unat y := (tb_slots t ! unat y)\<lparr> sl_next := n \<rparr>]"
  have "dll ?S NIL as n" using dll_relink_next[of "tb_slots t" NIL as' y x n] assms snoc by simp
  moreover have "dll ?S x bs NIL" using assms(2) y(3) by (simp add: dll_frame1)
  moreover have "relinked t (t\<lparr> tb_slots := ?S \<rparr>)"
    using y(2) by (simp add: relinked_def content_def strip_update strip_def)
  moreover have "tb_mru t = hd_or n as" using assms(5) snoc by (cases as') auto
  ultimately show ?thesis using y(1,2) snoc by (simp add: set_next_ok)
qed

lemma join_back:
  assumes "dll (tb_slots t) NIL as (hd_or NIL bs)" "dll (tb_slots t) x bs NIL" "distinct (as @ x # bs)" "NIL \<notin> set bs"
    "tb_lru t = last_or x bs"
  shows "\<exists>t1. (if hd_or NIL bs = NIL then Some (t\<lparr> tb_lru := m \<rparr>) else set_prev (hd_or NIL bs) m t) = Some t1 \<and>
     dll (tb_slots t1) NIL as (hd_or NIL bs) \<and> dll (tb_slots t1) m bs NIL \<and> tb_lru t1 = last_or m bs \<and> tb_mru t1 = tb_mru t \<and> relinked t t1"
proof (cases bs)
  case Nil
  then show ?thesis using assms by (simp add: relinked_def content_def)
next
  case (Cons y bs')
  have y: "y \<noteq> NIL" "unat y < length (tb_slots t)" "y \<notin> set as" using assms Cons dll_range[OF assms(2), of y] by auto
  let ?S = "(tb_slots t)[unat y := (tb_slots t ! unat y)\<lparr> sl_prev := m \<rparr>]"
  have "dll ?S m bs NIL" using dll_relink_prev[of "tb_slots t" x y bs' NIL m] assms Cons by simp
  moreover have "dll ?S NIL as (hd_or NIL bs)" using assms(1) y(3) by (simp add: dll_frame1)
  moreover have "relinked t (t\<lparr> tb_slots := ?S \<rparr>)"
    using y(2) by (simp add: relinked_def content_def strip_update strip_def)
  ultimately show ?thesis using y(1,2) Cons assms(5) by (simp add: set_prev_ok)
qed

lemma unlink_spec:
  assumes "links t (as @ x # bs)"
  shows "\<exists>t'. unlink x t = Some t' \<and> links t' (as @ bs) \<and> relinked t t'"
proof -
  have d: "dll (tb_slots t) NIL as x" "dll (tb_slots t) x bs NIL" "unat x < length (tb_slots t)"
    "sl_prev (tb_slots t ! unat x) = last_or NIL as" "sl_next (tb_slots t ! unat x) = hd_or NIL bs"
    "distinct (as @ x # bs)" "NIL \<notin> set as" "NIL \<notin> set bs" "tb_mru t = hd_or NIL (as @ [x])" "tb_lru t = last_or x bs"
    using assms by (auto simp: links_def dll_append hd_or_append last_or_append)
  obtain t1 where 1: "(if last_or NIL as = NIL then Some (t\<lparr> tb_mru := hd_or NIL bs \<rparr>) else set_next (last_or NIL as) (hd_or NIL bs) t) = Some t1"
    "dll (tb_slots t1) NIL as (hd_or NIL bs)" "dll (tb_slots t1) x bs NIL" "tb_mru t1 = hd_or (hd_or NIL bs) as"
    "tb_lru t1 = tb_lru t" "relinked t t1"
    using join_front[OF d(1,2,6,7,9)] by blast
  obtain t2 where 2: "(if hd_or NIL bs = NIL then Some (t1\<lparr> tb_lru := last_or NIL as \<rparr>) else set_prev (hd_or NIL bs) (last_or NIL as) t1) = Some t2"
    "dll (tb_slots t2) NIL as (hd_or NIL bs)" "dll (tb_slots t2) (last_or NIL as) bs NIL" "tb_lru t2 = last_or (last_or NIL as) bs"
    "tb_mru t2 = tb_mru t1" "relinked t1 t2"
    using join_back[OF 1(2,3) d(6,8)] 1(5) d(10) by auto
  have "unlink x t = Some t2" using d(3-5) 1(1) 2(1) by (simp add: unlink_def slot_at_def split: if_splits)
  moreover have "links t2 (as @ bs)" using 1 2 d by (simp add: links_def dll_append hd_or_append last_or_append)
  ultimately show ?thesis using relinked_trans[OF 1(6) 2(6)] by blast
qed

lemma link_front_spec:
  assumes l: "links t xs" and x: "x \<notin> set xs" "x \<noteq> NIL" "unat x < length (tb_slots t)"
  shows "\<exists>t'. link_front x t = Some t' \<and> links t' (x # xs) \<and> relinked t t'"
proof -
  let ?S = "(tb_slots t)[unat x := (tb_slots t ! unat x)\<lparr> sl_prev := NIL, sl_next := tb_mru t \<rparr>]"
  have m: "tb_mru t = hd_or NIL xs" and d: "dll ?S NIL xs NIL" and st: "map strip ?S = map strip (tb_slots t)"
    using l x by (simp_all add: links_def dll_frame1 strip_update strip_def)
  have x': "sl_prev (?S ! unat x) = NIL" "sl_next (?S ! unat x) = hd_or NIL xs" using x m by simp_all
  show ?thesis
  proof (cases xs)
    case Nil
    have "relinked t (t\<lparr> tb_slots := ?S, tb_lru := x, tb_mru := x \<rparr>)" using st by (simp add: relinked_def content_def)
    then show ?thesis using Nil x x' m by (simp add: link_front_def upd_slot_def links_def)
  next
    case (Cons y ys)
    define S where "S = ?S"
    define S' where "S' = S[unat y := (S ! unat y)\<lparr> sl_prev := x \<rparr>]"
    have y: "y \<noteq> x" "y \<noteq> NIL" "unat y < length (tb_slots t)" "tb_mru t = y" "distinct (y # ys)" "x \<notin> set (y # ys)"
      using l x Cons m by (auto simp: links_def)
    have len: "length S = length (tb_slots t)" "length S' = length (tb_slots t)" by (simp_all add: S_def S'_def)
    have "unat y \<noteq> unat x" using y(1) by (simp add: unat_inj)
    then have x'': "sl_prev (S' ! unat x) = NIL" "sl_next (S' ! unat x) = y"
      using x' Cons by (simp_all add: S'_def S_def)
    have "dll S' x (y # ys) NIL"
      unfolding S'_def using dll_relink_prev[of S NIL y ys NIL x] d Cons y(5) by (simp only: S_def)
    then have "dll S' NIL (x # xs) NIL" using x(3) x'' len Cons by simp
    moreover have "map strip S' = map strip (tb_slots t)"
      using y(3) st strip_update[of "unat y" S "(S ! unat y)\<lparr> sl_prev := x \<rparr>"] len by (simp add: S'_def S_def strip_def)
    then have "relinked t (t\<lparr> tb_slots := S', tb_mru := x \<rparr>)" by (simp add: relinked_def content_def)
    moreover have "link_front x t = Some (t\<lparr> tb_slots := S', tb_mru := x \<rparr>)"
      using x y by (simp add: link_front_def upd_slot_def set_prev_ok S'_def S_def)
    ultimately show ?thesis using l x Cons by (simp add: links_def)
  qed
qed

lemma touch_spec:
  assumes l: "links t (as @ x # bs)" shows "\<exists>t'. touch x t = Some t' \<and> links t' (x # as @ bs) \<and> relinked t t'"
proof (cases "tb_mru t = x")
  case True
  then have "as = []" using l by (cases as) (auto simp: links_def)
  then show ?thesis using True l relinked_refl[of t] by (simp add: touch_def)
next
  case False
  obtain t1 where 1: "unlink x t = Some t1" "links t1 (as @ bs)" "relinked t t1" using unlink_spec[OF l] by blast
  have x: "x \<notin> set (as @ bs)" "x \<noteq> NIL" "unat x < length (tb_slots t1)"
    using l relinked_fields(10)[OF 1(3)] by (auto simp: links_def dll_append)
  obtain t2 where "link_front x t1 = Some t2" "links t2 (x # as @ bs)" "relinked t1 t2"
    using link_front_spec[OF 1(2) x] by auto
  then show ?thesis using False 1 relinked_trans by (auto simp: touch_def)
qed

subsection \<open>The table's invariant\<close>

text \<open>\<open>xs\<close> is the recency list, most recent first: it is threaded through the slots in both directions, it
names exactly the slots the index maps a key to, and with the free list it covers the slot store.\<close>

definition covers :: "'k ClientTable \<Rightarrow> u32 list \<Rightarrow> bool" where
  "covers t xs \<longleftrightarrow> distinct (tb_free t) \<and> set (tb_free t) \<inter> set xs = {} \<and>
     unat ` (set (tb_free t) \<union> set xs) = {..<length (tb_slots t)}"

definition sized :: "'k ClientTable \<Rightarrow> bool" where
  "sized t \<longleftrightarrow> length (tb_slots t) \<le> tb_capacity t \<and> 1 \<le> tb_capacity t \<and>
     4 * tb_capacity t \<le> length (ix_buckets (tb_index t)) \<and> tb_capacity t \<le> 2 ^ 30"

definition indexed :: "('k \<Rightarrow> HashWrite list) \<Rightarrow> 'k ClientTable \<Rightarrow> u32 list \<Rightarrow> bool" where
  "indexed kh t xs \<longleftrightarrow> index_ok kh (tb_slots t) (tb_index t) \<and> ran (imap (tb_slots t) (tb_index t)) = set xs"

definition tbl_ok :: "('k \<Rightarrow> HashWrite list) \<Rightarrow> 'k ClientTable \<Rightarrow> u32 list \<Rightarrow> bool" where
  "tbl_ok kh t xs \<longleftrightarrow> links t xs \<and> indexed kh t xs \<and> covers t xs \<and> sized t"

definition kmap :: "'k ClientTable \<Rightarrow> 'k \<Rightarrow> u32 option" where
  "kmap t = imap (tb_slots t) (tb_index t)"

definition view :: "'k ClientTable \<Rightarrow> u32 list \<Rightarrow> ('k \<times> ClientRecord) list" where
  "view t xs = map (\<lambda>i. (sl_key (tb_slots t ! unat i), sl_record (tb_slots t ! unat i))) xs"

lemma key_at_content: "content t' = content t \<Longrightarrow> key_at (tb_slots t') h = key_at (tb_slots t) h"
proof -
  assume c: "content t' = content t"
  have "length (tb_slots t') = length (tb_slots t)" using arg_cong[OF c, of length] by (simp add: content_def)
  then show ?thesis using content_nth[OF c, of "unat h"] by (simp add: key_at_def)
qed

lemma indexed_relinked:
  assumes "indexed kh t xs" "relinked t t'" "set xs' = set xs"
  shows "indexed kh t' xs' \<and> kmap t' = kmap t"
proof -
  have "index_ok kh (tb_slots t') (tb_index t) \<and> imap (tb_slots t') (tb_index t) = imap (tb_slots t) (tb_index t)"
    using assms(1) by (intro ix.frame_law) (auto simp: indexed_def key_at_content[OF relinked_fields(11)[OF assms(2)]])
  then show ?thesis using assms by (simp add: indexed_def kmap_def relinked_fields(1)[OF assms(2)])
qed

lemma sized_relinked: "relinked t t' \<Longrightarrow> sized t' = sized t"
  by (simp add: sized_def relinked_fields)

lemma covers_relinked: "relinked t t' \<Longrightarrow> set xs' = set xs \<Longrightarrow> covers t' xs' = covers t xs"
  by (simp add: covers_def relinked_fields)

lemma tbl_relinked:
  "tbl_ok kh t xs \<Longrightarrow> relinked t t' \<Longrightarrow> links t' xs' \<Longrightarrow> set xs' = set xs \<Longrightarrow> tbl_ok kh t' xs' \<and> kmap t' = kmap t"
  using indexed_relinked[of kh t xs t' xs'] by (auto simp: tbl_ok_def sized_relinked covers_relinked)

lemma view_relinked: "relinked t t' \<Longrightarrow> (\<And>x. x \<in> set xs \<Longrightarrow> unat x < length (tb_slots t)) \<Longrightarrow> view t' xs = view t xs"
  using content_nth[OF relinked_fields(11)] by (auto simp: view_def)

lemma tbl_range: "tbl_ok kh t xs \<Longrightarrow> x \<in> set xs \<Longrightarrow> unat x < length (tb_slots t) \<and> x \<noteq> NIL"
  using dll_range by (auto simp: tbl_ok_def links_def)

lemma tbl_len: "tbl_ok kh t xs \<Longrightarrow> table_len t = length xs"
  using ix.num_ran[of kh "tb_slots t" "tb_index t"] distinct_card[of xs]
  by (simp add: tbl_ok_def indexed_def links_def table_len_def)

lemma tbl_key: "tbl_ok kh t xs \<Longrightarrow> kmap t k = Some i \<longleftrightarrow> i \<in> set xs \<and> sl_key (tb_slots t ! unat i) = k"
proof
  assume t: "tbl_ok kh t xs" and k: "kmap t k = Some i"
  have ok: "index_ok kh (tb_slots t) (tb_index t)" using t by (simp add: tbl_ok_def indexed_def)
  have "key_at (tb_slots t) i = Some k" using ix.key_law[OF ok] k by (simp add: kmap_def)
  moreover have "i \<in> set xs" using t k by (auto simp: tbl_ok_def indexed_def kmap_def ran_def)
  ultimately show "i \<in> set xs \<and> sl_key (tb_slots t ! unat i) = k" by (auto simp: key_at_def split: if_splits)
next
  assume t: "tbl_ok kh t xs" and i: "i \<in> set xs \<and> sl_key (tb_slots t ! unat i) = k"
  have ok: "index_ok kh (tb_slots t) (tb_index t)" using t by (simp add: tbl_ok_def indexed_def)
  have "i \<in> ran (kmap t)" using t i by (simp add: tbl_ok_def indexed_def kmap_def)
  then obtain k' where k': "kmap t k' = Some i" by (auto simp: ran_def)
  then have "key_at (tb_slots t) i = Some k'" using ix.key_law[OF ok] by (simp add: kmap_def)
  then show "kmap t k = Some i" using i k' by (auto simp: key_at_def split: if_splits)
qed

lemma tbl_get: "tbl_ok kh t xs \<Longrightarrow> index_get kh k (tb_slots t) (tb_index t) = Some (kmap t k)"
  using ix.get_law[of kh "tb_slots t" "tb_index t" k] by (simp add: tbl_ok_def indexed_def kmap_def)

subsection \<open>Eviction and allocation\<close>

definition same_globals :: "'k ClientTable \<Rightarrow> 'k ClientTable \<Rightarrow> bool" where
  "same_globals t t' \<longleftrightarrow> tb_global_tokens t' = tb_global_tokens t \<and> tb_global_last t' = tb_global_last t \<and>
     tb_global_drops_since_kod t' = tb_global_drops_since_kod t \<and> tb_capacity t' = tb_capacity t \<and>
     tb_config t' = tb_config t \<and> tb_refill_per_s t' = tb_refill_per_s t \<and>
     ss_requests (tb_stats t') = ss_requests (tb_stats t) \<and> ss_responses (tb_stats t') = ss_responses (tb_stats t) \<and>
     ss_dropped_rate_limit (tb_stats t') = ss_dropped_rate_limit (tb_stats t) \<and>
     ss_kiss_of_death (tb_stats t') = ss_kiss_of_death (tb_stats t)"

lemma relinked_globals: "relinked t t' \<Longrightarrow> same_globals t t'"
  by (simp add: same_globals_def relinked_fields)

lemma same_globals_trans: "same_globals t u \<Longrightarrow> same_globals u v \<Longrightarrow> same_globals t v"
  by (simp add: same_globals_def)

lemma evict_spec:
  assumes t: "tbl_ok kh t (as @ [x])"
  shows "\<exists>t'. evict_one kh t = Some t' \<and> tbl_ok kh t' as \<and> tb_free t' = x # tb_free t \<and> content t' = content t \<and>
     same_globals t t' \<and> kmap t' = (kmap t)(sl_key (tb_slots t ! unat x) := None) \<and>
     ss_evicted (tb_stats t') = ss_evicted (tb_stats t) + 1"
proof -
  have l: "links t (as @ x # [])" using t by (simp add: tbl_ok_def)
  obtain t1 where 1: "unlink x t = Some t1" "links t1 as" "relinked t t1" using unlink_spec[OF l] by auto
  have lru: "tb_lru t = x" "x \<noteq> NIL" "unat x < length (tb_slots t)" using l tbl_range[OF t, of x] by (auto simp: links_def)
  define k where "k = sl_key (tb_slots t ! unat x)"
  have k1: "sl_key (tb_slots t1 ! unat x) = k"
    using content_nth[OF relinked_fields(11)[OF 1(3)] lru(3)] by (simp add: k_def)
  have i1: "indexed kh t1 (as @ [x])" "kmap t1 = kmap t"
    using indexed_relinked[OF _ 1(3) refl] t by (auto simp: tbl_ok_def)
  have kx: "kmap t k = Some x" using tbl_key[OF t] by (simp add: k_def)
  obtain ix where ix: "index_remove kh k (tb_slots t1) (tb_index t1) = Some ix" "index_ok kh (tb_slots t1) ix"
    "imap (tb_slots t1) ix = (kmap t)(k := None)" "length (ix_buckets ix) = length (ix_buckets (tb_index t))"
    "ran (imap (tb_slots t1) ix) = ran (kmap t) - {x}"
    using ix.drop_key[of kh "tb_slots t1" "tb_index t1" k x] i1 kx
    by (auto simp: indexed_def kmap_def relinked_fields(1)[OF 1(3)])
  define t' where "t' = bump_evicted (t1\<lparr> tb_index := ix, tb_free := x # tb_free t1 \<rparr>)"
  have f: "tb_slots t' = tb_slots t1" "tb_index t' = ix" "tb_free t' = x # tb_free t" "tb_mru t' = tb_mru t1" "tb_lru t' = tb_lru t1"
    "tb_capacity t' = tb_capacity t"
    by (simp_all add: t'_def bump_evicted_def relinked_fields[OF 1(3)])
  have "evict_one kh t = Some t'"
    using lru 1(1) ix(1) k1 by (simp add: evict_one_def slot_at_def relinked_fields(10)[OF 1(3)] t'_def)
  moreover have "links t' as" using 1(2) by (simp add: links_def f)
  moreover have "indexed kh t' as"
    using ix(2,5) t by (auto simp: indexed_def f tbl_ok_def kmap_def links_def)
  moreover have "covers t' as" using t by (auto simp: covers_def f tbl_ok_def relinked_fields(10)[OF 1(3)] links_def)
  moreover have "sized t'" using t ix(4) by (simp add: sized_def f tbl_ok_def relinked_fields(10)[OF 1(3)])
  moreover have "content t' = content t" using relinked_fields(11)[OF 1(3)] by (simp add: content_def f)
  moreover have "same_globals t t'" "ss_evicted (tb_stats t') = ss_evicted (tb_stats t) + 1"
    by (simp_all add: same_globals_def t'_def bump_evicted_def relinked_fields[OF 1(3)])
  moreover have "kmap t' = (kmap t)(k := None)" using ix(3) by (simp add: kmap_def f)
  ultimately show ?thesis by (auto simp: tbl_ok_def f k_def)
qed

lemma alloc_spec:
  assumes l: "links t xs" and c: "covers t xs" and z: "sized t" and room: "length xs < tb_capacity t"
  shows "\<exists>i t'. alloc_slot key r t = Some (i, t') \<and> links t' (i # xs) \<and> covers t' (i # xs) \<and> sized t' \<and>
     i \<notin> set xs \<and> i \<noteq> NIL \<and> unat i < length (tb_slots t') \<and> length (tb_slots t) \<le> length (tb_slots t') \<and>
     sl_key (tb_slots t' ! unat i) = key \<and> sl_record (tb_slots t' ! unat i) = r \<and>
     (\<forall>j < length (tb_slots t). j \<noteq> unat i \<longrightarrow> strip (tb_slots t' ! j) = strip (tb_slots t ! j)) \<and>
     (unat i < length (tb_slots t) \<longrightarrow> sl_generation (tb_slots t' ! unat i) = sl_generation (tb_slots t ! unat i) + 1) \<and>
     tb_index t' = tb_index t \<and> same_globals t t' \<and> tb_free t' = tl (tb_free t)"
proof (cases "tb_free t")
  case (Cons i rest)
  define ss where "ss = (tb_slots t)[unat i := (tb_slots t ! unat i)\<lparr> sl_key := key, sl_record := r, sl_prev := NIL, sl_next := NIL,
                 sl_generation := sl_generation (tb_slots t ! unat i) + 1 \<rparr>]"
  define t0 where "t0 = t\<lparr> tb_free := rest, tb_slots := ss \<rparr>"
  have i: "i \<notin> set xs" "unat i < length (tb_slots t)" using c Cons by (auto simp: covers_def)
  then have "unat i < 2 ^ 30" using z unfolding sized_def by linarith
  then have nil: "i \<noteq> NIL" by (auto simp: NIL_def)
  have l0: "links t0 xs" using l i by (simp add: links_def t0_def ss_def dll_frame1)
  have len: "length ss = length (tb_slots t)" by (simp add: ss_def)
  obtain t' where t': "link_front i t0 = Some t'" "links t' (i # xs)" "relinked t0 t'"
    using link_front_spec[OF l0 i(1) nil] i(2) by (auto simp: t0_def len)
  note rf = relinked_fields[OF t'(3)]
  have st: "strip (tb_slots t' ! j) = strip (ss ! j)" if "j < length (tb_slots t)" for j
    using content_nth[OF rf(11), of j] that by (simp add: t0_def len strip_def)
  have "alloc_slot key r t = Some (i, t')"
    using Cons i t'(1) by (simp add: alloc_slot_def upd_slot_def t0_def ss_def)
  moreover have "covers t' (i # xs)" using c Cons i(1) by (auto simp: covers_def rf t0_def len)
  moreover have "sized t'" using z by (simp add: sized_def rf t0_def len)
  moreover have "strip (tb_slots t' ! unat i) = (key, r, sl_generation (tb_slots t ! unat i) + 1)"
    using st[OF i(2)] i(2) by (simp add: ss_def strip_def)
  moreover have "\<forall>j < length (tb_slots t). j \<noteq> unat i \<longrightarrow> strip (tb_slots t' ! j) = strip (tb_slots t ! j)"
    using st by (simp add: ss_def)
  moreover have "same_globals t t'" using relinked_globals[OF t'(3)] by (simp add: same_globals_def t0_def)
  ultimately show ?thesis using t'(2) i nil
    by (intro exI[of _ i] exI[of _ t']) (simp add: strip_def rf t0_def len Cons)
next
  case Nil
  define i :: u32 where "i = of_nat (length (tb_slots t))"
  define t0 where "t0 = t\<lparr> tb_slots := tb_slots t @
       [\<lparr> sl_key = key, sl_record = r, sl_prev = NIL, sl_next = NIL, sl_generation = 0 \<rparr>] \<rparr>"
  have "card (unat ` set xs) = length (tb_slots t)" using c Nil by (simp add: covers_def)
  moreover have "card (unat ` set xs) = length xs"
    using l by (simp add: card_image inj_on_def unat_inj distinct_card links_def)
  ultimately have n: "length xs = length (tb_slots t)" by simp
  then have "length (tb_slots t) < 2 ^ 30" using room z unfolding sized_def by linarith
  then have ui: "unat i = length (tb_slots t)" by (simp add: i_def unat_of_nat)
  then have nil: "i \<noteq> NIL" using \<open>length (tb_slots t) < 2 ^ 30\<close> by (auto simp: NIL_def)
  have "unat i \<notin> unat ` set xs" using c Nil ui by (simp add: covers_def)
  then have ix: "i \<notin> set xs" by blast
  have old: "unat x < length (tb_slots t)" if "x \<in> set xs" for x using dll_range l that by (auto simp: links_def)
  have "dll (tb_slots t0) NIL xs NIL"
  proof -
    have "dll (S @ [s]) p ys q = dll S p ys q" if "\<forall>y \<in> set ys. unat y < length S" for S :: "'a Slot list" and s p ys q
      using that by (induction ys arbitrary: p) (auto simp: nth_append)
    then show ?thesis using old l by (simp add: t0_def links_def)
  qed
  then have l0: "links t0 xs" using l by (simp add: links_def t0_def)
  obtain t' where t': "link_front i t0 = Some t'" "links t' (i # xs)" "relinked t0 t'"
    using link_front_spec[OF l0 ix nil] ui by (auto simp: t0_def)
  note rf = relinked_fields[OF t'(3)]
  have st: "strip (tb_slots t' ! j) = strip (tb_slots t0 ! j)" if "j < Suc (length (tb_slots t))" for j
    using content_nth[OF rf(11), of j] that by (simp add: t0_def strip_def)
  have "alloc_slot key r t = Some (i, t')"
    using Nil t'(1) by (simp add: alloc_slot_def t0_def i_def)
  moreover have "covers t' (i # xs)" using c Nil ui by (auto simp: covers_def rf t0_def lessThan_Suc)
  moreover have "sized t'" using z room n by (simp add: sized_def rf t0_def)
  moreover have "strip (tb_slots t' ! unat i) = (key, r, 0)" using st[of "unat i"] ui by (simp add: t0_def strip_def)
  moreover have "\<forall>j < length (tb_slots t). j \<noteq> unat i \<longrightarrow> strip (tb_slots t' ! j) = strip (tb_slots t ! j)"
    using st by (simp add: t0_def nth_append)
  moreover have "same_globals t t'" using relinked_globals[OF t'(3)] by (simp add: same_globals_def t0_def)
  ultimately show ?thesis using t'(2) ix nil ui
    by (intro exI[of _ i] exI[of _ t']) (simp add: strip_def rf t0_def Nil)
qed

subsection \<open>The abstract client list\<close>

text \<open>The contract: a list of clients, most recently seen first, never longer than the capacity.\<close>

definition spec_touch :: "nat \<Rightarrow> u32 \<Rightarrow> 'k \<Rightarrow> f64 \<Rightarrow> ('k \<times> ClientRecord) list \<Rightarrow> ('k \<times> ClientRecord) list" where
  "spec_touch cap burst key now cs =
     (case map_of cs key of
        Some r \<Rightarrow> (key, r) # filter (\<lambda>c. fst c \<noteq> key) cs
      | None \<Rightarrow> (key, client_record_new now burst) # (if cap \<le> length cs then butlast cs else cs))"

definition spec_map :: "'k \<Rightarrow> (ClientRecord \<Rightarrow> ClientRecord) \<Rightarrow> ('k \<times> ClientRecord) list \<Rightarrow> ('k \<times> ClientRecord) list" where
  "spec_map key f cs = map (\<lambda>c. if fst c = key then (fst c, f (snd c)) else c) cs"

text \<open>How far a slot may have been handed on: \<open>n\<close> bounds the number of new occupants.\<close>

definition aged :: "nat \<Rightarrow> 'k ClientTable \<Rightarrow> 'k ClientTable \<Rightarrow> bool" where
  "aged n t t' \<longleftrightarrow> length (tb_slots t) \<le> length (tb_slots t') \<and>
     (\<forall>j < length (tb_slots t). \<exists>k \<le> n. sl_generation (tb_slots t' ! j) = sl_generation (tb_slots t ! j) + of_nat k \<and>
        (k = 0 \<longrightarrow> sl_key (tb_slots t' ! j) = sl_key (tb_slots t ! j)))"

lemma aged_trans: "aged m t u \<Longrightarrow> aged n u v \<Longrightarrow> aged (m + n) t v"
  unfolding aged_def
proof (intro conjI allI impI)
  fix j
  assume a: "length (tb_slots t) \<le> length (tb_slots u) \<and> (\<forall>j < length (tb_slots t). \<exists>k \<le> m.
      sl_generation (tb_slots u ! j) = sl_generation (tb_slots t ! j) + of_nat k \<and> (k = 0 \<longrightarrow> sl_key (tb_slots u ! j) = sl_key (tb_slots t ! j)))"
    and b: "length (tb_slots u) \<le> length (tb_slots v) \<and> (\<forall>j < length (tb_slots u). \<exists>k \<le> n.
      sl_generation (tb_slots v ! j) = sl_generation (tb_slots u ! j) + of_nat k \<and> (k = 0 \<longrightarrow> sl_key (tb_slots v ! j) = sl_key (tb_slots u ! j)))"
    and j: "j < length (tb_slots t)"
  obtain k where k: "k \<le> m" "sl_generation (tb_slots u ! j) = sl_generation (tb_slots t ! j) + of_nat k"
    "k = 0 \<longrightarrow> sl_key (tb_slots u ! j) = sl_key (tb_slots t ! j)" using a j by blast
  obtain l where l: "l \<le> n" "sl_generation (tb_slots v ! j) = sl_generation (tb_slots u ! j) + of_nat l"
    "l = 0 \<longrightarrow> sl_key (tb_slots v ! j) = sl_key (tb_slots u ! j)" using a b j by (meson less_le_trans)
  show "\<exists>k \<le> m + n. sl_generation (tb_slots v ! j) = sl_generation (tb_slots t ! j) + of_nat k \<and>
      (k = 0 \<longrightarrow> sl_key (tb_slots v ! j) = sl_key (tb_slots t ! j))"
    using k l by (intro exI[of _ "k + l"]) (auto simp: algebra_simps)
qed auto

lemma aged_content: "content t' = content t \<Longrightarrow> aged 0 t t'"
proof -
  assume c: "content t' = content t"
  have "length (tb_slots t') = length (tb_slots t)" using arg_cong[OF c, of length] by (simp add: content_def)
  then show ?thesis using content_nth[OF c] by (simp add: aged_def)
qed

lemma aged_mono: "aged m t u \<Longrightarrow> m \<le> n \<Longrightarrow> aged n t u"
  by (auto simp: aged_def) (meson le_trans)

lemma view_cong:
  "(\<And>x. x \<in> set xs \<Longrightarrow> strip (tb_slots t' ! unat x) = strip (tb_slots t ! unat x)) \<Longrightarrow> view t' xs = view t xs"
  by (auto simp: view_def strip_def)

lemma add_client_spec:
  assumes t: "tbl_ok kh t xs" and new: "kmap t key = None"
  shows "\<exists>i t'. add_client kh key now t = Some (i, t') \<and>
     tbl_ok kh t' (i # (if tb_capacity t \<le> length xs then butlast xs else xs)) \<and>
     view t' (i # (if tb_capacity t \<le> length xs then butlast xs else xs)) =
       (key, client_record_new now (rl_burst (tb_config t))) # view t (if tb_capacity t \<le> length xs then butlast xs else xs) \<and>
     same_globals t t' \<and> aged 1 t t' \<and> (tb_free t = [] \<longrightarrow> tb_free t' = [])"
proof -
  define kept where "kept = (if tb_capacity t \<le> length xs then butlast xs else xs)"
  have "\<exists>t1. (if tb_capacity t \<le> table_len t then evict_one kh t else Some t) = Some t1 \<and> tbl_ok kh t1 kept \<and>
      content t1 = content t \<and> same_globals t t1 \<and> kmap t1 key = None \<and> length kept < tb_capacity t \<and>
      (tb_free t = [] \<longrightarrow> tl (tb_free t1) = [])"
  proof (cases "tb_capacity t \<le> length xs")
    case True
    have "1 \<le> tb_capacity t" using t by (simp add: tbl_ok_def sized_def)
    then obtain as x where xs: "xs = as @ [x]" using True by (cases xs rule: rev_cases) auto
    have "card (unat ` set xs) \<le> length (tb_slots t)"
      using tbl_range[OF t] by (metis card_lessThan card_mono finite_lessThan image_subsetI lessThan_iff)
    moreover have "card (unat ` set xs) = length xs"
      using t by (simp add: card_image inj_on_def unat_inj distinct_card tbl_ok_def links_def)
    ultimately have "length xs \<le> tb_capacity t" using t by (simp add: tbl_ok_def sized_def)
    then show ?thesis using evict_spec[of kh t as x] t True xs new by (auto simp: tbl_len[OF t] kept_def)
  next
    case False
    then show ?thesis using t new by (simp add: tbl_len[OF t] kept_def same_globals_def)
  qed
  then obtain t1 where 1: "(if tb_capacity t \<le> table_len t then evict_one kh t else Some t) = Some t1" "tbl_ok kh t1 kept"
    "content t1 = content t" "same_globals t t1" "kmap t1 key = None" "length kept < tb_capacity t"
    "tb_free t = [] \<longrightarrow> tl (tb_free t1) = []" by blast
  have cap: "tb_capacity t1 = tb_capacity t" "tb_config t1 = tb_config t" using 1(4) by (simp_all add: same_globals_def)
  have h: "links t1 kept" "covers t1 kept" "sized t1" "length kept < tb_capacity t1"
    using 1(2,6) cap by (simp_all add: tbl_ok_def)
  obtain i t2 where 2: "alloc_slot key (client_record_new now (rl_burst (tb_config t))) t1 = Some (i, t2)"
    "links t2 (i # kept)" "covers t2 (i # kept)" "sized t2" "i \<notin> set kept" "i \<noteq> NIL" "unat i < length (tb_slots t2)"
    "length (tb_slots t1) \<le> length (tb_slots t2)" "sl_key (tb_slots t2 ! unat i) = key"
    "sl_record (tb_slots t2 ! unat i) = client_record_new now (rl_burst (tb_config t))"
    "\<And>j. j < length (tb_slots t1) \<Longrightarrow> j \<noteq> unat i \<Longrightarrow> strip (tb_slots t2 ! j) = strip (tb_slots t1 ! j)"
    "unat i < length (tb_slots t1) \<longrightarrow> sl_generation (tb_slots t2 ! unat i) = sl_generation (tb_slots t1 ! unat i) + 1"
    "tb_index t2 = tb_index t1" "same_globals t1 t2" "tb_free t2 = tl (tb_free t1)"
    using alloc_spec[OF h, of key "client_record_new now (rl_burst (tb_config t))"] by blast
  have okx: "index_ok kh (tb_slots t1) (tb_index t1)" and rn: "ran (imap (tb_slots t1) (tb_index t1)) = set kept"
    using 1(2) by (simp_all add: tbl_ok_def indexed_def)
  have in1: "unat x < length (tb_slots t1)" "unat x \<noteq> unat i" if "x \<in> set kept" for x
    using tbl_range[OF 1(2) that] 2(5) that by (auto simp: unat_inj)
  have keys: "key_at (tb_slots t2) x = key_at (tb_slots t1) x" if "x \<in> set kept" for x
    using 2(11)[OF in1[OF that]] in1[OF that] 2(8) by (simp add: key_at_def strip_def)
  have ki: "key_at (tb_slots t2) i = Some key" using 2(7,9) by (simp add: key_at_def)
  have num: "Suc (ix_len (tb_index t1)) < length (ix_buckets (tb_index t1))"
    using tbl_len[OF 1(2)] h(3,4) by (simp add: table_len_def sized_def)
  obtain ix where ix: "index_insert kh key i (tb_slots t2) (tb_index t1) = Some ix" "index_ok kh (tb_slots t2) ix"
    "imap (tb_slots t2) ix = (kmap t1)(key \<mapsto> i)" "length (ix_buckets ix) = length (ix_buckets (tb_index t1))"
    "ran (imap (tb_slots t2) ix) = insert i (set kept)"
    using ix.add_fresh[OF okx, of key i "tb_slots t2"] 1(5) 2(5,6) ki keys num by (auto simp: rn kmap_def NIL_def EMPTY_def)
  define t' where "t' = t2\<lparr> tb_index := ix \<rparr>"
  have "add_client kh key now t = Some (i, t')"
    using 1(1) 2(1,13) ix(1) cap by (simp add: add_client_def t'_def)
  moreover have "tbl_ok kh t' (i # kept)"
    using 2(2,3,4,13) ix(2,4,5) by (simp add: tbl_ok_def links_def covers_def sized_def indexed_def t'_def)
  moreover have "view t' (i # kept) = (key, client_record_new now (rl_burst (tb_config t))) # view t kept"
  proof -
    have "view t2 kept = view t1 kept" using 2(11) in1 by (intro view_cong) auto
    also have "\<dots> = view t kept" using content_nth[OF 1(3)] tbl_range[OF 1(2)] arg_cong[OF 1(3), of length]
      by (auto simp: view_def content_def)
    finally show ?thesis using 2(9,10) by (simp add: view_def t'_def)
  qed
  moreover have "same_globals t t'" using same_globals_trans[OF 1(4) 2(14)] by (simp add: same_globals_def t'_def)
  moreover have "aged 1 t t'"
  proof -
    have "\<exists>k \<le> 1. sl_generation (tb_slots t2 ! j) = sl_generation (tb_slots t1 ! j) + of_nat k \<and>
        (k = 0 \<longrightarrow> sl_key (tb_slots t2 ! j) = sl_key (tb_slots t1 ! j))" if j: "j < length (tb_slots t1)" for j
    proof (cases "j = unat i")
      case True
      then show ?thesis using 2(12) j by (intro exI[of _ 1]) simp
    next
      case False
      then show ?thesis using 2(11)[OF j False] by (intro exI[of _ 0]) (simp add: strip_def)
    qed
    then have "aged 1 t1 t2" using 2(8) by (simp add: aged_def)
    then have "aged 1 t t2" using aged_trans[OF aged_content[OF 1(3)], of 1 t2] by simp
    then show ?thesis unfolding aged_def t'_def by simp
  qed
  moreover have "tb_free t = [] \<longrightarrow> tb_free t' = []" using 1(7) 2(15) by (simp add: t'_def)
  ultimately show ?thesis unfolding kept_def[symmetric] by blast
qed

lemma view_keys:
  assumes t: "tbl_ok kh t xs" shows "distinct (map fst (view t xs))"
proof -
  have "inj_on (\<lambda>i. sl_key (tb_slots t ! unat i)) (set xs)"
    using tbl_key[OF t] by (intro inj_onI) (metis option.inject)
  then show ?thesis using t by (simp add: view_def comp_def distinct_map tbl_ok_def links_def)
qed

lemma view_lookup:
  assumes t: "tbl_ok kh t xs"
  shows "map_of (view t xs) k = map_option (\<lambda>i. sl_record (tb_slots t ! unat i)) (kmap t k)"
proof (cases "kmap t k")
  case None
  have "\<forall>i \<in> set xs. sl_key (tb_slots t ! unat i) \<noteq> k" using tbl_key[OF t, of k] None by auto
  then have "k \<notin> fst ` set (view t xs)" by (auto simp: view_def)
  then show ?thesis using None by (simp add: map_of_eq_None_iff)
next
  case (Some i)
  then have "(k, sl_record (tb_slots t ! unat i)) \<in> set (view t xs)" using tbl_key[OF t] by (auto simp: view_def)
  then show ?thesis using Some view_keys[OF t] by simp
qed

lemma slot_for_spec:
  assumes t: "tbl_ok kh t xs"
  shows "\<exists>i ys t'. slot_for kh key now t = Some (i, t') \<and> tbl_ok kh t' (i # ys) \<and>
     view t' (i # ys) = spec_touch (tb_capacity t) (rl_burst (tb_config t)) key now (view t xs) \<and>
     same_globals t t' \<and> aged 1 t t' \<and> (tb_free t = [] \<longrightarrow> tb_free t' = [])"
proof (cases "kmap t key")
  case None
  define kept where "kept = (if tb_capacity t \<le> length xs then butlast xs else xs)"
  have "map_of (view t xs) key = None" by (simp add: view_lookup[OF t] None)
  moreover have "view t kept = (if tb_capacity t \<le> length (view t xs) then butlast (view t xs) else view t xs)"
    by (simp add: kept_def view_def map_butlast)
  moreover obtain i t' where "add_client kh key now t = Some (i, t')" "tbl_ok kh t' (i # kept)"
    "view t' (i # kept) = (key, client_record_new now (rl_burst (tb_config t))) # view t kept" "same_globals t t'" "aged 1 t t'"
    "tb_free t = [] \<longrightarrow> tb_free t' = []"
    using add_client_spec[OF t None, of now] unfolding kept_def[symmetric] by blast
  ultimately show ?thesis
    by (intro exI[of _ i] exI[of _ kept] exI[of _ t']) (simp add: slot_for_def tbl_get[OF t] None spec_touch_def)
next
  case (Some i)
  then have i: "i \<in> set xs" "sl_key (tb_slots t ! unat i) = key" using tbl_key[OF t] by auto
  then obtain as bs where xs: "xs = as @ i # bs" by (metis split_list)
  obtain t' where t': "touch i t = Some t'" "links t' (i # as @ bs)" "relinked t t'"
    using touch_spec[of t as i bs] t by (auto simp: xs tbl_ok_def)
  have ok: "tbl_ok kh t' (i # as @ bs)" using tbl_relinked[OF t t'(3,2)] by (simp add: xs)
  have "fst c \<noteq> key" if c: "c \<in> set (view t (as @ bs))" for c
  proof -
    obtain j where j: "j \<in> set (as @ bs)" "fst c = sl_key (tb_slots t ! unat j)"
      using c unfolding view_def by fastforce
    have "j \<noteq> i" using j t by (auto simp: xs tbl_ok_def links_def)
    then have "kmap t key \<noteq> Some j" using Some by auto
    then show ?thesis using j tbl_key[OF t, of key j] by (auto simp: xs)
  qed
  then have "filter (\<lambda>c. fst c \<noteq> key) (view t (as @ bs)) = view t (as @ bs)" by (simp add: filter_id_conv)
  then have "filter (\<lambda>c. fst c \<noteq> key) (view t xs) = view t (as @ bs)" using i(2) by (simp add: xs view_def)
  moreover have "view t' (i # as @ bs) = view t (i # as @ bs)"
    using tbl_range[OF t] by (intro view_relinked[OF t'(3)]) (auto simp: xs)
  ultimately have "view t' (i # as @ bs) = spec_touch (tb_capacity t) (rl_burst (tb_config t)) key now (view t xs)"
    using i(2) by (simp add: spec_touch_def view_lookup[OF t] Some) (simp add: view_def)
  moreover have "aged 1 t t'" using aged_mono[OF aged_content[OF relinked_fields(11)[OF t'(3)]]] by simp
  ultimately show ?thesis using ok t' relinked_globals[OF t'(3)] Some
    by (intro exI[of _ i] exI[of _ "as @ bs"] exI[of _ t']) (simp add: slot_for_def tbl_get[OF t] relinked_fields(2)[OF t'(3)])
qed

text \<open>Replacing one record.\<close>

lemma set_record_ok:
  assumes t: "tbl_ok kh t xs" and i: "unat i < length (tb_slots t)"
  shows "tbl_ok kh (set_record (unat i) r t) xs \<and> kmap (set_record (unat i) r t) = kmap t \<and> aged 0 t (set_record (unat i) r t) \<and>
     tb_free (set_record (unat i) r t) = tb_free t \<and> same_globals t (set_record (unat i) r t) \<and>
     view (set_record (unat i) r t) xs =
       map (\<lambda>j. (sl_key (tb_slots t ! unat j), if j = i then r else sl_record (tb_slots t ! unat j))) xs"
proof -
  let ?t = "set_record (unat i) r t"
  let ?S = "(tb_slots t)[unat i := (tb_slots t ! unat i)\<lparr> sl_record := r \<rparr>]"
  have f: "tb_slots ?t = ?S" "tb_index ?t = tb_index t" "tb_free ?t = tb_free t" "tb_mru ?t = tb_mru t" "tb_lru ?t = tb_lru t"
    "tb_capacity ?t = tb_capacity t" "same_globals t ?t"
    by (simp_all add: set_record_def same_globals_def)
  have k: "sl_key (?S ! j) = sl_key (tb_slots t ! j)" "sl_generation (?S ! j) = sl_generation (tb_slots t ! j)"
    "sl_prev (?S ! j) = sl_prev (tb_slots t ! j)" "sl_next (?S ! j) = sl_next (tb_slots t ! j)" for j
    using i by (cases "j = unat i"; simp)+
  have "dll ?S NIL xs NIL = dll (tb_slots t) NIL xs NIL" by (rule dll_frame) (simp_all add: k)
  then have "links ?t xs" using t by (simp add: tbl_ok_def links_def f)
  moreover have ka: "key_at ?S h = key_at (tb_slots t) h" for h by (simp add: key_at_def k)
  have "index_ok kh ?S (tb_index t) \<and> imap ?S (tb_index t) = imap (tb_slots t) (tb_index t)"
    using t by (intro ix.frame_law ka) (simp add: tbl_ok_def indexed_def)
  then have "indexed kh ?t xs" "kmap ?t = kmap t" using t by (simp_all add: tbl_ok_def indexed_def kmap_def f)
  moreover have "covers ?t xs" "sized ?t" using t by (simp_all add: tbl_ok_def covers_def sized_def f)
  moreover have "aged 0 t ?t" by (simp add: aged_def f k)
  moreover have "view ?t xs = map (\<lambda>j. (sl_key (tb_slots t ! unat j), if j = i then r else sl_record (tb_slots t ! unat j))) xs"
    using i by (auto simp: view_def f k unat_inj)
  ultimately show ?thesis using f(3,7) by (simp add: tbl_ok_def)
qed

lemma most_recent_spec:
  assumes t: "tbl_ok kh t xs" shows "most_recent n t = Some (take n (view t xs))"
proof -
  have "walk_recent S m (hd_or NIL ys) = Some (take m (map (\<lambda>i. (sl_key (S ! unat i), sl_record (S ! unat i))) ys))"
    if "dll S p ys NIL" "NIL \<notin> set ys" for S :: "'a Slot list" and m p ys
    using that
  proof (induction ys arbitrary: p m)
    case Nil
    then show ?case by (cases m) simp_all
  next
    case (Cons y ys)
    show ?case
    proof (cases m)
      case (Suc m')
      then show ?thesis using Cons.IH[of y m'] Cons.prems by (auto simp: slot_at_def)
    qed simp
  qed
  from this[of "tb_slots t" NIL xs n] show ?thesis using t by (simp add: most_recent_def view_def tbl_ok_def links_def)
qed

subsection \<open>Admission refines the abstract server\<close>

record 'k ServerSpec =
  sp_clients :: "('k \<times> ClientRecord) list"
  sp_tokens :: f64
  sp_last :: "f64 option"
  sp_drops :: u32

definition spec_refill :: "RateLimitConfig \<Rightarrow> f64 \<Rightarrow> 'k ServerSpec \<Rightarrow> 'k ServerSpec" where
  "spec_refill cfg now s =
     (if flt (FFin 0) (rl_global_rate_hz cfg)
      then s\<lparr> sp_tokens := fmin (fadd (sp_tokens s) (fmul (fmax (fsub now (case sp_last s of Some l \<Rightarrow> l | None \<Rightarrow> now)) (FFin 0))
                 (rl_global_rate_hz cfg))) (rl_global_burst cfg), sp_last := Some now \<rparr>
      else s)"

definition spec_deny :: "RateLimitConfig \<Rightarrow> 'k ServerSpec \<Rightarrow> Disposition \<times> 'k ServerSpec" where
  "spec_deny cfg s = (if leak_period cfg \<le> sp_drops s + 1 then (KissOfDeath, s\<lparr> sp_drops := 0 \<rparr>)
     else (Drop, s\<lparr> sp_drops := sp_drops s + 1 \<rparr>))"

definition spec_serve :: "nat \<Rightarrow> RateLimitConfig \<Rightarrow> f64 \<Rightarrow> 'k \<Rightarrow> f64 \<Rightarrow> 'k ServerSpec \<Rightarrow> Disposition \<times> 'k ServerSpec" where
  "spec_serve cap cfg rate key now s =
     (let cs = spec_touch cap (rl_burst cfg) key now (sp_clients s); dr = charge_record cfg rate now (snd (hd cs))
      in (fst dr, s\<lparr> sp_clients := (key, snd dr) # tl cs,
            sp_tokens := (if fst dr = Respond then fsub (sp_tokens s) (FFin 1) else sp_tokens s) \<rparr>))"

definition spec_admit :: "nat \<Rightarrow> RateLimitConfig \<Rightarrow> f64 \<Rightarrow> 'k \<Rightarrow> f64 \<Rightarrow> 'k ServerSpec \<Rightarrow> Disposition \<times> 'k ServerSpec" where
  "spec_admit cap cfg rate key now s =
     (let s1 = spec_refill cfg now s in
      if flt (FFin 0) (rl_global_rate_hz cfg) \<and> flt (sp_tokens s1) (FFin 1) then spec_deny cfg s1
      else spec_serve cap cfg rate key now s1)"

definition spec_of :: "'k ClientTable \<Rightarrow> u32 list \<Rightarrow> 'k ServerSpec" where
  "spec_of t xs = \<lparr> sp_clients = view t xs, sp_tokens = tb_global_tokens t, sp_last = tb_global_last t,
     sp_drops = tb_global_drops_since_kod t \<rparr>"

definition core :: "'k ClientTable \<Rightarrow> 'k Slot list \<times> Index \<times> u32 list \<times> u32 \<times> u32 \<times> nat" where
  "core t = (tb_slots t, tb_index t, tb_free t, tb_mru t, tb_lru t, tb_capacity t)"

lemma core_cong:
  assumes "core t' = core t"
  shows "tbl_ok kh t' xs = tbl_ok kh t xs" "view t' xs = view t xs" "kmap t' = kmap t" "aged 0 t t'" "tb_free t' = tb_free t"
    "handle_for i t' = handle_for i t" "resolve h t' = resolve h t"
proof -
  have c: "tb_slots t' = tb_slots t" "tb_index t' = tb_index t" "tb_free t' = tb_free t" "tb_mru t' = tb_mru t"
    "tb_lru t' = tb_lru t" "tb_capacity t' = tb_capacity t" using assms by (simp_all add: core_def)
  then show "tbl_ok kh t' xs = tbl_ok kh t xs" "view t' xs = view t xs" "kmap t' = kmap t" "aged 0 t t'"
    "tb_free t' = tb_free t" "handle_for i t' = handle_for i t" "resolve h t' = resolve h t"
    by (simp_all add: tbl_ok_def links_def indexed_def covers_def sized_def view_def kmap_def aged_def handle_for_def resolve_def)
qed

lemma core_global_step: "core (global_step now t) = core t"
  by (simp add: core_def global_step_def refill_global_def count_request_def Let_def)

lemma core_account: "core (account d t) = core t"
  by (cases d) (simp_all add: core_def)

lemma core_deny: "core (snd (deny_global t)) = core t"
  by (simp add: core_def deny_global_def Let_def)

lemma global_step_fields:
  "tb_config (global_step now t) = tb_config t" "tb_capacity (global_step now t) = tb_capacity t"
  "tb_refill_per_s (global_step now t) = tb_refill_per_s t"
  "tb_global_drops_since_kod (global_step now t) = tb_global_drops_since_kod t"
  by (simp_all add: global_step_def refill_global_def count_request_def Let_def)

lemma spec_of_global_step: "spec_of (global_step now t) xs = spec_refill (tb_config t) now (spec_of t xs)"
  by (simp add: spec_of_def spec_refill_def global_step_def refill_global_def count_request_def Let_def core_cong(2)[OF core_global_step] view_def)

text \<open>The bookkeeping of the statistics: every request is either answered or counted as dropped.\<close>

definition balanced :: "'k ClientTable \<Rightarrow> bool" where
  "balanced t \<longleftrightarrow> ss_requests (tb_stats t) = ss_responses (tb_stats t) + ss_dropped_rate_limit (tb_stats t)"

definition steady :: "'k ClientTable \<Rightarrow> 'k ClientTable \<Rightarrow> bool" where
  "steady t t' \<longleftrightarrow> tb_config t' = tb_config t \<and> tb_capacity t' = tb_capacity t \<and> tb_refill_per_s t' = tb_refill_per_s t \<and>
     (tb_free t = [] \<longrightarrow> tb_free t' = []) \<and> (balanced t \<longrightarrow> balanced t')"

lemma steady_trans: "steady t u \<Longrightarrow> steady u v \<Longrightarrow> steady t v"
  by (simp add: steady_def)

lemma deny_spec:
  "tbl_ok kh t xs \<Longrightarrow> tbl_ok kh (snd (deny_global t)) xs \<and>
     (fst (deny_global t), spec_of (snd (deny_global t)) xs) = spec_deny (tb_config t) (spec_of t xs) \<and> aged 0 t (snd (deny_global t))"
  by (simp add: core_cong[OF core_deny] spec_of_def spec_deny_def) (simp add: deny_global_def Let_def)

lemma handle_now: "unat i < length (tb_slots t) \<Longrightarrow>
    handle_for i t = Some \<lparr> ch_slot = i, ch_generation = sl_generation (tb_slots t ! unat i) \<rparr>"
  by (simp add: handle_for_def slot_at_def)

lemma charge_spec:
  assumes t: "tbl_ok kh t (i # ys)"
    and dr: "charge_record (tb_config t) (tb_refill_per_s t) now (snd (hd (view t (i # ys)))) = (d, r)"
  shows "\<exists>h t'. charge_slot i now t = Some ((d, h), t') \<and> tbl_ok kh t' (i # ys) \<and>
     spec_of t' (i # ys) = (spec_of t (i # ys))\<lparr> sp_clients := (fst (hd (view t (i # ys))), r) # tl (view t (i # ys)),
       sp_tokens := (if d = Respond then fsub (tb_global_tokens t) (FFin 1) else tb_global_tokens t) \<rparr> \<and>
     h = \<lparr> ch_slot = i, ch_generation = sl_generation (tb_slots t' ! unat i) \<rparr> \<and> aged 0 t t' \<and> tb_free t' = tb_free t \<and>
     tb_stats t' = tb_stats (account d t) \<and> tb_config t' = tb_config t \<and> tb_capacity t' = tb_capacity t \<and>
     tb_refill_per_s t' = tb_refill_per_s t"
proof -
  have il: "unat i < length (tb_slots t)" using tbl_range[OF t] by simp
  have rec: "snd (hd (view t (i # ys))) = sl_record (tb_slots t ! unat i)" by (simp add: view_def)
  define t1 where "t1 = set_record (unat i) r t"
  note sr = set_record_ok[OF t il, of r, folded t1_def]
  have f: "tb_config t1 = tb_config t" "tb_refill_per_s t1 = tb_refill_per_s t" "tb_capacity t1 = tb_capacity t"
    "tb_stats t1 = tb_stats t" "tb_global_tokens t1 = tb_global_tokens t" "tb_global_last t1 = tb_global_last t"
    "tb_global_drops_since_kod t1 = tb_global_drops_since_kod t" by (simp_all add: t1_def set_record_def)
  have notin: "i \<notin> set ys" using t by (simp add: tbl_ok_def links_def)
  have v: "view t1 (i # ys) = (fst (hd (view t (i # ys))), r) # tl (view t (i # ys))"
    using sr notin by (auto simp: view_def)
  have eq: "charge_slot i now t = Some ((d, \<lparr> ch_slot = i, ch_generation = sl_generation (tb_slots t ! unat i) \<rparr>), account d t1)"
    using dr il by (simp add: charge_slot_def handle_now slot_at_def upd_slot_def rec t1_def set_record_def)
  have gen: "sl_generation (tb_slots t1 ! unat i) = sl_generation (tb_slots t ! unat i)"
    using il by (simp add: t1_def set_record_def)
  note cc = core_cong[OF core_account]
  have sl: "tb_slots (account d t1) = tb_slots t1" by (cases d) simp_all
  have "aged 0 t (account d t1)" using sr aged_trans[of 0 t t1 0] cc(4) by fastforce
  moreover have "spec_of (account d t1) (i # ys) = (spec_of t (i # ys))\<lparr> sp_clients := (fst (hd (view t (i # ys))), r) # tl (view t (i # ys)),
       sp_tokens := (if d = Respond then fsub (tb_global_tokens t) (FFin 1) else tb_global_tokens t) \<rparr>"
    using v by (cases d) (simp_all add: spec_of_def cc f, simp_all add: view_def)
  moreover have "tb_stats (account d t1) = tb_stats (account d t)" "tb_config (account d t1) = tb_config t"
    "tb_capacity (account d t1) = tb_capacity t" "tb_refill_per_s (account d t1) = tb_refill_per_s t"
    by (cases d; simp add: f)+
  ultimately show ?thesis using eq sr by (simp add: cc gen sl)
qed

lemma spec_touch_cons: "\<exists>r cs'. spec_touch cap b key now cs = (key, r) # cs'"
  by (auto simp: spec_touch_def split: option.splits)

lemma admit_spec:
  assumes t: "tbl_ok kh t xs"
  shows "\<exists>d h t' ys. admit_handle kh key now t = Some ((d, h), t') \<and> tbl_ok kh t' ys \<and>
     (d, spec_of t' ys) = spec_admit (tb_capacity t) (tb_config t) (tb_refill_per_s t) key now (spec_of t xs) \<and>
     aged 1 t t' \<and> steady t t' \<and>
     (h = INVALID \<or> (\<exists>i \<in> set ys. h = \<lparr> ch_slot = i, ch_generation = sl_generation (tb_slots t' ! unat i) \<rparr> \<and> sl_key (tb_slots t' ! unat i) = key))"
proof -
  define t1 where "t1 = global_step now t"
  have t1: "tbl_ok kh t1 xs" using t by (simp add: t1_def core_cong[OF core_global_step])
  have a1: "aged 0 t t1" "tb_free t1 = tb_free t" by (simp_all add: t1_def core_cong[OF core_global_step])
  have st1: "ss_requests (tb_stats t1) = ss_requests (tb_stats t) + 1" "ss_responses (tb_stats t1) = ss_responses (tb_stats t)"
    "ss_dropped_rate_limit (tb_stats t1) = ss_dropped_rate_limit (tb_stats t)"
    by (simp_all add: t1_def global_step_def refill_global_def count_request_def Let_def)
  have f1: "tb_config t1 = tb_config t" "tb_capacity t1 = tb_capacity t" "tb_refill_per_s t1 = tb_refill_per_s t"
    by (simp_all add: t1_def global_step_fields)
  have s1: "spec_of t1 xs = spec_refill (tb_config t) now (spec_of t xs)" by (simp add: t1_def spec_of_global_step)
  have blk: "global_blocked t1 \<longleftrightarrow> flt (FFin 0) (rl_global_rate_hz (tb_config t)) \<and>
      flt (sp_tokens (spec_refill (tb_config t) now (spec_of t xs))) (FFin 1)"
    unfolding global_blocked_def f1 s1[symmetric] by (simp add: spec_of_def)
  show ?thesis
  proof (cases "global_blocked t1")
    case True
    let ?t' = "snd (deny_global t1)"
    have "steady t ?t'" using a1(2) st1 f1
      by (auto simp: steady_def balanced_def deny_global_def Let_def)
    moreover have "aged 1 t ?t'" using aged_mono[OF aged_trans[OF a1(1)], of 0] deny_spec[OF t1] by fastforce
    ultimately show ?thesis using True deny_spec[OF t1] blk
      by (intro exI[of _ "fst (deny_global t1)"] exI[of _ INVALID] exI[of _ ?t'] exI[of _ xs])
        (simp add: admit_handle_def t1_def[symmetric] spec_admit_def f1 s1)
  next
    case False
    obtain i ys t2 where 2: "slot_for kh key now t1 = Some (i, t2)" "tbl_ok kh t2 (i # ys)"
      "view t2 (i # ys) = spec_touch (tb_capacity t1) (rl_burst (tb_config t1)) key now (view t1 xs)"
      "same_globals t1 t2" "aged 1 t1 t2" "tb_free t1 = [] \<longrightarrow> tb_free t2 = []"
      using slot_for_spec[OF t1] by blast
    obtain r0 cs' where cs: "spec_touch (tb_capacity t) (rl_burst (tb_config t)) key now (view t xs) = (key, r0) # cs'"
      using spec_touch_cons[of "tb_capacity t" "rl_burst (tb_config t)" key now "view t xs"] by blast
    have v1: "view t1 xs = view t xs" by (simp add: t1_def core_cong[OF core_global_step])
    have v2: "view t2 (i # ys) = (key, r0) # cs'" using 2(3) cs by (simp add: f1 v1)
    obtain d r where dr: "charge_record (tb_config t) (tb_refill_per_s t) now r0 = (d, r)" by fastforce
    have g2: "tb_config t2 = tb_config t" "tb_refill_per_s t2 = tb_refill_per_s t" "tb_capacity t2 = tb_capacity t"
      "tb_global_tokens t2 = tb_global_tokens t1" "tb_global_last t2 = tb_global_last t1"
      "tb_global_drops_since_kod t2 = tb_global_drops_since_kod t1" using 2(4) f1 by (simp_all add: same_globals_def)
    obtain h t' where 3: "charge_slot i now t2 = Some ((d, h), t')" "tbl_ok kh t' (i # ys)"
      "spec_of t' (i # ys) = (spec_of t2 (i # ys))\<lparr> sp_clients := (key, r) # cs',
         sp_tokens := (if d = Respond then fsub (tb_global_tokens t2) (FFin 1) else tb_global_tokens t2) \<rparr>"
      "h = \<lparr> ch_slot = i, ch_generation = sl_generation (tb_slots t' ! unat i) \<rparr>" "aged 0 t2 t'" "tb_free t' = tb_free t2"
      "tb_stats t' = tb_stats (account d t2)" "tb_config t' = tb_config t2" "tb_capacity t' = tb_capacity t2"
      "tb_refill_per_s t' = tb_refill_per_s t2"
      using charge_spec[OF 2(2), of now d r] dr v2 g2 by auto
    have ag: "aged 1 t t'" using aged_trans[OF aged_trans[OF a1(1) 2(5)] 3(5)] by simp
    have "balanced t \<Longrightarrow> balanced t'"
      using st1 2(4) by (cases d) (simp_all add: balanced_def 3(7) same_globals_def)
    then have sd: "steady t t'" using a1(2) 2(6) 3(6,8,9,10) g2 by (simp add: steady_def)
    have "view t' (i # ys) = (key, r) # cs'" using arg_cong[OF 3(3), of sp_clients] by (simp add: spec_of_def)
    then have kk: "sl_key (tb_slots t' ! unat i) = key" by (simp add: view_def)
    have "spec_of t2 (i # ys) = (spec_refill (tb_config t) now (spec_of t xs))\<lparr> sp_clients := (key, r0) # cs' \<rparr>"
      unfolding s1[symmetric] using v2 g2 by (simp add: spec_of_def)
    moreover have "sp_clients (spec_refill (tb_config t) now (spec_of t xs)) = view t xs"
      unfolding s1[symmetric] by (simp add: spec_of_def v1)
    moreover have "sp_tokens (spec_refill (tb_config t) now (spec_of t xs)) = tb_global_tokens t2"
      unfolding s1[symmetric] by (simp add: spec_of_def g2)
    ultimately have "(d, spec_of t' (i # ys)) = spec_admit (tb_capacity t) (tb_config t) (tb_refill_per_s t) key now (spec_of t xs)"
      using False blk dr cs 3(3) by (auto simp: spec_admit_def spec_serve_def Let_def)
    then show ?thesis using 2(1) 3(1,2,4) False ag sd kk
      by (intro exI[of _ d] exI[of _ h] exI[of _ t'] exI[of _ "i # ys"]) (simp add: admit_handle_def t1_def[symmetric])
  qed
qed

end
