(* ===== verification/TableRuns.thy ===== *)
theory TableRuns
  imports ClientTable
begin

text \<open>Runs of the client table: every sequence of requests and bookkeeping calls refines the abstract client
list, never panics, keeps the statistics balanced; and what the rate limiter bounds over a run.\<close>

datatype 'k table_op = OpAdmit 'k f64 | OpMode 'k NtpTimestamp | OpResponse 'k NtpTimestamp NtpTimestamp
  | OpTransmit 'k NtpTimestamp | OpRefused

datatype table_out = OutDisp Disposition | OutMode ResponseMode | OutNone

fun table_step :: "('k \<Rightarrow> HashWrite list) \<Rightarrow> 'k table_op \<Rightarrow> 'k ClientTable \<Rightarrow> (table_out \<times> 'k ClientTable) option" where
  "table_step kh (OpAdmit key now) t = map_option (\<lambda>(d, t'). (OutDisp d, t')) (admit kh key now t)"
| "table_step kh (OpMode key origin) t = map_option (\<lambda>(m, t'). (OutMode m, t')) (response_mode kh key origin t)"
| "table_step kh (OpResponse key r s) t = map_option (Pair OutNone) (note_response kh key r s t)"
| "table_step kh (OpTransmit key tx) t = map_option (Pair OutNone) (note_transmit kh key tx t)"
| "table_step kh OpRefused t = Some (OutNone, note_refused t)"

fun spec_step :: "nat \<Rightarrow> RateLimitConfig \<Rightarrow> f64 \<Rightarrow> 'k table_op \<Rightarrow> 'k ServerSpec \<Rightarrow> table_out \<times> 'k ServerSpec" where
  "spec_step cap cfg rate (OpAdmit key now) s = (case spec_admit cap cfg rate key now s of (d, s') \<Rightarrow> (OutDisp d, s'))"
| "spec_step cap cfg rate (OpMode key origin) s =
     (OutMode (case map_of (sp_clients s) key of None \<Rightarrow> Basic | Some r \<Rightarrow> fst (choose_mode r origin)),
      s\<lparr> sp_clients := spec_map key (\<lambda>r. snd (choose_mode r origin)) (sp_clients s) \<rparr>)"
| "spec_step cap cfg rate (OpResponse key r x) s =
     (OutNone, s\<lparr> sp_clients := spec_map key (\<lambda>c. c\<lparr> cl_last_receive := r, cl_last_receive_sent := x \<rparr>) (sp_clients s) \<rparr>)"
| "spec_step cap cfg rate (OpTransmit key tx) s =
     (OutNone, s\<lparr> sp_clients := spec_map key (\<lambda>c. c\<lparr> cl_last_transmit := tx \<rparr>) (sp_clients s) \<rparr>)"
| "spec_step cap cfg rate OpRefused s = (OutNone, s)"

fun table_run :: "('k \<Rightarrow> HashWrite list) \<Rightarrow> 'k table_op list \<Rightarrow> 'k ClientTable \<Rightarrow> (table_out list \<times> 'k ClientTable) option" where
  "table_run kh [] t = Some ([], t)"
| "table_run kh (a # as) t =
     (case table_step kh a t of None \<Rightarrow> None | Some (o1, t1) \<Rightarrow>
        (case table_run kh as t1 of None \<Rightarrow> None | Some (os, t2) \<Rightarrow> Some (o1 # os, t2)))"

fun spec_run :: "nat \<Rightarrow> RateLimitConfig \<Rightarrow> f64 \<Rightarrow> 'k table_op list \<Rightarrow> 'k ServerSpec \<Rightarrow> table_out list \<times> 'k ServerSpec" where
  "spec_run cap cfg rate [] s = ([], s)"
| "spec_run cap cfg rate (a # as) s =
     (let (o1, s1) = spec_step cap cfg rate a s; (os, s2) = spec_run cap cfg rate as s1 in (o1 # os, s2))"

lemma spec_map_absent: "map_of cs k = None \<Longrightarrow> spec_map k f cs = cs"
  unfolding spec_map_def by (rule map_idI) (metis map_of_eq_None_iff imageI)

lemma set_record_spec:
  assumes t: "tbl_ok kh t xs" and k: "kmap t key = Some i"
  shows "tbl_ok kh (set_record (unat i) r t) xs \<and>
     spec_of (set_record (unat i) r t) xs = (spec_of t xs)\<lparr> sp_clients := spec_map key (\<lambda>_. r) (view t xs) \<rparr> \<and>
     steady t (set_record (unat i) r t) \<and> aged 0 t (set_record (unat i) r t)"
proof -
  have i: "i \<in> set xs" "sl_key (tb_slots t ! unat i) = key" using tbl_key[OF t] k by auto
  have il: "unat i < length (tb_slots t)" using tbl_range[OF t i(1)] by simp
  note sr = set_record_ok[OF t il, of r]
  have "sl_key (tb_slots t ! unat j) = key \<longleftrightarrow> j = i" if "j \<in> set xs" for j
    using tbl_key[OF t, of key j] k i that by auto
  then have "view (set_record (unat i) r t) xs = spec_map key (\<lambda>_. r) (view t xs)"
    using sr by (auto simp: spec_map_def view_def)
  moreover have "steady t (set_record (unat i) r t)" by (simp add: steady_def set_record_def balanced_def)
  ultimately show ?thesis using sr by (simp add: spec_of_def same_globals_def)
qed

lemma spec_map_lookup:
  assumes "map_of cs k = Some r" "distinct (map fst cs)" shows "spec_map k (\<lambda>_. f r) cs = spec_map k f cs"
  unfolding spec_map_def
proof (rule map_cong[OF refl])
  fix c assume "c \<in> set cs"
  then have "map_of cs (fst c) = Some (snd c)" using assms(2) by simp
  then show "(if fst c = k then (fst c, f r) else c) = (if fst c = k then (fst c, f (snd c)) else c)" using assms(1) by auto
qed

lemma resolve_now:
  "unat i < length (tb_slots t) \<Longrightarrow> resolve \<lparr> ch_slot = i, ch_generation = sl_generation (tb_slots t ! unat i) \<rparr> t = Some (unat i)"
  by (simp add: resolve_def slot_at_def)

lemma steady_refl: "steady t t"
  by (simp add: steady_def)

lemma count_mode_spec:
  "tbl_ok kh t xs \<Longrightarrow> tbl_ok kh (count_mode m t) xs \<and> spec_of (count_mode m t) xs = spec_of t xs \<and>
     steady t (count_mode m t) \<and> aged 0 t (count_mode m t)"
proof -
  have c: "core (count_mode m t) = core t" by (cases m) (simp_all add: count_mode_def core_def)
  have "tb_global_tokens (count_mode m t) = tb_global_tokens t" "tb_global_last (count_mode m t) = tb_global_last t"
    "tb_global_drops_since_kod (count_mode m t) = tb_global_drops_since_kod t" "steady t (count_mode m t)"
    by (cases m; simp add: count_mode_def steady_def balanced_def)+
  then show "tbl_ok kh t xs \<Longrightarrow> ?thesis" by (simp add: core_cong[OF c] spec_of_def)
qed

lemma mode_spec:
  assumes t: "tbl_ok kh t xs"
  shows "\<exists>t'. response_mode kh key origin t =
       Some (case map_of (view t xs) key of None \<Rightarrow> Basic | Some r \<Rightarrow> fst (choose_mode r origin), t') \<and> tbl_ok kh t' xs \<and>
     spec_of t' xs = (spec_of t xs)\<lparr> sp_clients := spec_map key (\<lambda>r. snd (choose_mode r origin)) (view t xs) \<rparr> \<and>
     steady t t' \<and> aged 0 t t'"
proof (cases "kmap t key")
  case None
  then have n: "map_of (view t xs) key = None" by (simp add: view_lookup[OF t])
  then show ?thesis using t None
    by (simp add: response_mode_def tbl_get[OF t] spec_map_absent[OF n] steady_refl aged_content spec_of_def)
next
  case (Some i)
  then have il: "unat i < length (tb_slots t)" using tbl_key[OF t, of key i] tbl_range[OF t, of i] by simp
  define r where "r = sl_record (tb_slots t ! unat i)"
  have l: "map_of (view t xs) key = Some r" by (simp add: view_lookup[OF t] Some r_def)
  define t1 where "t1 = set_record (unat i) (snd (choose_mode r origin)) t"
  note sr = set_record_spec[OF t Some, of "snd (choose_mode r origin)", folded t1_def]
  note cm = count_mode_spec[OF conjunct1[OF sr], of "fst (choose_mode r origin)"]
  have "response_mode kh key origin t = Some (fst (choose_mode r origin), count_mode (fst (choose_mode r origin)) t1)"
    using Some il by (simp add: response_mode_def tbl_get[OF t] handle_now response_mode_at_def resolve_now r_def t1_def split: prod.splits)
  moreover have "aged 0 t (count_mode (fst (choose_mode r origin)) t1)" using aged_trans[of 0 t t1 0] sr cm by fastforce
  moreover have "steady t (count_mode (fst (choose_mode r origin)) t1)" using steady_trans sr cm by blast
  ultimately show ?thesis using sr cm l spec_map_lookup[OF l view_keys[OF t], of "\<lambda>r. snd (choose_mode r origin)"] by simp
qed

lemma note_spec:
  assumes t: "tbl_ok kh t xs"
    and f: "\<And>i. kmap t key = Some i \<Longrightarrow> unat i < length (tb_slots t) \<Longrightarrow> op t = Some (set_record (unat i) (f (sl_record (tb_slots t ! unat i))) t)"
    and n: "kmap t key = None \<Longrightarrow> op t = Some t"
  shows "\<exists>t'. op t = Some t' \<and> tbl_ok kh t' xs \<and>
     spec_of t' xs = (spec_of t xs)\<lparr> sp_clients := spec_map key f (view t xs) \<rparr> \<and> steady t t' \<and> aged 0 t t'"
proof (cases "kmap t key")
  case None
  then have "map_of (view t xs) key = None" by (simp add: view_lookup[OF t])
  then show ?thesis using t n[OF None] by (simp add: spec_map_absent steady_refl aged_content spec_of_def)
next
  case (Some i)
  then have il: "unat i < length (tb_slots t)" using tbl_key[OF t, of key i] tbl_range[OF t, of i] by simp
  have l: "map_of (view t xs) key = Some (sl_record (tb_slots t ! unat i))" by (simp add: view_lookup[OF t] Some)
  show ?thesis using f[OF Some il] set_record_spec[OF t Some] spec_map_lookup[OF l view_keys[OF t], of f] by simp
qed

lemma note_response_spec:
  "tbl_ok kh t xs \<Longrightarrow> \<exists>t'. note_response kh key r x t = Some t' \<and> tbl_ok kh t' xs \<and>
     spec_of t' xs = (spec_of t xs)\<lparr> sp_clients := spec_map key (\<lambda>c. c\<lparr> cl_last_receive := r, cl_last_receive_sent := x \<rparr>) (view t xs) \<rparr> \<and>
     steady t t' \<and> aged 0 t t'"
  by (rule note_spec) (simp_all add: note_response_def tbl_get handle_now note_response_at_def resolve_now)

lemma note_transmit_spec:
  "tbl_ok kh t xs \<Longrightarrow> \<exists>t'. note_transmit kh key tx t = Some t' \<and> tbl_ok kh t' xs \<and>
     spec_of t' xs = (spec_of t xs)\<lparr> sp_clients := spec_map key (\<lambda>c. c\<lparr> cl_last_transmit := tx \<rparr>) (view t xs) \<rparr> \<and>
     steady t t' \<and> aged 0 t t'"
  by (rule note_spec) (simp_all add: note_transmit_def tbl_get slot_at_def)

lemma table_step_spec:
  assumes t: "tbl_ok kh t xs"
  shows "\<exists>o1 t' ys. table_step kh a t = Some (o1, t') \<and> tbl_ok kh t' ys \<and>
     (o1, spec_of t' ys) = spec_step (tb_capacity t) (tb_config t) (tb_refill_per_s t) a (spec_of t xs) \<and> steady t t' \<and> aged 1 t t'"
proof (cases a)
  case (OpAdmit key now)
  obtain d h t' ys where "admit_handle kh key now t = Some ((d, h), t')" "tbl_ok kh t' ys"
    "(d, spec_of t' ys) = spec_admit (tb_capacity t) (tb_config t) (tb_refill_per_s t) key now (spec_of t xs)"
    "aged 1 t t'" "steady t t'"
    using admit_spec[OF t] by blast
  then show ?thesis using OpAdmit
    by (intro exI[of _ "OutDisp d"] exI[of _ t'] exI[of _ ys]) (simp add: admit_def, metis (mono_tags, lifting) case_prod_conv)
next
  case (OpMode key origin)
  then show ?thesis using mode_spec[OF t, of key origin] aged_mono[of 0 t _ 1] by (fastforce simp: spec_of_def)
next
  case (OpResponse key r x)
  then show ?thesis using note_response_spec[OF t, of key r x] aged_mono[of 0 t _ 1] by (fastforce simp: spec_of_def)
next
  case (OpTransmit key tx)
  then show ?thesis using note_transmit_spec[OF t, of key tx] aged_mono[of 0 t _ 1] by (fastforce simp: spec_of_def)
next
  case OpRefused
  have "core (note_refused t) = core t" by (simp add: core_def note_refused_def)
  note c = core_cong[OF this]
  have "steady t (note_refused t)" by (simp add: steady_def note_refused_def balanced_def)
  then show ?thesis using OpRefused t aged_mono[OF c(4), of 1]
    by (intro exI[of _ OutNone] exI[of _ "note_refused t"] exI[of _ xs]) (simp add: c spec_of_def, simp add: note_refused_def)
qed

lemma table_run_spec:
  assumes "tbl_ok kh t xs"
  shows "\<exists>os t' ys. table_run kh ops t = Some (os, t') \<and> tbl_ok kh t' ys \<and>
     (os, spec_of t' ys) = spec_run (tb_capacity t) (tb_config t) (tb_refill_per_s t) ops (spec_of t xs) \<and> steady t t' \<and>
     aged (length ops) t t'"
  using assms
proof (induction ops arbitrary: t xs)
  case Nil
  then show ?case by (auto simp: steady_refl aged_content)
next
  case (Cons a ops)
  obtain o1 t1 ys where 1: "table_step kh a t = Some (o1, t1)" "tbl_ok kh t1 ys"
    "(o1, spec_of t1 ys) = spec_step (tb_capacity t) (tb_config t) (tb_refill_per_s t) a (spec_of t xs)" "steady t t1" "aged 1 t t1"
    using table_step_spec[OF Cons.prems] by blast
  have f: "tb_capacity t1 = tb_capacity t" "tb_config t1 = tb_config t" "tb_refill_per_s t1 = tb_refill_per_s t"
    using 1(4) by (simp_all add: steady_def)
  obtain os t2 zs where 2: "table_run kh ops t1 = Some (os, t2)" "tbl_ok kh t2 zs"
    "(os, spec_of t2 zs) = spec_run (tb_capacity t) (tb_config t) (tb_refill_per_s t) ops (spec_of t1 ys)" "steady t1 t2"
    "aged (length ops) t1 t2"
    using Cons.IH[OF 1(2)] f by auto
  have "aged (length (a # ops)) t t2" using aged_trans[OF 1(5) 2(5)] by simp
  moreover have "spec_run (tb_capacity t) (tb_config t) (tb_refill_per_s t) (a # ops) (spec_of t xs) = (o1 # os, spec_of t2 zs)"
    using 1(3) 2(3) by (simp add: Let_def split: prod.splits) (metis prod.inject)
  ultimately show ?case using 1(1) 2(1,2) steady_trans[OF 1(4) 2(4)] by (auto simp del: spec_run.simps)
qed

subsection \<open>Refinement and safety of every run\<close>

definition spec_init :: "RateLimitConfig \<Rightarrow> 'k ServerSpec" where
  "spec_init cfg = \<lparr> sp_clients = [], sp_tokens = rl_global_burst cfg, sp_last = None, sp_drops = 0 \<rparr>"

lemma table_new_ok:
  assumes "table_new cap cfg seed = Some t"
  shows "tbl_ok kh t [] \<and> spec_of t [] = spec_init cfg \<and> tb_capacity t = max cap 1 \<and> tb_config t = cfg \<and>
     tb_refill_per_s t = FFin (pow2 (- rl_interval_log2 cfg)) \<and> tb_free t = [] \<and> balanced t"
proof -
  obtain ix where ix: "with_capacity (max cap 1) seed = Some ix" using assms by (auto simp: table_new_def)
  note w = with_capacity_ok[OF ix, of kh "[] :: 'a Slot list"]
  have "max cap 1 \<le> 2 ^ 30" using w by (simp add: max_def split: if_splits)
  then show ?thesis using assms ix w
    by (auto simp: table_new_def tbl_ok_def links_def indexed_def covers_def sized_def spec_of_def spec_init_def view_def balanced_def)
qed

lemma tbl_len_le: "tbl_ok kh t xs \<Longrightarrow> length xs \<le> tb_capacity t"
proof -
  assume t: "tbl_ok kh t xs"
  have "unat ` set xs \<subseteq> {..<length (tb_slots t)}" using tbl_range[OF t] by auto
  then have "card (unat ` set xs) \<le> length (tb_slots t)" by (metis card_lessThan card_mono finite_lessThan)
  moreover have "card (unat ` set xs) = length xs"
    using t by (simp add: card_image inj_on_def unat_inj distinct_card tbl_ok_def links_def)
  ultimately show ?thesis using t by (simp add: tbl_ok_def sized_def)
qed

lemma table_get_spec: "tbl_ok kh t xs \<Longrightarrow> table_get kh k t = Some (map_of (view t xs) k)"
proof -
  assume t: "tbl_ok kh t xs"
  show ?thesis
  proof (cases "kmap t k")
    case (Some i)
    then have "unat i < length (tb_slots t)" using tbl_key[OF t, of k i] tbl_range[OF t, of i] by simp
    then show ?thesis using Some by (simp add: table_get_def tbl_get[OF t] view_lookup[OF t] slot_at_def)
  qed (simp add: table_get_def tbl_get[OF t] view_lookup[OF t])
qed

text \<open>C11: the client table implements the abstract server.  From a new table, every sequence
of admissions and bookkeeping calls returns (no index panic, no endless probe), gives the same answers as the
abstract machine on a plain list of clients, and is afterwards indistinguishable from it: the most-recent
report is the list's prefix, a lookup is the list's, and the reported length is the list's.\<close>

theorem table_refines_spec:
  assumes "table_new cap cfg seed = Some t"
  shows "\<exists>os t' s. table_run kh ops t = Some (os, t') \<and>
     spec_run (max cap 1) cfg (FFin (pow2 (- rl_interval_log2 cfg))) ops (spec_init cfg) = (os, s) \<and>
     (\<forall>n. most_recent n t' = Some (take n (sp_clients s))) \<and> (\<forall>k. table_get kh k t' = Some (map_of (sp_clients s) k)) \<and>
     table_len t' = length (sp_clients s)"
proof -
  note n = table_new_ok[OF assms, of kh]
  obtain os t' ys where r: "table_run kh ops t = Some (os, t')" "tbl_ok kh t' ys"
    "(os, spec_of t' ys) = spec_run (max cap 1) cfg (FFin (pow2 (- rl_interval_log2 cfg))) ops (spec_init cfg)"
    using table_run_spec[of kh t "[]" ops] n by auto
  have "sp_clients (spec_of t' ys) = view t' ys" by (simp add: spec_of_def)
  moreover have "length (view t' ys) = length ys" by (simp add: view_def)
  ultimately show ?thesis using r most_recent_spec[OF r(2)] table_get_spec[OF r(2)] tbl_len[OF r(2)]
    by (intro exI[of _ os] exI[of _ t'] exI[of _ "spec_of t' ys"]) simp
qed

definition key_bytes :: "u32 \<Rightarrow> HashWrite list" where
  "key_bytes k = [WU32 k]"

lemma demo_table: "\<exists>t. (table_new 2 rate_limit_default 7 :: u32 ClientTable option) = Some t"
  by (simp add: table_new_def with_capacity_def next_pow2_from.simps)

lemma table_refines_spec_witness:
  "\<exists>t os t' s. table_new 2 rate_limit_default 7 = Some t \<and>
     table_run key_bytes [OpAdmit (5 :: u32) (FFin 0), OpMode 5 ts_ZERO] t = Some (os, t') \<and>
     spec_run 2 rate_limit_default (FFin (pow2 (-3))) [OpAdmit (5 :: u32) (FFin 0), OpMode 5 ts_ZERO] (spec_init rate_limit_default) = (os, s) \<and>
     table_len t' = length (sp_clients s)"
proof -
  obtain t :: "u32 ClientTable" where t: "table_new 2 rate_limit_default 7 = Some t" using demo_table by blast
  have c: "max 2 1 = (2 :: nat)" "rl_interval_log2 rate_limit_default = 3" by (simp_all add: rate_limit_default_def)
  show ?thesis using table_refines_spec[OF t, of key_bytes "[OpAdmit (5 :: u32) (FFin 0), OpMode 5 ts_ZERO]"] t unfolding c by blast
qed

text \<open>Whatever the sequence of requests, the table never holds more clients than its capacity,
never reports a client twice, and its counters balance: every request counted is either a response or a
rate-limit drop (as \<open>u64\<close> words, so also across their wrap-around).\<close>

theorem table_run_safe:
  assumes "table_new cap cfg seed = Some t"
  shows "\<exists>os t' cs. table_run kh ops t = Some (os, t') \<and> table_len t' \<le> max cap 1 \<and>
     most_recent (max cap 1) t' = Some cs \<and> distinct (map fst cs) \<and> length cs = table_len t' \<and>
     ss_requests (tb_stats t') = ss_responses (tb_stats t') + ss_dropped_rate_limit (tb_stats t')"
proof -
  note n = table_new_ok[OF assms, of kh]
  obtain os t' ys where r: "table_run kh ops t = Some (os, t')" "tbl_ok kh t' ys" "steady t t'"
    using table_run_spec[of kh t "[]" ops] n by blast
  have "length ys \<le> max cap 1" using tbl_len_le[OF r(2)] r(3) n by (simp add: steady_def)
  moreover from this have "most_recent (max cap 1) t' = Some (view t' ys)"
    by (simp add: most_recent_spec[OF r(2)] view_def)
  moreover have "length (view t' ys) = length ys" by (simp add: view_def)
  ultimately show ?thesis using r view_keys[OF r(2)] tbl_len[OF r(2)] n by (auto simp: steady_def balanced_def)
qed

lemma table_run_safe_witness:
  "\<exists>t os t' cs. table_new 2 rate_limit_default 7 = Some t \<and>
     table_run key_bytes [OpAdmit (1 :: u32) (FFin 0), OpAdmit 2 FNaN, OpAdmit 3 (FFin 1), OpTransmit 3 ts_ZERO] t = Some (os, t') \<and>
     table_len t' \<le> max 2 1 \<and> most_recent (max 2 1) t' = Some cs \<and> distinct (map fst cs)"
proof -
  obtain t :: "u32 ClientTable" where t: "table_new 2 rate_limit_default 7 = Some t" using demo_table by blast
  show ?thesis
    using table_run_safe[OF t, of key_bytes "[OpAdmit (1 :: u32) (FFin 0), OpAdmit 2 FNaN, OpAdmit 3 (FFin 1), OpTransmit 3 ts_ZERO]"] t by blast
qed

subsection \<open>The global ceiling\<close>

definition answered :: "table_out list \<Rightarrow> nat" where
  "answered os = length (filter (\<lambda>x. x = OutDisp Respond) os)"

fun at_time :: "f64 \<Rightarrow> 'k table_op \<Rightarrow> bool" where
  "at_time now (OpAdmit key t) = (t = now)"
| "at_time now _ = True"

definition funded :: "f64 \<Rightarrow> int \<Rightarrow> 'k ServerSpec \<Rightarrow> bool" where
  "funded now k s \<longleftrightarrow> 0 \<le> k \<and> k < 2 ^ 53 \<and> fle (sp_tokens s) (FFin (of_int k)) \<and>
     (sp_last s = None \<or> sp_last s = Some now)"

lemma rnd_int: "\<bar>k\<bar> < 2 ^ 53 \<Longrightarrow> rnd False (of_int k) = FFin (of_int k)"
proof -
  assume k: "\<bar>k\<bar> < 2 ^ 53"
  have "of_int \<bar>k\<bar> < (of_int (2 ^ 53) :: rat)" using k by (simp only: of_int_less_iff)
  then have "\<bar>of_int k\<bar> < pow2 53" by (simp add: pow2_def)
  also have "pow2 53 < pow2 1024" by simp
  finally show ?thesis using rnd_exact[OF rndr_int[OF k], of False] by simp
qed

lemma still_elapsed: "fmax (fsub now now) (FFin 0) = FFin 0"
  by (cases now) (simp_all add: fsub_def rnd_0 fmax_def flt_def)

lemma funded_refill:
  assumes "funded now k s" "is_finite (rl_global_rate_hz cfg)" "flt (FFin 0) (rl_global_rate_hz cfg)"
  shows "funded now k (spec_refill cfg now s)"
proof -
  have l: "(case sp_last s of Some l \<Rightarrow> l | None \<Rightarrow> now) = now" using assms(1) by (auto simp: funded_def)
  have z: "fmul (FFin 0) (rl_global_rate_hz cfg) = FFin 0"
    using assms(2,3) by (cases "rl_global_rate_hz cfg") (auto simp: flt_def rnd_0)
  have "fle (fadd (FFin 0) (sp_tokens s)) (fadd (FFin 0) (FFin (of_int k)))"
    using assms(1) by (intro fadd_mono) (simp_all add: funded_def)
  moreover have "fadd (FFin 0) (FFin (of_int k)) = FFin (of_int k)" using assms(1) by (simp add: funded_def rnd_int)
  ultimately have a: "fle (fadd (sp_tokens s) (FFin 0)) (FFin (of_int k))" by (simp add: fadd_commute)
  have "fle (fmin (fadd (sp_tokens s) (FFin 0)) (rl_global_burst cfg)) (fadd (sp_tokens s) (FFin 0))"
    using a by (intro fmin_le_left) (auto simp: fle_def)
  then have "fle (fmin (fadd (sp_tokens s) (FFin 0)) (rl_global_burst cfg)) (FFin (of_int k))" using a by (rule fle_trans)
  then show ?thesis using assms(1,3) by (simp add: spec_refill_def l still_elapsed z funded_def)
qed

lemma funded_step:
  assumes f: "funded now k s" and r: "is_finite (rl_global_rate_hz cfg)" "flt (FFin 0) (rl_global_rate_hz cfg)" and a: "at_time now a"
  shows "\<exists>k'. funded now k' (snd (spec_step cap cfg rate a s)) \<and>
     k' + int (answered [fst (spec_step cap cfg rate a s)]) \<le> k"
proof (cases a)
  case (OpAdmit key t)
  define s1 where "s1 = spec_refill cfg now s"
  have f1: "funded now k s1" using funded_refill[OF f r] by (simp add: s1_def)
  have t: "t = now" using a OpAdmit by simp
  show ?thesis
  proof (cases "flt (sp_tokens s1) (FFin 1)")
    case True
    then have "snd (spec_admit cap cfg rate key now s) = snd (spec_deny cfg s1)" "fst (spec_admit cap cfg rate key now s) = fst (spec_deny cfg s1)"
      using r by (simp_all add: spec_admit_def s1_def)
    moreover have "funded now k (snd (spec_deny cfg s1))" "fst (spec_deny cfg s1) \<noteq> Respond"
      using f1 by (simp_all add: spec_deny_def funded_def)
    ultimately show ?thesis using OpAdmit t by (intro exI[of _ k]) (simp add: answered_def split_beta)
  next
    case False
    then have adm: "spec_admit cap cfg rate key now s = spec_serve cap cfg rate key now s1" by (simp add: spec_admit_def s1_def Let_def)
    obtain d r0 where d: "charge_record cfg rate now (snd (hd (spec_touch cap (rl_burst cfg) key now (sp_clients s1)))) = (d, r0)"
      by fastforce
    have k1: "fle (sp_tokens s1) (FFin (of_int k))" "0 \<le> k" "k < 2 ^ 53" using f1 by (simp_all add: funded_def)
    have "fle (FFin 1) (sp_tokens s1)" using False k1(1) by (cases "sp_tokens s1") (auto simp: fle_def flt_def)
    then have "fle (FFin 1) (FFin (of_int k))" using k1(1) by (rule fle_trans)
    then have "(1 :: rat) \<le> of_int k" by (simp add: fle_def)
    then have "1 \<le> k" by linarith
    moreover have "fle (fsub (sp_tokens s1) (FFin 1)) (fsub (FFin (of_int k)) (FFin 1))" using k1(1) by (intro fsub_mono) simp_all
    moreover have "fsub (FFin (of_int k)) (FFin 1) = FFin (of_int (k - 1))" using rnd_int[of "k - 1"] k1 by (simp add: fsub_def)
    ultimately have f2: "funded now (k - 1) (s1\<lparr> sp_clients := cs, sp_tokens := fsub (sp_tokens s1) (FFin 1) \<rparr>)" for cs
      using f1 by (simp add: funded_def)
    show ?thesis
    proof (cases "d = Respond")
      case True
      then show ?thesis using OpAdmit t adm d f2 by (intro exI[of _ "k - 1"]) (simp add: spec_serve_def Let_def answered_def)
    next
      case nr: False
      then show ?thesis using OpAdmit t adm d f1 by (intro exI[of _ k]) (simp add: spec_serve_def Let_def answered_def funded_def)
    qed
  qed
qed (use f in \<open>auto simp: answered_def funded_def\<close>)

lemma answered_Cons: "answered (x # xs) = answered [x] + answered xs"
  by (simp add: answered_def)

lemma funded_run:
  assumes "funded now k s" "is_finite (rl_global_rate_hz cfg)" "flt (FFin 0) (rl_global_rate_hz cfg)" "list_all (at_time now) ops"
  shows "int (answered (fst (spec_run cap cfg rate ops s))) \<le> k"
  using assms
proof (induction ops arbitrary: k s)
  case Nil
  then show ?case by (simp add: answered_def funded_def)
next
  case (Cons a ops)
  obtain k' where k': "funded now k' (snd (spec_step cap cfg rate a s))"
    "k' + int (answered [fst (spec_step cap cfg rate a s)]) \<le> k"
    using funded_step[OF Cons.prems(1-3), of a cap rate] Cons.prems(4) by auto
  have "int (answered (fst (spec_run cap cfg rate ops (snd (spec_step cap cfg rate a s))))) \<le> k'"
    using Cons.IH[OF k'(1)] Cons.prems by simp
  moreover have "answered (fst (spec_run cap cfg rate (a # ops) s)) =
      answered [fst (spec_step cap cfg rate a s)] + answered (fst (spec_run cap cfg rate ops (snd (spec_step cap cfg rate a s))))"
    unfolding answered_Cons[symmetric] by (simp add: split_beta Let_def)
  ultimately show ?case using k'(2) by simp
qed

text \<open>C13: the global bucket bounds output whatever the address space does.  With the global
limiter on, at one instant (any \<open>now\<close>, a NaN or infinite clock included) no sequence of requests, from
however many addresses and however they churn through the table, is answered more often than the global
burst allows.\<close>

theorem global_ceiling:
  assumes "table_new cap cfg seed = Some t" and "flt (FFin 0) (rl_global_rate_hz cfg)" and "is_finite (rl_global_rate_hz cfg)"
    and "fle (rl_global_burst cfg) (FFin (of_int k))" and "0 \<le> k" and "k < 2 ^ 53" and "list_all (at_time now) ops"
  shows "\<exists>os t'. table_run kh ops t = Some (os, t') \<and> int (answered os) \<le> k"
proof -
  note n = table_new_ok[OF assms(1), of kh]
  obtain os t' ys where r: "table_run kh ops t = Some (os, t')"
    "(os, spec_of t' ys) = spec_run (max cap 1) cfg (FFin (pow2 (- rl_interval_log2 cfg))) ops (spec_init cfg)"
    using table_run_spec[of kh t "[]" ops] n by auto
  have "funded now k (spec_init cfg)" using assms by (simp add: funded_def spec_init_def)
  from funded_run[OF this assms(3,2,7), of "max cap 1" "FFin (pow2 (- rl_interval_log2 cfg))"] r show ?thesis by (metis fst_conv)
qed

lemma global_ceiling_witness:
  "\<exists>t os t'. table_new 2 (rate_limit_default\<lparr> rl_global_burst := FFin 1 \<rparr>) 7 = Some t \<and>
     table_run key_bytes [OpAdmit (1 :: u32) FNaN, OpAdmit 2 FNaN, OpAdmit 3 FNaN] t = Some (os, t') \<and> int (answered os) \<le> 1"
proof -
  have "\<exists>t. (table_new 2 (rate_limit_default\<lparr> rl_global_burst := FFin 1 \<rparr>) 7 :: u32 ClientTable option) = Some t"
    by (simp add: table_new_def with_capacity_def next_pow2_from.simps)
  then obtain t :: "u32 ClientTable" where t: "table_new 2 (rate_limit_default\<lparr> rl_global_burst := FFin 1 \<rparr>) 7 = Some t" by blast
  have "\<exists>os t'. table_run key_bytes [OpAdmit (1 :: u32) FNaN, OpAdmit 2 FNaN, OpAdmit 3 FNaN] t = Some (os, t') \<and> int (answered os) \<le> 1"
    by (rule global_ceiling[OF t, where now = FNaN]) (simp_all add: rate_limit_default_def flt_def)
  then show ?thesis using t by blast
qed

subsection \<open>The Kiss-o'-Death leak\<close>

definition kods :: "table_out list \<Rightarrow> nat" where
  "kods os = length (filter (\<lambda>x. x = OutDisp KissOfDeath) os)"

definition denied :: "table_out list \<Rightarrow> nat" where
  "denied os = length (filter (\<lambda>x. x = OutDisp KissOfDeath \<or> x = OutDisp Drop) os)"

text \<open>Drops not yet answered by a Kiss-o'-Death, over all clients and the global limiter.\<close>

definition pending :: "('k \<times> ClientRecord) list \<Rightarrow> nat" where
  "pending cs = sum_list (map (\<lambda>c. unat (cl_drops_since_kod (snd c))) cs)"

definition owed :: "'k ServerSpec \<Rightarrow> nat" where
  "owed s = unat (sp_drops s) + pending (sp_clients s)"

definition leak_ok :: "nat \<Rightarrow> 'k ServerSpec \<Rightarrow> bool" where
  "leak_ok p s \<longleftrightarrow> unat (sp_drops s) < p \<and> (\<forall>c \<in> set (sp_clients s). unat (cl_drops_since_kod (snd c)) < p)"

definition period :: "RateLimitConfig \<Rightarrow> nat" where
  "period cfg = 2 ^ min (unat (rl_leak_shift cfg)) 16"

lemma unat_leak_period: "unat (leak_period cfg) = period cfg"
proof -
  let ?k = "min (unat (rl_leak_shift cfg)) 16"
  have "(2 :: nat) ^ ?k < 2 ^ 32" by (rule power_strict_increasing) auto
  then have "unat (of_nat (2 ^ ?k) :: u32) = 2 ^ ?k" unfolding unat_of_nat by simp
  then have "unat (push_bit ?k (1 :: u32)) = 2 ^ ?k" by (simp add: push_bit_eq_mult)
  then show ?thesis by (simp add: leak_period_def period_def)
qed

lemma period_bounds: "1 \<le> period cfg" "period cfg \<le> 2 ^ 16"
  unfolding period_def by simp (rule power_increasing, simp_all)

lemma leak_bump:
  assumes "unat (d :: u32) < period cfg"
  shows "leak_period cfg \<le> d + 1 \<longleftrightarrow> Suc (unat d) = period cfg" "unat (d + 1) = Suc (unat d)"
proof -
  have "unat d < 2 ^ 16" using assms period_bounds(2)[of cfg] by linarith
  then show u: "unat (d + 1) = Suc (unat d)" using unat_inc[of d] by simp
  show "leak_period cfg \<le> d + 1 \<longleftrightarrow> Suc (unat d) = period cfg"
    using assms by (simp add: word_le_nat_alt unat_leak_period u) linarith
qed

lemma pending_touch: "pending (spec_touch cap b key now cs) \<le> pending cs"
proof (cases "map_of cs key")
  case None
  have "pending (butlast cs) \<le> pending cs" by (cases cs rule: rev_cases) (simp_all add: pending_def)
  then show ?thesis using None by (simp add: spec_touch_def client_record_new_def) (simp add: pending_def)
next
  case (Some r)
  have "unat (cl_drops_since_kod r) + pending (filter (\<lambda>c. fst c \<noteq> key) cs) \<le> pending cs"
    using Some
  proof (induction cs)
    case (Cons c cs)
    have "pending (filter (\<lambda>c. fst c \<noteq> key) cs) \<le> pending cs" by (induction cs) (auto simp: pending_def)
    then show ?case using Cons by (auto simp: pending_def split: if_splits)
  qed simp
  then show ?thesis using Some by (simp add: spec_touch_def) (simp add: pending_def)
qed

lemma touch_members: "c \<in> set (spec_touch cap b key now cs) \<Longrightarrow> c \<in> set cs \<or> cl_drops_since_kod (snd c) = 0"
  by (auto simp: spec_touch_def client_record_new_def dest: map_of_SomeD in_set_butlastD split: option.splits if_splits)

lemma charge_leak:
  assumes "charge_record cfg rate now r = (d, r')" "unat (cl_drops_since_kod r) < period cfg"
  shows "unat (cl_drops_since_kod r') < period cfg \<and>
     unat (cl_drops_since_kod r') + period cfg * (if d = KissOfDeath then 1 else 0) =
       unat (cl_drops_since_kod r) + (if d = Respond then 0 else 1)"
  using assms leak_bump[OF assms(2)] period_bounds(1)[of cfg]
  by (auto simp: charge_record_def refill_record_def Let_def split: if_splits)

lemma spec_map_pending:
  "(\<And>r. cl_drops_since_kod (f r) = cl_drops_since_kod r) \<Longrightarrow> pending (spec_map k f cs) = pending cs \<and>
    ((\<forall>c \<in> set (spec_map k f cs). unat (cl_drops_since_kod (snd c)) < p) \<longleftrightarrow> (\<forall>c \<in> set cs. unat (cl_drops_since_kod (snd c)) < p))"
proof -
  assume f: "\<And>r. cl_drops_since_kod (f r) = cl_drops_since_kod r"
  have g: "cl_drops_since_kod (snd (if fst c = k then (fst c, f (snd c)) else c)) = cl_drops_since_kod (snd c)" for c :: "'a \<times> ClientRecord"
    by (simp add: f)
  show ?thesis unfolding spec_map_def pending_def map_map comp_def g set_map ball_simps by simp
qed

lemma spec_refill_owed: "owed (spec_refill cfg now s) = owed s" "leak_ok p (spec_refill cfg now s) = leak_ok p s"
  "sp_clients (spec_refill cfg now s) = sp_clients s" "sp_drops (spec_refill cfg now s) = sp_drops s"
  by (simp_all add: spec_refill_def owed_def leak_ok_def)

lemma leak_step:
  assumes l: "leak_ok (period cfg) s"
  shows "leak_ok (period cfg) (snd (spec_step cap cfg rate a s)) \<and>
     owed (snd (spec_step cap cfg rate a s)) + period cfg * kods [fst (spec_step cap cfg rate a s)]
       \<le> owed s + denied [fst (spec_step cap cfg rate a s)]"
proof (cases a)
  case (OpAdmit key now)
  define s1 where "s1 = spec_refill cfg now s"
  have s1: "owed s1 = owed s" "leak_ok (period cfg) s1" using l by (simp_all add: s1_def spec_refill_owed)
  show ?thesis
  proof (cases "flt (FFin 0) (rl_global_rate_hz cfg) \<and> flt (sp_tokens s1) (FFin 1)")
    case True
    then have adm: "spec_admit cap cfg rate key now s = spec_deny cfg s1" by (simp add: spec_admit_def s1_def Let_def)
    have d: "unat (sp_drops s1) < period cfg" using s1(2) by (simp add: leak_ok_def)
    show ?thesis using OpAdmit adm s1 leak_bump[OF d] d period_bounds(1)[of cfg]
      by (auto simp: spec_deny_def leak_ok_def owed_def kods_def denied_def)
  next
    case False
    then have adm: "spec_admit cap cfg rate key now s = spec_serve cap cfg rate key now s1" by (auto simp: spec_admit_def s1_def Let_def)
    obtain r0 cs' where cs: "spec_touch cap (rl_burst cfg) key now (sp_clients s1) = (key, r0) # cs'" using spec_touch_cons by metis
    obtain d r where d: "charge_record cfg rate now r0 = (d, r)" by fastforce
    have mem: "unat (cl_drops_since_kod (snd c)) < period cfg" if "c \<in> set ((key, r0) # cs')" for c
      using touch_members[of c cap "rl_burst cfg" key now "sp_clients s1"] that cs s1(2) period_bounds(1)[of cfg] by (auto simp: leak_ok_def)
    have r: "unat (cl_drops_since_kod r) < period cfg"
      "unat (cl_drops_since_kod r) + period cfg * (if d = KissOfDeath then 1 else 0) =
       unat (cl_drops_since_kod r0) + (if d = Respond then 0 else 1)"
      using charge_leak[OF d] mem[of "(key, r0)"] by simp_all
    have "unat (cl_drops_since_kod r0) + pending cs' \<le> pending (sp_clients s1)"
      using pending_touch[of cap "rl_burst cfg" key now "sp_clients s1"] cs by (simp add: pending_def)
    then show ?thesis using OpAdmit adm cs d r s1 mem
      by (cases d) (auto simp: spec_serve_def Let_def leak_ok_def owed_def kods_def denied_def pending_def)
  qed
next
  case (OpMode key origin)
  have "cl_drops_since_kod (snd (choose_mode r origin)) = cl_drops_since_kod r" for r by (simp add: choose_mode_def Let_def)
  then show ?thesis using OpMode l spec_map_pending[of "\<lambda>r. snd (choose_mode r origin)" key "sp_clients s" "period cfg"]
    by (simp add: leak_ok_def owed_def kods_def denied_def)
qed (use l in \<open>simp_all add: leak_ok_def owed_def kods_def denied_def spec_map_pending\<close>)

lemma counts_Cons: "kods (x # xs) = kods [x] + kods xs" "denied (x # xs) = denied [x] + denied xs"
  by (simp_all add: kods_def denied_def)

lemma leak_run:
  assumes "leak_ok (period cfg) s"
  shows "owed (snd (spec_run cap cfg rate ops s)) + period cfg * kods (fst (spec_run cap cfg rate ops s))
      \<le> owed s + denied (fst (spec_run cap cfg rate ops s))"
  using assms
proof (induction ops arbitrary: s)
  case Nil
  then show ?case by (simp add: kods_def denied_def)
next
  case (Cons a ops)
  define o1 s1 where "o1 = fst (spec_step cap cfg rate a s)" and "s1 = snd (spec_step cap cfg rate a s)"
  have l: "leak_ok (period cfg) s1" "owed s1 + period cfg * kods [o1] \<le> owed s + denied [o1]"
    using leak_step[OF Cons.prems] by (simp_all add: o1_def s1_def)
  have e: "spec_run cap cfg rate (a # ops) s = (o1 # fst (spec_run cap cfg rate ops s1), snd (spec_run cap cfg rate ops s1))"
    by (simp add: o1_def s1_def split_beta Let_def)
  define os where "os = fst (spec_run cap cfg rate ops s1)"
  have c: "kods (o1 # os) = kods [o1] + kods os" "denied (o1 # os) = denied [o1] + denied os" by (rule counts_Cons)+
  show ?case unfolding e fst_conv snd_conv os_def[symmetric] c add_mult_distrib2 using Cons.IH[OF l(1)] l(2) unfolding os_def[symmetric] by linarith
qed

text \<open>The limiter cannot be turned into the amplifier it exists to prevent.  Over any run of
requests, at most one refused request in \<open>2 ^ leak_shift\<close> (the shift capped at 16) is answered with a
Kiss-o'-Death, counting the per-client and the global limiter together and whatever churns through the table.\<close>

theorem kod_leak_bounded:
  assumes "table_new cap cfg seed = Some t"
  shows "\<exists>os t'. table_run kh ops t = Some (os, t') \<and> 2 ^ min (unat (rl_leak_shift cfg)) 16 * kods os \<le> denied os"
proof -
  note n = table_new_ok[OF assms, of kh]
  obtain os t' ys where r: "table_run kh ops t = Some (os, t')"
    "(os, spec_of t' ys) = spec_run (max cap 1) cfg (FFin (pow2 (- rl_interval_log2 cfg))) ops (spec_init cfg)"
    using table_run_spec[of kh t "[]" ops] n by auto
  have i: "leak_ok (period cfg) (spec_init cfg)" "owed (spec_init cfg) = 0"
    using period_bounds(1)[of cfg] by (simp_all add: leak_ok_def owed_def spec_init_def pending_def)
  have os: "os = fst (spec_run (max cap 1) cfg (FFin (pow2 (- rl_interval_log2 cfg))) ops (spec_init cfg))"
    using arg_cong[OF r(2), of fst] by simp
  have "period cfg * kods os \<le> denied os"
    using leak_run[OF i(1), of "max cap 1" "FFin (pow2 (- rl_interval_log2 cfg))" ops] unfolding os i(2) by linarith
  then show ?thesis using r(1) by (auto simp: period_def)
qed

lemma kod_leak_bounded_witness:
  "\<exists>t os t'. table_new 2 rate_limit_default 7 = Some t \<and>
     table_run key_bytes (replicate 20 (OpAdmit (1 :: u32) (FFin 0))) t = Some (os, t') \<and> 2 ^ min 2 16 * kods os \<le> denied os"
proof -
  obtain t :: "u32 ClientTable" where t: "table_new 2 rate_limit_default 7 = Some t" using demo_table by blast
  have "unat (rl_leak_shift rate_limit_default) = 2" by (simp add: rate_limit_default_def)
  then show ?thesis using kod_leak_bounded[OF t, of key_bytes "replicate 20 (OpAdmit 1 (FFin 0))"] t by auto
qed

subsection \<open>Handles\<close>

lemma aged_handle:
  assumes "aged n t t'" "n < 2 ^ 32" "unat i < length (tb_slots t)"
    "resolve \<lparr> ch_slot = i, ch_generation = sl_generation (tb_slots t ! unat i) \<rparr> t' = Some j"
  shows "j = unat i \<and> sl_key (tb_slots t' ! unat i) = sl_key (tb_slots t ! unat i)"
proof -
  have j: "j = unat i" "sl_generation (tb_slots t' ! unat i) = sl_generation (tb_slots t ! unat i)"
    using assms(4) by (auto simp: resolve_def slot_at_def split: if_splits bind_splits)
  obtain k where k: "k \<le> n" "sl_generation (tb_slots t' ! unat i) = sl_generation (tb_slots t ! unat i) + of_nat k"
    "k = 0 \<longrightarrow> sl_key (tb_slots t' ! unat i) = sl_key (tb_slots t ! unat i)" using assms(1,3) by (auto simp: aged_def)
  then have "(of_nat k :: u32) = 0" using j(2) by simp
  then have "2 ^ 32 dvd k" by (simp add: word_of_nat_eq_0_iff)
  then have "k = 0" using k(1) assms(2) by (meson dvd_imp_le le_less_trans linorder_not_less not_gr_zero)
  then show ?thesis using j k by simp
qed

lemma run_free:
  assumes "table_new cap cfg seed = Some t0" "table_run kh ops t0 = Some (os, t)"
  shows "\<exists>xs. tbl_ok kh t xs \<and> tb_free t = []"
proof -
  note n = table_new_ok[OF assms(1), of kh]
  obtain os' t' ys where r: "table_run kh ops t0 = Some (os', t')" "tbl_ok kh t' ys" "steady t0 t'"
    using table_run_spec[of kh t0 "[]" ops] n by blast
  then show ?thesis using assms(2) n by (auto simp: steady_def)
qed

lemma live_slot:
  assumes "tbl_ok kh t xs" "tb_free t = []" "unat i < length (tb_slots t)"
  shows "kmap t (sl_key (tb_slots t ! unat i)) = Some i"
proof -
  have "unat ` set xs = {..<length (tb_slots t)}" using assms(1,2) by (simp add: tbl_ok_def covers_def)
  then obtain j where "j \<in> set xs" "unat j = unat i" using assms(3) by (metis imageE lessThan_iff)
  then show ?thesis using tbl_key[OF assms(1)] by (simp add: unat_inj)
qed

lemma handle_is_its_client:
  assumes t2: "tbl_ok kh t2 ys" "tb_free t2 = []" and t3: "tbl_ok kh t3 zs" "tb_free t3 = []"
    and ag: "aged n t2 t3" "n < 2 ^ 32"
    and h: "h = INVALID \<or> (\<exists>i \<in> set ys. h = \<lparr> ch_slot = i, ch_generation = sl_generation (tb_slots t2 ! unat i) \<rparr> \<and>
      sl_key (tb_slots t2 ! unat i) = key)"
  shows "resolve h t3 = None \<or> (\<exists>i. resolve h t3 = Some (unat i) \<and> kmap t3 key = Some i \<and> handle_for i t3 = Some h)"
proof (cases "resolve h t3")
  case (Some j)
  have len: "length (tb_slots t3) \<le> 2 ^ 30" using t3(1) unfolding tbl_ok_def sized_def by linarith
  have "h \<noteq> INVALID"
    using Some len by (auto simp: resolve_def slot_at_def INVALID_def NIL_def split: if_splits bind_splits)
  then obtain i where i: "i \<in> set ys" "h = \<lparr> ch_slot = i, ch_generation = sl_generation (tb_slots t2 ! unat i) \<rparr>"
    "sl_key (tb_slots t2 ! unat i) = key" using h by blast
  have il: "unat i < length (tb_slots t2)" using tbl_range[OF t2(1) i(1)] by simp
  have k: "j = unat i" "sl_key (tb_slots t3 ! unat i) = key"
    using aged_handle[OF ag il Some[unfolded i(2)]] i(3) by simp_all
  have g: "unat i < length (tb_slots t3)" "sl_generation (tb_slots t3 ! unat i) = ch_generation h"
    using Some i(2) by (auto simp: resolve_def slot_at_def split: if_splits bind_splits)
  have "kmap t3 key = Some i" using live_slot[OF t3 g(1)] k(2) by simp
  then show ?thesis using Some k(1) g i(2) by (auto simp: handle_now)
qed simp

text \<open>C14: a handle outlives its client safely.  Take a handle from an admission in a table
reached from a new one, then run any fewer than \<open>2 ^ 32\<close> further operations: the handle either
still names the client it was issued for, so that each by-handle call is exactly the by-key call, or it
resolves to nothing and the by-handle calls change nothing.  It never reaches the slot's next occupant.\<close>

theorem stale_handle_is_inert:
  assumes "table_new cap cfg seed = Some t0" and "table_run kh ops1 t0 = Some (os1, t1)"
    and "admit_handle kh key now t1 = Some ((d, h), t2)" and "table_run kh ops2 t2 = Some (os2, t3)" and "length ops2 < 2 ^ 32"
  shows "(note_transmit_at h tx t3 = t3 \<and> note_response_at h rx sent t3 = t3 \<and> response_mode_at h origin t3 = (Basic, t3)) \<or>
     (note_transmit kh key tx t3 = Some (note_transmit_at h tx t3) \<and>
      note_response kh key rx sent t3 = Some (note_response_at h rx sent t3) \<and>
      response_mode kh key origin t3 = Some (response_mode_at h origin t3))"
proof -
  obtain xs where 1: "tbl_ok kh t1 xs" "tb_free t1 = []" using run_free[OF assms(1,2)] by blast
  obtain ys where 2: "tbl_ok kh t2 ys" "steady t1 t2"
    "h = INVALID \<or> (\<exists>i \<in> set ys. h = \<lparr> ch_slot = i, ch_generation = sl_generation (tb_slots t2 ! unat i) \<rparr> \<and> sl_key (tb_slots t2 ! unat i) = key)"
    using admit_spec[OF 1(1), of key now] assms(3) by auto
  have f2: "tb_free t2 = []" using 1(2) 2(2) by (simp add: steady_def)
  obtain zs where 3: "tbl_ok kh t3 zs" "steady t2 t3" "aged (length ops2) t2 t3"
    using table_run_spec[OF 2(1), of ops2] assms(4) by auto
  have f3: "tb_free t3 = []" using f2 3(2) by (simp add: steady_def)
  consider "resolve h t3 = None" | i where "resolve h t3 = Some (unat i)" "kmap t3 key = Some i" "handle_for i t3 = Some h"
    using handle_is_its_client[OF 2(1) f2 3(1) f3 3(3) assms(5) 2(3)] by auto
  then show ?thesis
  proof cases
    case 1
    then show ?thesis by (simp add: note_transmit_at_def note_response_at_def response_mode_at_def)
  next
    case (2 i)
    have "slot_at i (tb_slots t3) = Some (tb_slots t3 ! unat i)"
      using 2(2) tbl_key[OF 3(1), of key i] tbl_range[OF 3(1), of i] by (simp add: slot_at_def)
    then show ?thesis using 2
      by (simp add: note_transmit_at_def note_response_at_def note_transmit_def note_response_def response_mode_def tbl_get[OF 3(1)])
  qed
qed

lemma stale_handle_is_inert_witness:
  "\<exists>t0 d h t2 os2 t3. table_new 2 rate_limit_default 7 = Some t0 \<and> admit_handle key_bytes (5 :: u32) (FFin 0) t0 = Some ((d, h), t2) \<and>
     table_run key_bytes [OpAdmit 6 (FFin 0), OpAdmit 7 (FFin 1)] t2 = Some (os2, t3) \<and>
     (note_transmit_at h ts_ZERO t3 = t3 \<or> note_transmit key_bytes 5 ts_ZERO t3 = Some (note_transmit_at h ts_ZERO t3))"
proof -
  obtain t0 :: "u32 ClientTable" where t0: "table_new 2 rate_limit_default 7 = Some t0" using demo_table by blast
  have ok: "tbl_ok key_bytes t0 []" using table_new_ok[OF t0] by blast
  obtain d h t2 ys where a: "admit_handle key_bytes (5 :: u32) (FFin 0) t0 = Some ((d, h), t2)" "tbl_ok key_bytes t2 ys"
    using admit_spec[OF ok, of 5 "FFin 0"] by blast
  obtain os2 t3 where r: "table_run key_bytes [OpAdmit 6 (FFin 0), OpAdmit 7 (FFin 1)] t2 = Some (os2, t3)"
    using table_run_spec[OF a(2)] by blast
  have e: "table_run key_bytes [] t0 = Some ([], t0)" by simp
  show ?thesis using stale_handle_is_inert[OF t0 e a(1) r, of ts_ZERO ts_ZERO ts_ZERO ts_ZERO] t0 a(1) r by auto
qed

end
