(* ===== verification/NtsFields.thy ===== *)
theory NtsFields
  imports Ntp
begin

text \<open>NTS extension fields (\<open>crates/rusty_time-nts/src/ef.rs\<close>) over the AEAD seam
(\<open>aead.rs\<close>).  The AES-SIV cipher itself is third-party code: a parameter, the two functions of the record
\<open>Aead\<close>, whose documented behaviour \<open>aead_ok\<close> states.\<close>

section \<open>The AEAD seam\<close>

text \<open>\<open>None\<close> is the cipher's error.  Arguments: key, associated data in order, plaintext or ciphertext.\<close>

record Aead =
  encrypt :: "bytes \<Rightarrow> bytes list \<Rightarrow> bytes \<Rightarrow> bytes option"
  decrypt :: "bytes \<Rightarrow> bytes list \<Rightarrow> bytes \<Rightarrow> bytes option"

text \<open>The two directions' session keys, as NTS-KE exports them.\<close>

record NtsKeys =
  k_c2s :: bytes
  k_s2c :: bytes

datatype AeadError = OpenError | SealError

definition sealer_seal :: "Aead \<Rightarrow> bytes \<Rightarrow> bytes list \<Rightarrow> bytes \<Rightarrow> AeadError + bytes" where
  "sealer_seal c key aad plaintext =
     (case encrypt c key aad plaintext of None \<Rightarrow> Inl SealError | Some ct \<Rightarrow> Inr ct)"

definition seal :: "Aead \<Rightarrow> bytes \<Rightarrow> bytes list \<Rightarrow> bytes \<Rightarrow> AeadError + bytes" where
  "seal c key aad plaintext = sealer_seal c key aad plaintext"

definition seal_in_place :: "Aead \<Rightarrow> bytes \<Rightarrow> bytes list \<Rightarrow> bytes \<Rightarrow> AeadError + bytes" where
  "seal_in_place c key aad buffer =
     (case encrypt c key aad buffer of None \<Rightarrow> Inl SealError | Some ct \<Rightarrow> Inr ct)"

definition open_aead :: "Aead \<Rightarrow> bytes \<Rightarrow> bytes list \<Rightarrow> bytes \<Rightarrow> AeadError + bytes" where
  "open_aead c key aad ciphertext =
     (case decrypt c key aad ciphertext of None \<Rightarrow> Inl OpenError | Some pt \<Rightarrow> Inr pt)"

text \<open>RFC 5297: SIV encryption always succeeds on the sizes used here, prepends a 16-byte tag, and is
deterministic authenticated encryption, so decryption accepts exactly the ciphertexts encryption makes.\<close>

definition aead_ok :: "Aead \<Rightarrow> bool" where
  "aead_ok c \<longleftrightarrow> (\<forall>k a p. \<exists>ct. encrypt c k a p = Some ct \<and> length ct = length p + 16) \<and>
     (\<forall>k a p ct. encrypt c k a p = Some ct \<longleftrightarrow> decrypt c k a ct = Some p)"

section \<open>Writing fields\<close>

definition UNIQUE_IDENTIFIER :: u16 where "UNIQUE_IDENTIFIER = 0x0104"
definition NTS_COOKIE :: u16 where "NTS_COOKIE = 0x0204"
definition NTS_COOKIE_PLACEHOLDER :: u16 where "NTS_COOKIE_PLACEHOLDER = 0x0304"
definition NTS_AUTHENTICATOR :: u16 where "NTS_AUTHENTICATOR = 0x0404"

lemmas field_type_defs = UNIQUE_IDENTIFIER_def NTS_COOKIE_def NTS_COOKIE_PLACEHOLDER_def NTS_AUTHENTICATOR_def

definition UNIQUE_ID_LEN :: nat where "UNIQUE_ID_LEN = 32"
definition NONCE_LEN :: nat where "NONCE_LEN = 16"
definition MIN_EF_LEN :: nat where "MIN_EF_LEN = 16"

datatype NtsError = MissingAuthenticator | Authentication | UniqueIdMismatch | MalformedField | Nak | TooShortPacket

definition from_aead :: "AeadError \<Rightarrow> NtsError" where "from_aead e = Authentication"

definition zeros :: "nat \<Rightarrow> bytes" where "zeros n = replicate n 0"

text \<open>\<open>Vec::resize(len + n, 0)\<close>.\<close>

definition pad :: "nat \<Rightarrow> bytes \<Rightarrow> bytes" where "pad n out = out @ zeros n"

definition field_total :: "nat \<Rightarrow> nat" where
  "field_total body_len = max (next_multiple_of4 (4 + body_len)) MIN_EF_LEN"

definition write_field :: "bytes \<Rightarrow> u16 \<Rightarrow> bytes \<Rightarrow> bytes" where
  "write_field out field_type body =
     (let total = field_total (length body) in
      pad (total - 4 - length body)
        (out @ to_be 2 field_type @ to_be 2 (word_of_nat total :: u16) @ body))"

definition write_field_parts :: "bytes \<Rightarrow> u16 \<Rightarrow> bytes list \<Rightarrow> bytes" where
  "write_field_parts out field_type parts =
     (let body_len = sum_list (map length parts); total = field_total body_len in
      pad (total - 4 - body_len)
        (foldl (@) (out @ to_be 2 field_type @ to_be 2 (word_of_nat total :: u16)) parts))"

definition write_zero_field :: "bytes \<Rightarrow> u16 \<Rightarrow> nat \<Rightarrow> bytes" where
  "write_zero_field out field_type len =
     (let total = field_total len in
      pad (total - 4) (out @ to_be 2 field_type @ to_be 2 (word_of_nat total :: u16)))"

definition write_authenticator :: "bytes \<Rightarrow> bytes \<Rightarrow> bytes \<Rightarrow> bytes" where
  "write_authenticator out nonce ciphertext =
     (let body_len = 4 + next_multiple_of4 (length nonce) + next_multiple_of4 (length ciphertext);
          total = field_total body_len;
          head = out @ to_be 2 NTS_AUTHENTICATOR @ to_be 2 (word_of_nat total :: u16)
                 @ to_be 2 (word_of_nat (length nonce) :: u16) @ to_be 2 (word_of_nat (length ciphertext) :: u16);
          with_nonce = pad (next_multiple_of4 (length nonce) - length nonce) (head @ nonce);
          with_ct = pad (next_multiple_of4 (length ciphertext) - length ciphertext) (with_nonce @ ciphertext)
      in pad (total - 4 - body_len) with_ct)"

definition authenticator_field :: "bytes \<Rightarrow> bytes \<Rightarrow> bytes" where
  "authenticator_field nonce ciphertext = write_authenticator [] nonce ciphertext"

section \<open>Reading fields\<close>

record Field =
  f_type :: u16
  f_body :: bytes
  f_offset :: nat

definition field_next :: "bytes \<Rightarrow> nat \<Rightarrow> (Field \<times> nat) option" where
  "field_next packet pos =
     (if length packet < pos then None
      else let rest = drop pos packet in
        if length rest < 4 then None
        else let field_type = of_be (slice rest 0 2) :: u16; total = unat (of_be (slice rest 2 4) :: u16) in
          if total < MIN_EF_LEN \<or> total mod 4 \<noteq> 0 \<or> length rest < total then None
          else Some (\<lparr> f_type = field_type, f_body = slice rest 4 total, f_offset = pos \<rparr>, pos + total))"

lemma field_next_progress: "field_next packet pos = Some (f, pos') \<Longrightarrow> pos < pos' \<and> pos' \<le> length packet"
  by (auto simp: field_next_def Let_def MIN_EF_LEN_def split: if_splits)

function fields_from :: "bytes \<Rightarrow> nat \<Rightarrow> Field list" where
  "fields_from packet pos = (case field_next packet pos of None \<Rightarrow> [] | Some (f, pos') \<Rightarrow> f # fields_from packet pos')"
  by pat_completeness auto
termination
  by (relation "measure (\<lambda>(packet, pos). length packet - pos)") (auto dest: field_next_progress)

declare fields_from.simps [simp del]

definition fields :: "bytes \<Rightarrow> Field list" where
  "fields packet = fields_from packet (min HEADER_LEN (length packet))"

section \<open>Protecting a request\<close>

definition protect_request ::
  "Aead \<Rightarrow> bytes \<Rightarrow> bytes \<Rightarrow> bytes \<Rightarrow> nat \<Rightarrow> bytes \<Rightarrow> bytes \<Rightarrow> NtsError + bytes" where
  "protect_request c header unique_id cookie extra_cookies c2s_key nonce =
     (let p1 = write_field header UNIQUE_IDENTIFIER unique_id;
          p2 = write_field p1 NTS_COOKIE cookie;
          packet = ((\<lambda>out. write_zero_field out NTS_COOKIE_PLACEHOLDER (length cookie)) ^^ extra_cookies) p2
      in case seal c c2s_key [packet, nonce] [] of
           Inl e \<Rightarrow> Inl (from_aead e)
         | Inr ciphertext \<Rightarrow> Inr (write_authenticator packet nonce ciphertext))"

section \<open>Verifying a response\<close>

text \<open>The loop over the fields: whether the last unique identifier matched, the authenticator it stopped
at, and whether there was any field.\<close>

fun scan_response :: "bytes \<Rightarrow> Field list \<Rightarrow> bool \<times> bool \<Rightarrow> bool \<times> (nat \<times> bytes) option \<times> bool" where
  "scan_response expect [] (ok, saw) = (ok, None, saw)"
| "scan_response expect (f # fs) (ok, saw) =
     (if f_type f = UNIQUE_IDENTIFIER then scan_response expect fs (f_body f = expect, True)
      else if f_type f = NTS_AUTHENTICATOR then (ok, Some (f_offset f, f_body f), True)
      else scan_response expect fs (ok, True))"

text \<open>The decrypted payload's own fields, of which the cookies are kept.\<close>

function payload_cookies :: "bytes \<Rightarrow> nat \<Rightarrow> bytes list" where
  "payload_cookies pt pos =
     (if pos + 4 \<le> length pt then
        let ft = of_be (slice pt pos (pos + 2)) :: u16; total = unat (of_be (slice pt (pos + 2) (pos + 4)) :: u16) in
        if total < MIN_EF_LEN \<or> total mod 4 \<noteq> 0 \<or> length pt < pos + total then []
        else (if ft = NTS_COOKIE then [slice pt (pos + 4) (pos + total)] else []) @ payload_cookies pt (pos + total)
      else [])"
  by pat_completeness auto
termination by (relation "measure (\<lambda>(pt, pos). length pt - pos)") (auto simp: MIN_EF_LEN_def)

declare payload_cookies.simps [simp del]

definition auth_nonce_len :: "bytes \<Rightarrow> nat" where "auth_nonce_len body = unat (of_be (slice body 0 2) :: u16)"
definition auth_ct_len :: "bytes \<Rightarrow> nat" where "auth_ct_len body = unat (of_be (slice body 2 4) :: u16)"
definition auth_ct_start :: "bytes \<Rightarrow> nat" where "auth_ct_start body = 4 + next_multiple_of4 (auth_nonce_len body)"

definition open_authenticator :: "Aead \<Rightarrow> bytes \<Rightarrow> bytes \<Rightarrow> nat \<Rightarrow> bytes \<Rightarrow> NtsError + bytes" where
  "open_authenticator c key packet offset body =
     (if length body < 4 then Inl MalformedField
      else let nonce_len = auth_nonce_len body; ct_start = auth_ct_start body; ct_end = ct_start + auth_ct_len body in
        if nonce_len = 0 \<or> length body < ct_end then Inl MalformedField
        else case open_aead c key [take offset packet, slice body 4 (4 + nonce_len)] (slice body ct_start ct_end) of
          Inl e \<Rightarrow> Inl (from_aead e) | Inr pt \<Rightarrow> Inr pt)"

definition response_cookies :: "Aead \<Rightarrow> bytes \<Rightarrow> bytes \<Rightarrow> nat \<times> bytes \<Rightarrow> NtsError + bytes list" where
  "response_cookies c key packet auth =
     (case open_authenticator c key packet (fst auth) (snd auth) of
        Inl e \<Rightarrow> Inl e | Inr pt \<Rightarrow> Inr (payload_cookies pt 0))"

definition verify_response :: "Aead \<Rightarrow> bytes \<Rightarrow> bytes \<Rightarrow> bytes \<Rightarrow> NtsError + bytes list" where
  "verify_response c packet s2c_key expect_unique_id =
     (if length packet < HEADER_LEN then Inl TooShortPacket
      else let (unique_ok, authenticator, saw_any) = scan_response expect_unique_id (fields packet) (False, False) in
        if \<not> unique_ok then Inl UniqueIdMismatch
        else case authenticator of
          None \<Rightarrow> Inl (if saw_any then Nak else MissingAuthenticator)
        | Some auth \<Rightarrow> response_cookies c s2c_key packet auth)"

section \<open>The bytes of a field\<close>

definition padded :: "bytes \<Rightarrow> bytes" where
  "padded body = body @ zeros (field_total (length body) - 4 - length body)"

definition wire_field :: "u16 \<Rightarrow> bytes \<Rightarrow> bytes" where
  "wire_field ty body = to_be 2 ty @ to_be 2 (word_of_nat (field_total (length body)) :: u16) @ padded body"

definition fill4 :: "bytes \<Rightarrow> bytes" where
  "fill4 b = b @ zeros (next_multiple_of4 (length b) - length b)"

definition auth_body :: "bytes \<Rightarrow> bytes \<Rightarrow> bytes" where
  "auth_body nonce ct = to_be 2 (word_of_nat (length nonce) :: u16) @ to_be 2 (word_of_nat (length ct) :: u16)
     @ fill4 nonce @ fill4 ct"

definition small_body :: "bytes \<Rightarrow> bool" where "small_body b \<longleftrightarrow> length b \<le> 65528"

lemma length_zeros [simp]: "length (zeros n) = n"
  by (simp add: zeros_def)

lemma zeros_0 [simp]: "zeros 0 = []"
  by (simp add: zeros_def)

lemma zeros_add: "zeros m @ zeros n = zeros (m + n)"
  by (simp add: zeros_def replicate_add)

lemma field_total_ge: "4 + n \<le> field_total n" "16 \<le> field_total n"
  using next_multiple_of4_ge[of "4 + n"] by (auto simp: field_total_def MIN_EF_LEN_def)

lemma field_total_mod: "field_total n mod 4 = 0"
  by (simp add: field_total_def MIN_EF_LEN_def next_multiple_of4_mod max_def)

lemma field_total_small: "small_body b \<Longrightarrow> field_total (length b) < 65536"
proof -
  assume "small_body b"
  then have "next_multiple_of4 (4 + length b) \<le> 65535"
    using next_multiple_of4_lt[of "4 + length b"] next_multiple_of4_mod[of "4 + length b"]
    by (simp add: small_body_def)
  then show ?thesis by (simp add: field_total_def MIN_EF_LEN_def)
qed

lemma length_padded: "length (padded b) = field_total (length b) - 4"
  using field_total_ge[of "length b"] by (simp add: padded_def)

lemma padded_exact: "12 \<le> length b \<Longrightarrow> length b mod 4 = 0 \<Longrightarrow> padded b = b"
proof -
  assume a: "12 \<le> length b" "length b mod 4 = 0"
  then have "(4 + length b) mod 4 = 0" by presburger
  then have "next_multiple_of4 (4 + length b) = 4 + length b" by (subst next_multiple_of4_def) simp
  then show ?thesis using a by (simp add: padded_def field_total_def MIN_EF_LEN_def)
qed

lemma length_wire_field: "length (wire_field ty b) = field_total (length b)"
  using field_total_ge[of "length b"] by (simp add: wire_field_def length_padded)

lemma length_fill4: "length (fill4 b) = next_multiple_of4 (length b)"
  using next_multiple_of4_ge[of "length b"] by (simp add: fill4_def)

lemma length_auth_body: "length (auth_body n ct) = 4 + next_multiple_of4 (length n) + next_multiple_of4 (length ct)"
  by (simp add: auth_body_def length_fill4)

lemma write_field_wire: "write_field out ty body = out @ wire_field ty body"
  by (simp add: write_field_def wire_field_def pad_def padded_def Let_def)

lemma foldl_append: "foldl (@) out parts = out @ concat parts"
  by (induction parts arbitrary: out) auto

lemma write_parts_wire: "write_field_parts out ty parts = out @ wire_field ty (concat parts)"
  by (simp add: write_field_parts_def wire_field_def pad_def padded_def Let_def foldl_append length_concat)

lemma write_zero_wire: "write_zero_field out ty n = out @ wire_field ty (zeros n)"
  using field_total_ge[of n]
  by (simp add: write_zero_field_def wire_field_def pad_def padded_def Let_def zeros_add)

lemma write_auth_wire: "write_authenticator out n ct = out @ wire_field NTS_AUTHENTICATOR (auth_body n ct)"
proof -
  have "length (auth_body n ct) mod 4 = 0"
    unfolding length_auth_body using next_multiple_of4_mod[of "length n"] next_multiple_of4_mod[of "length ct"]
    by presburger
  then show ?thesis
    by (simp add: write_authenticator_def wire_field_def pad_def padded_def Let_def length_auth_body)
      (simp add: auth_body_def fill4_def)
qed

text \<open>C16: the optimised writers are byte for byte the plain one.  Writing a body in
pieces equals writing their concatenation, a zero field equals writing a zero body of that length, and
the in-place authenticator equals both appending the separately built authenticator field and writing
its assembled body as an ordinary field.\<close>

theorem field_writers_agree:
  "write_field_parts out ty parts = write_field out ty (concat parts) \<and>
   write_zero_field out ty len = write_field out ty (zeros len) \<and>
   write_authenticator out nonce ct = out @ authenticator_field nonce ct \<and>
   write_authenticator out nonce ct = write_field out NTS_AUTHENTICATOR (auth_body nonce ct)"
  by (simp add: authenticator_field_def write_parts_wire write_zero_wire write_auth_wire write_field_wire)

section \<open>Reading back what was written\<close>

lemma of_be2_total: "small_body b \<Longrightarrow> unat (of_be (to_be 2 (word_of_nat (field_total (length b)) :: u16)) :: u16)
    = field_total (length b)"
  by (simp add: of_be_to_be_id unsigned_of_nat take_bit_nat_eq_self field_total_small)

lemma slice_mid: "slice (a @ b @ c) (length a) (length a + length b) = b"
  by (simp add: slice_def)

lemma slice_mid': "i = length a \<Longrightarrow> j = length a + length b \<Longrightarrow> slice (a @ b @ c) i j = b"
  by (simp add: slice_mid)

lemma field_next_written:
  assumes "small_body b"
  shows "field_next (pre @ wire_field ty b @ rest) (length pre) =
     Some (\<lparr> f_type = ty, f_body = padded b, f_offset = length pre \<rparr>, length pre + field_total (length b))"
proof -
  define r where "r = wire_field ty b @ rest"
  define lenw where "lenw = (word_of_nat (field_total (length b)) :: u16)"
  have r: "r = to_be 2 ty @ to_be 2 lenw @ padded b @ rest" by (simp add: r_def wire_field_def lenw_def)
  have s1: "slice r 0 2 = to_be 2 ty"
    unfolding r using slice_mid'[of 0 "[]" 2 "to_be 2 ty" "to_be 2 lenw @ padded b @ rest"] by simp
  have s2: "slice r 2 4 = to_be 2 lenw"
    unfolding r by (rule slice_mid') simp_all
  have s3: "slice r 4 (field_total (length b)) = padded b"
    unfolding r append_assoc[symmetric] unfolding append_assoc[of _ "padded b"]
    by (rule slice_mid') (use field_total_ge(2)[of "length b"] in \<open>simp_all add: length_padded\<close>)
  note s = s1 s2 s3
  have t: "unat (of_be (to_be 2 lenw) :: u16) = field_total (length b)"
    unfolding lenw_def by (rule of_be2_total[OF assms])
  have l: "length r = field_total (length b) + length rest" by (simp add: r_def length_wire_field)
  have d: "drop (length pre) (pre @ wire_field ty b @ rest) = r" by (simp add: r_def)
  have n: "\<not> length (pre @ wire_field ty b @ rest) < length pre" by simp
  have c1: "\<not> length r < 4" using l field_total_ge(2)[of "length b"] by linarith
  have c2: "\<not> (field_total (length b) < MIN_EF_LEN \<or> field_total (length b) mod 4 \<noteq> 0 \<or> length r < field_total (length b))"
    using l field_total_ge(2)[of "length b"] field_total_mod[of "length b"] by (simp add: MIN_EF_LEN_def)
  have ty: "(of_be (to_be 2 ty) :: u16) = ty" by (simp add: of_be_to_be_id)
  show ?thesis unfolding field_next_def d Let_def s t ty by (simp only: n c1 c2 if_False)
qed

primrec laid_out :: "nat \<Rightarrow> (u16 \<times> bytes) list \<Rightarrow> Field list" where
  "laid_out pos [] = []"
| "laid_out pos (x # xs) =
     \<lparr> f_type = fst x, f_body = padded (snd x), f_offset = pos \<rparr> # laid_out (pos + field_total (length (snd x))) xs"

definition wire_all :: "(u16 \<times> bytes) list \<Rightarrow> bytes" where
  "wire_all xs = concat (map (\<lambda>x. wire_field (fst x) (snd x)) xs)"

lemma wire_all_Nil [simp]: "wire_all [] = []"
  by (simp add: wire_all_def)

lemma wire_all_Cons: "wire_all (x # xs) = wire_field (fst x) (snd x) @ wire_all xs"
  by (simp add: wire_all_def)

lemma wire_all_append: "wire_all (xs @ ys) = wire_all xs @ wire_all ys"
  by (simp add: wire_all_def)

lemma fields_from_written:
  "list_all (\<lambda>x. small_body (snd x)) xs \<Longrightarrow>
   fields_from (pre @ wire_all xs) (length pre) = laid_out (length pre) xs"
proof (induction xs arbitrary: pre)
  case Nil
  then show ?case by (simp add: fields_from.simps[of pre] field_next_def)
next
  case (Cons x xs)
  have n: "field_next (pre @ wire_all (x # xs)) (length pre) =
      Some (\<lparr> f_type = fst x, f_body = padded (snd x), f_offset = length pre \<rparr>, length pre + field_total (length (snd x)))"
    unfolding wire_all_Cons using Cons.prems by (intro field_next_written) simp
  have "fields_from ((pre @ wire_field (fst x) (snd x)) @ wire_all xs) (length (pre @ wire_field (fst x) (snd x)))
      = laid_out (length (pre @ wire_field (fst x) (snd x))) xs"
    by (rule Cons.IH) (use Cons.prems in simp)
  then have "fields_from (pre @ wire_all (x # xs)) (length pre + field_total (length (snd x)))
      = laid_out (length pre + field_total (length (snd x))) xs"
    by (simp add: wire_all_Cons length_wire_field)
  then show ?case by (simp add: fields_from.simps[of _ "length pre"] n)
qed

lemma fields_written:
  "length header = HEADER_LEN \<Longrightarrow> list_all (\<lambda>x. small_body (snd x)) xs \<Longrightarrow>
   fields (header @ wire_all xs) = laid_out HEADER_LEN xs"
  using fields_from_written[of xs header] by (simp add: fields_def)

lemma payload_cookies_from:
  "list_all (\<lambda>x. small_body (snd x)) xs \<Longrightarrow>
   payload_cookies (pre @ wire_all xs) (length pre) = map (padded \<circ> snd) (filter (\<lambda>x. fst x = NTS_COOKIE) xs)"
proof (induction xs arbitrary: pre)
  case Nil
  then show ?case by (simp add: payload_cookies.simps[of pre])
next
  case (Cons x xs)
  define b where "b = snd x"
  define lenw where "lenw = (word_of_nat (field_total (length b)) :: u16)"
  define p where "p = pre @ wire_all (x # xs)"
  have small: "small_body b" using Cons.prems by (simp add: b_def)
  have p: "p = pre @ to_be 2 (fst x) @ to_be 2 lenw @ padded b @ wire_all xs"
    by (simp add: p_def wire_all_Cons wire_field_def b_def lenw_def)
  have s: "slice p (length pre) (length pre + 2) = to_be 2 (fst x)"
    "slice p (length pre + 2) (length pre + 4) = to_be 2 lenw"
    "slice p (length pre + 4) (length pre + field_total (length b)) = padded b"
    using slice_mid'[of "length pre" pre "length pre + 2" "to_be 2 (fst x)"]
      slice_mid'[of "length pre + 2" "pre @ to_be 2 (fst x)" "length pre + 4" "to_be 2 lenw"]
      slice_mid'[of "length pre + 4" "pre @ to_be 2 (fst x) @ to_be 2 lenw" "length pre + field_total (length b)" "padded b"
        "wire_all xs"] field_total_ge[of "length b"]
    by (simp_all add: p length_padded)
  have t: "unat (of_be (to_be 2 lenw) :: u16) = field_total (length b)"
    unfolding lenw_def by (rule of_be2_total[OF small])
  have l: "length pre + field_total (length b) \<le> length p"
    by (simp add: p_def wire_all_Cons length_wire_field b_def)
  have ih: "payload_cookies p (length pre + field_total (length b))
      = map (padded \<circ> snd) (filter (\<lambda>x. fst x = NTS_COOKIE) xs)"
    using Cons.IH[of "pre @ wire_field (fst x) (snd x)"] Cons.prems
    by (simp add: p_def wire_all_Cons length_wire_field b_def)
  have "payload_cookies p (length pre) =
     (if fst x = NTS_COOKIE then [padded b] else []) @ payload_cookies p (length pre + field_total (length b))"
    unfolding payload_cookies.simps[of p "length pre"] s Let_def t
    using l field_total_ge[of "length b"] field_total_mod[of "length b"]
    by (simp add: of_be_to_be_id MIN_EF_LEN_def)
  then show ?case using ih[unfolded b_def] by (simp add: p_def[symmetric] b_def comp_def)
qed

lemma payload_cookies_written:
  "list_all (\<lambda>x. small_body (snd x)) xs \<Longrightarrow>
   payload_cookies (wire_all xs) 0 = map (padded \<circ> snd) (filter (\<lambda>x. fst x = NTS_COOKIE) xs)"
  using payload_cookies_from[of xs "[]"] by simp

lemma slice_padded: "j \<le> length b \<Longrightarrow> slice (padded b) i j = slice b i j"
  by (simp add: padded_def slice_def)

lemma slice_auth_body:
  "slice (auth_body n ct) 0 2 = to_be 2 (word_of_nat (length n) :: u16)"
  "slice (auth_body n ct) 2 4 = to_be 2 (word_of_nat (length ct) :: u16)"
  "slice (auth_body n ct) 4 (4 + length n) = n"
  "slice (auth_body n ct) (4 + next_multiple_of4 (length n)) (4 + next_multiple_of4 (length n) + length ct) = ct"
proof -
  let ?n = "to_be 2 (word_of_nat (length n) :: u16)" and ?c = "to_be 2 (word_of_nat (length ct) :: u16)"
  have b: "auth_body n ct = ?n @ ?c @ fill4 n @ fill4 ct" by (simp add: auth_body_def)
  show "slice (auth_body n ct) 0 2 = ?n"
    unfolding b using slice_mid'[of 0 "[]" 2 ?n "?c @ fill4 n @ fill4 ct"] by simp
  show "slice (auth_body n ct) 2 4 = ?c" unfolding b by (rule slice_mid') simp_all
  show "slice (auth_body n ct) 4 (4 + length n) = n"
    using slice_mid'[of 4 "?n @ ?c" "4 + length n" n "zeros (next_multiple_of4 (length n) - length n) @ fill4 ct"]
    by (simp add: b fill4_def[of n])
  show "slice (auth_body n ct) (4 + next_multiple_of4 (length n)) (4 + next_multiple_of4 (length n) + length ct) = ct"
    using slice_mid'[of "4 + next_multiple_of4 (length n)" "?n @ ?c @ fill4 n"
        "4 + next_multiple_of4 (length n) + length ct" ct "zeros (next_multiple_of4 (length ct) - length ct)"]
    by (simp add: b fill4_def[of ct] length_fill4)
qed

lemma unat_u16: "n < 65536 \<Longrightarrow> unat (of_be (to_be 2 (word_of_nat n :: u16)) :: u16) = n"
  by (simp add: of_be_to_be_id unsigned_of_nat take_bit_nat_eq_self)

lemma open_authenticator_written:
  assumes "n \<noteq> []" "length n < 65536" "length ct < 65536"
  shows "open_authenticator c key (packet @ rest) (length packet) (padded (auth_body n ct)) =
     (case decrypt c key [packet, n] ct of None \<Rightarrow> Inl Authentication | Some pt \<Rightarrow> Inr pt)"
proof -
  let ?b = "padded (auth_body n ct)"
  have lb: "length (auth_body n ct) \<le> length ?b" by (simp add: padded_def)
  have nl: "auth_nonce_len ?b = length n" and cl: "auth_ct_len ?b = length ct"
    using assms by (simp_all add: auth_nonce_len_def auth_ct_len_def slice_padded length_auth_body slice_auth_body unat_u16)
  have s: "slice ?b 4 (4 + length n) = n"
    "slice ?b (4 + next_multiple_of4 (length n)) (4 + next_multiple_of4 (length n) + length ct) = ct"
    using next_multiple_of4_ge[of "length n"] next_multiple_of4_ge[of "length ct"]
    by (simp_all add: slice_padded length_auth_body slice_auth_body)
  have le: "\<not> length ?b < 4" "\<not> length ?b < 4 + next_multiple_of4 (length n) + length ct"
    using lb next_multiple_of4_ge[of "length ct"] by (simp_all add: length_auth_body)
  show ?thesis
    unfolding open_authenticator_def Let_def nl cl auth_ct_start_def s
    using le assms(1) by (simp add: open_aead_def from_aead_def split: option.splits)
qed

lemma auth_body_small:
  "length n \<le> 32752 \<Longrightarrow> length ct \<le> 32752 \<Longrightarrow> small_body (auth_body n ct)"
  using next_multiple_of4_lt[of "length n"] next_multiple_of4_lt[of "length ct"]
    next_multiple_of4_mod[of "length n"] next_multiple_of4_mod[of "length ct"]
  by (simp add: small_body_def length_auth_body)

subsection \<open>Where fields lie\<close>

lemma field_next_bounds:
  "field_next packet pos = Some (f, pos') \<Longrightarrow>
   f_offset f = pos \<and> pos' = pos + 4 + length (f_body f) \<and> f_body f = slice packet (pos + 4) pos'"
  by (auto simp: field_next_def Let_def slice_def MIN_EF_LEN_def add.commute split: if_splits)

lemma fields_from_offsets: "f \<in> set (fields_from packet pos) \<Longrightarrow> pos \<le> f_offset f"
proof (induction packet pos rule: fields_from.induct)
  case (1 packet pos)
  show ?case
  proof (cases "field_next packet pos")
    case None
    then show ?thesis using 1(2) by (simp add: fields_from.simps[of packet pos])
  next
    case (Some p)
    obtain g pos' where p: "p = (g, pos')" by (cases p) auto
    have b: "f_offset g = pos" "pos < pos'"
      using field_next_bounds field_next_progress Some p by blast+
    have "f = g \<or> f \<in> set (fields_from packet pos')" using 1(2) Some p by (simp add: fields_from.simps[of packet pos])
    then show ?thesis using 1(1)[OF Some p[symmetric]] b by auto
  qed
qed

lemma fields_from_Cons:
  "fields_from packet pos = f # fs \<Longrightarrow> \<exists>pos'. field_next packet pos = Some (f, pos') \<and> fields_from packet pos' = fs"
  by (subst (asm) fields_from.simps) (auto split: option.splits)

lemma fields_from_chain:
  "fields_from packet pos = us @ u # vs @ g # ws \<Longrightarrow> f_offset u + 4 + length (f_body u) \<le> f_offset g"
proof (induction us arbitrary: pos)
  case Nil
  then obtain pos' where n: "field_next packet pos = Some (u, pos')" "fields_from packet pos' = vs @ g # ws"
    using fields_from_Cons[of packet pos u "vs @ g # ws"] unfolding append_Nil by blast
  have "pos' \<le> f_offset g" by (rule fields_from_offsets[of _ packet]) (simp add: n(2))
  moreover have "f_offset u = pos" "pos' = pos + 4 + length (f_body u)" using field_next_bounds[OF n(1)] by blast+
  ultimately show ?case by linarith
next
  case (Cons x us)
  then obtain pos' where "fields_from packet pos' = us @ u # vs @ g # ws"
    using fields_from_Cons[of packet pos x "us @ u # vs @ g # ws"] unfolding append_Cons by blast
  then show ?case by (rule Cons.IH)
qed

lemma scan_response_seen: "scan_response uid fs (ok, True) = (ok', a, saw') \<Longrightarrow> saw'"
  by (induction uid fs "(ok, True)" arbitrary: ok rule: scan_response.induct) (auto split: if_splits)

lemma scan_response_saw: "scan_response uid fs (ok, saw) = (ok', a, saw') \<Longrightarrow> ok' \<Longrightarrow> ok \<or> saw'"
  by (cases fs) (auto split: if_splits dest: scan_response_seen)

lemma scan_response_auth:
  "scan_response uid fs (ok, saw) = (True, Some (off, body), saw') \<Longrightarrow>
   \<exists>vs g ws. fs = vs @ g # ws \<and> f_type g = NTS_AUTHENTICATOR \<and> f_offset g = off \<and> f_body g = body \<and>
     (ok \<or> (\<exists>u\<in>set vs. f_type u = UNIQUE_IDENTIFIER \<and> f_body u = uid))"
proof (induction fs arbitrary: ok saw)
  case (Cons f fs)
  show ?case
  proof (cases "f_type f = UNIQUE_IDENTIFIER")
    case True
    then have "scan_response uid fs (f_body f = uid, True) = (True, Some (off, body), saw')" using Cons.prems by simp
    from Cons.IH[OF this] obtain vs g ws where "fs = vs @ g # ws" "f_type g = NTS_AUTHENTICATOR" "f_offset g = off"
      "f_body g = body" "f_body f = uid \<or> (\<exists>u\<in>set vs. f_type u = UNIQUE_IDENTIFIER \<and> f_body u = uid)" by blast
    then show ?thesis using True by (intro exI[of _ "f # vs"] exI[of _ g] exI[of _ ws]) auto
  next
    case False
    show ?thesis
    proof (cases "f_type f = NTS_AUTHENTICATOR")
      case True
      then show ?thesis using Cons.prems False by (intro exI[of _ "[]"] exI[of _ f] exI[of _ fs]) simp
    next
      case no: False
      then have "scan_response uid fs (ok, True) = (True, Some (off, body), saw')" using Cons.prems False by simp
      from Cons.IH[OF this] obtain vs g ws where "fs = vs @ g # ws" "f_type g = NTS_AUTHENTICATOR" "f_offset g = off"
        "f_body g = body" "ok \<or> (\<exists>u\<in>set vs. f_type u = UNIQUE_IDENTIFIER \<and> f_body u = uid)" by blast
      then show ?thesis by (intro exI[of _ "f # vs"] exI[of _ g] exI[of _ ws]) auto
    qed
  qed
qed simp

lemma aead_encrypts: "aead_ok c \<Longrightarrow> \<exists>ct. encrypt c k a p = Some ct"
  unfolding aead_ok_def by blast

lemma aead_length: "aead_ok c \<Longrightarrow> encrypt c k a p = Some ct \<Longrightarrow> length ct = length p + 16"
  unfolding aead_ok_def by (metis option.inject)

lemma aead_decrypts: "aead_ok c \<Longrightarrow> decrypt c k a ct = Some p \<longleftrightarrow> encrypt c k a p = Some ct"
  by (simp add: aead_ok_def)

text \<open>A cipher for concrete instances: a tag of zeros.  It satisfies the stated laws.\<close>

definition null_cipher :: Aead where
  "null_cipher = \<lparr> encrypt = (\<lambda>k a p. Some (zeros 16 @ p)),
     decrypt = (\<lambda>k a ct. if 16 \<le> length ct \<and> take 16 ct = zeros 16 then Some (drop 16 ct) else None) \<rparr>"

lemma null_cipher_ok: "aead_ok null_cipher"
  unfolding aead_ok_def null_cipher_def by (auto simp: zeros_def) (metis append_take_drop_id)

lemma verify_written:
  assumes c: "aead_ok c" and header: "length header = HEADER_LEN" and uid: "length uid = UNIQUE_ID_LEN"
    and n: "n \<noteq> []" "length n \<le> 32752" and ct: "length ct \<le> 32752"
    and e: "encrypt c key [write_field header UNIQUE_IDENTIFIER uid, n] pt = Some ct"
  shows "verify_response c (write_authenticator (write_field header UNIQUE_IDENTIFIER uid) n ct) key uid
    = Inr (payload_cookies pt 0)"
proof -
  let ?xs = "[(UNIQUE_IDENTIFIER, uid), (NTS_AUTHENTICATOR, auth_body n ct)]"
  define pre where "pre = write_field header UNIQUE_IDENTIFIER uid"
  have p: "write_authenticator pre n ct = header @ wire_all ?xs"
    by (simp add: pre_def write_auth_wire write_field_wire wire_all_Cons)
  have pu: "padded uid = uid" using uid by (intro padded_exact) (simp_all add: UNIQUE_ID_LEN_def)
  have ft: "field_total (length uid) = 36"
    using length_padded[of uid] field_total_ge(1)[of "length uid"] uid by (simp add: pu UNIQUE_ID_LEN_def)
  have lp: "length pre = 84" using header by (simp add: pre_def write_field_wire length_wire_field ft HEADER_LEN_def)
  have sm: "list_all (\<lambda>x. small_body (snd x)) ?xs"
    using uid auth_body_small[OF n(2) ct] by (simp add: small_body_def UNIQUE_ID_LEN_def)
  have f: "fields (header @ wire_all ?xs) = [\<lparr> f_type = UNIQUE_IDENTIFIER, f_body = uid, f_offset = 48 \<rparr>,
      \<lparr> f_type = NTS_AUTHENTICATOR, f_body = padded (auth_body n ct), f_offset = 84 \<rparr>]"
    unfolding fields_written[OF header sm] by (simp add: pu ft HEADER_LEN_def)
  have l: "\<not> length (header @ wire_all ?xs) < HEADER_LEN" using header by simp
  have sc: "scan_response uid (fields (header @ wire_all ?xs)) (False, False)
      = (True, Some (84, padded (auth_body n ct)), True)"
    unfolding f by (simp add: field_type_defs)
  have "decrypt c key [pre, n] ct = Some pt" using e c by (simp add: aead_decrypts pre_def)
  then have o: "open_authenticator c key (pre @ wire_field NTS_AUTHENTICATOR (auth_body n ct)) 84
      (padded (auth_body n ct)) = Inr pt"
    using open_authenticator_written[of n ct c key pre] n ct lp by simp
  have "pre @ wire_field NTS_AUTHENTICATOR (auth_body n ct) = header @ wire_all ?xs"
    using p by (simp add: write_auth_wire)
  then show ?thesis
    unfolding pre_def[symmetric] p verify_response_def sc Let_def prod.case
    using l o by (simp add: response_cookies_def)
qed

text \<open>C17: a response is accepted only when it is the server's answer to this
request.  Some unique-identifier field equal to the request's lies wholly inside the authenticated
bytes, the authenticator follows it, and its ciphertext is exactly the encryption, under the
server-to-client key, of the payload the cookies are read from, with all bytes of the packet before the
authenticator and the nonce as associated data.\<close>

theorem verify_response_binds:
  assumes "aead_ok c" "verify_response c packet key uid = Inr cookies"
  shows "\<exists>u\<in>set (fields packet). \<exists>g\<in>set (fields packet). \<exists>nonce ct pt i.
    f_type u = UNIQUE_IDENTIFIER \<and> f_body u = uid \<and> f_type g = NTS_AUTHENTICATOR \<and>
    f_offset u + 4 + length (f_body u) \<le> f_offset g \<and>
    nonce = slice (f_body g) 4 (4 + auth_nonce_len (f_body g)) \<and> nonce \<noteq> [] \<and>
    ct = slice (f_body g) i (i + auth_ct_len (f_body g)) \<and>
    encrypt c key [take (f_offset g) packet, nonce] pt = Some ct \<and> cookies = payload_cookies pt 0"
proof -
  obtain off body saw where sc: "scan_response uid (fields packet) (False, False) = (True, Some (off, body), saw)"
    and r: "response_cookies c key packet (off, body) = Inr cookies"
    using assms(2) by (auto simp: verify_response_def Let_def split: if_splits prod.splits option.splits)
  from scan_response_auth[OF sc] obtain vs g ws u where
    g: "fields packet = vs @ g # ws" "f_type g = NTS_AUTHENTICATOR" "f_offset g = off" "f_body g = body"
    and u: "u \<in> set vs" "f_type u = UNIQUE_IDENTIFIER" "f_body u = uid" by blast
  obtain a b where "vs = a @ u # b" using u(1) by (auto simp: in_set_conv_decomp)
  then have "fields packet = a @ u # b @ g # ws" using g(1) by simp
  then have o: "f_offset u + 4 + length (f_body u) \<le> f_offset g"
    unfolding fields_def by (rule fields_from_chain)
  let ?nonce = "slice body 4 (4 + auth_nonce_len body)"
  let ?ct = "slice body (auth_ct_start body) (auth_ct_start body + auth_ct_len body)"
  from r obtain pt where pt: "decrypt c key [take off packet, ?nonce] ?ct = Some pt" "cookies = payload_cookies pt 0"
    and n: "auth_nonce_len body \<noteq> 0" "auth_ct_start body + auth_ct_len body \<le> length body"
    by (auto simp: response_cookies_def open_authenticator_def open_aead_def Let_def split: if_splits option.splits)
  have "4 + auth_nonce_len body \<le> length body"
    using n(2) next_multiple_of4_ge[of "auth_nonce_len body"] by (simp add: auth_ct_start_def)
  then have ne: "?nonce \<noteq> []" using n(1) length_slice[of "4 + auth_nonce_len body" body 4] by auto
  have e: "encrypt c key [take off packet, ?nonce] pt = Some ?ct"
    using assms(1) pt(1) by (simp add: aead_ok_def)
  show ?thesis
    by (rule bexI[of _ u], rule bexI[of _ g], rule exI[of _ ?nonce], rule exI[of _ ?ct], rule exI[of _ pt],
        rule exI[of _ "auth_ct_start body"])
      (use u g o ne e pt(2) in auto)
qed

lemma verify_response_binds_witness:
  "\<exists>packet u g. verify_response null_cipher packet (zeros 32) (zeros 32) = Inr [] \<and>
     u \<in> set (fields packet) \<and> g \<in> set (fields packet) \<and> f_body u = zeros 32 \<and>
     f_type g = NTS_AUTHENTICATOR \<and> f_offset u + 4 + length (f_body u) \<le> f_offset g"
proof -
  define header where "header = zeros HEADER_LEN"
  define uid where "uid = zeros UNIQUE_ID_LEN"
  define ct where "ct = zeros 16"
  define packet where "packet = write_authenticator (write_field header UNIQUE_IDENTIFIER uid) (zeros 16) ct"
  have "encrypt null_cipher (zeros 32) [write_field header UNIQUE_IDENTIFIER uid, zeros 16] [] = Some ct"
    by (simp add: null_cipher_def ct_def)
  then have "verify_response null_cipher packet (zeros 32) uid = Inr (payload_cookies [] 0)"
    unfolding packet_def
    by (intro verify_written[OF null_cipher_ok]) (simp_all add: header_def uid_def ct_def zeros_def)
  moreover have "payload_cookies [] 0 = []" by (simp add: payload_cookies.simps)
  ultimately have v: "verify_response null_cipher packet (zeros 32) (zeros 32) = Inr []"
    by (simp add: uid_def UNIQUE_ID_LEN_def)
  show ?thesis using v verify_response_binds[OF null_cipher_ok v] by blast
qed

text \<open>The error \<open>MissingAuthenticator\<close> is never returned: a response without an authenticator is
reported as a mismatch or as a NAK.\<close>

lemma missing_authenticator_unreachable: "verify_response c packet key uid \<noteq> Inl MissingAuthenticator"
proof
  assume a: "verify_response c packet key uid = Inl MissingAuthenticator"
  obtain ok auth saw where sc: "scan_response uid (fields packet) (False, False) = (ok, auth, saw)" by (metis prod_cases3)
  have "response_cookies c key packet x \<noteq> Inl MissingAuthenticator" for x
    by (auto simp: response_cookies_def open_authenticator_def from_aead_def Let_def split: sum.splits if_splits)
  then have "ok" "auth = None" "\<not> saw"
    using a sc by (auto simp: verify_response_def Let_def split: if_splits option.splits)
  then show False using scan_response_saw[OF sc] by simp
qed

end
