(* ===== verification/NtsCookie.thy ===== *)
theory NtsCookie
  imports NtsFields
begin

text \<open>Server-side NTS cookies (\<open>crates/rusty_time-nts/src/cookie.rs\<close>): the ring of master keys, minting,
redeeming, and the batch mint that writes extension fields straight into the reply.\<close>

definition COOKIE_NONCE_LEN :: nat where "COOKIE_NONCE_LEN = 16"
definition KEY_ID_LEN :: nat where "KEY_ID_LEN = 4"

datatype CookieError = CookieMalformed | UnknownKeyId u32 | CookieAuthentication | BadPayload

record MasterKey =
  mk_id :: u32
  mk_key :: bytes

record KeyRing =
  ring_keys :: "MasterKey list"
  ring_max :: nat

definition ring_new :: "nat \<Rightarrow> KeyRing" where
  "ring_new max_retained = \<lparr> ring_keys = [], ring_max = max max_retained 1 \<rparr>"

text \<open>The loop that drops the oldest keys.\<close>

fun shed :: "nat \<Rightarrow> MasterKey list \<Rightarrow> MasterKey list" where
  "shed m [] = []"
| "shed m (k # ks) = (if m < length (k # ks) then shed m ks else k # ks)"

definition rotate_in :: "KeyRing \<Rightarrow> MasterKey \<Rightarrow> KeyRing" where
  "rotate_in ring key = ring\<lparr> ring_keys := shed (ring_max ring) (ring_keys ring @ [key]) \<rparr>"

definition ring_current :: "KeyRing \<Rightarrow> MasterKey option" where
  "ring_current ring = (if ring_keys ring = [] then None else Some (last (ring_keys ring)))"

definition by_id :: "KeyRing \<Rightarrow> u32 \<Rightarrow> MasterKey option" where
  "by_id ring i = find (\<lambda>k. mk_id k = i) (ring_keys ring)"

definition ring_len :: "KeyRing \<Rightarrow> nat" where "ring_len ring = length (ring_keys ring)"
definition ring_is_empty :: "KeyRing \<Rightarrow> bool" where "ring_is_empty ring \<longleftrightarrow> ring_keys ring = []"
definition key_ids :: "KeyRing \<Rightarrow> u32 list" where "key_ids ring = map mk_id (ring_keys ring)"

definition key_payload :: "NtsKeys \<Rightarrow> bytes" where "key_payload keys = k_c2s keys @ k_s2c keys"
definition cookie_header :: "MasterKey \<Rightarrow> bytes \<Rightarrow> bytes" where "cookie_header m nonce = to_be 4 (mk_id m) @ nonce"

definition mint :: "Aead \<Rightarrow> KeyRing \<Rightarrow> NtsKeys \<Rightarrow> bytes \<Rightarrow> CookieError + bytes" where
  "mint c ring keys nonce =
     (case ring_current ring of None \<Rightarrow> Inl CookieMalformed
      | Some master \<Rightarrow>
          (case seal c (mk_key master) [cookie_header master nonce] (key_payload keys) of
             Inl _ \<Rightarrow> Inl CookieAuthentication
           | Inr sealed \<Rightarrow> Inr (cookie_header master nonce @ sealed)))"

text \<open>The loop of the batch mint.  The caller drops the buffer when it fails, so only success carries one.\<close>

fun mint_loop :: "Aead \<Rightarrow> MasterKey \<Rightarrow> bytes \<Rightarrow> bytes list \<Rightarrow> bytes \<Rightarrow> CookieError + bytes" where
  "mint_loop c master payload [] out = Inr out"
| "mint_loop c master payload (nonce # nonces) out =
     (case seal_in_place c (mk_key master) [cookie_header master nonce] payload of
        Inl _ \<Rightarrow> Inl CookieAuthentication
      | Inr sealed \<Rightarrow> mint_loop c master payload nonces
          (write_field_parts out NTS_COOKIE [cookie_header master nonce, sealed]))"

definition mint_fields_into :: "Aead \<Rightarrow> KeyRing \<Rightarrow> NtsKeys \<Rightarrow> bytes list \<Rightarrow> bytes \<Rightarrow> CookieError + bytes" where
  "mint_fields_into c ring keys nonces out =
     (case ring_current ring of None \<Rightarrow> Inl CookieMalformed
      | Some master \<Rightarrow> mint_loop c master (key_payload keys) nonces out)"

definition redeem :: "Aead \<Rightarrow> KeyRing \<Rightarrow> bytes \<Rightarrow> CookieError + NtsKeys" where
  "redeem c ring cookie =
     (if length cookie < KEY_ID_LEN + COOKIE_NONCE_LEN + 16 then Inl CookieMalformed
      else let key_id = of_be (take 4 cookie) :: u32 in
        case by_id ring key_id of None \<Rightarrow> Inl (UnknownKeyId key_id)
        | Some master \<Rightarrow>
            (case open_aead c (mk_key master) [take (KEY_ID_LEN + COOKIE_NONCE_LEN) cookie]
                    (drop (KEY_ID_LEN + COOKIE_NONCE_LEN) cookie) of
               Inl _ \<Rightarrow> Inl CookieAuthentication
             | Inr payload \<Rightarrow>
                 if length payload \<noteq> 64 then Inl BadPayload
                 else Inr \<lparr> k_c2s = take 32 payload, k_s2c = drop 32 payload \<rparr>))"

section \<open>Minting\<close>

definition keys_ok :: "NtsKeys \<Rightarrow> bool" where
  "keys_ok keys \<longleftrightarrow> length (k_c2s keys) = 32 \<and> length (k_s2c keys) = 32"

definition ring_ok :: "KeyRing \<Rightarrow> bool" where
  "ring_ok ring \<longleftrightarrow> length (ring_keys ring) \<le> ring_max ring \<and> 1 \<le> ring_max ring"

text \<open>The reference for the batch: mint each cookie, then write it as a field.\<close>

fun mint_each :: "Aead \<Rightarrow> KeyRing \<Rightarrow> NtsKeys \<Rightarrow> bytes list \<Rightarrow> bytes \<Rightarrow> CookieError + bytes" where
  "mint_each c ring keys [] out = Inr out"
| "mint_each c ring keys (nonce # nonces) out =
     (case mint c ring keys nonce of Inl e \<Rightarrow> Inl e
      | Inr cookie \<Rightarrow> mint_each c ring keys nonces (write_field out NTS_COOKIE cookie))"

lemma mint_loop_each:
  "ring_current ring = Some m \<Longrightarrow> mint_loop c m (key_payload keys) nonces out = mint_each c ring keys nonces out"
  by (induction nonces arbitrary: out)
    (auto simp: mint_def seal_def sealer_seal_def seal_in_place_def write_parts_wire write_field_wire split: option.splits)

lemma mint_Inr:
  "mint c ring keys nonce = Inr cookie \<longleftrightarrow>
   (\<exists>m sealed. ring_current ring = Some m \<and> encrypt c (mk_key m) [cookie_header m nonce] (key_payload keys) = Some sealed \<and>
      cookie = cookie_header m nonce @ sealed)"
  by (auto simp: mint_def seal_def sealer_seal_def split: option.splits)

lemma mint_length:
  "aead_ok c \<Longrightarrow> keys_ok keys \<Longrightarrow> length nonce = COOKIE_NONCE_LEN \<Longrightarrow> mint c ring keys nonce = Inr cookie \<Longrightarrow>
   length cookie = 100"
proof -
  assume a: "aead_ok c" "keys_ok keys" "length nonce = COOKIE_NONCE_LEN" "mint c ring keys nonce = Inr cookie"
  obtain m sealed where m: "encrypt c (mk_key m) [cookie_header m nonce] (key_payload keys) = Some sealed"
    "cookie = cookie_header m nonce @ sealed" using a(4) by (auto simp: mint_Inr)
  have "length sealed = length (key_payload keys) + 16" using aead_length[OF a(1) m(1)] .
  then show ?thesis using a m(2) by (simp add: key_payload_def keys_ok_def cookie_header_def COOKIE_NONCE_LEN_def)
qed

lemma mint_some: "aead_ok c \<Longrightarrow> ring_keys ring \<noteq> [] \<Longrightarrow> \<exists>cookie. mint c ring keys nonce = Inr cookie"
  unfolding mint_Inr ring_current_def using aead_encrypts by auto

lemma mint_each_fields:
  assumes "aead_ok c" "ring_keys ring \<noteq> []"
  shows "\<exists>cookies. mint_each c ring keys nonces out = Inr (out @ wire_all (map (Pair NTS_COOKIE) cookies)) \<and>
    list_all2 (\<lambda>n k. mint c ring keys n = Inr k) nonces cookies"
proof (induction nonces arbitrary: out)
  case Nil
  show ?case by (intro exI[of _ "[]"]) simp
next
  case (Cons n ns)
  obtain k where k: "mint c ring keys n = Inr k" using mint_some[OF assms] by blast
  obtain ks where "mint_each c ring keys ns (write_field out NTS_COOKIE k)
      = Inr (write_field out NTS_COOKIE k @ wire_all (map (Pair NTS_COOKIE) ks))"
    "list_all2 (\<lambda>n k. mint c ring keys n = Inr k) ns ks" using Cons by blast
  then show ?case using k by (intro exI[of _ "k # ks"]) (simp add: write_field_wire wire_all_Cons)
qed

text \<open>The batch mint of a reply is byte for byte the reference that mints each
cookie on its own and writes it as a field.\<close>

theorem batch_mint_agrees:
  assumes "ring_keys ring \<noteq> []"
  shows "mint_fields_into c ring keys nonces out = mint_each c ring keys nonces out"
  using mint_loop_each[of ring "last (ring_keys ring)"] assms
  by (simp add: mint_fields_into_def ring_current_def)

lemma batch_mint_agrees_witness:
  "let ring = rotate_in (ring_new 3) \<lparr> mk_id = 7, mk_key = zeros 32 \<rparr>; keys = \<lparr> k_c2s = zeros 32, k_s2c = zeros 32 \<rparr> in
   mint_fields_into null_cipher ring keys [zeros 16, replicate 16 1] [] = mint_each null_cipher ring keys [zeros 16, replicate 16 1] []"
  unfolding Let_def by (rule batch_mint_agrees) (simp add: rotate_in_def ring_new_def)

section \<open>Redeeming across rotations\<close>

lemma shed_drop: "shed m ks = drop (length ks - m) ks"
  by (induction ks) (auto simp: Suc_diff_le)

lemma rotate_keys: "ring_keys (rotate_in ring k) = drop (Suc (length (ring_keys ring)) - ring_max ring) (ring_keys ring @ [k])"
  by (simp add: rotate_in_def shed_drop)

lemma rotate_max [simp]: "ring_max (rotate_in ring k) = ring_max ring"
  by (simp add: rotate_in_def)

lemma rotate_all_max [simp]: "ring_max (foldl rotate_in ring ks) = ring_max ring"
  by (induction ks arbitrary: ring) auto

lemma drop_window:
  assumes "1 \<le> m"
  shows "drop (Suc (length (drop (length xs - m) xs)) - m) (drop (length xs - m) xs @ [k])
    = drop (length (xs @ [k]) - m) (xs @ [k])"
proof (cases "length xs < m")
  case False
  then have "Suc (length (drop (length xs - m) xs)) - m = 1" "length (xs @ [k]) - m = 1 + (length xs - m)"
    using assms by simp_all
  then show ?thesis using assms False by (simp only:) (simp add: Suc_diff_le)
qed auto

lemma rotate_all_keys:
  "ring_ok ring \<Longrightarrow> ring_keys (foldl rotate_in ring ks) =
   drop (length (ring_keys ring @ ks) - ring_max ring) (ring_keys ring @ ks)"
proof (induction ks rule: rev_induct)
  case Nil
  then show ?case by (simp add: ring_ok_def)
next
  case (snoc k ks)
  define ys where "ys = ring_keys ring @ ks"
  have ih: "ring_keys (foldl rotate_in ring ks) = drop (length ys - ring_max ring) ys"
    unfolding ys_def using snoc by blast
  have "ring_keys (foldl rotate_in ring (ks @ [k])) = ring_keys (rotate_in (foldl rotate_in ring ks) k)" by simp
  also have "\<dots> = drop (length (ys @ [k]) - ring_max ring) (ys @ [k])"
    unfolding rotate_keys rotate_all_max ih using snoc.prems by (intro drop_window) (simp add: ring_ok_def)
  also have "ys @ [k] = ring_keys ring @ ks @ [k]" by (simp add: ys_def)
  finally show ?case .
qed

lemma find_distinct:
  "distinct (map f xs) \<Longrightarrow> x \<in> set xs \<Longrightarrow> find (\<lambda>k. f k = f x) xs = Some x"
  by (induction xs) (auto simp: rev_image_eqI)

lemma redeem_minted:
  assumes "aead_ok c" "keys_ok keys" "length nonce = COOKIE_NONCE_LEN"
    "encrypt c (mk_key m) [cookie_header m nonce] (key_payload keys) = Some sealed"
  shows "redeem c ring (cookie_header m nonce @ sealed) =
    (case by_id ring (mk_id m) of None \<Rightarrow> Inl (UnknownKeyId (mk_id m))
     | Some k \<Rightarrow> if mk_key k = mk_key m then Inr keys else redeem c ring (cookie_header m nonce @ sealed))"
proof -
  have ls: "length sealed = 80"
    using aead_length[OF assms(1,4)] assms(2) by (simp add: key_payload_def keys_ok_def)
  have d: "decrypt c (mk_key m) [cookie_header m nonce] sealed = Some (key_payload keys)"
    using assms by (simp add: aead_ok_def)
  have h: "length (cookie_header m nonce) = 20" using assms(3) by (simp add: cookie_header_def COOKIE_NONCE_LEN_def)
  have i: "(of_be (take 4 (cookie_header m nonce)) :: u32) = mk_id m"
    by (simp add: cookie_header_def of_be_to_be_id)
  show ?thesis
    using d h ls assms(2)
    by (cases "by_id ring (mk_id m)")
      (auto simp: redeem_def i h Let_def KEY_ID_LEN_def COOKIE_NONCE_LEN_def open_aead_def key_payload_def keys_ok_def)
qed

lemma by_id_present:
  "distinct (key_ids ring) \<Longrightarrow> m \<in> set (ring_keys ring) \<Longrightarrow> by_id ring (mk_id m) = Some m"
  unfolding by_id_def key_ids_def by (rule find_distinct)

lemma by_id_absent: "mk_id m \<notin> set (key_ids ring) \<Longrightarrow> by_id ring (mk_id m) = None"
  unfolding by_id_def key_ids_def find_None_iff by (metis image_eqI set_map)

lemma last_in_drop: "xs \<noteq> [] \<Longrightarrow> n < length xs + length ys \<Longrightarrow> n < length xs \<Longrightarrow> last xs \<in> set (drop n (xs @ ys))"
  by simp (metis last_drop last_in_set drop_eq_Nil not_le)

text \<open>C20: a cookie is good for exactly as long as its master key is retained.  With
distinct key ids, a cookie minted now gives back exactly the session keys after any number of rotations
smaller than the ring's retention, and after that many or more it is refused as naming an unknown key.\<close>

theorem cookie_lifetime:
  assumes "aead_ok c" "keys_ok keys" "length nonce = COOKIE_NONCE_LEN" "ring_ok ring"
    "mint c ring keys nonce = Inr cookie" "distinct (map mk_id (ring_keys ring @ ks))"
  shows "redeem c (foldl rotate_in ring ks) cookie =
    (if length ks < ring_max ring then Inr keys
     else Inl (UnknownKeyId (mk_id (last (ring_keys ring)))))"
proof -
  let ?m = "last (ring_keys ring)" and ?ring = "foldl rotate_in ring ks"
  let ?n = "length (ring_keys ring @ ks) - ring_max ring"
  from assms(5) obtain sealed where ne: "ring_keys ring \<noteq> []" and
    s: "encrypt c (mk_key ?m) [cookie_header ?m nonce] (key_payload keys) = Some sealed"
    and cookie: "cookie = cookie_header ?m nonce @ sealed"
    unfolding mint_Inr by (auto simp: ring_current_def split: if_splits)
  have keys: "ring_keys ?ring = drop ?n (ring_keys ring @ ks)" by (rule rotate_all_keys[OF assms(4)])
  have dist: "distinct (key_ids ?ring)"
    unfolding key_ids_def keys drop_map[symmetric] by (rule distinct_drop[OF assms(6)])
  note r = redeem_minted[OF assms(1-3) s, of ?ring, folded cookie]
  show ?thesis
  proof (cases "length ks < ring_max ring")
    case True
    then have "?n < length (ring_keys ring)" using ne by (cases "ring_keys ring") auto
    then have "?m \<in> set (ring_keys ?ring)" unfolding keys by (intro last_in_drop) (use ne in auto)
    then have "by_id ?ring (mk_id ?m) = Some ?m" by (rule by_id_present[OF dist])
    then show ?thesis using r True by simp
  next
    case False
    then have "length (ring_keys ring) \<le> ?n" using assms(4) by (simp add: ring_ok_def)
    then have "set (ring_keys ?ring) \<subseteq> set ks" unfolding keys by (auto dest: in_set_dropD)
    moreover have "mk_id ?m \<notin> mk_id ` set ks" using assms(6) ne by (auto simp: image_iff)
        (metis IntI empty_iff image_eqI last_in_set)
    ultimately have "by_id ?ring (mk_id ?m) = None" by (intro by_id_absent) (auto simp: key_ids_def)
    then show ?thesis using r False by simp
  qed
qed

lemma cookie_lifetime_witness:
  "let ring = rotate_in (ring_new 3) \<lparr> mk_id = 7, mk_key = zeros 32 \<rparr>;
       keys = \<lparr> k_c2s = zeros 32, k_s2c = zeros 32 \<rparr>;
       ks = map (\<lambda>i. \<lparr> mk_id = i, mk_key = zeros 32 \<rparr>) [8, 9, 10] in
   \<exists>cookie. mint null_cipher ring keys (zeros 16) = Inr cookie \<and>
     redeem null_cipher (foldl rotate_in ring (take 2 ks)) cookie = Inr keys \<and>
     redeem null_cipher (foldl rotate_in ring ks) cookie = Inl (UnknownKeyId 7)"
proof -
  let ?ring = "rotate_in (ring_new 3) \<lparr> mk_id = 7, mk_key = zeros 32 \<rparr>"
  let ?keys = "\<lparr> k_c2s = zeros 32, k_s2c = zeros 32 \<rparr>"
  let ?ks = "map (\<lambda>i. \<lparr> mk_id = i, mk_key = zeros 32 \<rparr>) [8, 9, 10 :: u32]"
  have rk: "ring_keys ?ring = [\<lparr> mk_id = 7, mk_key = zeros 32 \<rparr>]" "ring_max (ring_new 3) = 3"
    by (simp_all add: rotate_in_def ring_new_def)
  have ok: "keys_ok ?keys" "length (zeros 16) = COOKIE_NONCE_LEN" "ring_ok ?ring"
    by (simp_all add: keys_ok_def COOKIE_NONCE_LEN_def ring_ok_def rk)
  obtain cookie where c: "mint null_cipher ?ring ?keys (zeros 16) = Inr cookie"
    using mint_some[OF null_cipher_ok, of ?ring] rk by auto
  have "redeem null_cipher (foldl rotate_in ?ring (take 2 ?ks)) cookie = Inr ?keys"
    using cookie_lifetime[OF null_cipher_ok ok c, of "take 2 ?ks"] by (simp add: rk)
  moreover have "redeem null_cipher (foldl rotate_in ?ring ?ks) cookie = Inl (UnknownKeyId 7)"
    using cookie_lifetime[OF null_cipher_ok ok c, of ?ks] by (simp add: rk)
  ultimately show ?thesis using c unfolding Let_def by blast
qed

text \<open>Nothing but an own cookie redeems.  A cookie that redeems is the id of a retained
master key, a nonce, and the encryption under that very key of exactly the session keys it yields, bound
to that id and nonce.\<close>

theorem redeem_only_own:
  assumes "aead_ok c" "redeem c ring cookie = Inr keys"
  shows "\<exists>m\<in>set (ring_keys ring). \<exists>nonce sealed. cookie = cookie_header m nonce @ sealed \<and>
    length nonce = COOKIE_NONCE_LEN \<and>
    encrypt c (mk_key m) [cookie_header m nonce] (key_payload keys) = Some sealed \<and> keys_ok keys"
proof -
  from assms(2) obtain m payload where
    len: "36 \<le> length cookie" and m: "by_id ring (of_be (take 4 cookie)) = Some m"
    and o: "decrypt c (mk_key m) [take 20 cookie] (drop 20 cookie) = Some payload" "length payload = 64"
    and k: "keys = \<lparr> k_c2s = take 32 payload, k_s2c = drop 32 payload \<rparr>"
    by (auto simp: redeem_def Let_def open_aead_def KEY_ID_LEN_def COOKIE_NONCE_LEN_def
        split: if_splits option.splits sum.splits)
  have in_ring: "m \<in> set (ring_keys ring)" "mk_id m = of_be (take 4 cookie)"
    using m by (auto simp: by_id_def find_Some_iff)
  have h: "cookie_header m (slice cookie 4 20) = take 20 cookie"
  proof -
    have "to_be 4 (mk_id m) = take 4 cookie"
      using to_be_of_be[of "take 4 cookie", where 'a = 32] len in_ring(2) by simp
    moreover have "take 4 cookie @ slice cookie 4 20 = take 20 cookie"
      using take_add[of 4 16 cookie] by (simp add: slice_def)
    ultimately show ?thesis by (simp add: cookie_header_def)
  qed
  have "key_payload keys = payload" by (simp add: k key_payload_def)
  then have "encrypt c (mk_key m) [cookie_header m (slice cookie 4 20)] (key_payload keys) = Some (drop 20 cookie)"
    using o(1) assms(1) by (simp add: aead_decrypts h)
  moreover have "cookie = cookie_header m (slice cookie 4 20) @ drop 20 cookie" by (simp add: h)
  moreover have "length (slice cookie 4 20) = COOKIE_NONCE_LEN" "keys_ok keys"
    using len o(2) by (simp_all add: length_slice COOKIE_NONCE_LEN_def keys_ok_def k)
  ultimately show ?thesis using in_ring(1) by blast
qed

lemma redeem_only_own_witness:
  "let m = \<lparr> mk_id = 7, mk_key = zeros 32 \<rparr>; ring = \<lparr> ring_keys = [m], ring_max = 3 \<rparr>;
       keys = \<lparr> k_c2s = zeros 32, k_s2c = zeros 32 \<rparr> in
   \<exists>cookie nonce sealed. redeem null_cipher ring cookie = Inr keys \<and> cookie = cookie_header m nonce @ sealed \<and>
     encrypt null_cipher (mk_key m) [cookie_header m nonce] (key_payload keys) = Some sealed"
proof -
  define m where "m = \<lparr> mk_id = 7, mk_key = zeros 32 \<rparr>"
  define ring where "ring = \<lparr> ring_keys = [m], ring_max = 3 \<rparr>"
  define keys where "keys = \<lparr> k_c2s = zeros 32, k_s2c = zeros 32 \<rparr>"
  obtain sealed where s: "encrypt null_cipher (mk_key m) [cookie_header m (zeros 16)] (key_payload keys) = Some sealed"
    using aead_encrypts[OF null_cipher_ok] by blast
  have "redeem null_cipher ring (cookie_header m (zeros 16) @ sealed) = Inr keys"
    using redeem_minted[OF null_cipher_ok _ _ s, of ring]
    by (simp add: keys_def keys_ok_def COOKIE_NONCE_LEN_def ring_def by_id_def)
  with redeem_only_own[OF null_cipher_ok this] show ?thesis
    unfolding Let_def m_def[symmetric] ring_def[symmetric] keys_def[symmetric] by (auto simp: ring_def)
qed

end
