(* ===== verification/ServerReply.thy ===== *)
theory ServerReply
  imports NtsCookie TableRuns
begin

text \<open>The NTP responder of \<open>crates/rusty_time-daemon/src/server.rs\<close>: the server state behind one lock, the
reply to one request on every path (refused, rate limited, plain, interleaved, NTS, NTS NAK) and one turn
of the serving loop.  The operating system is a parameter: what the clocks and the random source return
during the call (\<open>Env\<close>), and the addresses, an arbitrary type with its \<open>Hash\<close> writes \<open>kh\<close>.  An outer
\<open>None\<close> is a panic.\<close>

section \<open>State\<close>

record 'k SocketAddr =
  sa_ip :: 'k
  sa_port :: u16

definition client_key :: "'k SocketAddr \<Rightarrow> 'k" where "client_key peer = sa_ip peer"

definition CLIENT_TABLE_CAPACITY :: nat where "CLIENT_TABLE_CAPACITY = 16384"
definition MAX_REPLY_COOKIES :: nat where "MAX_REPLY_COOKIES = 8"

record Upstream =
  up_leap :: LeapIndicator
  up_reference_id :: bytes
  up_root_delay_s :: f64
  up_root_dispersion_s :: f64

definition REFERENCE :: Upstream where
  "REFERENCE = \<lparr> up_leap = NoWarning, up_reference_id = ascii ''RSTY'', up_root_delay_s = FFin 0,
     up_root_dispersion_s = flit (1 / 10000) \<rparr>"

definition UNSYNCHRONIZED :: Upstream where
  "UNSYNCHRONIZED = \<lparr> up_leap = Unsynchronized, up_reference_id = ascii ''INIT'', up_root_delay_s = FFin 0,
     up_root_dispersion_s = FFin 0 \<rparr>"

definition STRATUM_UNSYNCHRONIZED :: u8 where "STRATUM_UNSYNCHRONIZED = 16"

record 'k ServerState =
  sv_clients :: "'k ClientTable"
  sv_ring :: KeyRing
  sv_stratum :: u8
  sv_upstream :: Upstream
  sv_started_unix :: u64

definition following_state :: "u64 \<Rightarrow> KeyRing \<Rightarrow> u64 \<Rightarrow> 'k ServerState option" where
  "following_state seed ring started = map_option (\<lambda>clients. \<lparr>
     sv_clients = clients, sv_ring = ring, sv_stratum = STRATUM_UNSYNCHRONIZED, sv_upstream = UNSYNCHRONIZED,
     sv_started_unix = started \<rparr>) (table_new CLIENT_TABLE_CAPACITY rate_limit_default seed)"

definition serving_state :: "u64 \<Rightarrow> RateLimitConfig \<Rightarrow> KeyRing \<Rightarrow> u8 \<Rightarrow> u64 \<Rightarrow> 'k ServerState option" where
  "serving_state seed rate_limit ring stratum started = map_option (\<lambda>clients. \<lparr>
     sv_clients = clients, sv_ring = ring, sv_stratum = stratum, sv_upstream = REFERENCE,
     sv_started_unix = started \<rparr>) (table_new CLIENT_TABLE_CAPACITY rate_limit seed)"

text \<open>\<open>en_rand i n\<close> is the call's \<open>i\<close>-th draw, of \<open>n\<close> bytes.\<close>

record Env =
  en_mono :: "f64 option"
  en_wall :: "(64 word \<times> u32) option"
  en_rand :: "nat \<Rightarrow> nat \<Rightarrow> bytes option"

definition fresh_key_ring :: "(nat \<Rightarrow> nat \<Rightarrow> bytes option) \<Rightarrow> KeyRing option" where
  "fresh_key_ring rand =
     (case rand 0 32 of None \<Rightarrow> None | Some key \<Rightarrow>
        (case rand 1 4 of None \<Rightarrow> None | Some id_bytes \<Rightarrow>
           Some (rotate_in (ring_new 3) \<lparr> mk_id = of_be id_bytes, mk_key = key \<rparr>)))"

definition unix_parts_to_ntp :: "64 word \<Rightarrow> u32 \<Rightarrow> NtpTimestamp" where
  "unix_parts_to_ntp secs nanos = from_unix secs nanos"

section \<open>Refusals\<close>

definition kiss_packet :: "NtpPacket \<Rightarrow> NtpTimestamp \<Rightarrow> NtpPacket" where
  "kiss_packet request recv_ts = \<lparr>
     p_leap = NoWarning, p_version = p_version request, p_mode = Server, p_stratum = 0, p_poll = p_poll request,
     p_precision = - 20, p_root_delay = NtpShort 0, p_root_dispersion = NtpShort 0,
     p_reference_id = ascii ''RATE'', p_reference_ts = ts_ZERO, p_origin_ts = p_transmit_ts request,
     p_receive_ts = recv_ts, p_transmit_ts = recv_ts \<rparr>"

definition kiss_of_death :: "NtpPacket \<Rightarrow> NtpTimestamp \<Rightarrow> bytes" where
  "kiss_of_death request recv_ts = to_bytes (kiss_packet request recv_ts)"

definition nts_nak :: "NtpPacket \<Rightarrow> NtpTimestamp \<Rightarrow> bytes \<Rightarrow> bytes" where
  "nts_nak request recv_ts unique_id =
     (let header = kiss_of_death request recv_ts in
      write_field (take 12 header @ ascii ''NTSN'' @ drop 16 header) UNIQUE_IDENTIFIER unique_id)"

section \<open>One reply\<close>

datatype ReplyBytes = Plain bytes | Extended bytes

fun as_slice :: "ReplyBytes \<Rightarrow> bytes" where
  "as_slice (Plain b) = b"
| "as_slice (Extended b) = b"

record Reply =
  re_bytes :: ReplyBytes
  re_handle :: ClientHandle

text \<open>What the locked per-client section hands to the rest of the reply.\<close>

record Locked =
  lk_disposition :: Disposition
  lk_handle :: ClientHandle
  lk_mode :: ResponseMode
  lk_stratum :: u8
  lk_upstream :: Upstream
  lk_receive :: NtpTimestamp
  lk_transmit :: NtpTimestamp

definition locked_refusal :: "Disposition \<Rightarrow> ClientHandle \<Rightarrow> NtpTimestamp \<Rightarrow> Locked" where
  "locked_refusal d h recv_ts = \<lparr> lk_disposition = d, lk_handle = h, lk_mode = Basic, lk_stratum = 0,
     lk_upstream = REFERENCE, lk_receive = recv_ts, lk_transmit = recv_ts \<rparr>"

definition mode_fields :: "ResponseMode \<Rightarrow> NtpTimestamp \<Rightarrow> NtpTimestamp \<times> NtpTimestamp" where
  "mode_fields mode recv_ts =
     (case mode of Basic \<Rightarrow> mark_server_timestamps recv_ts recv_ts
      | Interleaved prev_transmit \<Rightarrow> mark_server_timestamps recv_ts prev_transmit)"

definition respond_section :: "ClientHandle \<Rightarrow> NtpPacket \<Rightarrow> NtpTimestamp \<Rightarrow> 'k ServerState \<Rightarrow> Locked \<times> 'k ServerState" where
  "respond_section h parsed recv_ts sv =
     (let (mode, clients) = response_mode_at h (p_origin_ts parsed) (sv_clients sv);
          (receive_field, transmit_field) = mode_fields mode recv_ts
      in (\<lparr> lk_disposition = Respond, lk_handle = h, lk_mode = mode, lk_stratum = sv_stratum sv,
            lk_upstream = sv_upstream sv, lk_receive = receive_field, lk_transmit = transmit_field \<rparr>,
          sv\<lparr> sv_clients := note_response_at h recv_ts receive_field clients \<rparr>))"

definition locked_section ::
  "('k \<Rightarrow> HashWrite list) \<Rightarrow> 'k \<Rightarrow> f64 \<Rightarrow> NtpPacket \<Rightarrow> NtpTimestamp \<Rightarrow> 'k ServerState \<Rightarrow> (Locked \<times> 'k ServerState) option" where
  "locked_section kh key now parsed recv_ts sv =
     (case admit_handle kh key now (sv_clients sv) of
        None \<Rightarrow> None
      | Some ((d, h), clients) \<Rightarrow>
          Some (if d \<noteq> Respond then (locked_refusal d h recv_ts, sv\<lparr> sv_clients := clients \<rparr>)
                else respond_section h parsed recv_ts (sv\<lparr> sv_clients := clients \<rparr>)))"

text \<open>The request's NTS fields, up to and including the authenticator.\<close>

record NtsRequest =
  rq_cookie :: "bytes option"
  rq_unique_id :: "bytes option"
  rq_placeholders :: nat
  rq_auth :: "Field option"

fun scan_request :: "Field list \<Rightarrow> NtsRequest \<Rightarrow> NtsRequest" where
  "scan_request [] q = q"
| "scan_request (f # fs) q =
     (if f_type f = NTS_COOKIE then scan_request fs (q\<lparr> rq_cookie := Some (f_body f) \<rparr>)
      else if f_type f = UNIQUE_IDENTIFIER then scan_request fs (q\<lparr> rq_unique_id := Some (f_body f) \<rparr>)
      else if f_type f = NTS_COOKIE_PLACEHOLDER then scan_request fs (q\<lparr> rq_placeholders := rq_placeholders q + 1 \<rparr>)
      else if f_type f = NTS_AUTHENTICATOR then q\<lparr> rq_auth := Some f \<rparr>
      else scan_request fs q)"

definition nts_request :: "bytes \<Rightarrow> NtsRequest" where
  "nts_request request =
     scan_request (NtsFields.fields request) \<lparr> rq_cookie = None, rq_unique_id = None, rq_placeholders = 0, rq_auth = None \<rparr>"

definition origin_field :: "ResponseMode \<Rightarrow> NtpPacket \<Rightarrow> NtpTimestamp" where
  "origin_field mode parsed = (case mode of Basic \<Rightarrow> p_transmit_ts parsed | Interleaved _ \<Rightarrow> p_receive_ts parsed)"

definition reply_header :: "NtpPacket \<Rightarrow> NtpTimestamp \<Rightarrow> Locked \<Rightarrow> NtpPacket" where
  "reply_header parsed recv_ts lk = \<lparr>
     p_leap = up_leap (lk_upstream lk), p_version = p_version parsed, p_mode = Server, p_stratum = lk_stratum lk,
     p_poll = p_poll parsed, p_precision = - 20,
     p_root_delay = short_from_seconds (up_root_delay_s (lk_upstream lk)),
     p_root_dispersion = short_from_seconds (up_root_dispersion_s (lk_upstream lk)),
     p_reference_id = up_reference_id (lk_upstream lk), p_reference_ts = recv_ts,
     p_origin_ts = origin_field (lk_mode lk) parsed, p_receive_ts = lk_receive lk, p_transmit_ts = lk_transmit lk \<rparr>"

definition stamp_transmit :: "Env \<Rightarrow> ResponseMode \<Rightarrow> NtpPacket \<Rightarrow> NtpPacket option" where
  "stamp_transmit env mode header =
     (if mode = Basic then
        (case en_wall env of None \<Rightarrow> None
         | Some (s, n) \<Rightarrow> Some (header\<lparr> p_transmit_ts :=
             snd (mark_server_timestamps (p_receive_ts header) (unix_parts_to_ntp s n)) \<rparr>))
      else Some header)"

definition verify_client_authenticator :: "Aead \<Rightarrow> bytes \<Rightarrow> Field \<Rightarrow> bytes \<Rightarrow> unit option" where
  "verify_client_authenticator c request auth c2s =
     (let body = f_body auth in
      if length body < 4 then None
      else let nonce_len = auth_nonce_len body; ct_start = auth_ct_start body; ct_end = ct_start + auth_ct_len body in
        if nonce_len = 0 \<or> length body < ct_end then None
        else case get_slice body 4 (4 + nonce_len) of None \<Rightarrow> None | Some nonce \<Rightarrow>
          (case get_slice body ct_start ct_end of None \<Rightarrow> None | Some ciphertext \<Rightarrow>
            (case get_slice request 0 (f_offset auth) of None \<Rightarrow> None | Some aad \<Rightarrow>
              (case open_aead c c2s [aad, nonce] ciphertext of Inl _ \<Rightarrow> None | Inr _ \<Rightarrow> Some ()))))"

definition want_cookies :: "nat \<Rightarrow> nat" where
  "want_cookies placeholders = min (1 + placeholders) MAX_REPLY_COOKIES"

definition split_nonces :: "nat \<Rightarrow> bytes \<Rightarrow> bytes list" where
  "split_nonces want bs = map (\<lambda>i. slice bs (i * COOKIE_NONCE_LEN) ((i + 1) * COOKIE_NONCE_LEN)) [0..<want]"

definition fresh_cookies :: "Aead \<Rightarrow> Env \<Rightarrow> KeyRing \<Rightarrow> NtsKeys \<Rightarrow> nat \<Rightarrow> bytes option" where
  "fresh_cookies c env ring keys want =
     (case en_rand env 0 (want * COOKIE_NONCE_LEN) of None \<Rightarrow> None
      | Some bs \<Rightarrow> (case mint_fields_into c ring keys (split_nonces want bs) [] of Inl _ \<Rightarrow> None | Inr pt \<Rightarrow> Some pt))"

definition sealed_reply :: "Aead \<Rightarrow> Env \<Rightarrow> NtsKeys \<Rightarrow> bytes \<Rightarrow> bytes \<Rightarrow> bytes \<Rightarrow> bytes option" where
  "sealed_reply c env keys header unique_id plaintext =
     (let reply = write_field header UNIQUE_IDENTIFIER (take (min (length unique_id) UNIQUE_ID_LEN) unique_id) in
      case en_rand env 1 NONCE_LEN of None \<Rightarrow> None
      | Some nonce \<Rightarrow>
          (case seal c (k_s2c keys) [reply, nonce] plaintext of Inl _ \<Rightarrow> None
           | Inr ciphertext \<Rightarrow> Some (write_authenticator reply nonce ciphertext)))"

definition protected_reply ::
  "Aead \<Rightarrow> Env \<Rightarrow> KeyRing \<Rightarrow> NtsKeys \<Rightarrow> bytes \<Rightarrow> nat \<Rightarrow> ResponseMode \<Rightarrow> NtpPacket \<Rightarrow> bytes option" where
  "protected_reply c env ring keys unique_id placeholders mode header =
     (case fresh_cookies c env ring keys (want_cookies placeholders) of None \<Rightarrow> None
      | Some plaintext \<Rightarrow>
          (case stamp_transmit env mode header of None \<Rightarrow> None
           | Some header' \<Rightarrow> sealed_reply c env keys (to_bytes header') unique_id plaintext))"

definition nts_reply ::
  "Aead \<Rightarrow> Env \<Rightarrow> KeyRing \<Rightarrow> bytes \<Rightarrow> NtpPacket \<Rightarrow> NtpTimestamp \<Rightarrow> NtsRequest \<Rightarrow> Field \<Rightarrow> ResponseMode \<Rightarrow> NtpPacket \<Rightarrow> bytes option" where
  "nts_reply c env ring request parsed recv_ts q auth mode header =
     (case rq_cookie q of None \<Rightarrow> None | Some cookie \<Rightarrow>
       (case rq_unique_id q of None \<Rightarrow> None | Some unique_id \<Rightarrow>
         (case redeem c ring cookie of
            Inl _ \<Rightarrow> Some (nts_nak parsed recv_ts unique_id)
          | Inr keys \<Rightarrow>
              (case verify_client_authenticator c request auth (k_c2s keys) of None \<Rightarrow> None
               | Some _ \<Rightarrow> protected_reply c env ring keys unique_id (rq_placeholders q) mode header))))"

definition respond_bytes ::
  "Aead \<Rightarrow> Env \<Rightarrow> KeyRing \<Rightarrow> bytes \<Rightarrow> NtpPacket \<Rightarrow> NtpTimestamp \<Rightarrow> Locked \<Rightarrow> ReplyBytes option" where
  "respond_bytes c env ring request parsed recv_ts lk =
     (let q = nts_request request; header = reply_header parsed recv_ts lk in
      case rq_auth q of
        None \<Rightarrow> map_option (\<lambda>h. Plain (to_bytes h)) (stamp_transmit env (lk_mode lk) header)
      | Some auth \<Rightarrow> map_option Extended (nts_reply c env ring request parsed recv_ts q auth (lk_mode lk) header))"

definition reply_bytes ::
  "Aead \<Rightarrow> Env \<Rightarrow> KeyRing \<Rightarrow> bytes \<Rightarrow> NtpPacket \<Rightarrow> NtpTimestamp \<Rightarrow> Locked \<Rightarrow> ReplyBytes option" where
  "reply_bytes c env ring request parsed recv_ts lk =
     (case lk_disposition lk of
        Respond \<Rightarrow> respond_bytes c env ring request parsed recv_ts lk
      | KissOfDeath \<Rightarrow> Some (Plain (kiss_of_death parsed recv_ts))
      | Drop \<Rightarrow> None)"

definition refused :: "'k ServerState \<Rightarrow> 'k ServerState" where
  "refused sv = sv\<lparr> sv_clients := note_refused (sv_clients sv) \<rparr>"

definition build_reply_in ::
  "('k \<Rightarrow> HashWrite list) \<Rightarrow> Aead \<Rightarrow> Env \<Rightarrow> bytes \<Rightarrow> 'k SocketAddr \<Rightarrow> NtpTimestamp \<Rightarrow> 'k ServerState \<Rightarrow>
   (Reply option \<times> 'k ServerState) option" where
  "build_reply_in kh c env request peer recv_ts sv =
     (if length request < HEADER_LEN then Some (None, refused sv)
      else case parse request of
        Inl _ \<Rightarrow> Some (None, refused sv)
      | Inr parsed \<Rightarrow>
          if p_mode parsed \<noteq> Client then Some (None, refused sv)
          else case en_mono env of
            None \<Rightarrow> Some (None, sv)
          | Some now \<Rightarrow>
              (case locked_section kh (client_key peer) now parsed recv_ts sv of
                 None \<Rightarrow> None
               | Some (lk, sv') \<Rightarrow>
                   Some (map_option (\<lambda>b. \<lparr> re_bytes = b, re_handle = lk_handle lk \<rparr>)
                           (reply_bytes c env (sv_ring sv') request parsed recv_ts lk), sv')))"

section \<open>One turn of the serving loop\<close>

record 'k Datagram =
  dg_buf :: bytes
  dg_len :: nat
  dg_peer :: "'k SocketAddr"
  dg_env :: Env

fun build_batch ::
  "('k \<Rightarrow> HashWrite list) \<Rightarrow> Aead \<Rightarrow> NtpTimestamp \<Rightarrow> 'k Datagram list \<Rightarrow> 'k ServerState \<Rightarrow>
   ((Reply \<times> 'k SocketAddr) list \<times> 'k ServerState) option" where
  "build_batch kh c recv_ts [] sv = Some ([], sv)"
| "build_batch kh c recv_ts (d # ds) sv =
     (case build_reply_in kh c (dg_env d) (take (min (dg_len d) (length (dg_buf d))) (dg_buf d)) (dg_peer d) recv_ts sv of
        None \<Rightarrow> None
      | Some (r, sv') \<Rightarrow>
          (case build_batch kh c recv_ts ds sv' of None \<Rightarrow> None
           | Some (rs, sv'') \<Rightarrow> Some ((case r of None \<Rightarrow> [] | Some reply \<Rightarrow> [(reply, dg_peer d)]) @ rs, sv'')))"

definition note_sent :: "NtpTimestamp \<Rightarrow> (Reply \<times> 'k SocketAddr) list \<Rightarrow> 'k ServerState \<Rightarrow> 'k ServerState" where
  "note_sent transmit replies sv =
     foldl (\<lambda>s (reply, _). s\<lparr> sv_clients := note_transmit_at (re_handle reply) transmit (sv_clients s) \<rparr>) sv replies"

text \<open>\<open>wall\<close> and \<open>wall_after\<close> are the two clock readings of the turn, \<open>sent\<close> what the send reported.\<close>

definition serve_turn ::
  "('k \<Rightarrow> HashWrite list) \<Rightarrow> Aead \<Rightarrow> (64 word \<times> u32) option \<Rightarrow> 'k Datagram list \<Rightarrow> nat \<Rightarrow> (64 word \<times> u32) option \<Rightarrow>
   'k ServerState \<Rightarrow> ((Reply \<times> 'k SocketAddr) list \<times> 'k ServerState) option" where
  "serve_turn kh c wall batch sent wall_after sv =
     (case wall of None \<Rightarrow> Some ([], sv)
      | Some (s, n) \<Rightarrow>
          (case build_batch kh c (unix_parts_to_ntp s n) batch sv of None \<Rightarrow> None
           | Some (replies, sv') \<Rightarrow>
               Some (replies,
                 if 0 < sent then
                   (case wall_after of None \<Rightarrow> sv'
                    | Some (s', n') \<Rightarrow> note_sent (unix_parts_to_ntp s' n') (take sent replies) sv')
                 else sv')))"

end
