(* ===== verification/ServerRuns.thy ===== *)
theory ServerRuns
  imports ServerReply
begin

text \<open>What the responder of \<open>ServerReply\<close> guarantees: no panic and an intact table over any turn of the
loop, bounded replies only to client requests, the pairing of times the next request of a client is compared
with, and silence towards requests whose authenticator does not verify.\<close>

section \<open>The per-client section\<close>

definition sv_ok :: "('k \<Rightarrow> HashWrite list) \<Rightarrow> 'k ServerState \<Rightarrow> bool" where
  "sv_ok kh sv \<longleftrightarrow> (\<exists>xs. tbl_ok kh (sv_clients sv) xs) \<and> length (up_reference_id (sv_upstream sv)) = 4"

text \<open>The handle naming a client now.\<close>

definition names :: "'k ClientTable \<Rightarrow> 'k \<Rightarrow> ClientHandle \<Rightarrow> bool" where
  "names t key h \<longleftrightarrow> (\<exists>i. kmap t key = Some i \<and> h = \<lparr> ch_slot = i, ch_generation = sl_generation (tb_slots t ! unat i) \<rparr>)"

lemma respond_not_invalid:
  assumes t: "tbl_ok kh t xs" and a: "admit_handle kh key now t = Some ((Respond, h), t')"
  shows "h \<noteq> INVALID"
proof -
  define t1 where "t1 = global_step now t"
  have t1: "tbl_ok kh t1 xs" using t by (simp add: t1_def core_cong[OF core_global_step])
  have "fst (deny_global t1) \<noteq> Respond" by (simp add: deny_global_def Let_def)
  then have nb: "\<not> global_blocked t1" using a by (auto simp: admit_handle_def t1_def Let_def)
  obtain i ys t2 where 2: "slot_for kh key now t1 = Some (i, t2)" "tbl_ok kh t2 (i # ys)"
    using slot_for_spec[OF t1, of key now] by blast
  then have "charge_slot i now t2 = Some ((Respond, h), t')"
    using a nb by (simp add: admit_handle_def t1_def[symmetric])
  then have "ch_slot h = i"
    by (auto simp: charge_slot_def handle_for_def Let_def split: bind_splits prod.splits)
  then show ?thesis using tbl_range[OF 2(2), of i] by (auto simp: INVALID_def)
qed

lemma names_iff: "tbl_ok kh t xs \<Longrightarrow> i \<in> set xs \<Longrightarrow> sl_key (tb_slots t ! unat i) = key \<Longrightarrow>
    names t key \<lparr> ch_slot = i, ch_generation = sl_generation (tb_slots t ! unat i) \<rparr>"
  using tbl_key[of kh t xs key i] by (auto simp: names_def)

lemma names_ops:
  assumes t: "tbl_ok kh t xs" and h: "names t key h"
  shows "response_mode kh key origin t = Some (response_mode_at h origin t)"
    "note_response kh key r s t = Some (note_response_at h r s t)"
    "note_transmit kh key tx t = Some (note_transmit_at h tx t)"
proof -
  obtain i where i: "kmap t key = Some i" "h = \<lparr> ch_slot = i, ch_generation = sl_generation (tb_slots t ! unat i) \<rparr>"
    using h by (auto simp: names_def)
  have il: "unat i < length (tb_slots t)" using i tbl_key[OF t, of key i] tbl_range[OF t, of i] by simp
  show "response_mode kh key origin t = Some (response_mode_at h origin t)"
    "note_response kh key r s t = Some (note_response_at h r s t)"
    "note_transmit kh key tx t = Some (note_transmit_at h tx t)"
    using il by (simp_all add: response_mode_def note_response_def note_transmit_def tbl_get[OF t] i handle_now
        slot_at_def note_transmit_at_def resolve_now)
qed

text \<open>What the next request of a client is compared with: the receive and transmit times it was last told.\<close>

definition pairing :: "('k \<times> ClientRecord) list \<Rightarrow> 'k \<Rightarrow> NtpTimestamp \<times> NtpTimestamp" where
  "pairing cs key = (case map_of cs key of None \<Rightarrow> (ts_ZERO, ts_ZERO)
     | Some r \<Rightarrow> (cl_last_receive_sent r, cl_last_transmit r))"

definition pair_mode :: "NtpTimestamp \<times> NtpTimestamp \<Rightarrow> NtpTimestamp \<Rightarrow> ResponseMode" where
  "pair_mode p origin =
     (if ts_is_zero (fst p) \<or> ts_is_zero (snd p) \<or> origin \<noteq> fst p \<or> ts_is_zero origin then Basic else Interleaved (snd p))"

lemma choose_pair: "fst (choose_mode r origin) = pair_mode (cl_last_receive_sent r, cl_last_transmit r) origin"
  by (auto simp: choose_mode_def pair_mode_def Let_def)

lemma choose_keeps: "cl_last_receive_sent (snd (choose_mode r origin)) = cl_last_receive_sent r \<and>
    cl_last_transmit (snd (choose_mode r origin)) = cl_last_transmit r"
  by (auto simp: choose_mode_def Let_def)

lemma map_of_spec_map: "map_of (spec_map key f cs) k = (if k = key then map_option f (map_of cs k) else map_of cs k)"
  by (induction cs) (auto simp: spec_map_def)

lemma charge_keeps: "cl_last_receive_sent (snd (charge_record cfg rate now r)) = cl_last_receive_sent r \<and>
    cl_last_transmit (snd (charge_record cfg rate now r)) = cl_last_transmit r"
  by (simp add: charge_record_def refill_record_def Let_def)

lemma admit_respond:
  assumes t: "tbl_ok kh t xs" and a: "admit_handle kh key now t = Some ((Respond, h), t')"
  shows "\<exists>ys. tbl_ok kh t' ys \<and> names t' key h \<and> map_of (view t' ys) key \<noteq> None \<and>
    pairing (view t' ys) key = pairing (view t xs) key"
proof -
  obtain ys where ys: "tbl_ok kh t' ys"
    "(Respond, spec_of t' ys) = spec_admit (tb_capacity t) (tb_config t) (tb_refill_per_s t) key now (spec_of t xs)"
    "h = INVALID \<or> (\<exists>i \<in> set ys. h = \<lparr> ch_slot = i, ch_generation = sl_generation (tb_slots t' ! unat i) \<rparr> \<and>
       sl_key (tb_slots t' ! unat i) = key)"
    using admit_spec[OF t, of key now] a by auto
  have n: "names t' key h" using ys(3) respond_not_invalid[OF t a] names_iff[OF ys(1)] by blast
  define s1 where "s1 = spec_refill (tb_config t) now (spec_of t xs)"
  have c1: "sp_clients s1 = view t xs" by (simp add: s1_def spec_refill_def spec_of_def)
  have "fst (spec_deny (tb_config t) s1) \<noteq> Respond" by (simp add: spec_deny_def)
  then have "spec_of t' ys = snd (spec_serve (tb_capacity t) (tb_config t) (tb_refill_per_s t) key now s1)"
    using ys(2) unfolding spec_admit_def Let_def s1_def[symmetric] by (metis fst_conv snd_conv)
  from arg_cong[OF this, of sp_clients] have w: "view t' ys = sp_clients (snd (spec_serve (tb_capacity t) (tb_config t)
      (tb_refill_per_s t) key now s1))" by (simp add: spec_of_def)
  obtain r cs' where st: "spec_touch (tb_capacity t) (rl_burst (tb_config t)) key now (view t xs) = (key, r) # cs'"
    using spec_touch_cons[of "tb_capacity t" "rl_burst (tb_config t)" key now "view t xs"] by blast
  then have v: "view t' ys = (key, snd (charge_record (tb_config t) (tb_refill_per_s t) now r)) # cs'"
    using w by (simp add: spec_serve_def Let_def c1)
  have "pairing ((key, r) # cs') key = pairing (view t xs) key"
    using st by (auto simp: pairing_def spec_touch_def client_record_new_def split: option.splits)
  then show ?thesis using ys(1) n v by (intro exI[of _ ys]) (simp add: pairing_def charge_keeps)
qed

lemma mode_at_pairing:
  assumes t: "tbl_ok kh t xs" and h: "names t key h" and m: "map_of (view t xs) key \<noteq> None"
  shows "\<exists>t'. response_mode_at h origin t = (pair_mode (pairing (view t xs) key) origin, t') \<and> tbl_ok kh t' xs \<and>
    map_of (view t' xs) key \<noteq> None \<and> pairing (view t' xs) key = pairing (view t xs) key"
proof -
  obtain t' where "response_mode kh key origin t =
       Some (case map_of (view t xs) key of None \<Rightarrow> Basic | Some r \<Rightarrow> fst (choose_mode r origin), t')" "tbl_ok kh t' xs"
    "spec_of t' xs = (spec_of t xs)\<lparr> sp_clients := spec_map key (\<lambda>r. snd (choose_mode r origin)) (view t xs) \<rparr>"
    using mode_spec[OF t] by blast
  moreover from this(3) have "view t' xs = spec_map key (\<lambda>r. snd (choose_mode r origin)) (view t xs)"
    by (simp add: spec_of_def)
  ultimately show ?thesis using m names_ops(1)[OF t h, of origin]
    by (auto simp: pairing_def map_of_spec_map choose_pair choose_keeps)
qed

lemma kmap_view_some: "tbl_ok kh t xs \<Longrightarrow> map_of (view t xs) key = None \<longleftrightarrow> kmap t key = None"
  by (simp add: view_lookup)

lemma set_record_generation: "sl_generation (tb_slots (set_record i r t) ! j) = sl_generation (tb_slots t ! j)"
  by (cases "i = j"; cases "j < length (tb_slots t)") (simp_all add: set_record_def not_less list_update_beyond)

lemma set_record_names:
  fixes i :: u32
  assumes t: "tbl_ok kh t xs" and i: "unat i < length (tb_slots t)" and h: "names t key h"
  shows "names (set_record (unat i) r t) key h"
  using h set_record_ok[OF t i, of r] by (auto simp: names_def set_record_generation)

lemma count_mode_names: "names (count_mode m t) key h = names t key h"
  by (cases m) (simp_all add: count_mode_def names_def kmap_def)

lemma resolve_range: "resolve h t = Some i \<Longrightarrow> i = unat (ch_slot h) \<and> unat (ch_slot h) < length (tb_slots t)"
  by (auto simp: resolve_def slot_at_def split: bind_splits if_splits)

lemma by_handle_names:
  assumes t: "tbl_ok kh t xs" and n: "names t key k"
  shows "names (snd (response_mode_at h origin t)) key k" "names (note_response_at h r s t) key k"
    "names (note_transmit_at h tx t) key k"
proof -
  have sr: "names (set_record i rec t) key k" if "resolve h t = Some i" for i rec
    using set_record_names[OF t _ n, of "ch_slot h" rec] resolve_range[OF that] by simp
  show "names (snd (response_mode_at h origin t)) key k" "names (note_response_at h r s t) key k"
    "names (note_transmit_at h tx t) key k"
    using sr n by (auto simp: response_mode_at_def note_response_at_def note_transmit_at_def count_mode_names
        split: option.splits prod.splits)
qed

lemma note_response_pairing:
  assumes t: "tbl_ok kh t xs" and h: "names t key h" and m: "map_of (view t xs) key \<noteq> None"
  shows "tbl_ok kh (note_response_at h r s t) xs \<and> map_of (view (note_response_at h r s t) xs) key \<noteq> None \<and>
    pairing (view (note_response_at h r s t) xs) key = (s, snd (pairing (view t xs) key))"
proof -
  obtain t' where t': "note_response kh key r s t = Some t'" "tbl_ok kh t' xs"
    "spec_of t' xs = (spec_of t xs)\<lparr> sp_clients := spec_map key (\<lambda>c. c\<lparr> cl_last_receive := r, cl_last_receive_sent := s \<rparr>) (view t xs) \<rparr>"
    using note_response_spec[OF t] by blast
  moreover from this(3) have "view t' xs = spec_map key (\<lambda>c. c\<lparr> cl_last_receive := r, cl_last_receive_sent := s \<rparr>) (view t xs)"
    by (simp add: spec_of_def)
  ultimately show ?thesis using m names_ops(2)[OF t h, of r s] by (auto simp: pairing_def map_of_spec_map)
qed

lemma note_transmit_pairing:
  assumes t: "tbl_ok kh t xs" and h: "names t key h" and m: "map_of (view t xs) key \<noteq> None"
  shows "tbl_ok kh (note_transmit_at h tx t) xs \<and> map_of (view (note_transmit_at h tx t) xs) key \<noteq> None \<and>
    pairing (view (note_transmit_at h tx t) xs) key = (fst (pairing (view t xs) key), tx)"
proof -
  obtain t' where t': "note_transmit kh key tx t = Some t'" "tbl_ok kh t' xs"
    "spec_of t' xs = (spec_of t xs)\<lparr> sp_clients := spec_map key (\<lambda>c. c\<lparr> cl_last_transmit := tx \<rparr>) (view t xs) \<rparr>"
    using note_transmit_spec[OF t] by blast
  moreover from this(3) have "view t' xs = spec_map key (\<lambda>c. c\<lparr> cl_last_transmit := tx \<rparr>) (view t xs)"
    by (simp add: spec_of_def)
  ultimately show ?thesis using m names_ops(3)[OF t h, of tx] by (auto simp: pairing_def map_of_spec_map)
qed

section \<open>The locked section\<close>

lemma respond_section_fields:
  "respond_section h parsed recv_ts sv = (lk, sv') \<Longrightarrow>
   lk_disposition lk = Respond \<and> lk_handle lk = h \<and>
   lk_mode lk = fst (response_mode_at h (p_origin_ts parsed) (sv_clients sv)) \<and>
   (lk_receive lk, lk_transmit lk) = mode_fields (lk_mode lk) recv_ts \<and>
   lk_stratum lk = sv_stratum sv \<and> lk_upstream lk = sv_upstream sv \<and>
   sv' = sv\<lparr> sv_clients := note_response_at h recv_ts (lk_receive lk)
               (snd (response_mode_at h (p_origin_ts parsed) (sv_clients sv))) \<rparr>"
  by (auto simp: respond_section_def Let_def split: prod.splits)

lemma locked_respond:
  assumes t: "tbl_ok kh (sv_clients sv) xs" and l: "locked_section kh key now parsed recv_ts sv = Some (lk, sv')"
    and d: "lk_disposition lk = Respond"
  shows "\<exists>ys. tbl_ok kh (sv_clients sv') ys \<and> names (sv_clients sv') key (lk_handle lk) \<and>
    map_of (view (sv_clients sv') ys) key \<noteq> None \<and>
    lk_mode lk = pair_mode (pairing (view (sv_clients sv) xs) key) (p_origin_ts parsed) \<and>
    (lk_receive lk, lk_transmit lk) = mode_fields (lk_mode lk) recv_ts \<and>
    pairing (view (sv_clients sv') ys) key = (lk_receive lk, snd (pairing (view (sv_clients sv) xs) key)) \<and>
    lk_stratum lk = sv_stratum sv \<and> lk_upstream lk = sv_upstream sv"
proof -
  obtain dd h t1 where a: "admit_handle kh key now (sv_clients sv) = Some ((dd, h), t1)"
    using admit_spec[OF t, of key now] by blast
  have dd: "dd = Respond" using l d a by (auto simp: locked_section_def locked_refusal_def split: if_splits)
  let ?sv = "sv\<lparr> sv_clients := t1 \<rparr>"
  have r: "respond_section h parsed recv_ts ?sv = (lk, sv')" using l a dd by (simp add: locked_section_def)
  note f = respond_section_fields[OF r, simplified]
  obtain ys where ys: "tbl_ok kh t1 ys" "names t1 key h" "map_of (view t1 ys) key \<noteq> None"
    "pairing (view t1 ys) key = pairing (view (sv_clients sv) xs) key"
    using admit_respond[OF t a[unfolded dd]] by blast
  obtain t2 where t2: "response_mode_at h (p_origin_ts parsed) t1 = (pair_mode (pairing (view t1 ys) key) (p_origin_ts parsed), t2)"
    "tbl_ok kh t2 ys" "map_of (view t2 ys) key \<noteq> None" "pairing (view t2 ys) key = pairing (view t1 ys) key"
    using mode_at_pairing[OF ys(1-3)] by blast
  have n2: "names t2 key h" using by_handle_names(1)[OF ys(1,2), of h "p_origin_ts parsed"] t2(1) by simp
  have n3: "names (note_response_at h recv_ts (lk_receive lk) t2) key h" by (rule by_handle_names(2)[OF t2(2) n2])
  show ?thesis
    using f t2 n3 note_response_pairing[OF t2(2) n2 t2(3), of recv_ts "lk_receive lk"] ys(4)
    by (intro exI[of _ ys]) simp
qed

lemma locked_some:
  assumes t: "tbl_ok kh (sv_clients sv) xs"
  shows "\<exists>lk sv' ys. locked_section kh key now parsed recv_ts sv = Some (lk, sv') \<and> tbl_ok kh (sv_clients sv') ys \<and>
    sv_ring sv' = sv_ring sv \<and> sv_upstream sv' = sv_upstream sv \<and> sv_stratum sv' = sv_stratum sv \<and>
    lk_upstream lk \<in> {REFERENCE, sv_upstream sv}"
proof -
  obtain d h t1 ys where a: "admit_handle kh key now (sv_clients sv) = Some ((d, h), t1)" "tbl_ok kh t1 ys"
    using admit_spec[OF t, of key now] by blast
  show ?thesis
  proof (cases "d = Respond")
    case False
    then show ?thesis using a by (auto simp: locked_section_def locked_refusal_def)
  next
    case True
    obtain lk sv' where r: "respond_section h parsed recv_ts (sv\<lparr> sv_clients := t1 \<rparr>) = (lk, sv')" by fastforce
    note f = respond_section_fields[OF r]
    have l: "locked_section kh key now parsed recv_ts sv = Some (lk, sv')" using a(1) True r by (simp add: locked_section_def)
    obtain zs where "tbl_ok kh (sv_clients sv') zs" using locked_respond[OF t l] f by blast
    then show ?thesis using l f by (intro exI[of _ lk] exI[of _ sv'] exI[of _ zs]) simp
  qed
qed

lemma build_reply_safe:
  assumes "sv_ok kh sv"
  shows "\<exists>r sv'. build_reply_in kh c env request peer recv_ts sv = Some (r, sv') \<and> sv_ok kh sv' \<and>
    sv_ring sv' = sv_ring sv \<and> sv_stratum sv' = sv_stratum sv \<and> sv_upstream sv' = sv_upstream sv"
proof -
  obtain xs where t: "tbl_ok kh (sv_clients sv) xs" and u: "length (up_reference_id (sv_upstream sv)) = 4"
    using assms by (auto simp: sv_ok_def)
  have core: "core (note_refused (sv_clients sv)) = core (sv_clients sv)" by (simp add: note_refused_def core_def)
  have ref: "sv_ok kh (refused sv)" using t u core_cong(1)[OF core] by (auto simp: sv_ok_def refused_def)
  have lk: "\<exists>lk sv'. locked_section kh key now parsed recv_ts sv = Some (lk, sv') \<and> sv_ok kh sv' \<and> sv_ring sv' = sv_ring sv \<and>
    sv_stratum sv' = sv_stratum sv \<and> sv_upstream sv' = sv_upstream sv" for key now parsed
    using locked_some[OF t, of key now parsed recv_ts] u by (fastforce simp: sv_ok_def)
  show ?thesis
  proof (cases "length request < HEADER_LEN \<or> (case parse request of Inl _ \<Rightarrow> True | Inr q \<Rightarrow> p_mode q \<noteq> Client)")
    case True
    then have "build_reply_in kh c env request peer recv_ts sv = Some (None, refused sv)"
      by (auto simp: build_reply_in_def split: sum.splits)
    then show ?thesis using ref by (simp add: refused_def)
  next
    case False
    then obtain q where q: "\<not> length request < HEADER_LEN" "parse request = Inr q" "p_mode q = Client"
      by (auto split: sum.splits)
    show ?thesis
    proof (cases "en_mono env")
      case None
      then show ?thesis using q assms by (simp add: build_reply_in_def)
    next
      case (Some now)
      obtain lk sv' where "locked_section kh (client_key peer) now q recv_ts sv = Some (lk, sv')" "sv_ok kh sv'"
        "sv_ring sv' = sv_ring sv" "sv_stratum sv' = sv_stratum sv" "sv_upstream sv' = sv_upstream sv"
        using lk by blast
      then show ?thesis using q Some by (simp add: build_reply_in_def)
    qed
  qed
qed

lemma build_reply_Some:
  assumes "build_reply_in kh c env request peer recv_ts sv = Some (Some reply, sv')"
  shows "\<exists>parsed now lk. HEADER_LEN \<le> length request \<and> parse request = Inr parsed \<and> p_mode parsed = Client \<and> en_mono env = Some now \<and>
    locked_section kh (client_key peer) now parsed recv_ts sv = Some (lk, sv') \<and>
    reply_bytes c env (sv_ring sv') request parsed recv_ts lk = Some (re_bytes reply) \<and> re_handle reply = lk_handle lk"
  using assms by (auto simp: build_reply_in_def split: if_splits sum.splits option.splits)

section \<open>What a reply says\<close>

lemma kiss_packet_ok: "parse request = Inr q \<Longrightarrow> packet_ok (kiss_packet q recv_ts)"
  by (simp add: packet_ok_def kiss_packet_def ascii_def)

lemma length_kiss: "length (kiss_of_death q recv_ts) = HEADER_LEN"
  unfolding kiss_of_death_def by (rule length_to_bytes) (simp add: packet_ok_def kiss_packet_def ascii_def)

lemma nth1_to_bytes: "to_bytes p ! Suc 0 = p_stratum p"
  by (simp add: to_bytes_def)

lemma parse_stratum: "parse b = Inr h \<Longrightarrow> p_stratum h = b ! 1"
  by (auto simp: parse_def Let_def HEADER_LEN_def split: if_splits)

lemma kiss_stratum: "parse (kiss_of_death q recv_ts) = Inr h \<Longrightarrow> p_stratum h = 0"
  using parse_stratum by (simp add: kiss_of_death_def nth1_to_bytes kiss_packet_def)

lemma nak_stratum: "parse (nts_nak q recv_ts uid) = Inr h \<Longrightarrow> p_stratum h = 0"
proof -
  assume p: "parse (nts_nak q recv_ts uid) = Inr h"
  have "nts_nak q recv_ts uid ! 1 = kiss_of_death q recv_ts ! 1"
    using length_kiss[of q recv_ts] by (simp add: nts_nak_def write_field_wire Let_def nth_append HEADER_LEN_def)
  also have "\<dots> = 0" by (simp add: kiss_of_death_def nth1_to_bytes kiss_packet_def)
  finally show ?thesis using parse_stratum[OF p] by simp
qed

lemma stamp_header:
  assumes "stamp_transmit env mode header = Some h'"
  shows "h' = header\<lparr> p_transmit_ts := p_transmit_ts h' \<rparr> \<and>
    (case mode of Interleaved _ \<Rightarrow> p_transmit_ts h' = p_transmit_ts header
     | Basic \<Rightarrow> \<exists>s n. en_wall env = Some (s, n) \<and> p_transmit_ts h' = NtpTimestamp (ts_bits (from_unix s n) AND NOT 1))"
  using assms by (cases mode) (auto simp: stamp_transmit_def mark_server_timestamps_def unix_parts_to_ntp_def split: option.splits)

lemma reply_header_ok:
  assumes "parse request = Inr q" "length (up_reference_id (lk_upstream lk)) = 4" "stamp_transmit env mode (reply_header q recv_ts lk) = Some h"
  shows "packet_ok h" "p_version h = p_version q"
  using stamp_header[OF assms(3)] assms(2)
  by (auto simp: packet_ok_def reply_header_def intro: arg_cong[of _ _ p_version] dest: arg_cong[of _ _ p_reference_id] arg_cong[of _ _ p_version])

lemma time_reply:
  assumes q: "parse request = Inr q" and u: "length (up_reference_id (lk_upstream lk)) = 4"
    and b: "reply_bytes c env ring request q recv_ts lk = Some b" and h: "parse (as_slice b) = Inr h" "p_stratum h \<noteq> 0"
  shows "lk_disposition lk = Respond \<and> stamp_transmit env (lk_mode lk) (reply_header q recv_ts lk) = Some h"
proof -
  have d: "lk_disposition lk = Respond"
    using b h kiss_stratum[of q recv_ts] by (cases "lk_disposition lk") (auto simp: reply_bytes_def)
  have v: "3 \<le> p_version q" "p_version q \<le> 4" using to_bytes_parse_gen[OF q] by simp_all
  have "\<exists>h' rest. stamp_transmit env (lk_mode lk) (reply_header q recv_ts lk) = Some h' \<and> as_slice b = to_bytes h' @ rest"
  proof (cases "rq_auth (nts_request request)")
    case None
    then show ?thesis using b d by (auto simp: reply_bytes_def respond_bytes_def Let_def)
  next
    case (Some auth)
    then obtain x where x: "b = Extended x"
      "nts_reply c env ring request q recv_ts (nts_request request) auth (lk_mode lk) (reply_header q recv_ts lk) = Some x"
      using b d by (auto simp: reply_bytes_def respond_bytes_def Let_def)
    have "x \<noteq> nts_nak q recv_ts uid" for uid using h x(1) nak_stratum by auto
    then obtain keys uid where "protected_reply c env ring keys uid (rq_placeholders (nts_request request)) (lk_mode lk)
        (reply_header q recv_ts lk) = Some x"
      using x(2) by (auto simp: nts_reply_def split: option.splits sum.splits)
    then show ?thesis using x(1)
      by (auto simp: protected_reply_def sealed_reply_def write_auth_wire write_field_wire Let_def split: option.splits sum.splits)
  qed
  then obtain h' rest where h': "stamp_transmit env (lk_mode lk) (reply_header q recv_ts lk) = Some h'"
    "as_slice b = to_bytes h' @ rest" by blast
  have "parse (as_slice b) = Inr h'"
    unfolding h'(2) using reply_header_ok[OF q u h'(1)] v by (intro parse_to_bytes_gen) simp_all
  then show ?thesis using d h h' by simp
qed

section \<open>Interleaved exchanges\<close>

lemma note_sent_one: "note_sent tx [(r, p)] sv = sv\<lparr> sv_clients := note_transmit_at (re_handle r) tx (sv_clients sv) \<rparr>"
  by (simp add: note_sent_def)

lemma marked_not_zero: "(x :: u64) OR 1 \<noteq> 0"
proof
  assume z: "x OR 1 = 0"
  have "bit (x OR 1) 0" by (simp add: bit_or_iff)
  then show False by (simp add: z)
qed

section \<open>Bounds on a reply\<close>

lemma fields_from_bounds:
  "f \<in> set (fields_from packet pos) \<Longrightarrow>
   pos \<le> f_offset f \<and> f_offset f + 4 + length (f_body f) \<le> length packet \<and>
   12 \<le> length (f_body f) \<and> length (f_body f) mod 4 = 0"
proof (induction packet pos rule: fields_from.induct)
  case (1 packet pos)
  show ?case
  proof (cases "field_next packet pos")
    case None
    then show ?thesis using 1(2) by (simp add: fields_from.simps[of packet pos])
  next
    case (Some p)
    obtain g pos' where p: "p = (g, pos')" by (cases p) auto
    define tot where "tot = unat (of_be (slice (drop pos packet) 2 4) :: u16)"
    have g: "f_body g = slice (drop pos packet) 4 tot" "f_offset g = pos"
      "pos' = pos + tot" "16 \<le> tot" "tot mod 4 = 0" "tot \<le> length packet - pos" "pos \<le> length packet"
      using Some p by (auto simp: field_next_def Let_def MIN_EF_LEN_def tot_def split: if_splits)
    have lb: "length (f_body g) = tot - 4" using g(6,7) by (simp add: g(1) length_slice)
    have m: "(tot - 4) mod 4 = 0" using g(4,5) by presburger
    have "f = g \<or> f \<in> set (fields_from packet pos')" using 1(2) Some p by (simp add: fields_from.simps[of packet pos])
    then show ?thesis
    proof
      assume "f = g"
      then show ?thesis using lb m g(2,4,6,7) by (simp, linarith)
    next
      assume "f \<in> set (fields_from packet pos')"
      then show ?thesis using 1(1)[OF Some p[symmetric]] g(3) by auto
    qed
  qed
qed

lemma fields_bounds:
  "f \<in> set (NtsFields.fields packet) \<Longrightarrow> HEADER_LEN \<le> length packet \<Longrightarrow>
   HEADER_LEN \<le> f_offset f \<and> f_offset f + 4 + length (f_body f) \<le> length packet \<and>
   12 \<le> length (f_body f) \<and> length (f_body f) mod 4 = 0"
  unfolding NtsFields.fields_def using fields_from_bounds[of f packet "min HEADER_LEN (length packet)"] by simp

lemma field_total_exact: "12 \<le> n \<Longrightarrow> n mod 4 = 0 \<Longrightarrow> field_total n = 4 + n"
  using padded_exact[of "zeros n"] length_padded[of "zeros n"] field_total_ge(1)[of n] by simp

lemma scan_request_found:
  "scan_request fs q = q' \<Longrightarrow>
   (rq_cookie q' = rq_cookie q \<or> (\<exists>f\<in>set fs. f_type f = NTS_COOKIE \<and> rq_cookie q' = Some (f_body f))) \<and>
   (rq_unique_id q' = rq_unique_id q \<or> (\<exists>f\<in>set fs. f_type f = UNIQUE_IDENTIFIER \<and> rq_unique_id q' = Some (f_body f))) \<and>
   (rq_auth q' = rq_auth q \<or> (\<exists>f\<in>set fs. f_type f = NTS_AUTHENTICATOR \<and> rq_auth q' = Some f))"
proof (induction fs arbitrary: q)
  case (Cons f fs)
  define q1 where "q1 = (if f_type f = NTS_COOKIE then q\<lparr> rq_cookie := Some (f_body f) \<rparr>
      else if f_type f = UNIQUE_IDENTIFIER then q\<lparr> rq_unique_id := Some (f_body f) \<rparr>
      else if f_type f = NTS_COOKIE_PLACEHOLDER then q\<lparr> rq_placeholders := rq_placeholders q + 1 \<rparr> else q)"
  show ?case
  proof (cases "f_type f = NTS_AUTHENTICATOR")
    case True
    then have "q' = q\<lparr> rq_auth := Some f \<rparr>" using Cons.prems by (simp add: field_type_defs)
    then show ?thesis using True by simp
  next
    case False
    then have "scan_request fs q1 = q'" using Cons.prems by (auto simp: q1_def split: if_splits)
    note ih = Cons.IH[OF this]
    have "rq_cookie q1 = rq_cookie q \<or> f_type f = NTS_COOKIE \<and> rq_cookie q1 = Some (f_body f)"
      "rq_unique_id q1 = rq_unique_id q \<or> f_type f = UNIQUE_IDENTIFIER \<and> rq_unique_id q1 = Some (f_body f)"
      "rq_auth q1 = rq_auth q" by (auto simp: q1_def)
    then have "(rq_cookie q1 = rq_cookie q \<or> (\<exists>g\<in>set (f # fs). f_type g = NTS_COOKIE \<and> rq_cookie q1 = Some (f_body g)))"
      "(rq_unique_id q1 = rq_unique_id q \<or> (\<exists>g\<in>set (f # fs). f_type g = UNIQUE_IDENTIFIER \<and> rq_unique_id q1 = Some (f_body g)))"
      by auto
    then show ?thesis using ih \<open>rq_auth q1 = rq_auth q\<close> unfolding set_simps(2) bex_simps(5)
      by (intro conjI) (elim conjE disjE; simp)+
  qed
qed simp

lemma nts_request_found:
  "rq_cookie (nts_request request) = Some b \<Longrightarrow> \<exists>f\<in>set (NtsFields.fields request). f_type f = NTS_COOKIE \<and> f_body f = b"
  "rq_unique_id (nts_request request) = Some b \<Longrightarrow> \<exists>f\<in>set (NtsFields.fields request). f_type f = UNIQUE_IDENTIFIER \<and> f_body f = b"
  "rq_auth (nts_request request) = Some f \<Longrightarrow> f \<in> set (NtsFields.fields request) \<and> f_type f = NTS_AUTHENTICATOR"
  using scan_request_found[OF nts_request_def[symmetric], of request] by auto

definition rand_ok :: "Env \<Rightarrow> bool" where
  "rand_ok env \<longleftrightarrow> (\<forall>i n b. en_rand env i n = Some b \<longrightarrow> length b = n)"

lemma split_nonces_length: "length bs = want * COOKIE_NONCE_LEN \<Longrightarrow> n \<in> set (split_nonces want bs) \<Longrightarrow> length n = COOKIE_NONCE_LEN"
proof -
  assume a: "length bs = want * COOKIE_NONCE_LEN" "n \<in> set (split_nonces want bs)"
  then obtain i where i: "i < want" "n = slice bs (i * COOKIE_NONCE_LEN) ((i + 1) * COOKIE_NONCE_LEN)"
    by (auto simp: split_nonces_def)
  have "(i + 1) * COOKIE_NONCE_LEN \<le> want * COOKIE_NONCE_LEN" using i(1) by (intro mult_le_mono1) simp
  then show ?thesis using a(1) i(2) by (simp add: length_slice COOKIE_NONCE_LEN_def)
qed

lemma ring_nonempty: "redeem c ring cookie = Inr keys \<Longrightarrow> ring_keys ring \<noteq> []"
  by (auto simp: redeem_def by_id_def Let_def split: if_splits option.splits)

lemma redeem_keys_ok: "redeem c ring cookie = Inr keys \<Longrightarrow> keys_ok keys"
  by (auto simp: redeem_def keys_ok_def Let_def split: if_splits option.splits sum.splits)

text \<open>The plaintext of an NTS reply: as many fresh cookies as asked for, each minted under the ring.\<close>

lemma fresh_cookies_spec:
  assumes c: "aead_ok c" and k: "keys_ok keys" and ne: "ring_keys ring \<noteq> []" and r: "rand_ok env"
    and f: "fresh_cookies c env ring keys want = Some pt"
  shows "\<exists>cookies. pt = wire_all (map (Pair NTS_COOKIE) cookies) \<and> length cookies = want \<and>
    (\<forall>k\<in>set cookies. length k = 100 \<and> (\<exists>n. length n = COOKIE_NONCE_LEN \<and> mint c ring keys n = Inr k))"
proof -
  obtain bs where bs: "en_rand env 0 (want * COOKIE_NONCE_LEN) = Some bs" "mint_fields_into c ring keys (split_nonces want bs) [] = Inr pt"
    using f by (auto simp: fresh_cookies_def split: option.splits sum.splits)
  have lb: "length bs = want * COOKIE_NONCE_LEN" using r bs(1) by (auto simp: rand_ok_def)
  have "mint_fields_into c ring keys (split_nonces want bs) [] = mint_each c ring keys (split_nonces want bs) []"
    using mint_loop_each[of ring "last (ring_keys ring)"] ne by (simp add: mint_fields_into_def ring_current_def)
  then obtain cookies where cs: "pt = wire_all (map (Pair NTS_COOKIE) cookies)"
    "list_all2 (\<lambda>n k. mint c ring keys n = Inr k) (split_nonces want bs) cookies"
    using mint_each_fields[OF c ne, of keys "split_nonces want bs" "[]"] bs(2) by auto
  have "\<exists>n. length n = COOKIE_NONCE_LEN \<and> mint c ring keys n = Inr k" if "k \<in> set cookies" for k
    using cs(2) that split_nonces_length[OF lb] by (auto simp: list_all2_conv_all_nth in_set_conv_nth) (metis nth_mem)
  moreover have "length cookies = want" using list_all2_lengthD[OF cs(2)] by (simp add: split_nonces_def)
  ultimately show ?thesis using cs(1) mint_length[OF c k] by blast
qed

lemma length_wire_cookies: "(\<forall>k\<in>set cookies. length k = 100) \<Longrightarrow> length (wire_all (map (Pair NTS_COOKIE) cookies)) = 104 * length cookies"
  by (induction cookies) (simp_all add: wire_all_Cons length_wire_field field_total_exact)

lemma length_sealed:
  assumes c: "aead_ok c" and r: "rand_ok env" and h: "length header = HEADER_LEN"
    and u: "12 \<le> length uid" "length uid mod 4 = 0" and pt: "length pt \<le> 832" "length pt mod 4 = 0"
    and s: "sealed_reply c env keys header uid pt = Some b"
  shows "length b \<le> 956"
proof -
  let ?uid = "take (min (length uid) UNIQUE_ID_LEN) uid"
  obtain n ct where e: "en_rand env 1 16 = Some n" "encrypt c (k_s2c keys) [write_field header UNIQUE_IDENTIFIER ?uid, n] pt = Some ct"
    "b = write_authenticator (write_field header UNIQUE_IDENTIFIER ?uid) n ct"
    using s by (auto simp: sealed_reply_def seal_def sealer_seal_def NONCE_LEN_def Let_def split: option.splits)
  have "length n = 16" using r e(1) by (auto simp: rand_ok_def)
  note n = this aead_length[OF c e(2)] e(3)
  have lu: "12 \<le> length ?uid" "length ?uid mod 4 = 0" "length ?uid \<le> 32" using u by (auto simp: UNIQUE_ID_LEN_def min_def)
  have "length ct mod 4 = 0" using pt(2) n(2) by presburger
  then have ct4: "next_multiple_of4 (length ct) = length ct" "next_multiple_of4 16 = 16"
    by (simp_all add: next_multiple_of4_def)
  have lb: "length (auth_body n ct) = 20 + length ct" unfolding length_auth_body n(1) ct4 by simp
  have "(20 + length ct) mod 4 = 0" using pt(2) n(2) by presburger
  then have "field_total (length (auth_body n ct)) = 24 + length ct" unfolding lb by (subst field_total_exact) simp_all
  then have "length b = 48 + (4 + length ?uid) + (24 + length ct)"
    unfolding n(3) write_auth_wire write_field_wire length_append length_wire_field h HEADER_LEN_def
      field_total_exact[OF lu(1,2)] by simp
  then show ?thesis using lu(3) n(2) pt(1) by linarith
qed

lemma reply_length:
  assumes c: "aead_ok c" and r: "rand_ok env" and q: "parse request = Inr q" and len: "HEADER_LEN \<le> length request"
    and u: "length (up_reference_id (lk_upstream lk)) = 4"
    and b: "reply_bytes c env ring request q recv_ts lk = Some b"
  shows "length (as_slice b) \<le> max (length request) 956"
proof -
  have p: "length (to_bytes h) = HEADER_LEN" if "stamp_transmit env mode (reply_header q recv_ts lk) = Some h" for mode h
    using length_to_bytes reply_header_ok(1)[OF q u that] by blast
  show ?thesis
  proof (cases "lk_disposition lk")
    case KissOfDeath
    then show ?thesis using b len by (auto simp: reply_bytes_def length_kiss)
  next
    case Drop
    then show ?thesis using b by (simp add: reply_bytes_def)
  next
    case Respond
    then have rb: "respond_bytes c env ring request q recv_ts lk = Some b" using b by (simp add: reply_bytes_def)
    show ?thesis
    proof (cases "rq_auth (nts_request request)")
      case None
      then show ?thesis using rb p len by (fastforce simp: respond_bytes_def Let_def)
    next
      case (Some auth)
      then obtain x where x: "b = Extended x"
        "nts_reply c env ring request q recv_ts (nts_request request) auth (lk_mode lk) (reply_header q recv_ts lk) = Some x"
        using rb by (auto simp: respond_bytes_def Let_def)
      then obtain cookie uid where cu: "rq_cookie (nts_request request) = Some cookie" "rq_unique_id (nts_request request) = Some uid"
        by (auto simp: nts_reply_def split: option.splits)
      obtain f where f: "f \<in> set (NtsFields.fields request)" "f_body f = uid" using nts_request_found(2)[OF cu(2)] by blast
      note fb = fields_bounds[OF f(1) len, unfolded f(2)]
      show ?thesis
      proof (cases "redeem c ring cookie")
        case (Inl e)
        then have "x = nts_nak q recv_ts uid" using x(2) cu by (simp add: nts_reply_def)
        moreover have "length (nts_nak q recv_ts uid) = HEADER_LEN + (4 + length uid)"
          using length_kiss[of q recv_ts] fb field_total_exact[of "length uid"]
          by (simp add: nts_nak_def Let_def write_field_wire length_wire_field HEADER_LEN_def ascii_def)
        ultimately have "length (as_slice b) \<le> length request" using fb x(1) unfolding HEADER_LEN_def by simp
        then show ?thesis by simp
      next
        case (Inr keys)
        then have pr: "protected_reply c env ring keys uid (rq_placeholders (nts_request request)) (lk_mode lk)
            (reply_header q recv_ts lk) = Some x"
          using x(2) cu by (auto simp: nts_reply_def split: option.splits)
        then obtain pt h where ph: "fresh_cookies c env ring keys (want_cookies (rq_placeholders (nts_request request))) = Some pt"
          "stamp_transmit env (lk_mode lk) (reply_header q recv_ts lk) = Some h" "sealed_reply c env keys (to_bytes h) uid pt = Some x"
          by (auto simp: protected_reply_def split: option.splits)
        obtain cookies where cs: "pt = wire_all (map (Pair NTS_COOKIE) cookies)"
          "length cookies = want_cookies (rq_placeholders (nts_request request))" "\<forall>k\<in>set cookies. length k = 100"
          using fresh_cookies_spec[OF c redeem_keys_ok[OF Inr] ring_nonempty[OF Inr] r ph(1)] by blast
        have lp: "length pt = 104 * length cookies" using cs length_wire_cookies by simp
        have "length cookies \<le> 8" using cs(2) by (simp add: want_cookies_def MAX_REPLY_COOKIES_def)
        then have "length pt \<le> 832" "length pt mod 4 = 0" using lp by simp_all
        then have "length x \<le> 956" using length_sealed[OF c r p[OF ph(2)] _ _ _ _ ph(3)] fb by simp
        then show ?thesis using x(1) by simp
      qed
    qed
  qed
qed

definition dg_request :: "'k Datagram \<Rightarrow> bytes" where
  "dg_request d = take (min (dg_len d) (length (dg_buf d))) (dg_buf d)"

definition answers :: "Reply \<times> 'k SocketAddr \<Rightarrow> 'k Datagram \<Rightarrow> bool" where
  "answers rp d \<longleftrightarrow> snd rp = dg_peer d \<and> (\<exists>q. parse (dg_request d) = Inr q \<and> p_mode q = Client) \<and>
     length (as_slice (re_bytes (fst rp))) \<le> max (length (dg_request d)) 956"

lemma reply_answers:
  assumes sv: "sv_ok kh sv" and c: "aead_ok c" and r: "rand_ok (dg_env d)"
    and b: "build_reply_in kh c (dg_env d) (dg_request d) (dg_peer d) recv_ts sv = Some (Some reply, sv')"
  shows "answers (reply, dg_peer d) d"
proof -
  obtain parsed now lk where 1: "HEADER_LEN \<le> length (dg_request d)" "parse (dg_request d) = Inr parsed" "p_mode parsed = Client"
    "locked_section kh (client_key (dg_peer d)) now parsed recv_ts sv = Some (lk, sv')"
    "reply_bytes c (dg_env d) (sv_ring sv') (dg_request d) parsed recv_ts lk = Some (re_bytes reply)"
    using build_reply_Some[OF b] by blast
  obtain xs where xs: "tbl_ok kh (sv_clients sv) xs" "length (up_reference_id (sv_upstream sv)) = 4" using sv by (auto simp: sv_ok_def)
  have "length (up_reference_id (lk_upstream lk)) = 4"
    using locked_some[OF xs(1), of "client_key (dg_peer d)" now parsed recv_ts] 1(4) xs(2) by (auto simp: REFERENCE_def ascii_def)
  from reply_length[OF c r 1(2,1) this 1(5)] show ?thesis using 1(2,3) by (simp add: answers_def)
qed

lemma build_batch_safe:
  assumes "sv_ok kh sv" "aead_ok c" "\<forall>d\<in>set ds. rand_ok (dg_env d)"
  shows "\<exists>rs sv'. build_batch kh c recv_ts ds sv = Some (rs, sv') \<and> sv_ok kh sv' \<and> length rs \<le> length ds \<and>
    (\<forall>rp\<in>set rs. \<exists>d\<in>set ds. answers rp d)"
  using assms
proof (induction ds arbitrary: sv)
  case (Cons d ds)
  obtain r sv1 where r: "build_reply_in kh c (dg_env d) (dg_request d) (dg_peer d) recv_ts sv = Some (r, sv1)" "sv_ok kh sv1"
    using build_reply_safe[OF Cons.prems(1)] by blast
  obtain rs sv' where ih: "build_batch kh c recv_ts ds sv1 = Some (rs, sv')" "sv_ok kh sv'" "length rs \<le> length ds"
    "\<forall>rp\<in>set rs. \<exists>d\<in>set ds. answers rp d" using Cons.IH[OF r(2)] Cons.prems by auto
  have "\<forall>rp\<in>set (case r of None \<Rightarrow> [] | Some reply \<Rightarrow> [(reply, dg_peer d)]). answers rp d"
    using reply_answers[OF Cons.prems(1,2)] Cons.prems(3) r(1) by (auto split: option.splits)
  then show ?case using r(1) ih
    by (auto simp: dg_request_def split: option.splits)
qed simp

lemma by_handle_ok:
  assumes "tbl_ok kh t xs"
  shows "tbl_ok kh (note_transmit_at h tx t) xs"
proof (cases "resolve h t")
  case (Some i)
  then have "i = unat (ch_slot h)" "unat (ch_slot h) < length (tb_slots t)" using resolve_range by auto
  then show ?thesis using set_record_ok[OF assms, of "ch_slot h"] Some by (simp add: note_transmit_at_def)
qed (simp add: note_transmit_at_def assms)

lemma note_sent_ok: "sv_ok kh sv \<Longrightarrow> sv_ok kh (note_sent tx rs sv)"
proof (induction rs arbitrary: sv)
  case (Cons r rs)
  obtain reply p where r: "r = (reply, p)" by (cases r) auto
  have "sv_ok kh (sv\<lparr> sv_clients := note_transmit_at (re_handle reply) tx (sv_clients sv) \<rparr>)"
    using Cons.prems by_handle_ok unfolding sv_ok_def by fastforce
  from Cons.IH[OF this] show ?case by (simp add: note_sent_def r)
qed (simp add: note_sent_def)

section \<open>A concrete server\<close>

text \<open>Instances for the witnesses: a server with the default limits and no global one, and the request
\<open>to_bytes q\<close> of a client at address 5.\<close>

definition demo_config :: RateLimitConfig where
  "demo_config = rate_limit_default\<lparr> rl_global_rate_hz := FFin 0 \<rparr>"

definition demo_env :: Env where
  "demo_env = \<lparr> en_mono = Some (FFin 0), en_wall = Some (0, 0), en_rand = (\<lambda>i n. Some (zeros n)) \<rparr>"

definition demo_peer :: "u32 SocketAddr" where
  "demo_peer = \<lparr> sa_ip = 5, sa_port = 123 \<rparr>"

definition demo_server :: "KeyRing \<Rightarrow> u32 ServerState \<Rightarrow> bool" where
  "demo_server ring sv \<longleftrightarrow> tbl_ok key_bytes (sv_clients sv) [] \<and> spec_of (sv_clients sv) [] = spec_init demo_config \<and>
     tb_capacity (sv_clients sv) = 16384 \<and> tb_config (sv_clients sv) = demo_config \<and>
     tb_refill_per_s (sv_clients sv) = FFin (1 / 8) \<and> sv_ring sv = ring \<and> sv_stratum sv = 1 \<and> sv_upstream sv = REFERENCE"

lemma demo_server_exists:
  "\<exists>sv. serving_state 7 demo_config ring 1 0 = Some sv \<and> demo_server ring sv \<and> sv_ok key_bytes sv"
proof -
  have "\<exists>t. (table_new 16384 demo_config 7 :: u32 ClientTable option) = Some t"
    by (simp add: table_new_def with_capacity_def next_pow2_from.simps)
  then obtain t :: "u32 ClientTable" where t: "table_new 16384 demo_config 7 = Some t" by blast
  have p: "pow2 (- rl_interval_log2 demo_config) = 1 / 8" by (simp add: demo_config_def rate_limit_default_def pow2_powi)
  show ?thesis using t table_new_ok[OF t, of key_bytes] p
    by (auto simp: serving_state_def CLIENT_TABLE_CAPACITY_def demo_server_def sv_ok_def REFERENCE_def ascii_def)
qed

lemma demo_first: "fst (spec_admit 16384 demo_config (FFin (1 / 8)) (5 :: u32) (FFin 0) (spec_init demo_config)) = Respond"
  by code_simp

lemma demo_first_record:
  "map (\<lambda>c. (fst c, cl_tokens (snd c), cl_last_seen (snd c)))
     (sp_clients (snd (spec_admit 16384 demo_config (FFin (1 / 8)) (5 :: u32) (FFin 0) (spec_init demo_config)))) = [(5, FFin 7, FFin 0)]"
  by code_simp

lemma demo_second:
  "cl_tokens r = FFin 7 \<Longrightarrow> cl_last_seen r = FFin 0 \<Longrightarrow> fst (charge_record demo_config (FFin (1 / 8)) (FFin 0) r) = Respond"
  by (simp add: charge_record_def refill_record_def Let_def demo_config_def rate_limit_default_def) code_simp

lemma locked_by_admit:
  assumes t: "tbl_ok kh (sv_clients sv) xs"
    and d: "fst (spec_admit (tb_capacity (sv_clients sv)) (tb_config (sv_clients sv)) (tb_refill_per_s (sv_clients sv)) key now
      (spec_of (sv_clients sv) xs)) = Respond"
  shows "\<exists>lk sv'. locked_section kh key now parsed recv_ts sv = Some (lk, sv') \<and> lk_disposition lk = Respond"
proof -
  obtain h t1 where a: "admit_handle kh key now (sv_clients sv) = Some ((Respond, h), t1)"
    using admit_spec[OF t, of key now] d by (metis fst_conv)
  obtain lk sv' where r: "respond_section h parsed recv_ts (sv\<lparr> sv_clients := t1 \<rparr>) = (lk, sv')" by fastforce
  show ?thesis using a r respond_section_fields[OF r] by (simp add: locked_section_def)
qed

lemma demo_locked:
  "demo_server ring sv \<Longrightarrow> \<exists>lk sv'. locked_section key_bytes 5 (FFin 0) parsed recv_ts sv = Some (lk, sv') \<and> lk_disposition lk = Respond"
  using locked_by_admit[of key_bytes sv "[]" 5 "FFin 0"] demo_first by (simp add: demo_server_def)

lemma fields_bare: "length b = HEADER_LEN \<Longrightarrow> NtsFields.fields b = []"
  using fields_written[of b "[]"] by simp

lemma plain_reply:
  assumes q: "packet_ok q" "3 \<le> p_version q" "p_version q \<le> 4" "p_mode q = Client"
    and sv: "sv_ok kh sv" and e: "en_mono env = Some now" "en_wall env \<noteq> None"
    and l: "locked_section kh (sa_ip peer) now q recv_ts sv = Some (lk, sv')" "lk_disposition lk = Respond"
  shows "\<exists>reply h. build_reply_in kh c env (to_bytes q) peer recv_ts sv = Some (Some reply, sv') \<and>
    parse (as_slice (re_bytes reply)) = Inr h \<and> p_stratum h = sv_stratum sv \<and> p_receive_ts h = lk_receive lk \<and>
    re_handle reply = lk_handle lk"
proof -
  have p: "parse (to_bytes q) = Inr q" using parse_to_bytes_gen[OF q(1-3), of "[]"] by simp
  have len: "length (to_bytes q) = HEADER_LEN" by (rule length_to_bytes[OF q(1)])
  have nr: "rq_auth (nts_request (to_bytes q)) = None" by (simp add: nts_request_def fields_bare[OF len])
  obtain xs where xs: "tbl_ok kh (sv_clients sv) xs" "length (up_reference_id (sv_upstream sv)) = 4" using sv by (auto simp: sv_ok_def)
  have f: "lk_stratum lk = sv_stratum sv" "lk_upstream lk = sv_upstream sv" using locked_respond[OF xs(1) l] by auto
  have "stamp_transmit env (lk_mode lk) (reply_header q recv_ts lk) \<noteq> None" using e(2) by (auto simp: stamp_transmit_def)
  then obtain h where h: "stamp_transmit env (lk_mode lk) (reply_header q recv_ts lk) = Some h" by blast
  have ok: "packet_ok h" "p_version h = p_version q" using reply_header_ok[OF p _ h] xs(2) f by auto
  have "parse (to_bytes h) = Inr h" using parse_to_bytes_gen[OF ok(1), of "[]"] ok(2) q by simp
  moreover have "h = (reply_header q recv_ts lk)\<lparr> p_transmit_ts := p_transmit_ts h \<rparr>" using stamp_header[OF h] by simp
  then have "p_stratum h = lk_stratum lk" "p_receive_ts h = lk_receive lk"
    by (metis NtpPacket.select_convs(4,12) NtpPacket.update_convs(13) reply_header_def)+
  ultimately show ?thesis using p len nr h l f q(4) e(1)
    by (simp add: build_reply_in_def reply_bytes_def respond_bytes_def Let_def client_key_def)
qed

lemma locked_view:
  assumes t: "tbl_ok kh (sv_clients sv) xs" and l: "locked_section kh key now parsed recv_ts sv = Some (lk, sv')"
    and d: "lk_disposition lk = Respond"
  shows "\<exists>ys f. tbl_ok kh (sv_clients sv') ys \<and> names (sv_clients sv') key (lk_handle lk) \<and>
    view (sv_clients sv') ys = spec_map key f (sp_clients (snd (spec_admit (tb_capacity (sv_clients sv)) (tb_config (sv_clients sv))
      (tb_refill_per_s (sv_clients sv)) key now (spec_of (sv_clients sv) xs)))) \<and>
    (\<forall>r. cl_tokens (f r) = cl_tokens r \<and> cl_last_seen (f r) = cl_last_seen r) \<and>
    tb_config (sv_clients sv') = tb_config (sv_clients sv) \<and> tb_refill_per_s (sv_clients sv') = tb_refill_per_s (sv_clients sv)"
proof -
  obtain dd h t1 ys where a: "admit_handle kh key now (sv_clients sv) = Some ((dd, h), t1)" "tbl_ok kh t1 ys" "steady (sv_clients sv) t1"
    "(dd, spec_of t1 ys) = spec_admit (tb_capacity (sv_clients sv)) (tb_config (sv_clients sv)) (tb_refill_per_s (sv_clients sv))
       key now (spec_of (sv_clients sv) xs)"
    "h = INVALID \<or> (\<exists>i \<in> set ys. h = \<lparr> ch_slot = i, ch_generation = sl_generation (tb_slots t1 ! unat i) \<rparr> \<and>
       sl_key (tb_slots t1 ! unat i) = key)"
    using admit_spec[OF t, of key now] by blast
  have dd: "dd = Respond" using l d a by (auto simp: locked_section_def locked_refusal_def split: if_splits)
  have n: "names t1 key h" using a(5) respond_not_invalid[OF t a(1)[unfolded dd]] names_iff[OF a(2)] by blast
  have r: "respond_section h parsed recv_ts (sv\<lparr> sv_clients := t1 \<rparr>) = (lk, sv')" using l a dd by (simp add: locked_section_def)
  note f = respond_section_fields[OF r, simplified]
  let ?or = "p_origin_ts parsed"
  obtain m t2 where m: "response_mode kh key ?or t1 = Some (m, t2)" and t2': "tbl_ok kh t2 ys" "steady t1 t2"
    "spec_of t2 ys = (spec_of t1 ys)\<lparr> sp_clients := spec_map key (\<lambda>r. snd (choose_mode r ?or)) (view t1 ys) \<rparr>"
    using mode_spec[OF a(2), of key ?or] by blast
  have mt: "response_mode_at h ?or t1 = (m, t2)" using m names_ops(1)[OF a(2) n, of ?or] by simp
  note t2 = m t2'
  have t2e: "t2 = snd (response_mode_at h ?or t1)" using mt by simp
  have n2: "names t2 key h" unfolding t2e by (rule by_handle_names(1)[OF a(2) n])
  obtain t3 where t3: "note_response kh key recv_ts (lk_receive lk) t2 = Some t3" "tbl_ok kh t3 ys" "steady t2 t3"
    "spec_of t3 ys = (spec_of t2 ys)\<lparr> sp_clients := spec_map key (\<lambda>c. c\<lparr> cl_last_receive := recv_ts, cl_last_receive_sent := lk_receive lk \<rparr>) (view t2 ys) \<rparr>"
    using note_response_spec[OF t2(2)] by blast
  have t3e: "t3 = sv_clients sv'" using t3(1) names_ops(2)[OF t2(2) n2] f t2e by simp
  have n3: "names t3 key h" using names_ops(2)[OF t2(2) n2] t3(1) by_handle_names(2)[OF t2(2) n2] by (metis option.inject)
  let ?f = "\<lambda>r. (snd (choose_mode r ?or))\<lparr> cl_last_receive := recv_ts, cl_last_receive_sent := lk_receive lk \<rparr>"
  have v2: "view t2 ys = spec_map key (\<lambda>r. snd (choose_mode r ?or)) (view t1 ys)"
    using arg_cong[OF t2(4), of sp_clients] by (simp add: spec_of_def)
  have v3: "view t3 ys = spec_map key (\<lambda>c. c\<lparr> cl_last_receive := recv_ts, cl_last_receive_sent := lk_receive lk \<rparr>) (view t2 ys)"
    using arg_cong[OF t3(4), of sp_clients] by (simp add: spec_of_def)
  have "view t3 ys = spec_map key ?f (view t1 ys)"
    unfolding v3 v2 by (simp add: spec_map_def)
  moreover have "view t1 ys = sp_clients (snd (spec_admit (tb_capacity (sv_clients sv)) (tb_config (sv_clients sv)) (tb_refill_per_s (sv_clients sv))
       key now (spec_of (sv_clients sv) xs)))" unfolding a(4)[symmetric] by (simp add: spec_of_def)
  moreover have "cl_tokens (?f r) = cl_tokens r \<and> cl_last_seen (?f r) = cl_last_seen r" for r
    by (simp add: choose_mode_def Let_def)
  moreover have "tb_config t3 = tb_config (sv_clients sv)" "tb_refill_per_s t3 = tb_refill_per_s (sv_clients sv)"
    using a(3) t2(3) t3(3) by (simp_all add: steady_def)
  ultimately show ?thesis using t3(2) n3 f unfolding t3e by (intro exI[of _ ys] exI[of _ ?f]) simp
qed

lemma spec_admit_known:
  "\<not> flt (FFin 0) (rl_global_rate_hz cfg) \<Longrightarrow> map_of (sp_clients s) key = Some r \<Longrightarrow>
   fst (spec_admit cap cfg rate key now s) = fst (charge_record cfg rate now r)"
  by (simp add: spec_admit_def spec_refill_def spec_serve_def spec_touch_def Let_def)

text \<open>Two requests of one client, the second at once after the first reply's transmit time is noted: both are
answered with a time.\<close>

lemma demo_two_replies:
  assumes sv: "demo_server ring sv" "sv_ok key_bytes sv"
    and q: "\<And>i. packet_ok (q i)" "\<And>i. p_version (q i) = 4" "\<And>i. p_mode (q i) = Client"
  shows "\<exists>rep1 sv1 h1. build_reply_in key_bytes c demo_env (to_bytes (q None)) demo_peer recv1 sv = Some (Some rep1, sv1) \<and>
    parse (as_slice (re_bytes rep1)) = Inr h1 \<and> p_stratum h1 \<noteq> 0 \<and>
    resolve (re_handle rep1) (sv_clients (note_sent tx [(rep1, demo_peer)] sv1)) \<noteq> None \<and>
    (\<exists>rep2 sv2 h2. build_reply_in key_bytes c demo_env (to_bytes (q (Some h1))) demo_peer recv2 (note_sent tx [(rep1, demo_peer)] sv1)
        = Some (Some rep2, sv2) \<and> parse (as_slice (re_bytes rep2)) = Inr h2 \<and> p_stratum h2 \<noteq> 0)"
proof -
  have e: "en_mono demo_env = Some (FFin 0)" "en_wall demo_env \<noteq> None" "sa_ip demo_peer = 5"
    by (simp_all add: demo_env_def demo_peer_def)
  have v: "3 \<le> p_version (q i)" "p_version (q i) \<le> 4" for i by (simp_all add: q(2))
  have t: "tbl_ok key_bytes (sv_clients sv) []" and st: "sv_stratum sv = 1" and cfg: "tb_config (sv_clients sv) = demo_config"
    "tb_refill_per_s (sv_clients sv) = FFin (1 / 8)" using sv(1) by (simp_all add: demo_server_def)
  obtain lk sv1 where l: "locked_section key_bytes 5 (FFin 0) (q None) recv1 sv = Some (lk, sv1)" "lk_disposition lk = Respond"
    using demo_locked[OF sv(1)] by blast
  obtain rep1 h1 where r1: "build_reply_in key_bytes c demo_env (to_bytes (q None)) demo_peer recv1 sv = Some (Some rep1, sv1)"
    "parse (as_slice (re_bytes rep1)) = Inr h1" "p_stratum h1 = 1" "re_handle rep1 = lk_handle lk"
    using plain_reply[OF q(1) v q(3) sv(2) e(1,2) l[folded e(3)], of c] st by auto
  obtain ys f where y: "tbl_ok key_bytes (sv_clients sv1) ys" "names (sv_clients sv1) 5 (lk_handle lk)"
    "view (sv_clients sv1) ys = spec_map 5 f (sp_clients (snd (spec_admit 16384 demo_config (FFin (1 / 8)) 5 (FFin 0) (spec_init demo_config))))"
    "\<And>r. cl_tokens (f r) = cl_tokens r \<and> cl_last_seen (f r) = cl_last_seen r"
    "tb_config (sv_clients sv1) = demo_config" "tb_refill_per_s (sv_clients sv1) = FFin (1 / 8)"
    using locked_view[OF t l] sv(1) by (auto simp: demo_server_def)
  obtain r where r: "sp_clients (snd (spec_admit 16384 demo_config (FFin (1 / 8)) (5 :: u32) (FFin 0) (spec_init demo_config))) = [(5, r)]"
    "cl_tokens r = FFin 7" "cl_last_seen r = FFin 0" using demo_first_record by fastforce
  obtain t' where t': "note_transmit key_bytes 5 tx (sv_clients sv1) = Some t'" "tbl_ok key_bytes t' ys" "steady (sv_clients sv1) t'"
    "spec_of t' ys = (spec_of (sv_clients sv1) ys)\<lparr> sp_clients := spec_map 5 (\<lambda>c. c\<lparr> cl_last_transmit := tx \<rparr>) (view (sv_clients sv1) ys) \<rparr>"
    using note_transmit_spec[OF y(1)] by blast
  define sn where "sn = note_sent tx [(rep1, demo_peer)] sv1"
  have sn: "sv_clients sn = t'"
    using names_ops(3)[OF y(1,2), of tx] t'(1) by (simp add: sn_def note_sent_one r1(4))
  have "sv_ok key_bytes sv1"
    using build_reply_safe[OF sv(2), of c demo_env "to_bytes (q None)" demo_peer recv1] r1(1) by auto
  then have ok1: "sv_ok key_bytes sn" unfolding sn_def by (rule note_sent_ok)
  have "sv_stratum sn = 1" using locked_some[OF t, of 5 "FFin 0" "q None" recv1] l st by (simp add: sn_def note_sent_one)
  have vw: "sp_clients (spec_of t' ys) = spec_map 5 (\<lambda>c. c\<lparr> cl_last_transmit := tx \<rparr>) (spec_map 5 f [(5, r)])"
    using t'(4) y(3) r(1) by simp
  have kn: "map_of (sp_clients (spec_of t' ys)) 5 = Some ((f r)\<lparr> cl_last_transmit := tx \<rparr>)"
    unfolding vw by (simp add: map_of_spec_map)
  have c2: "tb_config t' = demo_config" "tb_refill_per_s t' = FFin (1 / 8)"
    using t'(3) y(5,6) by (simp_all add: steady_def)
  have "\<not> flt (FFin 0) (rl_global_rate_hz demo_config)" by (simp add: demo_config_def)
  then have "fst (spec_admit (tb_capacity (sv_clients sn)) (tb_config (sv_clients sn)) (tb_refill_per_s (sv_clients sn)) 5 (FFin 0)
      (spec_of (sv_clients sn) ys)) = Respond"
    using demo_second[of "(f r)\<lparr> cl_last_transmit := tx \<rparr>"] y(4)[of r] r(2,3) by (simp add: sn c2 spec_admit_known[OF _ kn])
  then obtain lk2 sv2 where l2: "locked_section key_bytes 5 (FFin 0) (q (Some h1)) recv2 sn = Some (lk2, sv2)" "lk_disposition lk2 = Respond"
    using locked_by_admit t'(2) sn by metis
  obtain rep2 h2 where "build_reply_in key_bytes c demo_env (to_bytes (q (Some h1))) demo_peer recv2 sn = Some (Some rep2, sv2)"
    "parse (as_slice (re_bytes rep2)) = Inr h2" "p_stratum h2 = 1"
    using plain_reply[OF q(1) v q(3) ok1 e(1,2) l2[folded e(3)], of c] \<open>sv_stratum sn = 1\<close> by auto
  moreover have "resolve (re_handle rep1) (sv_clients sn) \<noteq> None"
  proof -
    have "names t' 5 (lk_handle lk)" using by_handle_names(3)[OF y(1,2)] names_ops(3)[OF y(1,2), of tx] t'(1) by simp
    then obtain j where j: "kmap t' 5 = Some j" "lk_handle lk = \<lparr> ch_slot = j, ch_generation = sl_generation (tb_slots t' ! unat j) \<rparr>"
      by (auto simp: names_def)
    have "unat j < length (tb_slots t')" using tbl_key[OF t'(2), of 5 j] tbl_range[OF t'(2), of j] j(1) by simp
    then show ?thesis using j(2) by (simp add: sn r1(4) resolve_now)
  qed
  ultimately show ?thesis using r1 by (auto simp: sn_def)
qed

text \<open>C22: a turn of the serving loop never panics and keeps the client table intact,
whatever the datagrams, clocks and send result.  It builds at most one reply per datagram, each going to the
peer of a datagram that parsed as a client-mode request (so nothing is ever reflected off a server packet),
and no reply is longer than 956 bytes unless its request was at least as long.\<close>

theorem serve_turn_safe:
  assumes "sv_ok kh sv" "aead_ok c" "\<forall>d\<in>set batch. rand_ok (dg_env d)"
  shows "\<exists>replies sv'. serve_turn kh c wall batch sent wall_after sv = Some (replies, sv') \<and> sv_ok kh sv' \<and>
    length replies \<le> length batch \<and> (\<forall>rp\<in>set replies. \<exists>d\<in>set batch. answers rp d)"
proof (cases wall)
  case None
  then show ?thesis using assms(1) by (simp add: serve_turn_def)
next
  case (Some w)
  obtain rs sv' where "build_batch kh c (unix_parts_to_ntp (fst w) (snd w)) batch sv = Some (rs, sv')" "sv_ok kh sv'"
    "length rs \<le> length batch" "\<forall>rp\<in>set rs. \<exists>d\<in>set batch. answers rp d"
    using build_batch_safe[OF assms] by blast
  then show ?thesis using Some note_sent_ok
    by (auto simp: serve_turn_def split: prod.splits option.splits)
qed

lemma demo_env_ok: "rand_ok demo_env"
  by (simp add: rand_ok_def demo_env_def zeros_def)

lemma serve_turn_safe_witness:
  "\<exists>sv replies sv'. serving_state 7 demo_config (ring_new 3) 1 0 = Some sv \<and>
     serve_turn key_bytes null_cipher (Some (5, 6)) [\<lparr> dg_buf = zeros 2048, dg_len = 48, dg_peer = demo_peer, dg_env = demo_env \<rparr>] 1 None sv
       = Some (replies, sv') \<and> sv_ok key_bytes sv' \<and> length replies \<le> 1"
proof -
  obtain sv where sv: "serving_state 7 demo_config (ring_new 3) 1 0 = Some sv" "sv_ok key_bytes sv"
    using demo_server_exists by blast
  show ?thesis
    using sv serve_turn_safe[OF sv(2) null_cipher_ok,
        of "[\<lparr> dg_buf = zeros 2048, dg_len = 48, dg_peer = demo_peer, dg_env = demo_env \<rparr>]" "Some (5, 6)" 1 None] demo_env_ok
    by auto
qed

section \<open>NTS requests\<close>

lemma verified_authentic:
  assumes c: "aead_ok c" and v: "verify_client_authenticator c request auth key = Some ()"
  shows "\<exists>pt. encrypt c key [take (f_offset auth) request, slice (f_body auth) 4 (4 + auth_nonce_len (f_body auth))] pt
    = Some (slice (f_body auth) (auth_ct_start (f_body auth)) (auth_ct_start (f_body auth) + auth_ct_len (f_body auth)))"
  using v
  by (auto simp: verify_client_authenticator_def open_aead_def get_slice_def slice_def Let_def aead_decrypts[OF c]
      split: if_splits option.splits sum.splits)

lemma sealed_authentic:
  assumes "sealed_reply c env keys header uid pt = Some b"
  shows "\<exists>prefix nonce ct. b = write_authenticator prefix nonce ct \<and> encrypt c (k_s2c keys) [prefix, nonce] pt = Some ct"
  using assms by (auto simp: sealed_reply_def seal_def sealer_seal_def Let_def split: option.splits)

text \<open>C23: the time is only told to an NTS client that proved itself, and only under
its keys.  If a request carries an authenticator and the reply is a time reply, then the request held a
cookie sealed under one of the server's retained keys, its authenticator is the encryption, under the
client-to-server key in that cookie, over all the request's bytes before it, and the reply is sealed in the
same way under the server-to-client key of that cookie.\<close>

theorem nts_time_is_authentic:
  assumes "sv_ok kh sv" "aead_ok c"
    and "build_reply_in kh c env request peer recv_ts sv = Some (Some reply, sv')"
    and "parse (as_slice (re_bytes reply)) = Inr h" "p_stratum h \<noteq> 0"
    and "rq_auth (nts_request request) = Some auth"
  shows "\<exists>keys cookie. redeem c (sv_ring sv) cookie = Inr keys \<and>
    (\<exists>f\<in>set (NtsFields.fields request). f_type f = NTS_COOKIE \<and> f_body f = cookie) \<and>
    (\<exists>pt. encrypt c (k_c2s keys) [take (f_offset auth) request, slice (f_body auth) 4 (4 + auth_nonce_len (f_body auth))] pt
      = Some (slice (f_body auth) (auth_ct_start (f_body auth)) (auth_ct_start (f_body auth) + auth_ct_len (f_body auth)))) \<and>
    (\<exists>prefix nonce ct pt. as_slice (re_bytes reply) = write_authenticator prefix nonce ct \<and>
      encrypt c (k_s2c keys) [prefix, nonce] pt = Some ct)"
proof -
  obtain xs where xs: "tbl_ok kh (sv_clients sv) xs" "length (up_reference_id (sv_upstream sv)) = 4" using assms(1) by (auto simp: sv_ok_def)
  obtain q now lk where 1: "parse request = Inr q" "locked_section kh (client_key peer) now q recv_ts sv = Some (lk, sv')"
    "reply_bytes c env (sv_ring sv') request q recv_ts lk = Some (re_bytes reply)"
    using build_reply_Some[OF assms(3)] by blast
  have u: "length (up_reference_id (lk_upstream lk)) = 4" and ring: "sv_ring sv' = sv_ring sv"
    using locked_some[OF xs(1), of "client_key peer" now q recv_ts] 1(2) xs(2) by (auto simp: REFERENCE_def ascii_def)
  have d: "lk_disposition lk = Respond" using time_reply[OF 1(1) u 1(3) assms(4,5)] by simp
  obtain x where x: "Extended x = re_bytes reply"
    "nts_reply c env (sv_ring sv) request q recv_ts (nts_request request) auth (lk_mode lk) (reply_header q recv_ts lk) = Some x"
    using 1(3) d assms(6) by (auto simp: reply_bytes_def respond_bytes_def Let_def ring)
  have "x \<noteq> nts_nak q recv_ts uid" for uid using assms(4,5) x(1)[symmetric] nak_stratum by auto
  then obtain cookie keys uid where k: "rq_cookie (nts_request request) = Some cookie" "redeem c (sv_ring sv) cookie = Inr keys"
    "verify_client_authenticator c request auth (k_c2s keys) = Some ()"
    "protected_reply c env (sv_ring sv) keys uid (rq_placeholders (nts_request request)) (lk_mode lk) (reply_header q recv_ts lk) = Some x"
    using x(2) by (auto simp: nts_reply_def split: option.splits sum.splits)
  then obtain header pt where "sealed_reply c env keys header uid pt = Some x"
    by (auto simp: protected_reply_def split: option.splits)
  then obtain prefix nonce ct where se: "as_slice (re_bytes reply) = write_authenticator prefix nonce ct"
    "encrypt c (k_s2c keys) [prefix, nonce] pt = Some ct"
    using sealed_authentic x(1)[symmetric] by fastforce
  show ?thesis
    by (rule exI[of _ keys], rule exI[of _ cookie])
      (use k(2) verified_authentic[OF assms(2) k(3)] nts_request_found(1)[OF k(1)] se in blast)
qed

end
