(* ===== verification/ServerPairing.thy ===== *)
theory ServerPairing
  imports ServerRuns
begin

text \<open>Interleaved exchanges over a whole run of the server: requests of any clients from any addresses and the
transmit times of sent replies, noted whenever the sending thread gets to it, in any order; and what a reply
may then say of the past, and to whom.\<close>

section \<open>Runs\<close>

text \<open>The history of a run: a request from an address, with the time of its arrival and the reply built for it,
if any; and the transmit time noted for a reply to an address.\<close>

datatype 'k happened =
    Asked (who: 'k) (arrived: NtpTimestamp) (answer: "Reply option")
  | Noted (who: 'k) (noted: Reply) (sent_at: NtpTimestamp)

text \<open>A run of \<open>build_reply_in\<close> and \<open>note_sent\<close> under the lock.  A transmit time may be noted for any reply built
earlier, at once, late, or never.  Whatever else the daemon does to the shared state (its upstream, stratum and
cookie keys) leaves the client table alone.\<close>

inductive serving :: "('k \<Rightarrow> HashWrite list) \<Rightarrow> Aead \<Rightarrow> 'k happened list \<Rightarrow> 'k ServerState \<Rightarrow> bool" for kh c where
  fresh: "table_new cap cfg seed = Some (sv_clients sv) \<Longrightarrow> length (up_reference_id (sv_upstream sv)) = 4 \<Longrightarrow> serving kh c [] sv"
| request: "serving kh c H sv \<Longrightarrow> build_reply_in kh c env req peer recv_ts sv = Some (r, sv') \<Longrightarrow>
    serving kh c (H @ [Asked (client_key peer) recv_ts r]) sv'"
| sent: "serving kh c H sv \<Longrightarrow> Asked (client_key peer) recv_ts (Some reply) \<in> set H \<Longrightarrow>
    serving kh c (H @ [Noted (client_key peer) reply tx]) (note_sent tx [(reply, peer)] sv)"
| elsewhere: "serving kh c H sv \<Longrightarrow> sv_clients sv' = sv_clients sv \<Longrightarrow> length (up_reference_id (sv_upstream sv')) = 4 \<Longrightarrow>
    serving kh c H sv'"

definition marked :: "NtpTimestamp \<Rightarrow> NtpTimestamp" where
  "marked ts = NtpTimestamp (ts_bits ts OR 1)"

definition tells_time :: "Reply \<Rightarrow> bool" where
  "tells_time reply \<longleftrightarrow> (case parse (as_slice (re_bytes reply)) of Inl _ \<Rightarrow> False | Inr h \<Rightarrow> p_stratum h \<noteq> 0)"

text \<open>The two shapes of a time reply.\<close>

definition basic_reply :: "Env \<Rightarrow> NtpPacket \<Rightarrow> NtpPacket \<Rightarrow> bool" where
  "basic_reply env q h \<longleftrightarrow> p_origin_ts h = p_transmit_ts q \<and>
     (\<exists>s n. en_wall env = Some (s, n) \<and> p_transmit_ts h = NtpTimestamp (ts_bits (from_unix s n) AND NOT 1))"

definition interleaved_reply :: "NtpTimestamp \<Rightarrow> NtpPacket \<Rightarrow> NtpPacket \<Rightarrow> bool" where
  "interleaved_reply tx q h \<longleftrightarrow> p_origin_ts h = p_receive_ts q \<and> p_transmit_ts h = NtpTimestamp (ts_bits tx AND NOT 1)"

section \<open>Requests and the pairings\<close>

lemma map_of_butlast: "map_of (butlast cs) k = map_of cs k \<or> map_of (butlast cs) k = None"
proof (cases cs rule: rev_exhaust)
  case (snoc as a)
  then show ?thesis by (cases "map_of as k") (auto simp: map_add_def)
qed simp

lemma map_of_without: "k \<noteq> key \<Longrightarrow> map_of (filter (\<lambda>c. fst c \<noteq> key) cs) k = map_of cs k"
  by (induction cs) auto

lemma spec_touch_pairing:
  "pairing (spec_touch cap b key now cs) key = pairing cs key"
  "k \<noteq> key \<Longrightarrow> map_of (spec_touch cap b key now cs) k = map_of cs k \<or> map_of (spec_touch cap b key now cs) k = None"
  using map_of_butlast[of cs k] map_of_without[of k key cs]
  by (auto simp: spec_touch_def pairing_def client_record_new_def split: option.splits)

lemma pairing_cons: "pairing ((key, snd (charge_record cfg rate now r)) # cs) key = pairing ((key, r) # cs) key"
  by (simp add: pairing_def charge_keeps)

lemma spec_admit_pairing:
  "pairing (sp_clients (snd (spec_admit cap cfg rate key now s))) key = pairing (sp_clients s) key"
  "k \<noteq> key \<Longrightarrow> map_of (sp_clients (snd (spec_admit cap cfg rate key now s))) k = map_of (sp_clients s) k \<or>
     map_of (sp_clients (snd (spec_admit cap cfg rate key now s))) k = None"
proof -
  define s1 where "s1 = spec_refill cfg now s"
  have c: "sp_clients s1 = sp_clients s" by (simp add: s1_def spec_refill_def)
  have deny: "sp_clients (snd (spec_deny cfg s1)) = sp_clients s" by (simp add: spec_deny_def c)
  obtain r cs' where st: "spec_touch cap (rl_burst cfg) key now (sp_clients s) = (key, r) # cs'"
    using spec_touch_cons[of cap "rl_burst cfg" key now "sp_clients s"] by blast
  then have serve: "sp_clients (snd (spec_serve cap cfg rate key now s1)) = (key, snd (charge_record cfg rate now r)) # cs'"
    by (simp add: spec_serve_def Let_def c)
  have "spec_admit cap cfg rate key now s = spec_deny cfg s1 \<or> spec_admit cap cfg rate key now s = spec_serve cap cfg rate key now s1"
    by (simp add: spec_admit_def Let_def flip: s1_def)
  then show "pairing (sp_clients (snd (spec_admit cap cfg rate key now s))) key = pairing (sp_clients s) key"
    "k \<noteq> key \<Longrightarrow> map_of (sp_clients (snd (spec_admit cap cfg rate key now s))) k = map_of (sp_clients s) k \<or>
     map_of (sp_clients (snd (spec_admit cap cfg rate key now s))) k = None"
    using spec_touch_pairing(1)[of cap "rl_burst cfg" key now "sp_clients s"]
      spec_touch_pairing(2)[of k key cap "rl_burst cfg" now "sp_clients s"] st pairing_cons[of key cfg rate now r cs'] deny serve
    by auto
qed

text \<open>\<open>h\<close> was given out for \<open>k\<close>, at most \<open>n\<close> new clients ago.\<close>

definition issued :: "('k \<Rightarrow> HashWrite list) \<Rightarrow> nat \<Rightarrow> 'k ClientTable \<Rightarrow> 'k \<Rightarrow> ClientHandle \<Rightarrow> bool" where
  "issued kh n t k h \<longleftrightarrow> (\<exists>t0 ys. tbl_ok kh t0 ys \<and> tb_free t0 = [] \<and> aged n t0 t \<and>
     (h = INVALID \<or> (\<exists>i \<in> set ys. h = \<lparr> ch_slot = i, ch_generation = sl_generation (tb_slots t0 ! unat i) \<rparr> \<and>
       sl_key (tb_slots t0 ! unat i) = k)))"

lemma issued_later: "issued kh n t k h \<Longrightarrow> aged m t t' \<Longrightarrow> n + m \<le> l \<Longrightarrow> issued kh l t' k h"
  unfolding issued_def using aged_trans aged_mono by blast

lemma issued_names:
  assumes "issued kh n t k h" "n < 2 ^ 32" "tbl_ok kh t xs" "tb_free t = []" "resolve h t \<noteq> None"
  shows "names t k h"
proof -
  obtain t0 ys where t0: "tbl_ok kh t0 ys" "tb_free t0 = []" "aged n t0 t"
    "h = INVALID \<or> (\<exists>i \<in> set ys. h = \<lparr> ch_slot = i, ch_generation = sl_generation (tb_slots t0 ! unat i) \<rparr> \<and> sl_key (tb_slots t0 ! unat i) = k)"
    using assms(1) by (auto simp: issued_def)
  obtain i where i: "kmap t k = Some i" "handle_for i t = Some h"
    using handle_is_its_client[OF t0(1,2) assms(3,4) t0(3) assms(2) t0(4)] assms(5) by auto
  have "unat i < length (tb_slots t)" using tbl_key[OF assms(3), of k i] tbl_range[OF assms(3), of i] i(1) by simp
  then show ?thesis using i by (auto simp: names_def handle_now)
qed

lemma resolve_some_iff: "resolve \<lparr> ch_slot = i, ch_generation = g \<rparr> t \<noteq> None \<longleftrightarrow>
    unat i < length (tb_slots t) \<and> sl_generation (tb_slots t ! unat i) = g"
  by (auto simp: resolve_def slot_at_def split: bind_splits)

lemma resolve_INVALID: "tbl_ok kh t xs \<Longrightarrow> resolve INVALID t = None"
proof -
  assume "tbl_ok kh t xs"
  then have "length (tb_slots t) \<le> 2 ^ 30" unfolding tbl_ok_def sized_def by linarith
  then show ?thesis by (auto simp: resolve_def slot_at_def INVALID_def NIL_def)
qed

text \<open>A handle that still names its client did so before.\<close>

lemma issued_earlier:
  assumes "issued kh n t k h" "aged m t t'" "n + m < 2 ^ 32" "tbl_ok kh t' ys" "resolve h t' \<noteq> None"
  shows "resolve h t \<noteq> None"
proof -
  obtain t0 zs i where t0: "tbl_ok kh t0 zs" "aged n t0 t" and i: "i \<in> set zs"
    "h = \<lparr> ch_slot = i, ch_generation = sl_generation (tb_slots t0 ! unat i) \<rparr>"
    using assms(1,5) resolve_INVALID[OF assms(4)] by (auto simp: issued_def)
  have il: "unat i < length (tb_slots t0)" using tbl_range[OF t0(1) i(1)] by simp
  obtain a where a: "a \<le> n" "sl_generation (tb_slots t ! unat i) = sl_generation (tb_slots t0 ! unat i) + of_nat a"
    using t0(2) il by (auto simp: aged_def)
  have it: "unat i < length (tb_slots t)" using t0(2) il by (simp add: aged_def)
  obtain b where b: "b \<le> m" "sl_generation (tb_slots t' ! unat i) = sl_generation (tb_slots t ! unat i) + of_nat b"
    using assms(2) it by (auto simp: aged_def)
  have "sl_generation (tb_slots t' ! unat i) = sl_generation (tb_slots t0 ! unat i)"
    using assms(5) unfolding i(2) resolve_some_iff by simp
  then have "(of_nat (a + b) :: u32) = 0" using a(2) b(2) by (simp add: add.assoc)
  from this[unfolded word_of_nat_eq_0_iff] have "2 ^ 32 dvd a + b" by simp
  moreover have "a + b < 2 ^ 32" using a(1) b(1) assms(3) by linarith
  ultimately have "a + b = 0" by (meson dvd_imp_le linorder_not_less not_gr_zero)
  then show ?thesis using a(2) it unfolding i(2) resolve_some_iff by simp
qed


lemma names_resolve:
  assumes "tbl_ok kh t xs" "names t k h"
  shows "resolve h t \<noteq> None" "map_of (view t xs) k \<noteq> None"
proof -
  obtain i where i: "kmap t k = Some i" "h = \<lparr> ch_slot = i, ch_generation = sl_generation (tb_slots t ! unat i) \<rparr>"
    using assms(2) by (auto simp: names_def)
  have "unat i < length (tb_slots t)" using tbl_key[OF assms(1), of k i] tbl_range[OF assms(1), of i] i(1) by simp
  then show "resolve h t \<noteq> None" using i(2) by (simp add: resolve_now)
  show "map_of (view t xs) k \<noteq> None" using i(1) by (simp add: kmap_view_some[OF assms(1)])
qed

lemma names_issued: "tbl_ok kh t xs \<Longrightarrow> tb_free t = [] \<Longrightarrow> names t k h \<Longrightarrow> issued kh 0 t k h"
proof -
  assume t: "tbl_ok kh t xs" "tb_free t = []" "names t k h"
  obtain i where "kmap t k = Some i" "h = \<lparr> ch_slot = i, ch_generation = sl_generation (tb_slots t ! unat i) \<rparr>"
    using t(3) by (auto simp: names_def)
  then have "\<exists>i \<in> set xs. h = \<lparr> ch_slot = i, ch_generation = sl_generation (tb_slots t ! unat i) \<rparr> \<and> sl_key (tb_slots t ! unat i) = k"
    using tbl_key[OF t(1), of k i] by auto
  moreover have "aged 0 t t" by (rule aged_content) simp
  ultimately show "issued kh 0 t k h" using t(1,2) unfolding issued_def by blast
qed

text \<open>What a step may do to the pairings: \<open>key\<close>'s own is \<open>p\<close> after it, another client's is kept, or the client
is dropped.\<close>

definition others_kept :: "'k \<Rightarrow> ('k \<times> ClientRecord) list \<Rightarrow> ('k \<times> ClientRecord) list \<Rightarrow> bool" where
  "others_kept key cs cs' \<longleftrightarrow> (\<forall>k. k \<noteq> key \<longrightarrow> pairing cs' k = pairing cs k \<or> map_of cs' k = None)"

lemma others_kept_map: "others_kept key cs (spec_map key f cs)"
  by (simp add: others_kept_def pairing_def map_of_spec_map)

lemma others_kept_then: "others_kept key as bs \<Longrightarrow> others_kept key as (spec_map key f bs)"
  by (auto simp: others_kept_def pairing_def map_of_spec_map)

lemma admit_pairings:
  assumes t: "tbl_ok kh t xs" and a: "admit_handle kh key now t = Some ((d, h), t')" and f: "tb_free t = []"
  shows "\<exists>ys. tbl_ok kh t' ys \<and> tb_free t' = [] \<and> aged 1 t t' \<and> others_kept key (view t xs) (view t' ys) \<and>
    pairing (view t' ys) key = pairing (view t xs) key \<and> issued kh 0 t' key h \<and> (d = Respond \<longrightarrow> names t' key h)"
proof -
  obtain ys where ys: "tbl_ok kh t' ys"
    "(d, spec_of t' ys) = spec_admit (tb_capacity t) (tb_config t) (tb_refill_per_s t) key now (spec_of t xs)"
    "aged 1 t t'" "steady t t'"
    "h = INVALID \<or> (\<exists>i \<in> set ys. h = \<lparr> ch_slot = i, ch_generation = sl_generation (tb_slots t' ! unat i) \<rparr> \<and>
       sl_key (tb_slots t' ! unat i) = key)"
    using admit_spec[OF t, of key now] a by auto
  have v: "view t' ys = sp_clients (snd (spec_admit (tb_capacity t) (tb_config t) (tb_refill_per_s t) key now (spec_of t xs)))"
    unfolding ys(2)[symmetric] by (simp add: spec_of_def)
  have c: "sp_clients (spec_of t xs) = view t xs" by (simp add: spec_of_def)
  have "others_kept key (view t xs) (view t' ys)"
    unfolding others_kept_def v
  proof (intro allI impI)
    fix k assume "k \<noteq> key"
    from spec_admit_pairing(2)[OF this, of "tb_capacity t" "tb_config t" "tb_refill_per_s t" now "spec_of t xs"]
    show "pairing (sp_clients (snd (spec_admit (tb_capacity t) (tb_config t) (tb_refill_per_s t) key now (spec_of t xs)))) k = pairing (view t xs) k \<or>
      map_of (sp_clients (snd (spec_admit (tb_capacity t) (tb_config t) (tb_refill_per_s t) key now (spec_of t xs)))) k = None"
      unfolding c pairing_def by metis
  qed
  moreover have "pairing (view t' ys) key = pairing (view t xs) key" unfolding v spec_admit_pairing(1) c ..
  moreover have fr: "tb_free t' = []" using ys(4) f by (simp add: steady_def)
  moreover have "aged 0 t' t'" by (rule aged_content) simp
  then have "issued kh 0 t' key h" using ys(1,5) fr unfolding issued_def by blast
  moreover have "names t' key h" if "d = Respond"
    using ys(5) respond_not_invalid[OF t a[unfolded that]] names_iff[OF ys(1)] by blast
  ultimately show ?thesis using ys(1,3) by blast
qed

lemma by_handle_view:
  assumes t: "tbl_ok kh t xs" and n: "names t key h"
  shows "\<exists>f. tbl_ok kh (snd (response_mode_at h o' t)) xs \<and> aged 0 t (snd (response_mode_at h o' t)) \<and>
      steady t (snd (response_mode_at h o' t)) \<and> view (snd (response_mode_at h o' t)) xs = spec_map key f (view t xs)"
    "\<exists>f. tbl_ok kh (note_response_at h r s t) xs \<and> aged 0 t (note_response_at h r s t) \<and>
      steady t (note_response_at h r s t) \<and> view (note_response_at h r s t) xs = spec_map key f (view t xs)"
    "\<exists>f. tbl_ok kh (note_transmit_at h tx t) xs \<and> aged 0 t (note_transmit_at h tx t) \<and>
      steady t (note_transmit_at h tx t) \<and> view (note_transmit_at h tx t) xs = spec_map key f (view t xs)"
proof -
  have v: "spec_of t' xs = (spec_of t xs)\<lparr> sp_clients := spec_map key f (view t xs) \<rparr> \<Longrightarrow> view t' xs = spec_map key f (view t xs)" for t' f
    by (simp add: spec_of_def)
  show "\<exists>f. tbl_ok kh (snd (response_mode_at h o' t)) xs \<and> aged 0 t (snd (response_mode_at h o' t)) \<and>
      steady t (snd (response_mode_at h o' t)) \<and> view (snd (response_mode_at h o' t)) xs = spec_map key f (view t xs)"
  proof -
    obtain m t' where m: "response_mode kh key o' t = Some (m, t')" "tbl_ok kh t' xs" "steady t t'" "aged 0 t t'"
      "spec_of t' xs = (spec_of t xs)\<lparr> sp_clients := spec_map key (\<lambda>r. snd (choose_mode r o')) (view t xs) \<rparr>"
      using mode_spec[OF t, of key o'] by blast
    have "t' = snd (response_mode_at h o' t)" using m(1) names_ops(1)[OF t n, of o'] by simp
    then show ?thesis using m(2-4) v[OF m(5)] by blast
  qed
  show "\<exists>f. tbl_ok kh (note_response_at h r s t) xs \<and> aged 0 t (note_response_at h r s t) \<and>
      steady t (note_response_at h r s t) \<and> view (note_response_at h r s t) xs = spec_map key f (view t xs)"
    using note_response_spec[OF t, of key r s] v unfolding names_ops(2)[OF t n, of r s] option.inject by blast
  show "\<exists>f. tbl_ok kh (note_transmit_at h tx t) xs \<and> aged 0 t (note_transmit_at h tx t) \<and>
      steady t (note_transmit_at h tx t) \<and> view (note_transmit_at h tx t) xs = spec_map key f (view t xs)"
    using note_transmit_spec[OF t, of key tx] v unfolding names_ops(3)[OF t n, of tx] option.inject by blast
qed

text \<open>The locked section, for any disposition.\<close>

lemma locked_pairings:
  assumes t: "tbl_ok kh (sv_clients sv) xs" and f: "tb_free (sv_clients sv) = []"
    and l: "locked_section kh key now parsed recv_ts sv = Some (lk, sv')"
  shows "\<exists>ys. tbl_ok kh (sv_clients sv') ys \<and> tb_free (sv_clients sv') = [] \<and> aged 1 (sv_clients sv) (sv_clients sv') \<and>
    others_kept key (view (sv_clients sv) xs) (view (sv_clients sv') ys) \<and> issued kh 0 (sv_clients sv') key (lk_handle lk) \<and>
    pairing (view (sv_clients sv') ys) key =
      (if lk_disposition lk = Respond then (marked recv_ts, snd (pairing (view (sv_clients sv) xs) key))
       else pairing (view (sv_clients sv) xs) key)"
proof -
  obtain d h t1 where a: "admit_handle kh key now (sv_clients sv) = Some ((d, h), t1)"
    using admit_spec[OF t, of key now] by blast
  obtain ys where ys: "tbl_ok kh t1 ys" "tb_free t1 = []" "aged 1 (sv_clients sv) t1"
    "others_kept key (view (sv_clients sv) xs) (view t1 ys)" "pairing (view t1 ys) key = pairing (view (sv_clients sv) xs) key"
    "issued kh 0 t1 key h" "d = Respond \<longrightarrow> names t1 key h"
    using admit_pairings[OF t a f] by blast
  show ?thesis
  proof (cases "d = Respond")
    case False
    then have "lk = locked_refusal d h recv_ts" "sv' = sv\<lparr> sv_clients := t1 \<rparr>" using l a by (auto simp: locked_section_def)
    then show ?thesis using ys False by (intro exI[of _ ys]) (simp add: locked_refusal_def)
  next
    case True
    have r: "respond_section h parsed recv_ts (sv\<lparr> sv_clients := t1 \<rparr>) = (lk, sv')" using l a True by (simp add: locked_section_def)
    note g = respond_section_fields[OF r, simplified]
    have n1: "names t1 key h" using ys(7) True by simp
    note m1 = names_resolve(2)[OF ys(1) n1]
    define t2 where "t2 = snd (response_mode_at h (p_origin_ts parsed) t1)"
    obtain f1 where f1: "tbl_ok kh t2 ys" "aged 0 t1 t2" "steady t1 t2" "view t2 ys = spec_map key f1 (view t1 ys)"
      using by_handle_view(1)[OF ys(1) n1, of "p_origin_ts parsed"] unfolding t2_def by blast
    have n2: "names t2 key h" unfolding t2_def by (rule by_handle_names(1)[OF ys(1) n1])
    have p2: "map_of (view t2 ys) key \<noteq> None" "pairing (view t2 ys) key = pairing (view t1 ys) key"
      using mode_at_pairing[OF ys(1) n1 m1, of "p_origin_ts parsed"] by (auto simp: t2_def)
    define t3 where "t3 = note_response_at h recv_ts (lk_receive lk) t2"
    obtain f2 where f2: "tbl_ok kh t3 ys" "aged 0 t2 t3" "steady t2 t3" "view t3 ys = spec_map key f2 (view t2 ys)"
      using by_handle_view(2)[OF f1(1) n2, of recv_ts "lk_receive lk"] unfolding t3_def by blast
    have n3: "names t3 key h" unfolding t3_def by (rule by_handle_names(2)[OF f1(1) n2])
    have sv': "sv_clients sv' = t3" using g by (simp add: t3_def t2_def)
    have fr: "tb_free t3 = []" using ys(2) f1(3) f2(3) by (simp add: steady_def)
    have rm: "lk_receive lk = marked recv_ts"
      using g by (cases "lk_mode lk") (auto simp: mode_fields_def mark_server_timestamps_def marked_def)
    have "aged 1 (sv_clients sv) t3" using aged_trans[OF ys(3) aged_trans[OF f1(2) f2(2)]] by simp
    moreover have "others_kept key (view (sv_clients sv) xs) (view t3 ys)"
      unfolding f2(4) f1(4) by (intro others_kept_then ys(4))
    moreover have "pairing (view t3 ys) key = (marked recv_ts, snd (pairing (view (sv_clients sv) xs) key))"
      using note_response_pairing[OF f1(1) n2 p2(1), of recv_ts "lk_receive lk"] p2(2) ys(5) rm by (simp add: t3_def)
    ultimately show ?thesis using f2(1) fr names_issued[OF f2(1) fr n3] g
      unfolding sv' by (intro exI[of _ ys]) simp
  qed
qed

lemma others_kept_refl: "others_kept key cs cs"
  by (simp add: others_kept_def)

lemma request_pairings:
  assumes t: "tbl_ok kh (sv_clients sv) xs" and f: "tb_free (sv_clients sv) = []" and u: "length (up_reference_id (sv_upstream sv)) = 4"
    and b: "build_reply_in kh c env req peer recv_ts sv = Some (r, sv')"
  shows "\<exists>ys p. tbl_ok kh (sv_clients sv') ys \<and> tb_free (sv_clients sv') = [] \<and> aged 1 (sv_clients sv) (sv_clients sv') \<and>
    others_kept (client_key peer) (view (sv_clients sv) xs) (view (sv_clients sv') ys) \<and>
    (\<forall>rep. r = Some rep \<longrightarrow> issued kh 0 (sv_clients sv') (client_key peer) (re_handle rep)) \<and>
    pairing (view (sv_clients sv') ys) (client_key peer) = (p, snd (pairing (view (sv_clients sv) xs) (client_key peer))) \<and>
    (p = marked recv_ts \<or> p = fst (pairing (view (sv_clients sv) xs) (client_key peer))) \<and>
    (\<forall>rep. r = Some rep \<longrightarrow> tells_time rep \<longrightarrow> p = marked recv_ts)"
proof -
  let ?k = "client_key peer"
  have still: ?thesis if "core (sv_clients sv') = core (sv_clients sv)" "r = None"
    using t f that(2) aged_mono[OF core_cong(4)[OF that(1)], of 1]
    by (intro exI[of _ xs] exI[of _ "fst (pairing (view (sv_clients sv) xs) ?k)"]) (simp add: core_cong[OF that(1)] others_kept_refl)
  have core: "core (sv_clients (refused sv)) = core (sv_clients sv)" by (simp add: refused_def note_refused_def core_def)
  show ?thesis
  proof (cases "length req < HEADER_LEN \<or> (case parse req of Inl _ \<Rightarrow> True | Inr q \<Rightarrow> p_mode q \<noteq> Client) \<or> en_mono env = None")
    case True
    then have "r = None \<and> (sv' = refused sv \<or> sv' = sv)" using b by (auto simp: build_reply_in_def split: sum.splits if_splits)
    then show ?thesis using still core by auto
  next
    case False
    then obtain q now where q: "\<not> length req < HEADER_LEN" "parse req = Inr q" "p_mode q = Client" "en_mono env = Some now"
      by (auto split: sum.splits)
    obtain lk where lk: "locked_section kh ?k now q recv_ts sv = Some (lk, sv')"
      "r = map_option (\<lambda>b. \<lparr> re_bytes = b, re_handle = lk_handle lk \<rparr>) (reply_bytes c env (sv_ring sv') req q recv_ts lk)"
      using b q by (auto simp: build_reply_in_def split: option.splits)
    have "length (up_reference_id (lk_upstream lk)) = 4"
      using locked_some[OF t, of ?k now q recv_ts] lk(1) u by (auto simp: REFERENCE_def ascii_def)
    then have d: "lk_disposition lk = Respond" if "r = Some rep" "tells_time rep" for rep
      using that lk(2) time_reply[OF q(2)] by (auto simp: tells_time_def split: sum.splits)
    have h: "re_handle rep = lk_handle lk" if "r = Some rep" for rep using that lk(2) by auto
    define p where "p = (if lk_disposition lk = Respond then marked recv_ts else fst (pairing (view (sv_clients sv) xs) ?k))"
    obtain ys where ys: "tbl_ok kh (sv_clients sv') ys" "tb_free (sv_clients sv') = []" "aged 1 (sv_clients sv) (sv_clients sv')"
      "others_kept ?k (view (sv_clients sv) xs) (view (sv_clients sv') ys)" "issued kh 0 (sv_clients sv') ?k (lk_handle lk)"
      "pairing (view (sv_clients sv') ys) ?k = (if lk_disposition lk = Respond then (marked recv_ts, snd (pairing (view (sv_clients sv) xs) ?k))
        else pairing (view (sv_clients sv) xs) ?k)"
      using locked_pairings[OF t f lk(1)] by blast
    have "pairing (view (sv_clients sv') ys) ?k = (p, snd (pairing (view (sv_clients sv) xs) ?k))" using ys(6) by (simp add: p_def)
    moreover have "\<forall>rep. r = Some rep \<longrightarrow> issued kh 0 (sv_clients sv') ?k (re_handle rep)" using ys(5) h by simp
    moreover have "p = marked recv_ts \<or> p = fst (pairing (view (sv_clients sv) xs) ?k)" by (simp add: p_def)
    moreover have "\<forall>rep. r = Some rep \<longrightarrow> tells_time rep \<longrightarrow> p = marked recv_ts" using d by (simp add: p_def)
    ultimately show ?thesis using ys(1-4) by blast
  qed
qed

section \<open>The history and the pairings\<close>

text \<open>What the history says a client was last told: nothing certain; the time, by a reply whose transmit time is
not noted yet, with a receive time; or that reply with its transmit time noted.\<close>

datatype book = Unknown | Told Reply NtpTimestamp | Timed Reply NtpTimestamp NtpTimestamp

fun book_noted :: "book \<Rightarrow> Reply \<Rightarrow> NtpTimestamp \<Rightarrow> book" where
  "book_noted Unknown reply tx = Unknown"
| "book_noted (Told rep r) reply tx = (if rep = reply then Timed rep r tx else Unknown)"
| "book_noted (Timed rep r old) reply tx = (if rep = reply then Timed rep r tx else Unknown)"

fun book_asked :: "NtpTimestamp \<Rightarrow> Reply option \<Rightarrow> book" where
  "book_asked recv_ts None = Unknown"
| "book_asked recv_ts (Some rep) = (if tells_time rep then Told rep (marked recv_ts) else Unknown)"

fun book_step :: "'k \<Rightarrow> book \<Rightarrow> 'k happened \<Rightarrow> book" where
  "book_step k b (Asked k' recv_ts r) = (if k' = k then book_asked recv_ts r else b)"
| "book_step k b (Noted k' reply tx) = (if k' = k then book_noted b reply tx else b)"

definition book_of :: "'k \<Rightarrow> 'k happened list \<Rightarrow> book" where
  "book_of k H = foldl (book_step k) Unknown H"

lemma book_of_simps [simp]: "book_of k [] = Unknown" "book_of k (H @ [e]) = book_step k (book_of k H) e"
  by (simp_all add: book_of_def)

lemma book_quiet: "\<forall>e\<in>set H. who e \<noteq> k \<Longrightarrow> foldl (book_step k) b H = b"
proof (induction H arbitrary: b)
  case (Cons e H)
  then show ?case by (cases e) simp_all
qed simp

lemma book_exchange:
  assumes "\<forall>e\<in>set (between @ later). who e \<noteq> k" "tells_time reply"
  shows "book_of k (before @ [Asked k recv_ts (Some reply)] @ between @ [Noted k reply tx] @ later) = Timed reply (marked recv_ts) tx"
  using assms by (simp add: book_of_def book_quiet ball_Un)

fun book_reply :: "book \<Rightarrow> Reply option" where
  "book_reply Unknown = None"
| "book_reply (Told rep r) = Some rep"
| "book_reply (Timed rep r tx) = Some rep"

text \<open>What the table holds against a book, as long as the reply's handle is live.\<close>

fun book_holds :: "book \<Rightarrow> 'k ClientTable \<Rightarrow> NtpTimestamp \<times> NtpTimestamp \<Rightarrow> bool" where
  "book_holds Unknown t p = True"
| "book_holds (Told rep r) t p = (resolve (re_handle rep) t \<noteq> None \<longrightarrow> fst p = r)"
| "book_holds (Timed rep r tx) t p = (resolve (re_handle rep) t \<noteq> None \<longrightarrow> p = (r, tx))"

lemma book_reply_asked: "book_reply (book_of k H) = Some rep \<Longrightarrow> \<exists>recv_ts. Asked k recv_ts (Some rep) \<in> set H"
proof (induction H rule: rev_induct)
  case (snoc e H)
  show ?case
  proof (cases e)
    case (Asked k' recv_ts r)
    show ?thesis
    proof (cases "k' = k")
      case True
      then show ?thesis using snoc.prems Asked by (cases r) (auto split: if_splits)
    qed (use snoc Asked in auto)
  next
    case (Noted k' reply tx)
    then show ?thesis using snoc by (cases "book_of k H") (auto split: if_splits)
  qed
qed simp

text \<open>A pairing's times come from the history of the same address.\<close>

definition told_before :: "'k happened list \<Rightarrow> 'k \<Rightarrow> NtpTimestamp \<times> NtpTimestamp \<Rightarrow> bool" where
  "told_before H k p \<longleftrightarrow> (fst p = ts_ZERO \<or> (\<exists>recv_ts r. Asked k recv_ts r \<in> set H \<and> fst p = marked recv_ts)) \<and>
     (snd p = ts_ZERO \<or> (\<exists>reply. Noted k reply (snd p) \<in> set H))"

lemma told_before_later: "told_before H k p \<Longrightarrow> told_before (H @ [e]) k p"
  by (auto simp: told_before_def)

lemma told_before_none: "map_of cs k = None \<Longrightarrow> told_before H k (pairing cs k)"
  by (simp add: told_before_def pairing_def)

definition pairs_ok :: "('k \<Rightarrow> HashWrite list) \<Rightarrow> 'k happened list \<Rightarrow> 'k ClientTable \<Rightarrow> u32 list \<Rightarrow> bool" where
  "pairs_ok kh H t xs \<longleftrightarrow> tbl_ok kh t xs \<and> tb_free t = [] \<and>
     (\<forall>k recv_ts rep. Asked k recv_ts (Some rep) \<in> set H \<longrightarrow> issued kh (length H) t k (re_handle rep)) \<and>
     (\<forall>k. told_before H k (pairing (view t xs) k) \<and> book_holds (book_of k H) t (pairing (view t xs) k))"

lemma book_kept:
  assumes "pairs_ok kh H t xs" "length H + 1 < 2 ^ 32" "aged 1 t t'" "tbl_ok kh t' ys" "tb_free t' = []"
    and "pairing (view t' ys) k = pairing (view t xs) k \<or> map_of (view t' ys) k = None"
  shows "book_holds (book_of k H) t' (pairing (view t' ys) k)"
proof -
  have live: "resolve (re_handle rep) t \<noteq> None \<and> pairing (view t' ys) k = pairing (view t xs) k"
    if rep: "book_reply (book_of k H) = Some rep" and r: "resolve (re_handle rep) t' \<noteq> None" for rep
  proof -
    obtain recv_ts where "Asked k recv_ts (Some rep) \<in> set H" using book_reply_asked[OF rep] by blast
    then have i: "issued kh (length H) t k (re_handle rep)" using assms(1) by (auto simp: pairs_ok_def)
    have "names t' k (re_handle rep)"
      by (rule issued_names[OF issued_later[OF i assms(3) order_refl] assms(2,4,5) r])
    then have "map_of (view t' ys) k \<noteq> None" by (rule names_resolve(2)[OF assms(4)])
    then show ?thesis using issued_earlier[OF i assms(3,2,4) r] assms(6) by auto
  qed
  have "book_holds (book_of k H) t (pairing (view t xs) k)" using assms(1) by (simp add: pairs_ok_def)
  then show ?thesis using live by (cases "book_of k H") auto
qed

lemma pairs_ok_request:
  assumes i: "pairs_ok kh H (sv_clients sv) xs" and n: "length H + 1 < 2 ^ 32" and u: "length (up_reference_id (sv_upstream sv)) = 4"
    and b: "build_reply_in kh c env req peer recv_ts sv = Some (r, sv')"
  shows "\<exists>ys. pairs_ok kh (H @ [Asked (client_key peer) recv_ts r]) (sv_clients sv') ys"
proof -
  let ?k = "client_key peer" and ?H = "H @ [Asked (client_key peer) recv_ts r]" and ?t = "sv_clients sv" and ?t' = "sv_clients sv'"
  have t: "tbl_ok kh ?t xs" "tb_free ?t = []" using i by (simp_all add: pairs_ok_def)
  obtain ys p where ys: "tbl_ok kh ?t' ys" "tb_free ?t' = []" "aged 1 ?t ?t'" "others_kept ?k (view ?t xs) (view ?t' ys)"
    "\<forall>rep. r = Some rep \<longrightarrow> issued kh 0 ?t' ?k (re_handle rep)"
    "pairing (view ?t' ys) ?k = (p, snd (pairing (view ?t xs) ?k))"
    "p = marked recv_ts \<or> p = fst (pairing (view ?t xs) ?k)" "\<forall>rep. r = Some rep \<longrightarrow> tells_time rep \<longrightarrow> p = marked recv_ts"
    using request_pairings[OF t u b] by blast
  have other: "pairing (view ?t' ys) k = pairing (view ?t xs) k \<or> map_of (view ?t' ys) k = None" if "k \<noteq> ?k" for k
    using ys(4) that by (simp add: others_kept_def)
  have aged0: "aged 0 ?t' ?t'" by (rule aged_content) simp
  have "issued kh (length ?H) ?t' k (re_handle rep)" if "Asked k arr (Some rep) \<in> set ?H" for k arr rep
  proof (cases "Asked k arr (Some rep) \<in> set H")
    case True
    then have "issued kh (length H) ?t k (re_handle rep)" using i by (auto simp: pairs_ok_def)
    from issued_later[OF this ys(3)] show ?thesis by simp
  next
    case False
    then have "k = ?k" "r = Some rep" using that by auto
    then show ?thesis using ys(5) issued_later[OF _ aged0, of kh 0 ?k "re_handle rep" "length ?H"] by simp
  qed
  moreover have "told_before ?H k (pairing (view ?t' ys) k)" for k
  proof -
    have old: "told_before H k (pairing (view ?t xs) k)" using i by (simp add: pairs_ok_def)
    show ?thesis
    proof (cases "k = ?k")
      case True
      then show ?thesis using old ys(6,7) by (auto simp: told_before_def)
    next
      case False
      then show ?thesis using other[OF False] told_before_none told_before_later[OF old] by fastforce
    qed
  qed
  moreover have "book_holds (book_of k ?H) ?t' (pairing (view ?t' ys) k)" for k
  proof (cases "k = ?k")
    case True
    then show ?thesis using ys(6,8) by (cases r) auto
  next
    case False
    then show ?thesis using book_kept[OF i n ys(3,1,2) other[OF False]] by simp
  qed
  ultimately show ?thesis using ys(1,2) unfolding pairs_ok_def by blast
qed

lemma note_transmit_resolve: "resolve h (note_transmit_at h0 tx t) = resolve h t"
proof -
  have len: "length (tb_slots (note_transmit_at h0 tx t)) = length (tb_slots t)"
    by (simp add: note_transmit_at_def set_record_def split: option.split)
  have gen: "sl_generation (tb_slots (note_transmit_at h0 tx t) ! j) = sl_generation (tb_slots t ! j)" for j
    by (simp add: note_transmit_at_def set_record_generation split: option.split)
  show ?thesis by (simp add: resolve_def slot_at_def len gen split: bind_splits)
qed

lemma pairs_ok_sent:
  assumes i: "pairs_ok kh H t xs" and n: "length H + 1 < 2 ^ 32" and a: "Asked k0 recv_ts (Some reply) \<in> set H"
  shows "\<exists>ys. pairs_ok kh (H @ [Noted k0 reply tx]) (note_transmit_at (re_handle reply) tx t) ys"
proof -
  let ?h = "re_handle reply" and ?H = "H @ [Noted k0 reply tx]"
  have t: "tbl_ok kh t xs" "tb_free t = []" and iss: "issued kh (length H) t k0 ?h" using i a by (auto simp: pairs_ok_def)
  define t' where "t' = note_transmit_at ?h tx t"
  have live: "resolve h t' = resolve h t" for h by (simp add: t'_def note_transmit_resolve)
  have "tbl_ok kh t' xs \<and> tb_free t' = [] \<and> aged 0 t t' \<and> (\<forall>k. pairing (view t' xs) k =
      (if resolve ?h t \<noteq> None \<and> k = k0 then (fst (pairing (view t xs) k), tx) else pairing (view t xs) k))"
  proof (cases "resolve ?h t")
    case None
    then show ?thesis using t by (simp add: t'_def note_transmit_at_def aged_content)
  next
    case (Some j)
    have nm: "names t k0 ?h" using issued_names[OF iss _ t] n Some by simp
    obtain f where f: "tbl_ok kh t' xs" "aged 0 t t'" "steady t t'" "view t' xs = spec_map k0 f (view t xs)"
      using by_handle_view(3)[OF t(1) nm, of tx] unfolding t'_def by blast
    have "pairing (view t' xs) k0 = (fst (pairing (view t xs) k0), tx)"
      using note_transmit_pairing[OF t(1) nm names_resolve(2)[OF t(1) nm], of tx] by (simp add: t'_def)
    moreover have "pairing (view t' xs) k = pairing (view t xs) k" if "k \<noteq> k0" for k
      using that f(4) by (simp add: pairing_def map_of_spec_map)
    ultimately show ?thesis using f(1-3) t(2) Some by (auto simp: steady_def)
  qed
  then have t': "tbl_ok kh t' xs" "tb_free t' = []" "aged 0 t t'" and
    p: "\<And>k. pairing (view t' xs) k =
      (if resolve ?h t \<noteq> None \<and> k = k0 then (fst (pairing (view t xs) k), tx) else pairing (view t xs) k)" by blast+
  have "issued kh (length ?H) t' k (re_handle rep)" if "Asked k arr (Some rep) \<in> set ?H" for k arr rep
  proof -
    have "issued kh (length H) t k (re_handle rep)" using that i by (auto simp: pairs_ok_def)
    from issued_later[OF this t'(3)] show ?thesis by simp
  qed
  moreover have "told_before ?H k (pairing (view t' xs) k)" for k
  proof -
    have "told_before H k (pairing (view t xs) k)" using i by (simp add: pairs_ok_def)
    then show ?thesis unfolding p by (auto simp: told_before_def)
  qed
  moreover have "book_holds (book_of k ?H) t' (pairing (view t' xs) k)" for k
  proof -
    have "book_holds (book_of k H) t (pairing (view t xs) k)" using i by (simp add: pairs_ok_def)
    then show ?thesis unfolding p by (cases "book_of k H") (auto simp: live)
  qed
  ultimately have "pairs_ok kh ?H t' xs" using t' unfolding pairs_ok_def by blast
  then show ?thesis unfolding t'_def by blast
qed

lemma serving_ok:
  "serving kh c H sv \<Longrightarrow> sv_ok kh sv \<and> (length H < 2 ^ 32 \<longrightarrow> (\<exists>xs. pairs_ok kh H (sv_clients sv) xs))"
proof (induction rule: serving.induct)
  case (fresh cap cfg seed sv)
  have "told_before [] k (pairing (view (sv_clients sv) []) k)" for k by (simp add: told_before_none view_def)
  then have "pairs_ok kh [] (sv_clients sv) []" using table_new_ok[OF fresh(1), of kh] by (simp add: pairs_ok_def)
  then show ?case using fresh by (auto simp: sv_ok_def pairs_ok_def)
next
  case (request H sv env req peer recv_ts r sv')
  have ok: "sv_ok kh sv" using request by blast
  then have "sv_ok kh sv'" using build_reply_safe[OF ok, of c env req peer recv_ts] request.hyps(2) by auto
  moreover have "length (up_reference_id (sv_upstream sv)) = 4" using ok by (simp add: sv_ok_def)
  ultimately show ?case using request pairs_ok_request[OF _ _ _ request.hyps(2)] by fastforce
next
  case (sent H sv peer recv_ts reply tx)
  have "sv_ok kh (note_sent tx [(reply, peer)] sv)" using sent.IH note_sent_ok by blast
  moreover have "\<exists>ys. pairs_ok kh (H @ [Noted (client_key peer) reply tx]) (note_transmit_at (re_handle reply) tx (sv_clients sv)) ys"
    if "length H + 1 < 2 ^ 32" using sent pairs_ok_sent[OF _ that sent.hyps(2)] that by fastforce
  ultimately show ?case by (simp add: note_sent_one)
next
  case (elsewhere H sv sv')
  then show ?case by (auto simp: sv_ok_def)
qed

section \<open>What a reply says of the past\<close>

lemma pair_mode_cases:
  "pair_mode p origin = Basic \<or> pair_mode p origin = Interleaved (snd p) \<and> origin = fst p \<and> fst p \<noteq> ts_ZERO \<and> snd p \<noteq> ts_ZERO"
  by (cases "fst p"; cases "snd p") (auto simp: pair_mode_def ts_is_zero_def ts_ZERO_def)

lemma reply_by_mode:
  assumes t: "tbl_ok kh (sv_clients sv) xs" and u: "length (up_reference_id (sv_upstream sv)) = 4"
    and b: "build_reply_in kh c env req peer recv_ts sv = Some (Some reply, sv')" and q: "parse req = Inr q"
    and h: "parse (as_slice (re_bytes reply)) = Inr h" "p_stratum h \<noteq> 0"
  shows "p_receive_ts h = marked recv_ts \<and>
    (case pair_mode (pairing (view (sv_clients sv) xs) (client_key peer)) (p_origin_ts q) of
       Basic \<Rightarrow> basic_reply env q h | Interleaved tx \<Rightarrow> interleaved_reply tx q h)"
proof -
  obtain now lk where 1: "locked_section kh (client_key peer) now q recv_ts sv = Some (lk, sv')"
    "reply_bytes c env (sv_ring sv') req q recv_ts lk = Some (re_bytes reply)"
    using build_reply_Some[OF b] q by auto
  have "length (up_reference_id (lk_upstream lk)) = 4"
    using locked_some[OF t, of "client_key peer" now q recv_ts] 1(1) u by (auto simp: REFERENCE_def ascii_def)
  note tr = time_reply[OF q this 1(2) h]
  have m: "lk_mode lk = pair_mode (pairing (view (sv_clients sv) xs) (client_key peer)) (p_origin_ts q)"
    "(lk_receive lk, lk_transmit lk) = mode_fields (lk_mode lk) recv_ts"
    using locked_respond[OF t 1(1)] tr by auto
  have st: "h = (reply_header q recv_ts lk)\<lparr> p_transmit_ts := p_transmit_ts h \<rparr>" using stamp_header tr by blast
  have f: "p_receive_ts h = lk_receive lk" "p_origin_ts h = origin_field (lk_mode lk) q"
    by (subst st, simp add: reply_header_def)+
  show ?thesis
  proof (cases "lk_mode lk")
    case Basic
    then show ?thesis using stamp_header[of env Basic] tr f m
      by (auto simp: mode_fields_def mark_server_timestamps_def origin_field_def basic_reply_def marked_def)
  next
    case (Interleaved tx)
    then show ?thesis using stamp_header[of env "Interleaved tx"] tr f m(2) m(1)[symmetric]
      by (auto simp: mode_fields_def mark_server_timestamps_def origin_field_def reply_header_def interleaved_reply_def marked_def)
  qed
qed

text \<open>C21: interleaved mode reports an earlier exchange of the same address, and nobody else's.
After any run - requests of any number of clients, and transmit times noted for the replies in any order, late or
never - a time reply to a request from an address is one of two things.  It may be basic: the request's own
transmit time as origin and a transmit time read from the clock for it.  Or it is interleaved: then the request's
origin is the receive time (bit 0 set) of an earlier request from the same address, and the transmit time it carries
(bit 0 cleared) was noted for a reply to the same address; what happened between the server and other addresses never
shows.  And the interleaved reply is not withheld: if the last events of this address are a time reply and the
noting of its transmit time, whatever other clients did between them and since, and the client was not dropped from
the table (the reply's handle still resolves), the reply carries that time exactly when the request's origin
echoes the receive time of that exchange, and is basic otherwise.  Either way the receive time is that of this request, bit 0 set.
Bound: fewer than \<open>2 ^ 32\<close> events, the range of a slot's generation.\<close>

theorem interleaved_pairing:
  assumes "serving kh c H sv" "length H < 2 ^ 32"
    and "build_reply_in kh c env req peer recv_ts sv = Some (Some reply, sv')" "parse req = Inr q"
    and "parse (as_slice (re_bytes reply)) = Inr h" "p_stratum h \<noteq> 0"
  shows "p_receive_ts h = marked recv_ts \<and>
    (basic_reply env q h \<or>
     (\<exists>recv1 r1 reply1 tx. Asked (client_key peer) recv1 r1 \<in> set H \<and> p_origin_ts q = marked recv1 \<and>
        Noted (client_key peer) reply1 tx \<in> set H \<and> interleaved_reply tx q h)) \<and>
    (\<forall>before recv1 reply1 between tx later.
       H = before @ [Asked (client_key peer) recv1 (Some reply1)] @ between @ [Noted (client_key peer) reply1 tx] @ later \<longrightarrow>
       (\<forall>e\<in>set (between @ later). who e \<noteq> client_key peer) \<longrightarrow> tells_time reply1 \<longrightarrow> tx \<noteq> ts_ZERO \<longrightarrow>
       resolve (re_handle reply1) (sv_clients sv) \<noteq> None \<longrightarrow>
       (if p_origin_ts q = marked recv1 then interleaved_reply tx q h else basic_reply env q h))"
proof -
  let ?k = "client_key peer"
  obtain xs where i: "pairs_ok kh H (sv_clients sv) xs" and u: "length (up_reference_id (sv_upstream sv)) = 4"
    using serving_ok[OF assms(1)] assms(2) by (auto simp: sv_ok_def)
  have t: "tbl_ok kh (sv_clients sv) xs" using i by (simp add: pairs_ok_def)
  let ?p = "pairing (view (sv_clients sv) xs) ?k"
  have m: "p_receive_ts h = marked recv_ts" "case pair_mode ?p (p_origin_ts q) of
       Basic \<Rightarrow> basic_reply env q h | Interleaved tx \<Rightarrow> interleaved_reply tx q h"
    using reply_by_mode[OF t u assms(3-6)] by simp_all
  have told: "told_before H ?k ?p" using i by (simp add: pairs_ok_def)
  have 1: "basic_reply env q h \<or> (\<exists>recv1 r1 reply1 tx. Asked ?k recv1 r1 \<in> set H \<and> p_origin_ts q = marked recv1 \<and>
        Noted ?k reply1 tx \<in> set H \<and> interleaved_reply tx q h)"
  proof (cases "pair_mode ?p (p_origin_ts q)")
    case Basic
    then show ?thesis using m(2) by simp
  next
    case (Interleaved tx)
    then have e: "tx = snd ?p" "p_origin_ts q = fst ?p" "fst ?p \<noteq> ts_ZERO" "snd ?p \<noteq> ts_ZERO"
      using pair_mode_cases[of ?p "p_origin_ts q"] by simp_all
    obtain recv1 r1 reply1 where "Asked ?k recv1 r1 \<in> set H" "fst ?p = marked recv1" "Noted ?k reply1 (snd ?p) \<in> set H"
      using told e(3,4) unfolding told_before_def by blast
    then show ?thesis using m(2) Interleaved e(1,2) by auto
  qed
  have 2: "if p_origin_ts q = marked recv1 then interleaved_reply tx q h else basic_reply env q h"
    if H: "H = before @ [Asked ?k recv1 (Some reply1)] @ between @ [Noted ?k reply1 tx] @ later"
      and o: "\<forall>e\<in>set (between @ later). who e \<noteq> ?k" "tells_time reply1" "tx \<noteq> ts_ZERO"
      and l: "resolve (re_handle reply1) (sv_clients sv) \<noteq> None" for before recv1 reply1 between tx later
  proof -
    have "book_holds (book_of ?k H) (sv_clients sv) ?p" using i by (simp add: pairs_ok_def)
    then have p: "?p = (marked recv1, tx)" using book_exchange[OF o(1,2)] l by (simp add: H)
    have nz: "marked recv1 \<noteq> ts_ZERO" by (simp add: marked_def ts_ZERO_def marked_not_zero)
    have z: "ts_is_zero x \<longleftrightarrow> x = ts_ZERO" for x by (cases x) (simp add: ts_is_zero_def ts_ZERO_def)
    show ?thesis using m(2) nz o(3) by (auto simp: p pair_mode_def z)
  qed
  show ?thesis using m(1) 1 2 by blast
qed

text \<open>The server of the default limits; its client at address 5 asks, the reply's transmit time 99 is noted, and it
asks again with the receive time it was told as origin.\<close>

lemma interleaved_pairing_witness:
  "\<exists>sv rep1 H sv1 rep2 sv2 h2. serving key_bytes null_cipher H sv1 \<and> H = [Asked 5 (NtpTimestamp 10) (Some rep1), Noted 5 rep1 (NtpTimestamp 99)] \<and>
     build_reply_in key_bytes null_cipher demo_env (to_bytes (client_request 4 (NtpTimestamp 3))) demo_peer (NtpTimestamp 10) sv
       = Some (Some rep1, sv2) \<and> sv1 = note_sent (NtpTimestamp 99) [(rep1, demo_peer)] sv2 \<and>
     (\<exists>sv3. build_reply_in key_bytes null_cipher demo_env (to_bytes ((client_request 4 (NtpTimestamp 7))\<lparr> p_origin_ts := NtpTimestamp 11 \<rparr>))
       demo_peer (NtpTimestamp 20) sv1 = Some (Some rep2, sv3)) \<and>
     parse (as_slice (re_bytes rep2)) = Inr h2 \<and> p_receive_ts h2 = NtpTimestamp 21 \<and> p_transmit_ts h2 = NtpTimestamp 98"
proof -
  define q where "q = (\<lambda>i. case i of None \<Rightarrow> client_request 4 (NtpTimestamp 3)
     | Some (h :: NtpPacket) \<Rightarrow> (client_request 4 (NtpTimestamp 7))\<lparr> p_origin_ts := NtpTimestamp 11 \<rparr>)"
  have q: "packet_ok (q i)" "p_version (q i) = 4" "p_mode (q i) = Client" for i
    by (auto simp: q_def packet_ok_def client_request_def split: option.splits)
  obtain sv where sv: "serving_state 7 demo_config (ring_new 3) 1 0 = Some sv" "demo_server (ring_new 3) sv" "sv_ok key_bytes sv"
    using demo_server_exists by blast
  let ?tx = "NtpTimestamp 99"
  obtain rep1 sv1 h1 rep2 sv2 h2 where
    1: "build_reply_in key_bytes null_cipher demo_env (to_bytes (q None)) demo_peer (NtpTimestamp 10) sv = Some (Some rep1, sv1)"
      "parse (as_slice (re_bytes rep1)) = Inr h1" "p_stratum h1 \<noteq> 0"
      "resolve (re_handle rep1) (sv_clients (note_sent ?tx [(rep1, demo_peer)] sv1)) \<noteq> None" and
    2: "build_reply_in key_bytes null_cipher demo_env (to_bytes (q (Some h1))) demo_peer (NtpTimestamp 20)
        (note_sent ?tx [(rep1, demo_peer)] sv1) = Some (Some rep2, sv2)"
      "parse (as_slice (re_bytes rep2)) = Inr h2" "p_stratum h2 \<noteq> 0"
    using demo_two_replies[where q = q and c = null_cipher and ?recv1.0 = "NtpTimestamp 10" and ?recv2.0 = "NtpTimestamp 20"
        and tx = ?tx, OF sv(2,3) q] by blast
  have p: "parse (to_bytes (q (Some h1))) = Inr (q (Some h1))"
    using parse_to_bytes_gen[OF q(1), of _ "[]"] q(2) by simp
  define H where "H = [Asked (5 :: u32) (NtpTimestamp 10) (Some rep1), Noted 5 rep1 ?tx]"
  have k: "client_key demo_peer = 5" by (simp add: client_key_def demo_peer_def)
  have "serving key_bytes null_cipher [] sv"
    using sv(1,3) by (intro fresh[of CLIENT_TABLE_CAPACITY demo_config 7]) (auto simp: serving_state_def sv_ok_def)
  from request[OF this 1(1)] have "serving key_bytes null_cipher [Asked 5 (NtpTimestamp 10) (Some rep1)] sv1" by (simp add: k)
  from sent[OF this, of demo_peer "NtpTimestamp 10" rep1 ?tx] have r: "serving key_bytes null_cipher H (note_sent ?tx [(rep1, demo_peer)] sv1)"
    by (simp add: k H_def)
  have tt: "tells_time rep1" using 1(2,3) by (simp add: tells_time_def)
  have o: "p_origin_ts (q (Some h1)) = marked (NtpTimestamp 10)" by (simp add: q_def marked_def)
  have len: "length H < 2 ^ 32" by (simp add: H_def)
  note ip = interleaved_pairing[OF r len 2(1) p 2(2,3)]
  have "H = [] @ [Asked (client_key demo_peer) (NtpTimestamp 10) (Some rep1)] @ [] @ [Noted (client_key demo_peer) rep1 ?tx] @ []"
    by (simp add: k H_def)
  then have "interleaved_reply ?tx (q (Some h1)) h2"
    using conjunct2[OF conjunct2[OF ip], rule_format, of "[]" "NtpTimestamp 10" rep1 "[]" ?tx "[]"] tt 1(4) o by (simp add: ts_ZERO_def)
  then have t: "p_transmit_ts h2 = NtpTimestamp 98" "p_receive_ts h2 = NtpTimestamp 21"
    using conjunct1[OF ip] by (simp_all add: interleaved_reply_def marked_def)
  have qq: "q None = client_request 4 (NtpTimestamp 3)" "q (Some h1) = (client_request 4 (NtpTimestamp 7))\<lparr> p_origin_ts := NtpTimestamp 11 \<rparr>"
    by (simp_all add: q_def)
  show ?thesis
    by (rule exI[of _ sv], rule exI[of _ rep1], rule exI[of _ H], rule exI[of _ "note_sent ?tx [(rep1, demo_peer)] sv1"],
        rule exI[of _ rep2], rule exI[of _ sv1], rule exI[of _ h2])
      (use r 1(1) 2(1,2) t qq H_def in auto)
qed

text \<open>The one slot of a client pairs the newest receive time with the newest noted transmit time, which need not be of
the same exchange: a reply whose transmit time was not noted - it was not sent, or its batch is not done - leaves the
transmit time of the exchange before, and the client that echoes the newest receive time is told that one.\<close>

lemma unnoted_reply_pairs_wrong_exchange:
  "\<exists>t0 os t. table_new 2 rate_limit_default 7 = Some t0 \<and>
     table_run key_bytes [OpAdmit (5 :: u32) (FFin 0), OpResponse 5 (NtpTimestamp 10) (NtpTimestamp 11), OpTransmit 5 (NtpTimestamp 99),
       OpAdmit 5 (FFin 1), OpResponse 5 (NtpTimestamp 200) (NtpTimestamp 201), OpAdmit 5 (FFin 2), OpMode 5 (NtpTimestamp 201)] t0
       = Some (os, t) \<and> last os = OutMode (Interleaved (NtpTimestamp 99))"
proof -
  obtain t0 :: "u32 ClientTable" where t0: "table_new 2 rate_limit_default 7 = Some t0" using demo_table by blast
  note n = table_new_ok[OF t0, of key_bytes]
  have p: "pow2 (- rl_interval_log2 rate_limit_default) = 1 / 8" by (simp add: rate_limit_default_def pow2_powi)
  have "last (fst (spec_run 2 rate_limit_default (FFin (1 / 8)) [OpAdmit (5 :: u32) (FFin 0), OpResponse 5 (NtpTimestamp 10) (NtpTimestamp 11),
       OpTransmit 5 (NtpTimestamp 99), OpAdmit 5 (FFin 1), OpResponse 5 (NtpTimestamp 200) (NtpTimestamp 201), OpAdmit 5 (FFin 2),
       OpMode 5 (NtpTimestamp 201)] (spec_init rate_limit_default))) = OutMode (Interleaved (NtpTimestamp 99))"
    by code_simp
  then show ?thesis using table_run_spec[of key_bytes t0 "[]"] n p t0
    by (metis fst_conv max.absorb1 one_le_numeral)
qed

text \<open>The batches of the serving loop are such runs.\<close>

lemma serving_batch:
  "serving kh c H sv \<Longrightarrow> build_batch kh c recv_ts ds sv = Some (replies, sv') \<Longrightarrow>
   \<exists>H'. serving kh c (H @ H') sv' \<and> (\<forall>(reply, peer)\<in>set replies. Asked (client_key peer) recv_ts (Some reply) \<in> set H')"
proof (induction ds arbitrary: H sv replies)
  case Nil
  then show ?case by (intro exI[of _ "[]"]) simp
next
  case (Cons d ds)
  obtain r sv1 rs where 1: "build_reply_in kh c (dg_env d) (dg_request d) (dg_peer d) recv_ts sv = Some (r, sv1)"
    "build_batch kh c recv_ts ds sv1 = Some (rs, sv')"
    "replies = (case r of None \<Rightarrow> [] | Some reply \<Rightarrow> [(reply, dg_peer d)]) @ rs"
    using Cons.prems(2) by (auto simp: dg_request_def split: option.splits)
  let ?a = "Asked (client_key (dg_peer d)) recv_ts r"
  obtain H' where "serving kh c ((H @ [?a]) @ H') sv'" "\<forall>(reply, peer)\<in>set rs. Asked (client_key peer) recv_ts (Some reply) \<in> set H'"
    using Cons.IH[OF request[OF Cons.prems(1) 1(1)] 1(2)] by blast
  then show ?case using 1(3) by (intro exI[of _ "?a # H'"]) (auto split: option.splits)
qed

lemma serving_sent:
  "serving kh c H sv \<Longrightarrow> \<forall>(reply, peer)\<in>set rs. Asked (client_key peer) recv_ts (Some reply) \<in> set H \<Longrightarrow>
   serving kh c (H @ map (\<lambda>(reply, peer). Noted (client_key peer) reply tx) rs) (note_sent tx rs sv)"
proof (induction rs arbitrary: H sv)
  case (Cons rp rs)
  obtain reply peer where rp: "rp = (reply, peer)" by fastforce
  have "serving kh c (H @ [Noted (client_key peer) reply tx]) (note_sent tx [(reply, peer)] sv)"
    using sent[OF Cons.prems(1)] Cons.prems(2) rp by fastforce
  from Cons.IH[OF this] Cons.prems(2) show ?case by (simp add: rp note_sent_def)
qed (simp add: note_sent_def)

lemma serve_turn_serving:
  assumes "serving kh c H sv" "serve_turn kh c wall ds n wall_after sv = Some (replies, sv')"
  shows "\<exists>H'. serving kh c (H @ H') sv'"
proof (cases wall)
  case None
  then show ?thesis using assms by (intro exI[of _ "[]"]) (simp add: serve_turn_def)
next
  case (Some w)
  define recv_ts where "recv_ts = unix_parts_to_ntp (fst w) (snd w)"
  obtain sv1 where 1: "build_batch kh c recv_ts ds sv = Some (replies, sv1)"
    "sv' = sv1 \<or> (\<exists>tx. sv' = note_sent tx (take n replies) sv1)"
    using assms(2) Some by (auto simp: serve_turn_def recv_ts_def split: prod.splits option.splits if_splits)
  obtain H' where H': "serving kh c (H @ H') sv1" "\<forall>(reply, peer)\<in>set replies. Asked (client_key peer) recv_ts (Some reply) \<in> set H'"
    using serving_batch[OF assms(1) 1(1)] by blast
  have "\<forall>(reply, peer)\<in>set (take n replies). Asked (client_key peer) recv_ts (Some reply) \<in> set (H @ H')"
    using H'(2) by (fastforce dest: in_set_takeD)
  from serving_sent[OF H'(1) this] show ?thesis using 1(2) H'(1) by (metis append_assoc)
qed

end
