(* ===== verification/NtsRecords.thy ===== *)
theory NtsRecords
  imports Prelude
begin

text \<open>The NTS-KE record codec (\<open>crates/rusty_time-nts/src/records.rs\<close>) and the client half of key
establishment that works on records (\<open>crates/rusty_time-nts/src/ke.rs\<close>): the canonical request, the
read loop, the response parser.  TLS itself is a parameter: what the stream yields read by read, the
ALPN protocol it reports and its key exporter.\<close>

section \<open>Records\<close>

definition END_OF_MESSAGE :: u16 where "END_OF_MESSAGE = 0"
definition NEXT_PROTOCOL :: u16 where "NEXT_PROTOCOL = 1"
definition ERROR_RECORD :: u16 where "ERROR_RECORD = 2"
definition WARNING_RECORD :: u16 where "WARNING_RECORD = 3"
definition AEAD_ALGORITHM :: u16 where "AEAD_ALGORITHM = 4"
definition NEW_COOKIE :: u16 where "NEW_COOKIE = 5"
definition SERVER_NEGOTIATION :: u16 where "SERVER_NEGOTIATION = 6"
definition PORT_NEGOTIATION :: u16 where "PORT_NEGOTIATION = 7"

lemmas record_type_defs = END_OF_MESSAGE_def NEXT_PROTOCOL_def ERROR_RECORD_def WARNING_RECORD_def
  AEAD_ALGORITHM_def NEW_COOKIE_def SERVER_NEGOTIATION_def PORT_NEGOTIATION_def

record KeRecord =
  kr_critical :: bool
  kr_record_type :: u16
  kr_body :: bytes

datatype RecordError = Truncated nat

record RecordIter =
  ri_buf :: bytes
  ri_at :: nat
  ri_done :: bool

definition record_next :: "RecordIter \<Rightarrow> (RecordError + KeRecord) option \<times> RecordIter" where
  "record_next it =
     (if ri_done it \<or> length (ri_buf it) \<le> ri_at it then (None, it)
      else case (get_slice (ri_buf it) (ri_at it) (ri_at it + 2),
                 get_slice (ri_buf it) (ri_at it + 2) (ri_at it + 4)) of
        (Some tb, Some lb) \<Rightarrow>
          (let type_field = of_be tb :: u16; body_len = unat (of_be lb :: u16); body_start = ri_at it + 4 in
           case get_slice (ri_buf it) body_start (body_start + body_len) of
             None \<Rightarrow> (Some (Inl (Truncated (ri_at it))), it\<lparr> ri_done := True \<rparr>)
           | Some body \<Rightarrow>
               (let record_type = type_field AND 0x7FFF in
                (Some (Inr \<lparr> kr_critical = (type_field AND 0x8000 \<noteq> 0), kr_record_type = record_type, kr_body = body \<rparr>),
                 it\<lparr> ri_at := body_start + body_len, ri_done := (record_type = END_OF_MESSAGE) \<rparr>)))
      | _ \<Rightarrow> (Some (Inl (Truncated (ri_at it))), it\<lparr> ri_done := True \<rparr>))"

lemma record_next_progress:
  "record_next it = (Some r, it') \<Longrightarrow>
     (if ri_done it' then 0 else Suc (length (ri_buf it') - ri_at it'))
     < (if ri_done it then 0 else Suc (length (ri_buf it) - ri_at it))"
  by (auto simp: record_next_def Let_def split: if_splits option.splits)

function record_collect :: "RecordIter \<Rightarrow> (RecordError + KeRecord) list" where
  "record_collect it = (case record_next it of (None, _) \<Rightarrow> [] | (Some r, it') \<Rightarrow> r # record_collect it')"
  by auto
termination
  by (relation "measure (\<lambda>it. if ri_done it then 0 else Suc (length (ri_buf it) - ri_at it))")
    (auto dest!: record_next_progress[OF sym])

declare record_collect.simps [simp del]

definition records :: "bytes \<Rightarrow> (RecordError + KeRecord) list" where
  "records buf = record_collect \<lparr> ri_buf = buf, ri_at = 0, ri_done = False \<rparr>"

definition write_record :: "bytes \<Rightarrow> bool \<Rightarrow> u16 \<Rightarrow> bytes \<Rightarrow> bytes" where
  "write_record out critical record_type body =
     (let type_field = (record_type AND 0x7FFF) OR (if critical then 0x8000 else 0) in
      out @ to_be 2 type_field @ to_be 2 (word_of_nat (min (length body) 65535) :: u16)
          @ take (min (length body) 65535) body)"

definition put_record :: "bytes \<Rightarrow> KeRecord \<Rightarrow> bytes" where
  "put_record out r = write_record out (kr_critical r) (kr_record_type r) (kr_body r)"

definition record_bytes :: "KeRecord \<Rightarrow> bytes" where
  "record_bytes r = put_record [] r"

text \<open>What a record looks like after one trip over the wire: a 15-bit type, at most 65535 body bytes.\<close>

definition on_wire :: "KeRecord \<Rightarrow> KeRecord" where
  "on_wire r = r\<lparr> kr_record_type := kr_record_type r AND 0x7FFF, kr_body := take 65535 (kr_body r) \<rparr>"

fun upto_eom :: "KeRecord list \<Rightarrow> KeRecord list" where
  "upto_eom [] = []"
| "upto_eom (r # rs) = (if kr_record_type r = END_OF_MESSAGE then [r] else r # upto_eom rs)"

lemma put_record_append: "put_record out r = out @ record_bytes r"
  by (simp add: put_record_def record_bytes_def write_record_def Let_def)

lemma foldl_put_record: "foldl put_record out rs = out @ concat (map record_bytes rs)"
  by (induction rs arbitrary: out) (auto simp: put_record_append)

lemma type_masks: "(0x7FFF :: u16) = mask 15" "(0x8000 :: u16) = push_bit 15 1"
  by (simp_all add: mask_eq_exp_minus_1)

lemma bit_top: "bit (0x8000 :: u16) n \<longleftrightarrow> n = 15"
proof -
  have "bit (0x8000 :: u16) n \<longleftrightarrow> bit (push_bit 15 1 :: u16) n" by (subst type_masks(2)) (rule refl)
  then show ?thesis by (auto simp: bit_push_bit_iff bit_1_iff simp del: push_bit_of_1)
qed

lemma top_bit_iff: "(t :: u16) AND 0x8000 \<noteq> 0 \<longleftrightarrow> bit t 15"
proof
  assume "bit t 15"
  then have "bit (t AND 0x8000) 15" by (simp add: bit_and_iff bit_top)
  then show "t AND 0x8000 \<noteq> 0" by (metis bit_0_eq bot_apply bot_bool_def)
next
  assume "t AND 0x8000 \<noteq> 0"
  then obtain n where "bit (t AND 0x8000) n" by (metis bit_eq_iff bit_0_eq bot_apply bot_bool_def)
  then show "bit t 15" by (auto simp: bit_and_iff bit_top simp del: bit_numeral_word_iff)
qed

lemma low15_idem: "((t :: u16) AND 0x7FFF) AND 0x7FFF = t AND 0x7FFF"
  by (rule bit_word_eqI) (simp add: bit_simps)

lemma type_field_low:
  "(((t :: u16) AND 0x7FFF) OR (if c then 0x8000 else 0)) AND 0x7FFF = t AND 0x7FFF"
  unfolding type_masks(1) by (rule bit_word_eqI) (auto simp: bit_and_iff bit_or_iff bit_mask_iff bit_top simp del: bit_numeral_word_iff)

lemma type_field_top:
  "((((t :: u16) AND 0x7FFF) OR (if c then 0x8000 else 0)) AND 0x8000 \<noteq> 0) = c"
  unfolding top_bit_iff unfolding type_masks(1) by (auto simp: bit_and_iff bit_or_iff bit_mask_iff bit_top simp del: bit_numeral_word_iff)

lemma type_field_join:
  "((t :: u16) AND 0x7FFF) OR (if t AND 0x8000 \<noteq> 0 then 0x8000 else 0) = t"
  unfolding top_bit_iff unfolding type_masks(1)
proof (rule bit_word_eqI)
  fix n assume "n < LENGTH(16)"
  then have "n < 15 \<or> n = 15" by auto
  then show "bit (t AND mask 15 OR (if bit t 15 then 0x8000 else 0)) n = bit t n"
    by (auto simp: bit_and_iff bit_or_iff bit_mask_iff bit_top simp del: bit_numeral_word_iff)
qed

lemma take_min_length: "take (min (length xs) n) xs = take n xs"
  by (simp add: min_def)

lemma record_bytes_eq:
  "record_bytes r = to_be 2 ((kr_record_type r AND 0x7FFF) OR (if kr_critical r then 0x8000 else 0))
     @ to_be 2 (word_of_nat (length (take 65535 (kr_body r))) :: u16) @ take 65535 (kr_body r)"
  by (simp add: record_bytes_def put_record_def write_record_def Let_def take_min_length)

lemma record_bytes_on_wire: "record_bytes (on_wire r) = record_bytes r"
  by (simp add: record_bytes_eq on_wire_def low15_idem)

lemma get_slice_mid: "get_slice (a @ b @ c) (length a) (length a + length b) = Some b"
  by (simp add: get_slice_def slice_def)

lemma get_slice_mid':
  "i = length a \<Longrightarrow> j = length a + length b \<Longrightarrow> get_slice (a @ b @ c) i j = Some b"
  by (simp add: get_slice_mid)

lemma length_record_bytes: "length (record_bytes r) = 4 + length (take 65535 (kr_body r))"
  by (simp add: record_bytes_eq)

lemma unat_body_len: "unat (word_of_nat (length (take 65535 xs)) :: u16) = length (take 65535 xs)"
  by (simp add: unsigned_of_nat take_bit_nat_eq_self)

lemma record_next_written:
  assumes "ri_buf it = pre @ record_bytes r @ rest" "ri_at it = length pre" "\<not> ri_done it"
  shows "record_next it = (Some (Inr (on_wire r)),
           it\<lparr> ri_at := length pre + length (record_bytes r),
              ri_done := (kr_record_type (on_wire r) = END_OF_MESSAGE) \<rparr>)"
proof -
  define tf where "tf = (kr_record_type r AND 0x7FFF) OR (if kr_critical r then 0x8000 else 0 :: u16)"
  define body where "body = take 65535 (kr_body r)"
  define lenw where "lenw = (word_of_nat (length body) :: u16)"
  have b: "record_bytes r = to_be 2 tf @ to_be 2 lenw @ body"
    by (simp add: record_bytes_eq tf_def body_def lenw_def)
  have s1: "get_slice (ri_buf it) (ri_at it) (ri_at it + 2) = Some (to_be 2 tf)"
    using assms by (simp add: b get_slice_mid')
  have s2: "get_slice (ri_buf it) (ri_at it + 2) (ri_at it + 4) = Some (to_be 2 lenw)"
    using get_slice_mid'[of "ri_at it + 2" "pre @ to_be 2 tf" "ri_at it + 4" "to_be 2 lenw" "body @ rest"] assms
    by (simp add: b)
  have s3: "get_slice (ri_buf it) (ri_at it + 4) (ri_at it + 4 + length body) = Some body"
    using get_slice_mid'[of "ri_at it + 4" "pre @ to_be 2 tf @ to_be 2 lenw" "ri_at it + 4 + length body" body rest]
      assms by (simp add: b)
  have l: "unat (of_be (to_be 2 lenw) :: u16) = length body"
    by (simp add: of_be_to_be_id lenw_def) (simp add: body_def unat_body_len del: length_take)
  have t: "(of_be (to_be 2 tf) :: u16) = tf" by (simp add: of_be_to_be_id)
  have ne: "\<not> length (ri_buf it) \<le> ri_at it" using assms by (simp add: b)
  have lr: "length (record_bytes r) = 4 + length body" by (simp add: b)
  have w: "on_wire r = \<lparr> kr_critical = (tf AND 0x8000 \<noteq> 0), kr_record_type = tf AND 0x7FFF, kr_body = body \<rparr>"
    by (simp add: on_wire_def tf_def body_def type_field_low type_field_top)
  have "record_next it = (Some (Inr (on_wire r)),
           it\<lparr> ri_at := ri_at it + 4 + length body, ri_done := (tf AND 0x7FFF = END_OF_MESSAGE) \<rparr>)"
    unfolding record_next_def s1 s2 option.case prod.case Let_def t l s3 w using assms(3) ne by simp
  then show ?thesis by (simp add: w lr assms(2) add.assoc)
qed

lemma drop_slice: "i \<le> j \<Longrightarrow> drop i xs = slice xs i j @ drop j xs"
  by (metis append_take_drop_id drop_drop le_add_diff_inverse2 slice_def)

lemma record_collect_done: "ri_done it \<Longrightarrow> record_collect it = []"
  by (simp add: record_collect.simps[of it] record_next_def)

lemma record_next_read:
  assumes "record_next it = (Some (Inr r), it')"
  shows "\<not> ri_done it \<and> ri_buf it' = ri_buf it \<and> on_wire r = r \<and>
         drop (ri_at it) (ri_buf it) = record_bytes r @ drop (ri_at it') (ri_buf it') \<and>
         (ri_done it' \<longleftrightarrow> kr_record_type r = END_OF_MESSAGE) \<and>
         ri_at it' = ri_at it + length (record_bytes r)"
proof -
  let ?b = "ri_buf it" and ?a = "ri_at it"
  from assms obtain tb lb body where
    nd: "\<not> ri_done it" and tb: "get_slice ?b ?a (?a + 2) = Some tb" and lb: "get_slice ?b (?a + 2) (?a + 4) = Some lb"
    and bd: "get_slice ?b (?a + 4) (?a + 4 + unat (of_be lb :: u16)) = Some body"
    and r: "r = \<lparr> kr_critical = ((of_be tb :: u16) AND 0x8000 \<noteq> 0), kr_record_type = of_be tb AND 0x7FFF, kr_body = body \<rparr>"
    and it': "it' = it\<lparr> ri_at := ?a + 4 + unat (of_be lb :: u16), ri_done := (of_be tb AND 0x7FFF = END_OF_MESSAGE) \<rparr>"
    by (auto simp: record_next_def Let_def split: if_splits option.splits)
  have len: "?a + 4 + unat (of_be lb :: u16) \<le> length ?b" using bd by (auto simp: get_slice_def split: if_splits)
  have tl: "length tb = 2" "length lb = 2"
    using tb lb len by (auto simp: get_slice_def length_slice split: if_splits)
  have bl: "length body = unat (of_be lb :: u16)" using bd by (auto simp: get_slice_def length_slice split: if_splits)
  have "unat (of_be lb :: u16) < 65536" using unsigned_less[of "of_be lb :: u16"] by simp
  then have bs: "take 65535 body = body" using bl by simp
  have rejoin: "to_be 2 (of_be tb :: u16) = tb" "to_be 2 (of_be lb :: u16) = lb"
    using to_be_of_be[of tb, where 'a = 16] to_be_of_be[of lb, where 'a = 16] tl by simp_all
  have rb: "record_bytes r = tb @ lb @ body"
    by (simp add: record_bytes_eq r low15_idem type_field_join bs bl rejoin)
  have "drop ?a ?b = slice ?b ?a (?a + 2) @ slice ?b (?a + 2) (?a + 4)
      @ slice ?b (?a + 4) (?a + 4 + unat (of_be lb :: u16)) @ drop (?a + 4 + unat (of_be lb :: u16)) ?b"
    using drop_slice[of ?a "?a + 2" ?b] drop_slice[of "?a + 2" "?a + 4" ?b]
      drop_slice[of "?a + 4" "?a + 4 + unat (of_be lb :: u16)" ?b] by auto
  then have cut: "drop ?a ?b = record_bytes r @ drop (ri_at it') (ri_buf it')"
    using tb lb bd by (simp add: rb it' get_slice_def split: if_splits)
  have "on_wire r = r" by (simp add: r on_wire_def low15_idem bs)
  moreover have "length (record_bytes r) = 4 + unat (of_be lb :: u16)" by (simp add: rb tl bl)
  moreover have "kr_record_type r = of_be tb AND 0x7FFF" by (simp add: r)
  ultimately show ?thesis using nd cut by (simp add: it')
qed

lemma collect_written:
  "ri_buf it = pre @ concat (map record_bytes rs) @ junk \<Longrightarrow> ri_at it = length pre \<Longrightarrow> \<not> ri_done it \<Longrightarrow>
   junk = [] \<or> END_OF_MESSAGE \<in> kr_record_type ` on_wire ` set rs \<Longrightarrow>
   record_collect it = map Inr (upto_eom (map on_wire rs))"
proof (induction rs arbitrary: it pre)
  case Nil
  then show ?case by (simp add: record_collect.simps[of it] record_next_def)
next
  case (Cons r rs)
  let ?it' = "it\<lparr> ri_at := length pre + length (record_bytes r),
                 ri_done := (kr_record_type (on_wire r) = END_OF_MESSAGE) \<rparr>"
  have n: "record_next it = (Some (Inr (on_wire r)), ?it')"
    using Cons.prems by (intro record_next_written[where rest = "concat (map record_bytes rs) @ junk"]) auto
  show ?case
  proof (cases "kr_record_type (on_wire r) = END_OF_MESSAGE")
    case True
    then show ?thesis by (simp add: record_collect.simps[of it] n record_collect_done)
  next
    case False
    have "record_collect ?it' = map Inr (upto_eom (map on_wire rs))"
      using Cons.prems False by (intro Cons.IH[where pre = "pre @ record_bytes r"]) auto
    then show ?thesis using False by (simp add: record_collect.simps[of it] n)
  qed
qed

lemma collect_read:
  "\<not> ri_done it \<Longrightarrow> \<exists>rs rest. drop (ri_at it) (ri_buf it) = concat (map record_bytes rs) @ rest \<and>
     map on_wire rs = rs \<and> upto_eom rs = rs \<and>
     (record_collect it = map Inr rs \<and> (rest = [] \<or> rs \<noteq> [] \<and> kr_record_type (last rs) = END_OF_MESSAGE) \<or>
      record_collect it = map Inr rs @ [Inl (Truncated (ri_at it + length (concat (map record_bytes rs))))] \<and>
      rest \<noteq> [] \<and> END_OF_MESSAGE \<notin> kr_record_type ` set rs)"
proof (induction it rule: record_collect.induct)
  case (1 it)
  show ?case
  proof (cases "record_next it")
    case (Pair x it')
    consider (stop) "x = None" | (err) e where "x = Some (Inl e)" | (ok) r where "x = Some (Inr r)"
      by (metis old.sum.exhaust option.exhaust)
    then show ?thesis
    proof cases
      case stop
      then have "length (ri_buf it) \<le> ri_at it" using Pair 1(2)
        by (auto simp: record_next_def Let_def split: if_splits option.splits)
      then show ?thesis using stop Pair
        by (intro exI[of _ "[]"]) (simp add: record_collect.simps[of it])
    next
      case err
      then have "e = Truncated (ri_at it)" "ri_done it'" "ri_at it < length (ri_buf it)" using Pair 1(2)
        by (auto simp: record_next_def Let_def split: if_splits option.splits)
      then show ?thesis using err Pair
        by (intro exI[of _ "[]"] exI[of _ "drop (ri_at it) (ri_buf it)"])
          (simp add: record_collect.simps[of it] record_collect_done)
    next
      case ok
      note rd = record_next_read[OF Pair[unfolded ok]]
      have c: "record_collect it = Inr r # record_collect it'"
        by (simp add: record_collect.simps[of it] Pair ok)
      show ?thesis
      proof (cases "ri_done it'")
        case True
        note record_collect_done[OF this]
        then show ?thesis using rd True c
          by (intro exI[of _ "[r]"] exI[of _ "drop (ri_at it') (ri_buf it')"]) simp
      next
        case False
        from 1(1)[OF Pair[symmetric] ok False] obtain rs rest where
          ih: "drop (ri_at it') (ri_buf it') = concat (map record_bytes rs) @ rest" "map on_wire rs = rs" "upto_eom rs = rs"
            "record_collect it' = map Inr rs \<and> (rest = [] \<or> rs \<noteq> [] \<and> kr_record_type (last rs) = END_OF_MESSAGE) \<or>
             record_collect it' = map Inr rs @ [Inl (Truncated (ri_at it' + length (concat (map record_bytes rs))))] \<and>
             rest \<noteq> [] \<and> END_OF_MESSAGE \<notin> kr_record_type ` set rs"
          by blast
        show ?thesis using rd False c ih
          by (intro exI[of _ "r # rs"] exI[of _ rest]) auto
      qed
    qed
  qed
qed

text \<open>C15: the record codec loses nothing.  Whatever list of records is written,
reading the bytes back yields those records as they fit on the wire (15-bit type, at most 65535 body
bytes), up to and including the first end-of-message, and bytes after an end-of-message are never
looked at.  In the other direction, whatever bytes arrive, the records read re-encode to the bytes
they came from, nothing follows an end-of-message, and input left over is reported as one final error
naming the offset it starts at.\<close>

theorem records_round_trip:
  "(\<forall>rs junk. END_OF_MESSAGE \<in> kr_record_type ` on_wire ` set rs \<or> junk = [] \<longrightarrow>
      records (foldl put_record [] rs @ junk) = map Inr (upto_eom (map on_wire rs))) \<and>
   (\<exists>rs rest. buf = foldl put_record [] rs @ rest \<and> map on_wire rs = rs \<and> upto_eom rs = rs \<and>
      (records buf = map Inr rs \<and> (rest = [] \<or> rs \<noteq> [] \<and> kr_record_type (last rs) = END_OF_MESSAGE) \<or>
       records buf = map Inr rs @ [Inl (Truncated (length (foldl put_record [] rs)))] \<and>
       rest \<noteq> [] \<and> END_OF_MESSAGE \<notin> kr_record_type ` set rs))"
proof (intro conjI allI impI)
  fix rs and junk :: bytes assume "END_OF_MESSAGE \<in> kr_record_type ` on_wire ` set rs \<or> junk = []"
  then show "records (foldl put_record [] rs @ junk) = map Inr (upto_eom (map on_wire rs))"
    unfolding records_def
    by (intro collect_written[where pre = "[]" and junk = junk]) (auto simp: foldl_put_record)
next
  show "\<exists>rs rest. buf = foldl put_record [] rs @ rest \<and> map on_wire rs = rs \<and> upto_eom rs = rs \<and>
      (records buf = map Inr rs \<and> (rest = [] \<or> rs \<noteq> [] \<and> kr_record_type (last rs) = END_OF_MESSAGE) \<or>
       records buf = map Inr rs @ [Inl (Truncated (length (foldl put_record [] rs)))] \<and>
       rest \<noteq> [] \<and> END_OF_MESSAGE \<notin> kr_record_type ` set rs)"
    using collect_read[of "\<lparr> ri_buf = buf, ri_at = 0, ri_done = False \<rparr>"]
    by (simp add: records_def foldl_put_record)
qed

lemma records_round_trip_witness:
  "records (foldl put_record [] [\<lparr> kr_critical = True, kr_record_type = 0x8001, kr_body = [0, 0] \<rparr>,
                                 \<lparr> kr_critical = True, kr_record_type = 0, kr_body = [] \<rparr>] @ [7, 7])
   = [Inr \<lparr> kr_critical = True, kr_record_type = 1, kr_body = [0, 0] \<rparr>,
      Inr \<lparr> kr_critical = True, kr_record_type = 0, kr_body = [] \<rparr>]"
proof -
  let ?a = "\<lparr> kr_critical = True, kr_record_type = 0x8001, kr_body = [0, 0 :: u8] \<rparr>"
  let ?b = "\<lparr> kr_critical = True, kr_record_type = 0, kr_body = [] :: bytes \<rparr>"
  have w: "map on_wire [?a, ?b] = [?a\<lparr> kr_record_type := 1 \<rparr>, ?b]" by (simp add: on_wire_def)
  then have "END_OF_MESSAGE \<in> kr_record_type ` on_wire ` set [?a, ?b] \<or> [7, 7 :: u8] = []"
    by (simp add: on_wire_def END_OF_MESSAGE_def)
  then show ?thesis
    using conjunct1[OF records_round_trip, THEN spec, THEN spec, THEN mp, of "[?a, ?b]" "[7, 7]"]
    by (simp add: on_wire_def END_OF_MESSAGE_def)
qed

end
