(* ===== verification/KeyExchange.thy ===== *)
theory KeyExchange
  imports NtsRecords NtsFields
begin

text \<open>The NTS-KE client (\<open>crates/rusty_time-nts/src/ke.rs\<close>).  The TLS connection is a parameter, a record
of what it does: the result of each read, of the write, the ALPN protocol it reports, its key exporter.
A Rust string is its UTF-8 bytes; \<open>from_utf8\<close> is the standard library's well-formedness table.\<close>

section \<open>Constants and data\<close>

definition AEAD_AES_SIV_CMAC_256 :: u16 where "AEAD_AES_SIV_CMAC_256 = 15"
definition NEXT_PROTO_NTPV4 :: u16 where "NEXT_PROTO_NTPV4 = 0"
definition MAX_KE_RESPONSE :: nat where "MAX_KE_RESPONSE = 65536"



definition ALPN :: bytes where "ALPN = ascii ''ntske/1''"
definition EXPORTER_LABEL :: bytes where "EXPORTER_LABEL = ascii ''EXPORTER-network-time-security''"

datatype KeError = KeIo string | KeTls string | KeBadServerName bytes | KeServer u16
  | KeNegotiation string | KeMalformed | KeExport string

record Parsed =
  pa_cookies :: "bytes list"
  pa_ntp_server :: bytes
  pa_ntp_port :: u16

record KeResult =
  kx_keys :: NtsKeys
  kx_cookies :: "bytes list"
  kx_ntp_server :: bytes
  kx_ntp_port :: u16

section \<open>The client request and the read loop\<close>

definition ke_client_request :: bytes where
  "ke_client_request =
     write_record (write_record (write_record [] True NEXT_PROTOCOL (to_be 2 NEXT_PROTO_NTPV4))
       True AEAD_ALGORITHM (to_be 2 AEAD_AES_SIV_CMAC_256)) True END_OF_MESSAGE []"

definition is_eom :: "RecordError + KeRecord \<Rightarrow> bool" where
  "is_eom r = (case r of Inl _ \<Rightarrow> False | Inr rec \<Rightarrow> kr_record_type rec = END_OF_MESSAGE)"

definition has_end_of_message :: "bytes \<Rightarrow> bool" where
  "has_end_of_message buf = list_ex is_eom (records buf)"

datatype ReadEvent = Got bytes | Closed | UnexpectedEof | ReadFailed string

text \<open>\<open>None\<close> is a loop still waiting when the given reads are used up.\<close>

fun read_response :: "bytes \<Rightarrow> ReadEvent list \<Rightarrow> (KeError + bytes) option" where
  "read_response buf [] = None"
| "read_response buf (Closed # _) = Some (Inr buf)"
| "read_response buf (UnexpectedEof # _) = Some (Inr buf)"
| "read_response buf (ReadFailed e # _) = Some (Inl (KeIo e))"
| "read_response buf (Got chunk # rest) =
     (if chunk = [] then Some (Inr buf)
      else if MAX_KE_RESPONSE < length (buf @ chunk) then Some (Inl KeMalformed)
      else if has_end_of_message (buf @ chunk) then Some (Inr (buf @ chunk))
      else read_response (buf @ chunk) rest)"

section \<open>Parsing the response\<close>

text \<open>\<open>str::from_utf8\<close>: the well-formed byte sequences of the Unicode standard.\<close>

definition cont :: "u8 \<Rightarrow> bool" where "cont b \<longleftrightarrow> 0x80 \<le> b \<and> b \<le> 0xBF"

definition utf8_pair :: "u8 \<Rightarrow> u8 \<Rightarrow> bool" where
  "utf8_pair a b \<longleftrightarrow> 0xC2 \<le> a \<and> a \<le> 0xDF \<and> cont b"

definition utf8_triple :: "u8 \<Rightarrow> u8 \<Rightarrow> u8 \<Rightarrow> bool" where
  "utf8_triple a b c \<longleftrightarrow> cont b \<and> cont c \<and>
     (a = 0xE0 \<and> 0xA0 \<le> b \<or> 0xE1 \<le> a \<and> a \<le> 0xEC \<or> a = 0xED \<and> b \<le> 0x9F \<or> 0xEE \<le> a \<and> a \<le> 0xEF)"

definition utf8_quad :: "u8 \<Rightarrow> u8 \<Rightarrow> u8 \<Rightarrow> u8 \<Rightarrow> bool" where
  "utf8_quad a b c d \<longleftrightarrow> cont b \<and> cont c \<and> cont d \<and>
     (a = 0xF0 \<and> 0x90 \<le> b \<or> 0xF1 \<le> a \<and> a \<le> 0xF3 \<or> a = 0xF4 \<and> b \<le> 0x8F)"

function (sequential) utf8_ok :: "bytes \<Rightarrow> bool" where
  "utf8_ok [] = True"
| "utf8_ok (a # bs) =
     (if a < 0x80 then utf8_ok bs
      else case bs of
        b # bs2 \<Rightarrow> if utf8_pair a b then utf8_ok bs2 else (case bs2 of
          c # bs3 \<Rightarrow> if utf8_triple a b c then utf8_ok bs3 else (case bs3 of
            d # bs4 \<Rightarrow> utf8_quad a b c d \<and> utf8_ok bs4
          | [] \<Rightarrow> False)
        | [] \<Rightarrow> False)
      | [] \<Rightarrow> False)"
  by pat_completeness auto
termination by (relation "measure length") auto

definition from_utf8 :: "bytes \<Rightarrow> bytes option" where
  "from_utf8 b = (if utf8_ok b then Some b else None)"

fun chunks2 :: "bytes \<Rightarrow> u16 list" where
  "chunks2 (a # b # rest) = of_be [a, b] # chunks2 rest"
| "chunks2 _ = []"

definition offers :: "u16 \<Rightarrow> bytes \<Rightarrow> bool" where
  "offers v body = list_ex (\<lambda>c. c = v) (chunks2 body)"

record Parsing =
  pg_parsed :: Parsed
  pg_proto_ok :: bool
  pg_aead_ok :: bool

definition parse_record :: "KeRecord \<Rightarrow> Parsing \<Rightarrow> KeError + Parsing" where
  "parse_record r st =
     (let ty = kr_record_type r; body = kr_body r; p = pg_parsed st in
      if ty = ERROR_RECORD then Inl (KeServer (if 2 \<le> length body then of_be (slice body 0 2) else 0xFFFF))
      else if ty = WARNING_RECORD then Inr st
      else if ty = NEXT_PROTOCOL then Inr (st\<lparr> pg_proto_ok := offers NEXT_PROTO_NTPV4 body \<rparr>)
      else if ty = AEAD_ALGORITHM then Inr (st\<lparr> pg_aead_ok := offers AEAD_AES_SIV_CMAC_256 body \<rparr>)
      else if ty = NEW_COOKIE then Inr (st\<lparr> pg_parsed := p\<lparr> pa_cookies := pa_cookies p @ [body] \<rparr> \<rparr>)
      else if ty = SERVER_NEGOTIATION then
        (case from_utf8 body of None \<Rightarrow> Inl KeMalformed
         | Some s \<Rightarrow> Inr (st\<lparr> pg_parsed := p\<lparr> pa_ntp_server := s \<rparr> \<rparr>))
      else if ty = PORT_NEGOTIATION then
        Inr (if 2 \<le> length body then st\<lparr> pg_parsed := p\<lparr> pa_ntp_port := of_be (slice body 0 2) \<rparr> \<rparr> else st)
      else if kr_critical r then Inl (KeNegotiation ''unrecognized critical record'')
      else Inr st)"

fun parse_records :: "(RecordError + KeRecord) list \<Rightarrow> Parsing \<Rightarrow> KeError + Parsing" where
  "parse_records [] st = Inr st"
| "parse_records (Inl _ # _) st = Inl KeMalformed"
| "parse_records (Inr r # rest) st =
     (if kr_record_type r = END_OF_MESSAGE then Inr st
      else case parse_record r st of Inl e \<Rightarrow> Inl e | Inr st' \<Rightarrow> parse_records rest st')"

definition parsing_start :: "bytes \<Rightarrow> Parsing" where
  "parsing_start host =
     \<lparr> pg_parsed = \<lparr> pa_cookies = [], pa_ntp_server = host, pa_ntp_port = 123 \<rparr>,
       pg_proto_ok = False, pg_aead_ok = False \<rparr>"

definition parse_finish :: "Parsing \<Rightarrow> KeError + Parsed" where
  "parse_finish st =
     (if \<not> pg_proto_ok st then Inl (KeNegotiation ''server did not accept NTPv4'')
      else if \<not> pg_aead_ok st then Inl (KeNegotiation ''server did not accept AES-SIV-CMAC-256'')
      else if pa_cookies (pg_parsed st) = [] then Inl (KeNegotiation ''server sent no cookies'')
      else Inr (pg_parsed st))"

definition parse_response :: "bytes \<Rightarrow> bytes \<Rightarrow> KeError + Parsed" where
  "parse_response buf host =
     (case parse_records (records buf) (parsing_start host) of Inl e \<Rightarrow> Inl e | Inr st \<Rightarrow> parse_finish st)"

section \<open>The exchange\<close>

text \<open>What one TLS connection does.\<close>

record TlsPeer =
  tp_write :: "string option"
  tp_reads :: "ReadEvent list"
  tp_alpn :: "bytes option"
  tp_export :: "bytes \<Rightarrow> bytes \<Rightarrow> string + bytes"

definition export_context :: "u8 \<Rightarrow> bytes" where
  "export_context direction =
     [ucast (drop_bit 8 NEXT_PROTO_NTPV4), ucast NEXT_PROTO_NTPV4,
      ucast (drop_bit 8 AEAD_AES_SIV_CMAC_256), ucast AEAD_AES_SIV_CMAC_256, direction]"

definition export_key :: "TlsPeer \<Rightarrow> u8 \<Rightarrow> KeError + bytes" where
  "export_key conn direction =
     (case tp_export conn EXPORTER_LABEL (export_context direction) of
        Inl e \<Rightarrow> Inl (KeExport e) | Inr k \<Rightarrow> Inr k)"

text \<open>The first address that accepts; the last refusal when none does.\<close>

fun connect_any :: "string option \<Rightarrow> (string + TlsPeer) list \<Rightarrow> KeError + TlsPeer" where
  "connect_any failed [] = Inl (KeIo (case failed of Some e \<Rightarrow> e | None \<Rightarrow> ''no reachable KE address''))"
| "connect_any failed (Inr s # _) = Inr s"
| "connect_any failed (Inl e # rest) = connect_any (Some e) rest"

definition connect_host :: "(string + TlsPeer) list \<Rightarrow> KeError + TlsPeer" where
  "connect_host addrs =
     (if addrs = [] then Inl (KeIo ''no addresses for KE host'') else connect_any None addrs)"

definition session_keys :: "TlsPeer \<Rightarrow> KeError + NtsKeys" where
  "session_keys conn =
     (case export_key conn 0x00 of Inl e \<Rightarrow> Inl e | Inr c \<Rightarrow>
        (case export_key conn 0x01 of Inl e \<Rightarrow> Inl e | Inr s \<Rightarrow> Inr \<lparr> k_c2s = c, k_s2c = s \<rparr>))"

definition ke_result :: "TlsPeer \<Rightarrow> Parsed \<Rightarrow> KeError + KeResult" where
  "ke_result conn parsed =
     (case session_keys conn of Inl e \<Rightarrow> Inl e | Inr keys \<Rightarrow>
        Inr \<lparr> kx_keys = keys, kx_cookies = pa_cookies parsed, kx_ntp_server = pa_ntp_server parsed,
              kx_ntp_port = pa_ntp_port parsed \<rparr>)"

definition ke_conclude :: "bytes \<Rightarrow> TlsPeer \<Rightarrow> bytes \<Rightarrow> KeError + KeResult" where
  "ke_conclude host conn buf =
     (if tp_alpn conn = Some ALPN then
        (case parse_response buf host of Inl e \<Rightarrow> Inl e | Inr parsed \<Rightarrow> ke_result conn parsed)
      else Inl (KeNegotiation ''peer did not select ALPN ntske/1''))"

definition ke_exchange :: "bytes \<Rightarrow> TlsPeer \<Rightarrow> (KeError + KeResult) option" where
  "ke_exchange host conn =
     (case tp_write conn of Some e \<Rightarrow> Some (Inl (KeIo e)) | None \<Rightarrow>
        (case read_response [] (tp_reads conn) of None \<Rightarrow> None
         | Some (Inl e) \<Rightarrow> Some (Inl e)
         | Some (Inr buf) \<Rightarrow> Some (ke_conclude host conn buf)))"

definition establish_with_config :: "bytes \<Rightarrow> bool \<Rightarrow> (string + TlsPeer) list \<Rightarrow> (KeError + KeResult) option" where
  "establish_with_config host valid_name addrs =
     (if \<not> valid_name then Some (Inl (KeBadServerName host))
      else case connect_host addrs of Inl e \<Rightarrow> Some (Inl e) | Inr conn \<Rightarrow> ke_exchange host conn)"

section \<open>What is accepted\<close>

definition bodies :: "u16 \<Rightarrow> KeRecord list \<Rightarrow> bytes list" where
  "bodies ty rs = map kr_body (filter (\<lambda>r. kr_record_type r = ty) rs)"

definition agreed :: "u16 \<Rightarrow> bytes list \<Rightarrow> bool" where
  "agreed v bs \<longleftrightarrow> bs \<noteq> [] \<and> offers v (last bs)"

definition known_types :: "u16 list" where
  "known_types = [END_OF_MESSAGE, NEXT_PROTOCOL, WARNING_RECORD, AEAD_ALGORITHM, NEW_COOKIE, SERVER_NEGOTIATION,
     PORT_NEGOTIATION]"

definition record_ok :: "KeRecord \<Rightarrow> bool" where
  "record_ok r \<longleftrightarrow> kr_record_type r \<noteq> ERROR_RECORD \<and>
     (kr_record_type r = SERVER_NEGOTIATION \<longrightarrow> utf8_ok (kr_body r)) \<and>
     (kr_critical r \<longrightarrow> kr_record_type r \<in> set known_types)"

definition port_of :: "u16 \<Rightarrow> bytes list \<Rightarrow> u16" where
  "port_of p bs = last (p # map (\<lambda>b. of_be (slice b 0 2)) (filter (\<lambda>b. 2 \<le> length b) bs))"

definition told :: "KeRecord list \<Rightarrow> Parsing \<Rightarrow> Parsing" where
  "told rs st = \<lparr> pg_parsed = \<lparr> pa_cookies = pa_cookies (pg_parsed st) @ bodies NEW_COOKIE rs,
       pa_ntp_server = last (pa_ntp_server (pg_parsed st) # bodies SERVER_NEGOTIATION rs),
       pa_ntp_port = port_of (pa_ntp_port (pg_parsed st)) (bodies PORT_NEGOTIATION rs) \<rparr>,
     pg_proto_ok = (if bodies NEXT_PROTOCOL rs = [] then pg_proto_ok st else agreed NEXT_PROTO_NTPV4 (bodies NEXT_PROTOCOL rs)),
     pg_aead_ok = (if bodies AEAD_ALGORITHM rs = [] then pg_aead_ok st
                   else agreed AEAD_AES_SIV_CMAC_256 (bodies AEAD_ALGORITHM rs)) \<rparr>"

lemma bodies_Nil [simp]: "bodies ty [] = []"
  by (simp add: bodies_def)

lemma bodies_Cons: "bodies ty (r # rs) = (if kr_record_type r = ty then kr_body r # bodies ty rs else bodies ty rs)"
  by (simp add: bodies_def)

lemma agreed_Cons: "agreed v (b # bs) = (if bs = [] then offers v b else agreed v bs)"
  by (simp add: agreed_def)

lemma port_of_Cons: "port_of p (b # bs) = port_of (if 2 \<le> length b then of_be (slice b 0 2) else p) bs"
  by (simp add: port_of_def)

lemma told_Nil: "told [] st = st"
  by (simp add: told_def port_of_def)

lemma told_Cons:
  assumes "kr_record_type r \<noteq> END_OF_MESSAGE"
  shows "parse_record r st = Inr st' \<longleftrightarrow> record_ok r \<and> st' = told [r] st"
proof -
  note defs = parse_record_def record_ok_def told_def Let_def bodies_Cons port_of_Cons agreed_Cons
    from_utf8_def known_types_def
  consider "kr_record_type r = ERROR_RECORD" | "kr_record_type r = WARNING_RECORD" | "kr_record_type r = NEXT_PROTOCOL"
    | "kr_record_type r = AEAD_ALGORITHM" | "kr_record_type r = NEW_COOKIE" | "kr_record_type r = SERVER_NEGOTIATION"
    | "kr_record_type r = PORT_NEGOTIATION"
    | "kr_record_type r \<notin> {ERROR_RECORD, WARNING_RECORD, NEXT_PROTOCOL, AEAD_ALGORITHM, NEW_COOKIE,
          SERVER_NEGOTIATION, PORT_NEGOTIATION}"
    by blast
  then show ?thesis
  proof cases
    case 1 then show ?thesis by (simp add: parse_record_def record_ok_def Let_def)
  next
    case 2 then show ?thesis by (auto simp: defs record_type_defs port_of_def)
  next
    case 3 then show ?thesis by (auto simp: defs record_type_defs port_of_def)
  next
    case 4 then show ?thesis by (auto simp: defs record_type_defs port_of_def)
  next
    case 5 then show ?thesis by (auto simp: defs record_type_defs port_of_def)
  next
    case 6 then show ?thesis by (auto simp: defs record_type_defs port_of_def)
  next
    case 7 then show ?thesis by (auto simp: defs record_type_defs port_of_def)
  next
    case 8 then show ?thesis using assms by (auto simp: defs port_of_def)
  qed
qed

lemma port_of_append: "port_of p (xs @ ys) = port_of (port_of p xs) ys"
  by (induction xs arbitrary: p) (simp_all add: port_of_Cons, simp add: port_of_def)

lemma bodies_split: "bodies ty (r # rs) = bodies ty [r] @ bodies ty rs"
  by (simp add: bodies_Cons)

lemma agreed_append: "agreed v (xs @ ys) = (if ys = [] then agreed v xs else agreed v ys)"
  by (simp add: agreed_def)

lemma told_append: "told (r # rs) st = told rs (told [r] st)"
  unfolding told_def bodies_split[of _ r rs]
  by (simp add: port_of_append agreed_append)

lemma told_eom: "kr_record_type r = END_OF_MESSAGE \<Longrightarrow> told [r] st = st"
  by (simp add: told_def bodies_Cons port_of_def record_type_defs)

lemma parse_records_ok:
  "upto_eom rs = rs \<Longrightarrow> parse_records (map Inr rs) st = Inr st' \<longleftrightarrow> list_all record_ok rs \<and> st' = told rs st"
proof (induction rs arbitrary: st)
  case Nil
  then show ?case by (auto simp: told_Nil)
next
  case (Cons r rs)
  show ?case
  proof (cases "kr_record_type r = END_OF_MESSAGE")
    case True
    then have "rs = []" using Cons.prems by simp
    then show ?thesis using True
      by (auto simp: told_eom record_ok_def known_types_def record_type_defs)
  next
    case False
    then have u: "upto_eom rs = rs" using Cons.prems by simp
    show ?thesis
    proof (cases "parse_record r st")
      case (Inl e)
      then have "\<not> record_ok r" using told_Cons[OF False, of st] by (metis Inl_Inr_False)
      then show ?thesis using Inl False by simp
    next
      case (Inr s)
      then have "record_ok r" "s = told [r] st" using told_Cons[OF False] by auto
      then show ?thesis using Inr False Cons.IH[OF u, of s] by (simp add: told_append[of r rs])
    qed
  qed
qed

lemma parse_records_broken:
  "END_OF_MESSAGE \<notin> kr_record_type ` set rs \<Longrightarrow> \<exists>e. parse_records (map Inr rs @ [Inl x]) st = Inl e"
  by (induction rs arbitrary: st) (auto split: sum.splits)

lemma records_shape:
  obtains rs where "records buf = map Inr rs" "upto_eom rs = rs"
  | rs x where "records buf = map Inr rs @ [Inl x]" "END_OF_MESSAGE \<notin> kr_record_type ` set rs"
  using collect_read[of "\<lparr> ri_buf = buf, ri_at = 0, ri_done = False \<rparr>"] by (auto simp: records_def)

text \<open>C18: exactly which NTS-KE responses the client accepts, and what it takes from
them.  Accepted means: every record parsed, none is an error record or an unknown critical one, every
server name is UTF-8, the last protocol and algorithm records offer NTPv4 and AES-SIV-CMAC-256, and at
least one cookie arrived.  The result then holds all the cookies in order, the last server name (else
the key-establishment host) and the last port of at least two bytes (else 123).\<close>

theorem ke_response_accepted:
  "parse_response buf host = Inr p \<longleftrightarrow>
     (\<exists>rs. records buf = map Inr rs \<and> list_all record_ok rs \<and>
        agreed NEXT_PROTO_NTPV4 (bodies NEXT_PROTOCOL rs) \<and>
        agreed AEAD_AES_SIV_CMAC_256 (bodies AEAD_ALGORITHM rs) \<and> bodies NEW_COOKIE rs \<noteq> [] \<and>
        p = \<lparr> pa_cookies = bodies NEW_COOKIE rs, pa_ntp_server = last (host # bodies SERVER_NEGOTIATION rs),
              pa_ntp_port = port_of 123 (bodies PORT_NEGOTIATION rs) \<rparr>)"
proof (cases rule: records_shape[of buf])
  case (1 rs)
  have inj: "map Inr rs = map Inr rs' \<longleftrightarrow> rs = rs'" for rs' :: "KeRecord list"
    by (auto simp: inj_map_eq_map)
  show ?thesis
  proof (cases "parse_records (records buf) (parsing_start host)")
    case (Inl e)
    then have "\<not> list_all record_ok rs" using parse_records_ok[OF 1(2), of "parsing_start host"] 1(1) by auto
    then show ?thesis using Inl 1(1) by (auto simp: parse_response_def inj)
  next
    case (Inr st)
    then have ok: "list_all record_ok rs" "st = told rs (parsing_start host)"
      using parse_records_ok[OF 1(2), of "parsing_start host"] 1(1) by auto
    show ?thesis unfolding parse_response_def Inr
      by (auto simp: ok 1(1) inj parse_finish_def told_def parsing_start_def agreed_def)
  qed
next
  case (2 rs x)
  obtain e where "parse_records (records buf) (parsing_start host) = Inl e"
    using parse_records_broken[OF 2(2)] 2(1) by metis
  moreover have "records buf \<noteq> map Inr rs'" for rs' :: "KeRecord list"
    using 2(1) by (metis Inl_Inr_False last_map last_snoc map_is_Nil_conv snoc_eq_iff_butlast)
  ultimately show ?thesis by (simp add: parse_response_def)
qed

definition ends_read :: "ReadEvent \<Rightarrow> bool" where
  "ends_read e \<longleftrightarrow> (case e of Got c \<Rightarrow> c = [] | _ \<Rightarrow> True)"

lemma ends_read_Got [simp]: "ends_read (Got c) \<longleftrightarrow> c = []"
  by (simp add: ends_read_def)

lemma read_response_bound:
  "read_response buf es = Some (Inr out) \<Longrightarrow> length buf \<le> MAX_KE_RESPONSE \<Longrightarrow> length out \<le> MAX_KE_RESPONSE"
  by (induction buf es rule: read_response.induct) (auto split: if_splits)

lemma read_response_stops:
  "MAX_KE_RESPONSE < length buf + length es \<or> list_ex ends_read es \<Longrightarrow> length buf \<le> MAX_KE_RESPONSE \<Longrightarrow>
   read_response buf es \<noteq> None"
proof (induction buf es rule: read_response.induct)
  case (5 buf chunk rest)
  show ?case
  proof (cases "chunk = [] \<or> MAX_KE_RESPONSE < length (buf @ chunk) \<or> has_end_of_message (buf @ chunk)")
    case False
    then have "1 \<le> length chunk" by (cases chunk) auto
    then have "MAX_KE_RESPONSE < length (buf @ chunk) + length rest \<or> list_ex ends_read rest"
      using 5(2) False by auto
    then show ?thesis using 5(1) False by auto
  qed auto
qed auto

text \<open>C19: the client's read loop always ends and buffers a bounded amount.  Whatever
the peer sends, after at most 65537 reads, or at the first close, end of stream or error, the loop has
returned; a response it hands on is at most 64 KiB.\<close>

theorem ke_read_terminates:
  assumes "MAX_KE_RESPONSE < length es \<or> list_ex ends_read es"
  shows "\<exists>r. read_response [] es = Some r \<and> (\<forall>e. r \<noteq> Inl e) = (\<exists>out. r = Inr out \<and> length out \<le> MAX_KE_RESPONSE)"
proof -
  obtain r where r: "read_response [] es = Some r" using read_response_stops[of "[]" es] assms by auto
  then show ?thesis using read_response_bound[of "[]" es] by (cases r) auto
qed

lemma ke_read_terminates_witness:
  "\<exists>r. read_response [] [Got [1, 2, 3], UnexpectedEof] = Some r"
  using ke_read_terminates[of "[Got [1, 2, 3], UnexpectedEof]"] by (auto simp: ends_read_def)

text \<open>The parser asks for no end-of-message, so a stream cut at a record boundary without a TLS
close notification is taken for a complete response.\<close>

lemma cut_response_accepted:
  fixes rs :: "KeRecord list"
  defines "rs \<equiv> [\<lparr> kr_critical = True, kr_record_type = NEXT_PROTOCOL, kr_body = [0, 0] \<rparr>,
               \<lparr> kr_critical = True, kr_record_type = AEAD_ALGORITHM, kr_body = [0, 15] \<rparr>,
               \<lparr> kr_critical = False, kr_record_type = NEW_COOKIE, kr_body = [9] \<rparr>]"
  defines "buf \<equiv> foldl put_record [] rs"
  shows "read_response [] [Got buf, UnexpectedEof] = Some (Inr buf) \<and> \<not> has_end_of_message buf \<and>
     parse_response buf host = Inr \<lparr> pa_cookies = [[9]], pa_ntp_server = host, pa_ntp_port = 123 \<rparr>"
proof -
  have w: "map on_wire rs = rs" by (simp add: rs_def on_wire_def record_type_defs)
  have u: "upto_eom rs = rs" by (simp add: rs_def record_type_defs)
  have "records buf = map Inr (upto_eom (map on_wire rs))"
    unfolding records_def by (intro collect_written[where pre = "[]" and junk = "[]"]) (auto simp: buf_def foldl_put_record)
  then have r: "records buf = map Inr rs" by (simp only: w u)
  have e: "\<not> has_end_of_message buf"
    by (simp add: has_end_of_message_def r rs_def is_eom_def record_type_defs)
  have len: "length buf \<le> MAX_KE_RESPONSE"
    unfolding buf_def foldl_put_record by (simp add: rs_def length_record_bytes MAX_KE_RESPONSE_def)
  have o: "offers NEXT_PROTO_NTPV4 [0, 0]" "offers AEAD_AES_SIV_CMAC_256 [0, 15]"
    by code_simp+
  have "parse_response buf host = Inr \<lparr> pa_cookies = [[9]], pa_ntp_server = host, pa_ntp_port = 123 \<rparr>"
    unfolding parse_response_def r
    by (simp add: rs_def parse_record_def parsing_start_def parse_finish_def record_type_defs o)
  then show ?thesis using e len by auto
qed

end
