(* ===== verification/NtsSession.thy ===== *)
theory NtsSession
  imports ServerRuns KeyExchange
begin

text \<open>The client's NTS session (\<open>crates/rusty_time-daemon/src/nts_session.rs\<close>): the cookie store, one
protected request, one verified reply; and the exchange of the two halves: a request this session
protects, answered by \<open>ServerReply\<close>, verifies and refills the store with cookies that redeem.\<close>

definition TARGET_COOKIES :: nat where "TARGET_COOKIES = 8"

record NtsSession =
  ns_keys :: NtsKeys
  ns_cookies :: "bytes list"
  ns_pending :: bytes
  ns_ntp_server :: bytes
  ns_ntp_port :: u16
  ns_ke_host :: bytes

datatype NtsSessionError = SessionKe KeError | CookiesExhausted | SessionProtect NtsError

definition session_resume :: "NtsKeys \<Rightarrow> bytes list \<Rightarrow> bytes \<Rightarrow> u16 \<Rightarrow> bytes \<Rightarrow> NtsSession" where
  "session_resume keys cookies server port host = \<lparr> ns_keys = keys, ns_cookies = cookies,
     ns_pending = replicate UNIQUE_ID_LEN 0, ns_ntp_server = server, ns_ntp_port = port, ns_ke_host = host \<rparr>"

definition from_ke :: "bytes \<Rightarrow> KeResult \<Rightarrow> NtsSession" where
  "from_ke host result = \<lparr> ns_keys = kx_keys result, ns_cookies = kx_cookies result,
     ns_pending = replicate UNIQUE_ID_LEN 0, ns_ntp_server = kx_ntp_server result, ns_ntp_port = kx_ntp_port result,
     ns_ke_host = host \<rparr>"

definition session_establish :: "bytes \<Rightarrow> (KeError + KeResult) \<Rightarrow> NtsSessionError + NtsSession" where
  "session_establish host outcome = (case outcome of Inl e \<Rightarrow> Inl (SessionKe e) | Inr result \<Rightarrow> Inr (from_ke host result))"

definition cookies_held :: "NtsSession \<Rightarrow> nat" where "cookies_held s = length (ns_cookies s)"
definition forget_cookies :: "NtsSession \<Rightarrow> NtsSession" where "forget_cookies s = s\<lparr> ns_cookies := [] \<rparr>"
definition unspent_cookies :: "NtsSession \<Rightarrow> bytes list" where "unspent_cookies s = ns_cookies s"

definition placeholders_wanted :: "nat \<Rightarrow> nat" where
  "placeholders_wanted held = min (TARGET_COOKIES - held) 7"

text \<open>\<open>rand i n\<close> is the call's \<open>i\<close>-th draw of \<open>n\<close> bytes, or the failure the random source reports.\<close>

definition session_protect ::
  "Aead \<Rightarrow> (nat \<Rightarrow> nat \<Rightarrow> KeError + bytes) \<Rightarrow> bytes \<Rightarrow> NtsSession \<Rightarrow> (NtsSessionError + bytes) \<times> NtsSession" where
  "session_protect c rand header s =
     (case ns_cookies s of [] \<Rightarrow> (Inl CookiesExhausted, s)
      | cookie # rest \<Rightarrow>
          let s1 = s\<lparr> ns_cookies := rest \<rparr> in
          (case rand 0 UNIQUE_ID_LEN of Inl e \<Rightarrow> (Inl (SessionKe e), s1)
           | Inr unique_id \<Rightarrow>
              (case rand 1 NONCE_LEN of Inl e \<Rightarrow> (Inl (SessionKe e), s1)
               | Inr nonce \<Rightarrow>
                  ((case protect_request c header unique_id cookie (placeholders_wanted (length rest)) (k_c2s (ns_keys s)) nonce of
                      Inl e \<Rightarrow> Inl (SessionProtect e) | Inr packet \<Rightarrow> Inr packet),
                   s1\<lparr> ns_pending := unique_id \<rparr>))))"

fun bank :: "bytes list \<Rightarrow> bytes list \<Rightarrow> bytes list" where
  "bank held [] = held"
| "bank held (k # ks) = bank (if length held < TARGET_COOKIES * 2 then held @ [k] else held) ks"

definition session_verify :: "Aead \<Rightarrow> bytes \<Rightarrow> NtsSession \<Rightarrow> (NtsSessionError + unit) \<times> NtsSession" where
  "session_verify c packet s =
     (case verify_response c packet (k_s2c (ns_keys s)) (ns_pending s) of
        Inl e \<Rightarrow> (Inl (SessionProtect e), s)
      | Inr cookies \<Rightarrow> (Inr (), s\<lparr> ns_cookies := bank (ns_cookies s) cookies \<rparr>))"

section \<open>The request on the wire\<close>

lemma bank_take: "length held \<le> TARGET_COOKIES * 2 \<Longrightarrow> bank held ks = held @ take (TARGET_COOKIES * 2 - length held) ks"
  by (induction ks arbitrary: held) (auto simp: take_Cons' )

lemma bank_bound: "length (bank held ks) \<le> max (length held) (TARGET_COOKIES * 2)"
proof (induction ks arbitrary: held)
  case (Cons k ks)
  show ?case using Cons[of "held @ [k]"] Cons[of held] by auto
qed simp

definition request_fields :: "bytes \<Rightarrow> bytes \<Rightarrow> nat \<Rightarrow> (u16 \<times> bytes) list" where
  "request_fields uid cookie extra = [(UNIQUE_IDENTIFIER, uid), (NTS_COOKIE, cookie)]
     @ replicate extra (NTS_COOKIE_PLACEHOLDER, zeros (length cookie))"

lemma iterate_zero_field:
  "((\<lambda>out. write_zero_field out ty n) ^^ k) out = out @ wire_all (replicate k (ty, zeros n))"
  by (induction k arbitrary: out) (simp_all add: write_zero_wire wire_all_Cons funpow_Suc_right del: funpow.simps(2))

lemma protect_request_wire:
  assumes c: "aead_ok c"
  shows "\<exists>ct. encrypt c key [header @ wire_all (request_fields uid cookie extra), nonce] [] = Some ct \<and> length ct = 16 \<and>
    protect_request c header uid cookie extra key nonce
      = Inr ((header @ wire_all (request_fields uid cookie extra)) @ wire_field NTS_AUTHENTICATOR (auth_body nonce ct))"
proof -
  obtain ct where ct: "encrypt c key [header @ wire_all (request_fields uid cookie extra), nonce] [] = Some ct"
    using aead_encrypts[OF c] by blast
  have "((\<lambda>out. write_zero_field out NTS_COOKIE_PLACEHOLDER (length cookie)) ^^ extra)
      (write_field (write_field header UNIQUE_IDENTIFIER uid) NTS_COOKIE cookie)
      = header @ wire_all (request_fields uid cookie extra)"
    by (simp add: iterate_zero_field write_field_wire request_fields_def wire_all_Cons)
  then show ?thesis using ct aead_length[OF c ct]
    by (simp add: protect_request_def Let_def seal_def sealer_seal_def write_auth_wire)
qed

lemma laid_out_append: "laid_out pos (xs @ ys) = laid_out pos xs @ laid_out (pos + length (wire_all xs)) ys"
  by (induction xs arbitrary: pos) (simp_all add: wire_all_Cons length_wire_field add.assoc)

lemma scan_placeholders:
  "scan_request (laid_out pos (replicate k (NTS_COOKIE_PLACEHOLDER, z)) @ fs) q
    = scan_request fs (q\<lparr> rq_placeholders := rq_placeholders q + k \<rparr>)"
  by (induction k arbitrary: pos q) (simp_all add: field_type_defs)

lemma protected_scan:
  assumes "length header = HEADER_LEN" "length uid = 32" "length cookie = 100" "length nonce = 16" "length ct = 16"
  shows "nts_request ((header @ wire_all (request_fields uid cookie extra)) @ wire_field NTS_AUTHENTICATOR (auth_body nonce ct))
    = \<lparr> rq_cookie = Some cookie, rq_unique_id = Some uid, rq_placeholders = extra,
        rq_auth = Some \<lparr> f_type = NTS_AUTHENTICATOR, f_body = padded (auth_body nonce ct),
                        f_offset = length (header @ wire_all (request_fields uid cookie extra)) \<rparr> \<rparr>"
proof -
  let ?xs = "request_fields uid cookie extra" and ?a = "(NTS_AUTHENTICATOR, auth_body nonce ct)"
  have sm: "list_all (\<lambda>x. small_body (snd x)) (?xs @ [?a])"
    using assms auth_body_small[of nonce ct] by (simp add: request_fields_def small_body_def list_all_iff)
  have "(header @ wire_all ?xs) @ wire_field NTS_AUTHENTICATOR (auth_body nonce ct) = header @ wire_all (?xs @ [?a])"
    by (simp add: wire_all_append wire_all_Cons)
  then have f: "NtsFields.fields ((header @ wire_all ?xs) @ wire_field NTS_AUTHENTICATOR (auth_body nonce ct))
      = laid_out HEADER_LEN ?xs @ [\<lparr> f_type = NTS_AUTHENTICATOR, f_body = padded (auth_body nonce ct),
          f_offset = HEADER_LEN + length (wire_all ?xs) \<rparr>]"
    using fields_written[OF assms(1) sm] by (simp add: laid_out_append)
  have "padded uid = uid" "padded cookie = cookie" using assms by (simp_all add: padded_exact)
  then show ?thesis
    unfolding nts_request_def f using assms(1)
    by (simp add: request_fields_def scan_placeholders) (simp add: field_type_defs)
qed

lemma verify_client_written:
  assumes "length nonce = 16" "length ct = 16" "decrypt c key [packet, nonce] ct \<noteq> None"
  shows "verify_client_authenticator c (packet @ rest) \<lparr> f_type = ty, f_body = padded (auth_body nonce ct), f_offset = length packet \<rparr> key = Some ()"
proof -
  let ?b = "padded (auth_body nonce ct)"
  have lb: "length (auth_body nonce ct) \<le> length ?b" by (simp add: padded_def)
  have n4: "next_multiple_of4 16 = 16" by (simp add: next_multiple_of4_def)
  have la: "length (auth_body nonce ct) = 36" unfolding length_auth_body assms(1,2) n4 by simp
  have nl: "auth_nonce_len ?b = 16" "auth_ct_len ?b = 16"
    using assms la by (simp_all add: auth_nonce_len_def auth_ct_len_def slice_padded slice_auth_body of_be_to_be_id)
  have s: "slice ?b 4 20 = nonce" "slice ?b 20 36 = ct"
    using slice_auth_body(3,4)[of nonce ct] assms la n4 by (simp_all add: slice_padded)
  have g: "get_slice ?b 4 20 = Some nonce" "get_slice ?b 20 36 = Some ct" "get_slice (packet @ rest) 0 (length packet) = Some packet"
    using s lb la by (simp_all add: get_slice_def, simp add: slice_def)
  have l: "\<not> length ?b < 4" "\<not> length ?b < 36" using lb la by simp_all
  have st: "auth_ct_start ?b = 20" unfolding auth_ct_start_def nl n4 by simp
  show ?thesis using assms(3) g l
    by (auto simp: verify_client_authenticator_def Let_def nl st open_aead_def)
qed

section \<open>The exchange\<close>

lemma redeem_fresh:
  assumes c: "aead_ok c" and k: "keys_ok keys" and n: "length n = COOKIE_NONCE_LEN" and d: "distinct (key_ids ring)"
    and m: "mint c ring keys n = Inr cookie"
  shows "redeem c ring cookie = Inr keys"
proof -
  obtain master sealed where ms: "ring_current ring = Some master" "cookie = cookie_header master n @ sealed"
    "encrypt c (mk_key master) [cookie_header master n] (key_payload keys) = Some sealed" using m unfolding mint_Inr by blast
  have "master \<in> set (ring_keys ring)" using ms(1) by (auto simp: ring_current_def split: if_splits)
  then have "by_id ring (mk_id master) = Some master" by (rule by_id_present[OF d])
  then show ?thesis using redeem_minted[OF c k n ms(3), of ring] ms(2) by simp
qed

text \<open>What the network and the operating system have to do for one exchange to go through.\<close>

definition exchange_env :: "Env \<Rightarrow> bool" where
  "exchange_env env \<longleftrightarrow> en_wall env \<noteq> None \<and> (\<forall>i n. \<exists>b. en_rand env i n = Some b \<and> length b = n)"

lemma protected_reply_some:
  assumes c: "aead_ok c" and k: "keys_ok keys" and ring: "ring_keys ring \<noteq> []" "distinct (key_ids ring)"
    and env: "exchange_env env" and uid: "length uid = UNIQUE_ID_LEN"
    and hd: "\<And>h. stamp_transmit env mode header = Some h \<Longrightarrow> length (to_bytes h) = HEADER_LEN"
  shows "\<exists>b fresh h tail. protected_reply c env ring keys uid extra mode header = Some b \<and>
    stamp_transmit env mode header = Some h \<and> b = to_bytes h @ tail \<and>
    verify_response c b (k_s2c keys) uid = Inr fresh \<and> length fresh = want_cookies extra \<and>
    (\<forall>k\<in>set fresh. redeem c ring k = Inr keys \<and> length k = 100)"
proof -
  have r: "rand_ok env" using env unfolding exchange_env_def rand_ok_def by (metis option.inject)
  obtain bs where bs: "en_rand env 0 (want_cookies extra * COOKIE_NONCE_LEN) = Some bs" using env by (auto simp: exchange_env_def)
  obtain n2 where n2: "en_rand env 1 NONCE_LEN = Some n2" "length n2 = 16" using env by (auto simp: exchange_env_def NONCE_LEN_def)
  have "\<exists>pt. mint_fields_into c ring keys (split_nonces (want_cookies extra) bs) [] = Inr pt"
    using mint_loop_each[of ring "last (ring_keys ring)" c keys "split_nonces (want_cookies extra) bs" "[]"] ring(1)
      mint_each_fields[OF c ring(1), of keys "split_nonces (want_cookies extra) bs" "[]"]
    by (auto simp: mint_fields_into_def ring_current_def)
  then obtain pt where pt: "fresh_cookies c env ring keys (want_cookies extra) = Some pt" using bs by (auto simp: fresh_cookies_def)
  obtain cookies where cs: "pt = wire_all (map (Pair NTS_COOKIE) cookies)" "length cookies = want_cookies extra"
    "\<forall>k\<in>set cookies. length k = 100 \<and> (\<exists>n. length n = COOKIE_NONCE_LEN \<and> mint c ring keys n = Inr k)"
    using fresh_cookies_spec[OF c k ring(1) r pt] by blast
  have le: "length cookies \<le> 8" using cs(2) by (simp add: want_cookies_def MAX_REPLY_COOKIES_def)
  have lp: "length pt \<le> 832" using length_wire_cookies[of cookies] cs le by simp
  have "stamp_transmit env mode header \<noteq> None"
    using env by (auto simp: stamp_transmit_def exchange_env_def)
  then obtain h where h: "stamp_transmit env mode header = Some h" by blast
  obtain ct where ct: "encrypt c (k_s2c keys) [write_field (to_bytes h) UNIQUE_IDENTIFIER uid, n2] pt = Some ct"
    using aead_encrypts[OF c] by blast
  let ?b = "write_authenticator (write_field (to_bytes h) UNIQUE_IDENTIFIER uid) n2 ct"
  have b: "protected_reply c env ring keys uid extra mode header = Some ?b"
    using pt h n2 ct uid by (simp add: protected_reply_def sealed_reply_def seal_def sealer_seal_def Let_def)
  have "length ct \<le> 32752" using aead_length[OF c ct] lp by simp
  then have v: "verify_response c ?b (k_s2c keys) uid = Inr (payload_cookies pt 0)"
    using n2(2) by (intro verify_written[OF c hd[OF h] uid _ _ _ ct]) auto
  have "payload_cookies pt 0 = map padded cookies"
    unfolding cs(1) by (subst payload_cookies_written) (use cs(3) in \<open>auto simp: list_all_iff small_body_def filter_map comp_def\<close>)
  also have "\<dots> = cookies" using cs(3) by (intro map_idI padded_exact) auto
  finally have "payload_cookies pt 0 = cookies" .
  moreover have "\<exists>tail. ?b = to_bytes h @ tail" by (simp add: write_field_wire write_auth_wire)
  ultimately show ?thesis using b h v cs redeem_fresh[OF c k _ ring(2)] by (metis)
qed

lemma exchange_runs:
  assumes c: "aead_ok c" and sv: "sv_ok kh sv" and d: "distinct (key_ids (sv_ring sv))"
    and s: "ns_cookies s = cookie # rest" "length rest \<le> 16" "length cookie = 100" "redeem c (sv_ring sv) cookie = Inr (ns_keys s)"
    and rand: "rand 0 UNIQUE_ID_LEN = Inr uid" "length uid = UNIQUE_ID_LEN" "rand 1 NONCE_LEN = Inr nonce" "length nonce = NONCE_LEN"
    and header: "length header = HEADER_LEN" "parse header = Inr q" "p_mode q = Client"
    and env: "exchange_env env" "en_mono env = Some now"
    and adm: "locked_section kh (client_key peer) now q recv_ts sv = Some (lk, sv')" "lk_disposition lk = Respond"
  shows "\<exists>request s1 reply s2 fresh h. (\<exists>f. rq_auth (nts_request request) = Some f) \<and>
    parse (as_slice (re_bytes reply)) = Inr h \<and> p_stratum h = lk_stratum lk \<and>
    stamp_transmit env (lk_mode lk) (reply_header q recv_ts lk) = Some h \<and> session_protect c rand header s = (Inr request, s1) \<and>
    build_reply_in kh c env request peer recv_ts sv = Some (Some reply, sv') \<and>
    session_verify c (as_slice (re_bytes reply)) s1 = (Inr (), s2) \<and>
    ns_cookies s2 = rest @ take (16 - length rest) fresh \<and>
    length fresh = 1 + min (8 - length rest) 7 \<and>
    (\<forall>k\<in>set fresh. redeem c (sv_ring sv) k = Inr (ns_keys s))"
proof -
  define extra where "extra = placeholders_wanted (length rest)"
  define packet where "packet = header @ wire_all (request_fields uid cookie extra)"
  have e7: "extra \<le> 7" by (simp add: extra_def placeholders_wanted_def)
  obtain ct where ct: "encrypt c (k_c2s (ns_keys s)) [packet, nonce] [] = Some ct" "length ct = 16"
    "protect_request c header uid cookie extra (k_c2s (ns_keys s)) nonce
      = Inr (packet @ wire_field NTS_AUTHENTICATOR (auth_body nonce ct))"
    using protect_request_wire[OF c] unfolding packet_def by blast
  define request where "request = packet @ wire_field NTS_AUTHENTICATOR (auth_body nonce ct)"
  define s1 where "s1 = s\<lparr> ns_cookies := rest, ns_pending := uid \<rparr>"
  have p: "session_protect c rand header s = (Inr request, s1)"
    using s(1) rand ct(3) by (simp add: session_protect_def request_def s1_def extra_def)
  have pr: "parse request = Inr q"
  proof -
    have "to_bytes q = header" using to_bytes_parse_gen(1)[OF header(2)] header(1) by simp
    then show ?thesis using parse_to_bytes_gen[OF to_bytes_parse_gen(2-4)[OF header(2)]]
      by (simp add: request_def packet_def)
  qed
  have len: "\<not> length request < HEADER_LEN" using header(1) by (simp add: request_def packet_def)
  have nr: "nts_request request = \<lparr> rq_cookie = Some cookie, rq_unique_id = Some uid, rq_placeholders = extra,
      rq_auth = Some \<lparr> f_type = NTS_AUTHENTICATOR, f_body = padded (auth_body nonce ct), f_offset = length packet \<rparr> \<rparr>"
    unfolding request_def packet_def
    using protected_scan[of header uid cookie nonce ct extra] header(1) rand(2,4) s(3) ct(2)
    by (simp add: UNIQUE_ID_LEN_def NONCE_LEN_def)
  have "decrypt c (k_c2s (ns_keys s)) [packet, nonce] ct \<noteq> None" using ct(1) c by (simp add: aead_decrypts[symmetric])
  then have va: "verify_client_authenticator c request
      \<lparr> f_type = NTS_AUTHENTICATOR, f_body = padded (auth_body nonce ct), f_offset = length packet \<rparr> (k_c2s (ns_keys s)) = Some ()"
    unfolding request_def using verify_client_written rand(4) ct(2) by (simp add: NONCE_LEN_def)
  obtain xs where xs: "tbl_ok kh (sv_clients sv) xs" "length (up_reference_id (sv_upstream sv)) = 4" using sv by (auto simp: sv_ok_def)
  have u: "length (up_reference_id (lk_upstream lk)) = 4" and ring: "sv_ring sv' = sv_ring sv"
    using locked_some[OF xs(1), of "client_key peer" now q recv_ts] adm(1) xs(2) by (auto simp: REFERENCE_def ascii_def)
  have hl: "length (to_bytes h) = HEADER_LEN" if "stamp_transmit env (lk_mode lk) (reply_header q recv_ts lk) = Some h" for h
    using length_to_bytes reply_header_ok(1)[OF pr u that] by blast
  obtain b fresh h tail where b: "protected_reply c env (sv_ring sv) (ns_keys s) uid extra (lk_mode lk) (reply_header q recv_ts lk) = Some b"
    "verify_response c b (k_s2c (ns_keys s)) uid = Inr fresh" "length fresh = want_cookies extra"
    "\<forall>k\<in>set fresh. redeem c (sv_ring sv) k = Inr (ns_keys s) \<and> length k = 100"
    and h: "stamp_transmit env (lk_mode lk) (reply_header q recv_ts lk) = Some h" "b = to_bytes h @ tail"
    using protected_reply_some[OF c redeem_keys_ok[OF s(4)] ring_nonempty[OF s(4)] d env(1) rand(2) hl] by blast
  have "respond_bytes c env (sv_ring sv) request q recv_ts lk = Some (Extended b)"
    using b(1) va s(4) by (simp add: respond_bytes_def Let_def nr nts_reply_def)
  then have r: "build_reply_in kh c env request peer recv_ts sv
      = Some (Some \<lparr> re_bytes = Extended b, re_handle = lk_handle lk \<rparr>, sv')"
    using len pr header(3) env(2) adm by (simp add: build_reply_in_def reply_bytes_def ring)
  have v: "session_verify c b s1 = (Inr (), s1\<lparr> ns_cookies := bank rest fresh \<rparr>)"
    using b(2) by (simp add: session_verify_def s1_def)
  have "bank rest fresh = rest @ take (16 - length rest) fresh"
    using bank_take[of rest fresh] s(2) by (simp add: TARGET_COOKIES_def)
  moreover have "length fresh = 1 + min (8 - length rest) 7"
    using b(3) e7 by (simp add: want_cookies_def MAX_REPLY_COOKIES_def extra_def placeholders_wanted_def TARGET_COOKIES_def min_def)
  moreover have ph: "parse b = Inr h"
    unfolding h(2) using reply_header_ok[OF pr u h(1)] to_bytes_parse_gen(3,4)[OF header(2)] by (intro parse_to_bytes_gen) auto
  have sh: "p_stratum h = lk_stratum lk" using stamp_header[OF h(1)]
    by (metis NtpPacket.select_convs(4) NtpPacket.update_convs(13) reply_header_def)
  ultimately show ?thesis using p r v b(4) ph sh nr h(1)
    by (intro exI[of _ request] exI[of _ s1] exI[of _ "\<lparr> re_bytes = Extended b, re_handle = lk_handle lk \<rparr>"]
        exI[of _ "s1\<lparr> ns_cookies := bank rest fresh \<rparr>"] exI[of _ fresh] exI[of _ h]) simp
qed


text \<open>C24: the client and server halves of NTS agree.  Let the session hold a cookie
that redeems at the server to the session's keys, and let the server admit the request with its clocks and
random source working.  Then the session's request is answered, the answer verifies, and the cookie spent
is replaced by exactly the number asked for (at most eight, the store kept to sixteen), every one of which
redeems at that server to the same keys.\<close>

theorem nts_exchange_refills:
  assumes c: "aead_ok c" and sv: "sv_ok kh sv" and d: "distinct (key_ids (sv_ring sv))"
    and s: "ns_cookies s = cookie # rest" "length rest \<le> 16" "length cookie = 100" "redeem c (sv_ring sv) cookie = Inr (ns_keys s)"
    and rand: "rand 0 UNIQUE_ID_LEN = Inr uid" "length uid = UNIQUE_ID_LEN" "rand 1 NONCE_LEN = Inr nonce" "length nonce = NONCE_LEN"
    and header: "length header = HEADER_LEN" "parse header = Inr q" "p_mode q = Client"
    and env: "exchange_env env" "en_mono env = Some now"
    and adm: "locked_section kh (client_key peer) now q recv_ts sv = Some (lk, sv')" "lk_disposition lk = Respond"
  shows "\<exists>request s1 reply s2 fresh. session_protect c rand header s = (Inr request, s1) \<and>
    build_reply_in kh c env request peer recv_ts sv = Some (Some reply, sv') \<and>
    session_verify c (as_slice (re_bytes reply)) s1 = (Inr (), s2) \<and>
    ns_cookies s2 = rest @ take (16 - length rest) fresh \<and>
    length fresh = 1 + min (8 - length rest) 7 \<and>
    (\<forall>k\<in>set fresh. redeem c (sv_ring sv) k = Inr (ns_keys s))"
  using exchange_runs[OF assms] by blast

section \<open>A concrete exchange\<close>

definition demo_ring :: KeyRing where
  "demo_ring = rotate_in (ring_new 3) \<lparr> mk_id = 7, mk_key = zeros 32 \<rparr>"

definition demo_keys :: NtsKeys where
  "demo_keys = \<lparr> k_c2s = zeros 32, k_s2c = zeros 32 \<rparr>"

definition demo_packet :: NtpPacket where
  "demo_packet = client_request 4 (NtpTimestamp 3)"

lemma demo_exchange:
  "\<exists>cookie sv lk sv'. mint null_cipher demo_ring demo_keys (zeros 16) = Inr cookie \<and> length cookie = 100 \<and>
     redeem null_cipher demo_ring cookie = Inr demo_keys \<and> sv_ok key_bytes sv \<and> sv_ring sv = demo_ring \<and>
     locked_section key_bytes (client_key demo_peer) (FFin 0) demo_packet recv_ts sv = Some (lk, sv') \<and>
     lk_disposition lk = Respond \<and> lk_mode lk = Basic \<and> lk_stratum lk = 1"
proof -
  have k: "keys_ok demo_keys" "length (zeros 16) = COOKIE_NONCE_LEN" by (simp_all add: keys_ok_def COOKIE_NONCE_LEN_def demo_keys_def)
  obtain cookie where ck: "mint null_cipher demo_ring demo_keys (zeros 16) = Inr cookie"
    using mint_some[OF null_cipher_ok, of demo_ring] by (auto simp: demo_ring_def rotate_in_def ring_new_def)
  obtain sv where sv: "demo_server demo_ring sv" "sv_ok key_bytes sv" using demo_server_exists by blast
  obtain lk sv' where l: "locked_section key_bytes 5 (FFin 0) demo_packet recv_ts sv = Some (lk, sv')"
    "lk_disposition lk = Respond" using demo_locked[OF sv(1)] by blast
  have "tbl_ok key_bytes (sv_clients sv) []" "sv_stratum sv = 1" "sv_ring sv = demo_ring" using sv(1) by (simp_all add: demo_server_def)
  moreover from this have "lk_stratum lk = 1" "lk_mode lk = pair_mode (pairing (view (sv_clients sv) []) 5) (p_origin_ts demo_packet)"
    using locked_respond[OF _ l] by auto
  moreover from this(2) have "lk_mode lk = Basic" by (simp add: view_def pairing_def pair_mode_def ts_is_zero_def ts_ZERO_def)
  moreover have "redeem null_cipher demo_ring cookie = Inr demo_keys"
    by (rule redeem_fresh[OF null_cipher_ok k _ ck]) (simp add: demo_ring_def key_ids_def rotate_in_def ring_new_def)
  ultimately show ?thesis
    using ck l sv(2) mint_length[OF null_cipher_ok k ck] by (simp add: client_key_def demo_peer_def) blast
qed

lemma demo_facts:
  "distinct (key_ids demo_ring)" "length (to_bytes demo_packet) = HEADER_LEN" "parse (to_bytes demo_packet) = Inr demo_packet"
  "p_mode demo_packet = Client" "exchange_env demo_env" "en_mono demo_env = Some (FFin 0)"
proof -
  have p: "packet_ok demo_packet" "p_version demo_packet = 4" by (simp_all add: packet_ok_def demo_packet_def client_request_def)
  show "length (to_bytes demo_packet) = HEADER_LEN" by (rule length_to_bytes[OF p(1)])
  show "parse (to_bytes demo_packet) = Inr demo_packet" using parse_to_bytes_gen[OF p(1), of "[]"] p(2) by simp
qed (simp_all add: demo_ring_def key_ids_def rotate_in_def ring_new_def demo_packet_def client_request_def exchange_env_def demo_env_def)

lemma nts_exchange_refills_witness:
  "\<exists>cookie sv request s1 reply sv' s2. mint null_cipher demo_ring demo_keys (zeros 16) = Inr cookie \<and>
     session_protect null_cipher (\<lambda>i n. Inr (zeros n)) (to_bytes demo_packet) (session_resume demo_keys [cookie] [] 123 []) = (Inr request, s1) \<and>
     build_reply_in key_bytes null_cipher demo_env request demo_peer (NtpTimestamp 10) sv = Some (Some reply, sv') \<and>
     session_verify null_cipher (as_slice (re_bytes reply)) s1 = (Inr (), s2) \<and> cookies_held s2 = 8"
proof -
  obtain cookie sv lk sv' where d: "mint null_cipher demo_ring demo_keys (zeros 16) = Inr cookie" "length cookie = 100"
    "redeem null_cipher demo_ring cookie = Inr demo_keys" "sv_ok key_bytes sv" "sv_ring sv = demo_ring"
    "locked_section key_bytes (client_key demo_peer) (FFin 0) demo_packet (NtpTimestamp 10) sv = Some (lk, sv')" "lk_disposition lk = Respond"
    using demo_exchange by blast
  define s where "s = session_resume demo_keys [cookie] [] 123 []"
  have s: "ns_cookies s = cookie # []" "ns_keys s = demo_keys" by (simp_all add: s_def session_resume_def)
  have "\<exists>request s1 reply s2 fresh. session_protect null_cipher (\<lambda>i n. Inr (zeros n)) (to_bytes demo_packet) s = (Inr request, s1) \<and>
     build_reply_in key_bytes null_cipher demo_env request demo_peer (NtpTimestamp 10) sv = Some (Some reply, sv') \<and>
     session_verify null_cipher (as_slice (re_bytes reply)) s1 = (Inr (), s2) \<and> ns_cookies s2 = take 16 fresh \<and> length fresh = 8"
    using nts_exchange_refills[OF null_cipher_ok d(4) _ s(1) _ d(2) _ _ _ _ _ demo_facts(2-6) d(6,7),
        of "\<lambda>i n. Inr (zeros n)" "zeros 32" "zeros 16"] demo_facts(1)
    by (simp add: d s UNIQUE_ID_LEN_def NONCE_LEN_def) blast
  then show ?thesis using d(1) unfolding s_def cookies_held_def by fastforce
qed

lemma nts_time_is_authentic_witness:
  "\<exists>request sv sv' reply. build_reply_in key_bytes null_cipher demo_env request demo_peer (NtpTimestamp 10) sv = Some (Some reply, sv') \<and>
     (\<exists>keys cookie. redeem null_cipher demo_ring cookie = Inr keys \<and>
       (\<exists>prefix nonce ct pt. as_slice (re_bytes reply) = write_authenticator prefix nonce ct \<and>
         encrypt null_cipher (k_s2c keys) [prefix, nonce] pt = Some ct))"
proof -
  obtain cookie sv lk sv' where d: "length cookie = 100"
    "redeem null_cipher demo_ring cookie = Inr demo_keys" "sv_ok key_bytes sv" "sv_ring sv = demo_ring"
    "locked_section key_bytes (client_key demo_peer) (FFin 0) demo_packet (NtpTimestamp 10) sv = Some (lk, sv')" "lk_disposition lk = Respond"
    "lk_stratum lk = 1" using demo_exchange by blast
  define s where "s = session_resume demo_keys [cookie] [] 123 []"
  have s: "ns_cookies s = cookie # []" "ns_keys s = demo_keys" by (simp_all add: s_def session_resume_def)
  obtain request auth reply h where r: "rq_auth (nts_request request) = Some auth" "parse (as_slice (re_bytes reply)) = Inr h"
    "p_stratum h = lk_stratum lk"
    "build_reply_in key_bytes null_cipher demo_env request demo_peer (NtpTimestamp 10) sv = Some (Some reply, sv')"
    using exchange_runs[OF null_cipher_ok d(3) _ s(1) _ d(1) _ _ _ _ _ demo_facts(2-6) d(5,6), of "\<lambda>i n. Inr (zeros n)" "zeros 32" "zeros 16"]
    by (auto simp: d s demo_facts UNIQUE_ID_LEN_def NONCE_LEN_def)
  have "p_stratum h \<noteq> 0" using r(3) d(7) by simp
  from nts_time_is_authentic[OF d(3) null_cipher_ok r(4,2) this r(1)] show ?thesis using r(4) d(4) by metis
qed

end
