(* ===== verification/SampleFilter.thy ===== *)
theory SampleFilter
  imports Prelude Float64 "HOL-Library.Multiset" "HOL-Library.Sublist"
begin

text \<open>The per-source sample history and its weighted regression,
\<open>crates/rusty_time-core/src/filter.rs\<close>.  The register keeps a dead prefix in front of the live
window (\<open>r_head\<close>), a cached minimum delay and cached weights; \<open>regress\<close> is the composition of its
passes in source order.  The two scratch row buffers carry nothing between calls and are not state.
\<open>powf\<close>, whose precision the standard library leaves unspecified, is the argument \<open>pw\<close> of the functions
that reach it (only the age decay, off by default).  Iterator sums start at minus zero.\<close>

subsection \<open>Samples, rows, fits and the register\<close>

record Sample =
  sm_t :: f64
  sm_offset :: f64
  sm_delay :: f64
  sm_dispersion :: f64

record RegressEstimate =
  re_offset :: f64
  re_freq_ppm :: "f64 option"
  re_offset_sd :: f64
  re_n_used :: nat
  re_span :: f64

record Row =
  rw_t :: f64
  rw_offset :: f64
  rw_delay :: f64
  rw_w :: f64

record Fit =
  ft_a :: f64
  ft_b :: f64
  ft_t0 :: f64
  ft_sxx :: f64
  ft_sw :: f64

record SampleRegister =
  r_weights :: "f64 list"
  r_weights_for :: "f64 \<times> f64"
  r_head :: nat
  r_samples :: "Sample list"
  r_capacity :: nat
  r_min_delay :: f64
  r_weight_floor_ratio :: f64
  r_offset_weight_floor_ratio :: f64
  r_slope_density_weighting :: bool
  r_adaptive_window :: bool
  r_offset_weight_dispersion_k :: f64
  r_offset_age_halflife_s :: f64

definition WEIGHT_FLOOR_RATIO :: f64 where "WEIGHT_FLOOR_RATIO = FFin (1/8)"
definition OFFSET_WEIGHT_FLOOR_RATIO :: f64 where "OFFSET_WEIGHT_FLOOR_RATIO = FFin (1/32)"
definition MIN_ADAPTIVE :: nat where "MIN_ADAPTIVE = 8"
definition FREQ_MIN_SPAN_S :: f64 where "FREQ_MIN_SPAN_S = FFin 8"
definition FREQ_MIN_SAMPLES :: nat where "FREQ_MIN_SAMPLES = 4"
definition e_minus9 :: f64 where "e_minus9 = flit (1 / 1000000000)"
definition e_minus6 :: f64 where "e_minus6 = flit (1 / 1000000)"
definition e_minus4 :: f64 where "e_minus4 = flit (1 / 10000)"
definition e_minus12 :: f64 where "e_minus12 = flit (1 / 1000000000000)"
definition mad_scale :: f64 where "mad_scale = flit (14826 / 10000)"

lemma e_minus9_code [code]: "e_minus9 = FFin (dyadic 4835703278458517 (-82))"
  by code_simp

lemma e_minus6_code [code]: "e_minus6 = FFin (dyadic 4722366482869645 (-72))"
  by code_simp

lemma e_minus4_code [code]: "e_minus4 = FFin (dyadic 7378697629483821 (-66))"
  by code_simp

lemma e_minus12_code [code]: "e_minus12 = FFin (dyadic 4951760157141521 (-92))"
  by code_simp

lemma mad_scale_code [code]: "mad_scale = FFin (dyadic 6677036807539497 (-52))"
  by code_simp

definition fsum :: "f64 list \<Rightarrow> f64" where
  "fsum xs = foldl fadd FNegZero xs"

definition f_of_nat :: "nat \<Rightarrow> f64" where
  "f_of_nat n = f_of_int (int n)"

definition register_new :: "nat \<Rightarrow> SampleRegister" where
  "register_new capacity = \<lparr>
     r_weights = [], r_weights_for = (FNaN, FNaN), r_head = 0, r_samples = [],
     r_capacity = max capacity 3, r_min_delay = FInf False,
     r_weight_floor_ratio = WEIGHT_FLOOR_RATIO, r_offset_weight_floor_ratio = OFFSET_WEIGHT_FLOOR_RATIO,
     r_slope_density_weighting = False, r_adaptive_window = True,
     r_offset_weight_dispersion_k = FFin 0, r_offset_age_halflife_s = FInf False \<rparr>"

definition set_weight_floor_ratio :: "f64 \<Rightarrow> SampleRegister \<Rightarrow> SampleRegister" where
  "set_weight_floor_ratio ratio r = r\<lparr> r_weight_floor_ratio := fmax ratio e_minus4 \<rparr>"

definition set_offset_weight_floor_ratio :: "f64 \<Rightarrow> SampleRegister \<Rightarrow> SampleRegister" where
  "set_offset_weight_floor_ratio ratio r = r\<lparr> r_offset_weight_floor_ratio := fmax ratio e_minus4 \<rparr>"

definition set_slope_density_weighting :: "bool \<Rightarrow> SampleRegister \<Rightarrow> SampleRegister" where
  "set_slope_density_weighting on r = r\<lparr> r_slope_density_weighting := on \<rparr>"

definition set_adaptive_window :: "bool \<Rightarrow> SampleRegister \<Rightarrow> SampleRegister" where
  "set_adaptive_window on r = r\<lparr> r_adaptive_window := on \<rparr>"

definition set_offset_weight_dispersion_k :: "f64 \<Rightarrow> SampleRegister \<Rightarrow> SampleRegister" where
  "set_offset_weight_dispersion_k k r = r\<lparr> r_offset_weight_dispersion_k := fmax k (FFin 0) \<rparr>"

definition set_offset_age_halflife_s :: "f64 \<Rightarrow> SampleRegister \<Rightarrow> SampleRegister" where
  "set_offset_age_halflife_s h r =
     r\<lparr> r_offset_age_halflife_s := (if flt (FFin 0) h then h else FInf False) \<rparr>"

definition window :: "SampleRegister \<Rightarrow> Sample list" where
  "window r = drop (r_head r) (r_samples r)"

definition register_len :: "SampleRegister \<Rightarrow> nat" where
  "register_len r = length (r_samples r) - r_head r"

definition register_is_empty :: "SampleRegister \<Rightarrow> bool" where
  "register_is_empty r \<longleftrightarrow> register_len r = 0"

subsection \<open>Pushing, clearing and slewing\<close>

definition lowest_delay :: "Sample list \<Rightarrow> f64" where
  "lowest_delay ss = foldl (\<lambda>lowest s. fmin lowest (sm_delay s)) (FInf False) ss"

definition evict_oldest :: "SampleRegister \<Rightarrow> SampleRegister" where
  "evict_oldest r =
     (if r_capacity r < length (r_samples r) - r_head r
      then (let evicted = r_samples r ! r_head r;
                r1 = r\<lparr> r_head := r_head r + 1 \<rparr>
            in if fle (sm_delay evicted) (r_min_delay r)
               then r1\<lparr> r_min_delay := lowest_delay (drop (r_head r1) (r_samples r1)) \<rparr>
               else r1)
      else r)"

definition compact :: "SampleRegister \<Rightarrow> SampleRegister" where
  "compact r =
     (if r_capacity r \<le> r_head r
      then r\<lparr> r_samples := drop (r_head r) (r_samples r), r_weights := drop (r_head r) (r_weights r), r_head := 0 \<rparr>
      else r)"

definition push :: "Sample \<Rightarrow> SampleRegister \<Rightarrow> SampleRegister" where
  "push s r =
     (let r1 = r\<lparr> r_samples := r_samples r @ [s], r_weights := r_weights r @ [FFin 0] \<rparr>;
          r2 = compact (evict_oldest r1)
      in r2\<lparr> r_min_delay := fmin (r_min_delay r2) (sm_delay s) \<rparr>)"

definition clear :: "SampleRegister \<Rightarrow> SampleRegister" where
  "clear r = r\<lparr> r_samples := [], r_weights := [], r_weights_for := (FNaN, FNaN), r_head := 0, r_min_delay := FInf False \<rparr>"

definition slew_sample :: "f64 \<Rightarrow> f64 \<Rightarrow> f64 \<Rightarrow> Sample \<Rightarrow> Sample" where
  "slew_sample t_change dfreq_ppm doffset s =
     (if feq dfreq_ppm (FFin 0)
      then (if \<not> feq doffset (FFin 0) then s\<lparr> sm_offset := fsub (sm_offset s) doffset \<rparr> else s)
      else let rate = fmul dfreq_ppm e_minus6 in
        if feq doffset (FFin 0)
        then s\<lparr> sm_offset := fsub (sm_offset s) (fmul rate (fsub (sm_t s) t_change)) \<rparr>
        else s\<lparr> sm_offset := fsub (sm_offset s) (fadd doffset (fmul rate (fsub (sm_t s) t_change))) \<rparr>)"

definition slew_samples :: "f64 \<Rightarrow> f64 \<Rightarrow> f64 \<Rightarrow> SampleRegister \<Rightarrow> SampleRegister" where
  "slew_samples t_change dfreq_ppm doffset r =
     r\<lparr> r_samples := take (r_head r) (r_samples r) @
          map (slew_sample t_change dfreq_ppm doffset) (drop (r_head r) (r_samples r)) \<rparr>"

definition min_by_delay :: "Sample list \<Rightarrow> Sample option" where
  "min_by_delay ss = foldl (\<lambda>b s. case b of None \<Rightarrow> Some s | Some m \<Rightarrow>
     if sm_delay s < sm_delay m then Some s else Some m) None ss"

definition best :: "SampleRegister \<Rightarrow> Sample option" where
  "best r = (let win = window r in min_by_delay (drop (length win - 8) win))"

subsection \<open>Weights\<close>

definition sample_weight :: "f64 \<Rightarrow> f64 \<Rightarrow> Sample \<Rightarrow> f64" where
  "sample_weight min_delay floor_w s =
     (let excess = fadd (fmax (fsub (sm_delay s) min_delay) (FFin 0)) floor_w;
          q = fdiv floor_w excess
      in fmax (fmul q q) e_minus6)"

definition key_eq :: "f64 \<times> f64 \<Rightarrow> f64 \<times> f64 \<Rightarrow> bool" where
  "key_eq a b \<longleftrightarrow> feq (fst a) (fst b) \<and> feq (snd a) (snd b)"

definition sync_weights :: "f64 \<Rightarrow> f64 \<Rightarrow> SampleRegister \<Rightarrow> SampleRegister" where
  "sync_weights min_delay floor_w r =
     (let key = (min_delay, r_weight_floor_ratio r);
          start = (if \<not> key_eq key (r_weights_for r) then r_head r else length (r_samples r) - 1)
      in r\<lparr> r_weights := take start (r_weights r) @ map (sample_weight min_delay floor_w) (drop start (r_samples r)),
            r_weights_for := key \<rparr>)"

subsection \<open>Density factors\<close>

definition density_span :: "Sample list \<Rightarrow> nat \<Rightarrow> f64" where
  "density_span w i =
     (let n = length w;
          lo = (if i = 0 then sm_t (w ! 0) else fdiv (fadd (sm_t (w ! i)) (sm_t (w ! (i - 1)))) (FFin 2));
          hi = (if i + 1 = n then sm_t (w ! (n - 1)) else fdiv (fadd (sm_t (w ! i)) (sm_t (w ! (i + 1)))) (FFin 2))
      in fmax (fsub hi lo) (FFin 0))"

definition density :: "SampleRegister \<Rightarrow> f64 list" where
  "density r =
     (let n = register_len r in
      if r_slope_density_weighting r \<and> 3 \<le> n
      then (let d = map (density_span (window r)) [0..<n]; m = fdiv (fsum d) (f_of_nat n)
            in if flt (FFin 0) m then map (\<lambda>v. fdiv v m) d else replicate n (FFin 1))
      else [])"

text \<open>The standard library's \<open>binary_search_by\<close>, with \<open>total_cmp\<close> as the comparison.\<close>

function bsearch_loop :: "f64 list \<Rightarrow> f64 \<Rightarrow> nat \<Rightarrow> nat \<Rightarrow> nat" where
  "bsearch_loop ts x base sz =
     (if 1 < sz
      then (let half = sz div 2; mid = base + half
            in bsearch_loop ts x (if x < ts ! mid then base else mid) (sz - half))
      else base)"
  by auto
termination by (relation "measure (\<lambda>(_, _, _, sz). sz)") auto

declare bsearch_loop.simps [simp del]

definition binary_search :: "f64 list \<Rightarrow> f64 \<Rightarrow> nat option" where
  "binary_search ts x =
     (if ts = [] then None
      else let base = bsearch_loop ts x 0 (length ts) in if ts ! base = x then Some base else None)"

definition density_factor :: "f64 list \<Rightarrow> f64 list \<Rightarrow> f64 \<Rightarrow> f64" where
  "density_factor ts d t = (case binary_search ts t of Some i \<Rightarrow> d ! i | None \<Rightarrow> FFin 1)"

definition build_rows :: "SampleRegister \<Rightarrow> Row list" where
  "build_rows r =
     (let d = density r; cached = drop (r_head r) (r_weights r); ts = map sm_t (window r) in
      map (\<lambda>(s, w). \<lparr> rw_t = sm_t s, rw_offset = sm_offset s, rw_delay = sm_delay s,
             rw_w = (if d = [] then w else fmul w (density_factor ts d (sm_t s))) \<rparr>)
        (zip (window r) cached))"

subsection \<open>Weighted least squares and residuals\<close>

definition wls_origin :: "Row list \<Rightarrow> f64 \<times> f64" where
  "wls_origin rows = foldl (\<lambda>(sw, swt) r. (fadd sw (rw_w r), fadd swt (fmul (rw_w r) (rw_t r)))) (FFin 0, FFin 0) rows"

definition wls_moments :: "f64 \<Rightarrow> Row list \<Rightarrow> f64 \<times> f64 \<times> f64" where
  "wls_moments t0 rows = foldl (\<lambda>(sxx, sxy, sy) r.
     let x = fsub (rw_t r) t0 in
       (fadd sxx (fmul (fmul (rw_w r) x) x), fadd sxy (fmul (fmul (rw_w r) x) (rw_offset r)),
        fadd sy (fmul (rw_w r) (rw_offset r)))) (FFin 0, FFin 0, FFin 0) rows"

definition wls_solve :: "f64 \<Rightarrow> f64 \<Rightarrow> f64 \<times> f64 \<times> f64 \<Rightarrow> Fit" where
  "wls_solve sw t0 m = (case m of (sxx, sxy, sy) \<Rightarrow>
     \<lparr> ft_a = fdiv sy sw, ft_b = (if flt e_minus12 sxx then fdiv sxy sxx else FFin 0),
       ft_t0 = t0, ft_sxx = sxx, ft_sw = sw \<rparr>)"

definition wls_about :: "Row list \<Rightarrow> f64 \<Rightarrow> f64 \<Rightarrow> Fit" where
  "wls_about rows sw t0 = wls_solve sw t0 (wls_moments t0 rows)"

fun wls_finish :: "Row list \<Rightarrow> f64 \<times> f64 \<Rightarrow> Fit option" where
  "wls_finish rows (sw, swt) = (if fle sw (FFin 0) then None else Some (wls_about rows sw (fdiv swt sw)))"

definition wls_fit :: "Row list \<Rightarrow> Fit option" where
  "wls_fit rows = (if length rows < 2 then None else wls_finish rows (wls_origin rows))"

definition residual :: "Fit \<Rightarrow> Row \<Rightarrow> f64" where
  "residual f r = fsub (rw_offset r) (fadd (ft_a f) (fmul (ft_b f) (fsub (rw_t r) (ft_t0 f))))"

definition finish_sd :: "f64 \<Rightarrow> f64 \<Rightarrow> nat \<Rightarrow> f64" where
  "finish_sd sw sr n =
     (if fle sw (FFin 0) then FFin 0
      else let dof = fmax (fsub (f_of_nat n) (FFin 2)) (FFin 1)
           in fsqrt (fdiv (fmul (fdiv sr sw) (f_of_nat n)) dof))"

fun sd_of_sums :: "nat \<Rightarrow> f64 \<times> f64 \<Rightarrow> f64" where
  "sd_of_sums n (sw, sr) = finish_sd sw sr n"

definition sd_term :: "f64 \<Rightarrow> f64 \<Rightarrow> f64" where
  "sd_term w e = fmul (fmul w e) e"

definition residual_sd :: "Row list \<Rightarrow> Fit \<Rightarrow> f64" where
  "residual_sd rows f =
     sd_of_sums (length rows)
       (foldl (\<lambda>(sw, sr) row. (fadd sw (rw_w row), fadd sr (sd_term (rw_w row) (residual f row)))) (FFin 0, FFin 0) rows)"

subsection \<open>The adaptive window\<close>

definition se_offset :: "f64 \<Rightarrow> Row list \<Rightarrow> Fit \<Rightarrow> f64" where
  "se_offset now rows f =
     (let dt = fsub now (ft_t0 f)
      in fmul (residual_sd rows f)
           (fsqrt (fadd (fdiv (FFin 1) (ft_sw f)) (fdiv (fmul dt dt) (ft_sxx f)))))"

fun usable_se :: "f64 \<Rightarrow> Row list \<Rightarrow> Fit option \<Rightarrow> f64 option" where
  "usable_se now rows None = None"
| "usable_se now rows (Some f) =
     (if flt (FFin 0) (ft_sxx f) \<and> flt (FFin 0) (ft_sw f) then Some (se_offset now rows f) else None)"

definition candidate_se :: "f64 \<Rightarrow> Row list \<Rightarrow> f64 option" where
  "candidate_se now rows = usable_se now rows (wls_fit rows)"

function adapt_loop :: "f64 \<Rightarrow> Row list \<Rightarrow> nat \<Rightarrow> f64 \<Rightarrow> nat \<Rightarrow> nat" where
  "adapt_loop now used len best_se best_len =
     (if 0 < len \<and> len < length used
      then (case candidate_se now (drop (length used - len) used) of
              Some se \<Rightarrow> if flt se best_se then adapt_loop now used (len * 2) se len
                         else adapt_loop now used (len * 2) best_se best_len
            | None \<Rightarrow> adapt_loop now used (len * 2) best_se best_len)
      else best_len)"
  by auto
termination by (relation "measure (\<lambda>(_, used, len, _, _). length used - len)") auto

declare adapt_loop.simps [simp del]

definition adaptive_len :: "f64 \<Rightarrow> Row list \<Rightarrow> Fit \<Rightarrow> nat" where
  "adaptive_len now used fit =
     (let best_se = (if flt (FFin 0) (ft_sxx fit) \<and> flt (FFin 0) (ft_sw fit) then se_offset now used fit else FInf False)
      in adapt_loop now used MIN_ADAPTIVE best_se (length used))"

fun with_fit :: "Row list \<Rightarrow> Fit option \<Rightarrow> (Row list \<times> Fit) option" where
  "with_fit rows None = None"
| "with_fit rows (Some f) = Some (rows, f)"

definition narrow_to :: "nat \<Rightarrow> Row list \<Rightarrow> Fit \<Rightarrow> (Row list \<times> Fit) option" where
  "narrow_to best_len used fit =
     (if best_len < length used
      then with_fit (drop (length used - best_len) used) (wls_fit (drop (length used - best_len) used))
      else Some (used, fit))"

definition adapt_window :: "bool \<Rightarrow> f64 \<Rightarrow> Row list \<Rightarrow> Fit \<Rightarrow> (Row list \<times> Fit) option" where
  "adapt_window on now used fit =
     (if on \<and> MIN_ADAPTIVE \<le> length used then narrow_to (adaptive_len now used fit) used fit
      else Some (used, fit))"

subsection \<open>Pass 1: a regime change drops history\<close>

fun count_runs :: "Fit \<Rightarrow> nat \<Rightarrow> nat \<Rightarrow> int \<Rightarrow> Row list \<Rightarrow> bool" where
  "count_runs f need runs last_sign [] = False"
| "count_runs f need runs last_sign (row # rows) =
     (let sign = (if flt (FFin 0) (residual f row) then 1 else -1) in
      if sign \<noteq> last_sign
      then (if need \<le> (runs + 1) * 3 then True else count_runs f need (runs + 1) sign rows)
      else count_runs f need runs last_sign rows)"

definition residuals_well_mixed :: "Row list \<Rightarrow> Fit \<Rightarrow> bool" where
  "residuals_well_mixed rows f = count_runs f (length rows) 0 0 rows"

definition median_abs :: "f64 list \<Rightarrow> f64" where
  "median_abs xs = sort xs ! (length xs div 2)"

definition half_gap :: "f64 list \<Rightarrow> f64" where
  "half_gap res =
     (let n = length res; half = n div 2;
          mean_old = (if half = 0 then FFin 0 else fdiv (fsum (take half res)) (f_of_nat half));
          mean_new = (if n = half then FFin 0 else fdiv (fsum (drop half res)) (f_of_nat (n - half)))
      in fabs (fsub mean_old mean_new))"

definition residual_half_gap_and_mad :: "Row list \<Rightarrow> Fit \<Rightarrow> f64 \<times> f64" where
  "residual_half_gap_and_mad rows f =
     (if rows = [] then (FFin 0, FFin 0)
      else let res = map (residual f) rows in (half_gap res, median_abs (map fabs res)))"

definition regime_changed :: "Row list \<Rightarrow> Fit \<Rightarrow> bool" where
  "regime_changed win fit \<longleftrightarrow> 8 \<le> length win \<and> \<not> residuals_well_mixed win fit \<and>
     (case residual_half_gap_and_mad win fit of (gap, mad) \<Rightarrow>
        \<not> fle gap (fmul (FFin 3) (fmax (fmul mad_scale mad) e_minus9)))"

fun trim_loop :: "nat \<Rightarrow> Row list \<Rightarrow> Fit \<Rightarrow> Row list \<times> Fit"
  and trim_refit :: "nat \<Rightarrow> Row list \<Rightarrow> Fit \<Rightarrow> Fit option \<Rightarrow> Row list \<times> Fit" where
  "trim_loop 0 win fit = (win, fit)"
| "trim_loop (Suc k) win fit =
     (if regime_changed win fit
      then trim_refit k (drop (max (length win div 4) 2) win) fit (wls_fit (drop (max (length win div 4) 2) win))
      else (win, fit))"
| "trim_refit k rest fit (Some refit) = trim_loop k rest refit"
| "trim_refit k rest fit None = (rest, fit)"

subsection \<open>Pass 2: a lone spike\<close>

definition worst_droppable :: "f64 list \<Rightarrow> f64" where
  "worst_droppable xs = foldl (\<lambda>w v. if flt w v then v else w) (FFin 0) (take (length xs - 3) xs)"

definition three_sigma :: "f64 \<Rightarrow> f64" where
  "three_sigma v = fmul (fmul (FFin 3) mad_scale) v"

lemma three_sigma_code [code]: "three_sigma v = fmul (FFin (dyadic 5007777605654623 (-50))) v"
proof -
  have "fmul (FFin 3) mad_scale = FFin (dyadic 5007777605654623 (-50))" by code_simp
  then show ?thesis by (simp add: three_sigma_def)
qed

definition spike_decide :: "f64 list \<Rightarrow> f64 \<Rightarrow> f64 option" where
  "spike_decide xs worst =
     (if fle worst e_minus9 then None
      else if length (filter (\<lambda>v. flt (three_sigma v) worst) xs) < length xs div 2 + 1 then None
      else Some (fmax (three_sigma (median_abs xs)) e_minus9))"

definition spike_threshold_from :: "f64 list \<Rightarrow> f64 option" where
  "spike_threshold_from xs = spike_decide xs (worst_droppable xs)"

definition spike_keep :: "f64 \<Rightarrow> Row list \<Rightarrow> Fit \<Rightarrow> Row list" where
  "spike_keep threshold used fit =
     map snd (filter (\<lambda>(i, r). length used - 3 \<le> i \<or> fle (fabs (residual fit r)) threshold)
       (zip [0..<length used] used))"

fun swap_kept :: "Row list \<Rightarrow> Fit \<Rightarrow> Row list \<Rightarrow> Fit option \<Rightarrow> Row list \<times> Fit" where
  "swap_kept used fit kept (Some refit) = (kept, refit)"
| "swap_kept used fit kept None = (used, fit)"

definition try_kept :: "Row list \<Rightarrow> Fit \<Rightarrow> Row list \<Rightarrow> Row list \<times> Fit" where
  "try_kept used fit kept =
     (if 3 \<le> length kept \<and> length kept < length used then swap_kept used fit kept (wls_fit kept) else (used, fit))"

fun apply_threshold :: "Row list \<Rightarrow> Fit \<Rightarrow> f64 option \<Rightarrow> Row list \<times> Fit" where
  "apply_threshold used fit None = (used, fit)"
| "apply_threshold used fit (Some threshold) = try_kept used fit (spike_keep threshold used fit)"

fun trim_spike :: "Row list \<times> Fit \<Rightarrow> Row list \<times> Fit" where
  "trim_spike (used, fit) =
     (if 4 < length used
      then apply_threshold used fit (spike_threshold_from (map (\<lambda>r. fabs (residual fit r)) used))
      else (used, fit))"

subsection \<open>The estimate\<close>

definition rows_span :: "Row list \<Rightarrow> f64" where
  "rows_span rows = (if rows = [] then FFin 0 else fmax (fsub (rw_t (last rows)) (rw_t (hd rows))) (FFin 0))"

definition freq_estimate :: "Row list \<Rightarrow> Fit \<Rightarrow> f64 option" where
  "freq_estimate rows fit =
     (if FREQ_MIN_SAMPLES \<le> length rows \<and> fle FREQ_MIN_SPAN_S (rows_span rows)
      then Some (fmul (ft_b fit) (FFin 1000000)) else None)"

definition sharp_floor :: "SampleRegister \<Rightarrow> Row list \<Rightarrow> f64" where
  "sharp_floor r rows =
     (if flt (FFin 0) (r_offset_weight_dispersion_k r)
      then fmax (fmax (fmul (r_offset_weight_dispersion_k r)
                         (fsub (sort (map rw_delay rows) ! (length rows div 2)) (r_min_delay r)))
                  (fmul (r_min_delay r) e_minus4)) e_minus9
      else fmax (fmul (r_min_delay r) (r_offset_weight_floor_ratio r)) e_minus9)"

definition sharp_weight :: "f64 \<Rightarrow> f64 \<Rightarrow> Row \<Rightarrow> f64" where
  "sharp_weight min_delay fl r =
     (let excess = fadd (fmax (fsub (rw_delay r) min_delay) (FFin 0)) fl;
          w = fmul (fdiv fl excess) (fdiv fl excess)
      in fmax w e_minus6)"

definition offset_weight :: "(f64 \<Rightarrow> f64 \<Rightarrow> f64) \<Rightarrow> SampleRegister \<Rightarrow> f64 \<Rightarrow> f64 \<Rightarrow> Row \<Rightarrow> f64" where
  "offset_weight pw r now fl row =
     (let b = sharp_weight (r_min_delay r) fl row in
      if is_finite (r_offset_age_halflife_s r)
      then fmul b (pw (FFin (1/2)) (fdiv (fmax (fsub now (rw_t row)) (FFin 0)) (r_offset_age_halflife_s r)))
      else b)"

definition weighted_centre :: "(Row \<Rightarrow> f64) \<Rightarrow> Row list \<Rightarrow> f64 \<times> f64 \<times> f64" where
  "weighted_centre wt rows = foldl (\<lambda>(sw, swt, swy) r.
     let w = wt r in (fadd sw w, fadd swt (fmul w (rw_t r)), fadd swy (fmul w (rw_offset r))))
     (FFin 0, FFin 0, FFin 0) rows"

definition fit_at :: "Fit \<Rightarrow> f64 \<Rightarrow> f64" where
  "fit_at f now = fadd (ft_a f) (fmul (ft_b f) (fsub now (ft_t0 f)))"

fun reseat :: "Fit \<Rightarrow> f64 \<Rightarrow> f64 \<times> f64 \<times> f64 \<Rightarrow> f64" where
  "reseat fit now (sw, swt, swy) =
     (if flt (FFin 0) sw then fadd (fdiv swy sw) (fmul (ft_b fit) (fsub now (fdiv swt sw))) else fit_at fit now)"

definition offset_at :: "(f64 \<Rightarrow> f64 \<Rightarrow> f64) \<Rightarrow> SampleRegister \<Rightarrow> f64 \<Rightarrow> Row list \<Rightarrow> Fit \<Rightarrow> f64" where
  "offset_at pw r now rows fit =
     (if \<not> feq (r_offset_weight_floor_ratio r) (r_weight_floor_ratio r) \<or>
         flt (FFin 0) (r_offset_weight_dispersion_k r) \<or> is_finite (r_offset_age_halflife_s r)
      then reseat fit now (weighted_centre (offset_weight pw r now (sharp_floor r rows)) rows)
      else fit_at fit now)"

fun apply_trims :: "(Row list \<times> Fit) option \<Rightarrow> (Row list \<times> Fit) option" where
  "apply_trims None = None"
| "apply_trims (Some (used, fit)) = Some (trim_spike (trim_loop 4 used fit))"

fun refine_fit :: "SampleRegister \<Rightarrow> f64 \<Rightarrow> Row list \<Rightarrow> Fit option \<Rightarrow> (Row list \<times> Fit) option" where
  "refine_fit r now used None = None"
| "refine_fit r now used (Some fit) = apply_trims (adapt_window (r_adaptive_window r) now used fit)"

definition fit_rows :: "SampleRegister \<Rightarrow> f64 \<Rightarrow> Row list \<Rightarrow> (Row list \<times> Fit) option" where
  "fit_rows r now used = refine_fit r now used (wls_fit used)"

definition regress_rows :: "SampleRegister \<Rightarrow> f64 \<Rightarrow> (Row list \<times> Fit) option" where
  "regress_rows r now = fit_rows r now (build_rows r)"

fun estimate_of :: "(f64 \<Rightarrow> f64 \<Rightarrow> f64) \<Rightarrow> SampleRegister \<Rightarrow> f64 \<Rightarrow> (Row list \<times> Fit) option \<Rightarrow> RegressEstimate option" where
  "estimate_of pw r now None = None"
| "estimate_of pw r now (Some (used, fit)) = Some \<lparr>
     re_offset = offset_at pw r now used fit, re_freq_ppm = freq_estimate used fit,
     re_offset_sd = residual_sd used fit, re_n_used = length used, re_span = rows_span used \<rparr>"

definition estimate_synced :: "(f64 \<Rightarrow> f64 \<Rightarrow> f64) \<Rightarrow> f64 \<Rightarrow> SampleRegister \<Rightarrow> RegressEstimate option \<times> SampleRegister" where
  "estimate_synced pw now r = (estimate_of pw r now (regress_rows r now), r)"

definition regress :: "(f64 \<Rightarrow> f64 \<Rightarrow> f64) \<Rightarrow> f64 \<Rightarrow> SampleRegister \<Rightarrow> RegressEstimate option \<times> SampleRegister" where
  "regress pw now r =
     (if register_len r < 3 then (None, r)
      else estimate_synced pw now
        (sync_weights (r_min_delay r) (fmax (fmul (r_min_delay r) (r_weight_floor_ratio r)) e_minus9) r))"

subsection \<open>The register refines a bounded window\<close>

definition lastn :: "nat \<Rightarrow> 'a list \<Rightarrow> 'a list" where
  "lastn n xs = drop (length xs - n) xs"

definition min_ok :: "f64 \<Rightarrow> Sample list \<Rightarrow> bool" where
  "min_ok m ss \<longleftrightarrow> \<not> is_nan m \<and> (\<forall>s \<in> set ss. fle m (sm_delay s)) \<and>
     (if ss = [] then m = FInf False else \<exists>s \<in> set ss. feq m (sm_delay s))"

definition reg_ok :: "SampleRegister \<Rightarrow> bool" where
  "reg_ok r \<longleftrightarrow> 3 \<le> r_capacity r \<and> r_head r \<le> length (r_samples r) \<and> r_head r < r_capacity r \<and>
     length (window r) \<le> r_capacity r \<and> length (r_weights r) = length (r_samples r) \<and>
     list_all (\<lambda>s. \<not> is_nan (sm_delay s)) (window r) \<and> min_ok (r_min_delay r) (window r)"

lemma length_window: "length (window r) = register_len r"
  by (simp add: window_def register_len_def)

lemma lowest_snoc: "lowest_delay (ss @ [s]) = fmin (lowest_delay ss) (sm_delay s)"
  by (simp add: lowest_delay_def)

lemma min_ok_snoc: "min_ok m ss \<Longrightarrow> \<not> is_nan (sm_delay s) \<Longrightarrow> min_ok (fmin m (sm_delay s)) (ss @ [s])"
proof -
  assume m: "min_ok m ss" and n: "\<not> is_nan (sm_delay s)"
  have le: "fle (fmin m (sm_delay s)) m" "fle (fmin m (sm_delay s)) (sm_delay s)"
    using m n by (auto simp: min_ok_def intro: fmin_le_left fmin_le_right)
  have one: "fmin m (sm_delay s) = m \<and> \<not> flt (sm_delay s) m \<or> fmin m (sm_delay s) = sm_delay s"
    using m n by (auto simp: fmin_def min_ok_def)
  show ?thesis
  proof (cases "fmin m (sm_delay s) = sm_delay s")
    case True
    then show ?thesis using m n le by (auto simp: min_ok_def feq_def intro: fle_trans)
  next
    case False
    then have "ss \<noteq> []" using m n one fle_inf_right[OF n] by (auto simp: min_ok_def fmin_def flt_iff)
       (cases "sm_delay s"; auto simp: fle_def split: if_splits)
    then show ?thesis using m n le one False by (auto simp: min_ok_def)
  qed
qed

lemma min_ok_lowest: "list_all (\<lambda>s. \<not> is_nan (sm_delay s)) ss \<Longrightarrow> min_ok (lowest_delay ss) ss"
  by (induction ss rule: rev_induct) (auto simp: lowest_snoc min_ok_snoc, simp add: lowest_delay_def min_ok_def)

lemma min_ok_tl: "min_ok m (x # ss) \<Longrightarrow> \<not> fle (sm_delay x) m \<Longrightarrow> min_ok m ss"
  by (auto simp: min_ok_def feq_def)

lemma window_compact: "window (compact r) = window r"
  by (simp add: compact_def window_def)

lemma push_refines:
  assumes r: "reg_ok r" and n: "\<not> is_nan (sm_delay s)"
  shows "reg_ok (push s r) \<and> window (push s r) = lastn (r_capacity r) (window r @ [s]) \<and> r_capacity (push s r) = r_capacity r"
proof -
  define r1 where "r1 = r\<lparr> r_samples := r_samples r @ [s], r_weights := r_weights r @ [FFin 0] \<rparr>"
  have w1: "window r1 = window r @ [s]" using r by (simp add: r1_def window_def reg_ok_def)
  have nn: "list_all (\<lambda>s. \<not> is_nan (sm_delay s)) (window r @ [s])" using r n by (simp add: reg_ok_def)
  show ?thesis
  proof (cases "r_capacity r1 < length (r_samples r1) - r_head r1")
    case False
    then have l: "length (window r) < r_capacity r" using r by (auto simp: r1_def window_def reg_ok_def Suc_diff_le)
    have e: "evict_oldest r1 = r1" "compact r1 = r1" using False r by (simp_all add: evict_oldest_def compact_def r1_def reg_ok_def)
    have "push s r = r1\<lparr> r_min_delay := fmin (r_min_delay r) (sm_delay s) \<rparr>"
      using e by (simp add: push_def Let_def flip: r1_def) (simp add: r1_def)
    moreover have "window (r1\<lparr> r_min_delay := m \<rparr>) = window r @ [s]" for m using w1 by (simp add: window_def)
    ultimately show ?thesis using r n l nn min_ok_snoc
      by (simp add: reg_ok_def lastn_def) (simp add: r1_def)
  next
    case True
    obtain x w where wx: "window r = x # w" and xw: "r_samples r1 ! r_head r1 = x"
    proof (cases "window r")
      case Nil then show ?thesis using True r by (simp add: r1_def window_def reg_ok_def)
    next
      case (Cons x w)
      moreover have "r_samples r1 ! r_head r1 = x"
        using Cons r by (metis (no_types, lifting) Cons_nth_drop_Suc append_Cons drop_all drop_eq_Nil2 list.distinct(1) list.inject not_le w1 window_def)
      ultimately show ?thesis using that by blast
    qed
    have full: "length (window r) = r_capacity r" using True r by (auto simp: r1_def window_def reg_ok_def Suc_diff_le)
    have d: "drop (Suc (r_head r1)) (r_samples r1) = w @ [s]"
      using w1 wx by (metis append_Cons drop_Suc list.sel(3) tl_drop window_def)
    define r2 where "r2 = evict_oldest r1"
    have r2: "r2 = r1\<lparr> r_head := Suc (r_head r1),
        r_min_delay := (if fle (sm_delay x) (r_min_delay r1) then lowest_delay (w @ [s]) else r_min_delay r1) \<rparr>"
      using True xw d by (auto simp: r2_def evict_oldest_def Let_def)
    have w2: "window r2 = w @ [s]" using d by (simp add: r2 window_def)
    have m2: "min_ok (fmin (r_min_delay r2) (sm_delay s)) (w @ [s])"
    proof (cases "fle (sm_delay x) (r_min_delay r1)")
      case True
      have a: "min_ok (lowest_delay (w @ [s])) (w @ [s])" using nn wx by (intro min_ok_lowest) simp
      then have "fle (lowest_delay (w @ [s])) (sm_delay s)" by (simp add: min_ok_def)
      then have "fmin (lowest_delay (w @ [s])) (sm_delay s) = lowest_delay (w @ [s])"
        using n by (auto simp: fmin_def flt_iff dest: fle_not_nan)
      then show ?thesis using a True by (simp add: r2)
    next
      case False
      have "min_ok (r_min_delay r) (x # w)" using r wx by (simp add: reg_ok_def)
      then have "min_ok (r_min_delay r) w" using False min_ok_tl by (simp add: r1_def)
      from min_ok_snoc[OF this n] show ?thesis using False by (simp add: r2 r1_def)
    qed
    define r3 where "r3 = compact r2"
    have c2: "r_capacity r2 = r_capacity r" "length (r_weights r2) = length (r_samples r2)" "r_head r2 \<le> length (r_samples r2)"
      "r_head r2 \<le> r_capacity r"
      using r by (auto simp: r2 r1_def reg_ok_def)
    then have r3: "window r3 = w @ [s]" "r_capacity r3 = r_capacity r" "length (r_weights r3) = length (r_samples r3)"
      "r_head r3 \<le> length (r_samples r3)" "r_head r3 < r_capacity r" "r_min_delay r3 = r_min_delay r2"
      using w2 r by (auto simp: r3_def window_compact) (auto simp: compact_def reg_ok_def)
    have "push s r = r3\<lparr> r_min_delay := fmin (r_min_delay r3) (sm_delay s) \<rparr>"
      by (simp add: push_def Let_def r3_def r2_def flip: r1_def)
    moreover have "window (r3\<lparr> r_min_delay := m \<rparr>) = w @ [s]" for m using r3(1) by (simp add: window_def)
    moreover have "lastn (r_capacity r) (window r @ [s]) = w @ [s]" using full by (simp add: lastn_def wx)
    ultimately show ?thesis using r3 m2 r full nn wx by (simp add: reg_ok_def)
  qed
qed


lemma slew_sample_delay [simp]: "sm_delay (slew_sample t f x s) = sm_delay s"
  by (simp add: slew_sample_def Let_def)

lemma slew_sample_t [simp]: "sm_t (slew_sample t f x s) = sm_t s"
  by (simp add: slew_sample_def Let_def)

lemma min_ok_map: "(\<And>s. sm_delay (g s) = sm_delay s) \<Longrightarrow> min_ok m (map g ss) = min_ok m ss"
  by (simp add: min_ok_def)

lemma slew_refines:
  "reg_ok r \<Longrightarrow> reg_ok (slew_samples t f x r) \<and>
     window (slew_samples t f x r) = map (slew_sample t f x) (window r) \<and>
     r_capacity (slew_samples t f x r) = r_capacity r"
  by (simp add: reg_ok_def slew_samples_def window_def min_ok_map list_all_iff)

lemma clear_refines:
  "reg_ok r \<Longrightarrow> reg_ok (clear r) \<and> window (clear r) = [] \<and> r_capacity (clear r) = r_capacity r"
  by (simp add: reg_ok_def clear_def window_def min_ok_def)

lemma sync_weights_keeps:
  "reg_ok r \<Longrightarrow> reg_ok (sync_weights m fl r) \<and> window (sync_weights m fl r) = window r \<and>
     r_capacity (sync_weights m fl r) = r_capacity r"
  by (auto simp: reg_ok_def sync_weights_def window_def Let_def)

lemma regress_refines:
  "reg_ok r \<Longrightarrow> reg_ok (snd (regress pw now r)) \<and> window (snd (regress pw now r)) = window r \<and>
     r_capacity (snd (regress pw now r)) = r_capacity r"
  by (simp add: regress_def estimate_synced_def sync_weights_keeps)

lemma register_new_ok: "reg_ok (register_new c)" "window (register_new c) = []" "r_capacity (register_new c) = max c 3"
  by (auto simp: reg_ok_def register_new_def window_def min_ok_def)

datatype reg_op = RPush Sample | RSlew f64 f64 f64 | RClear | RRegress f64

fun reg_step :: "(f64 \<Rightarrow> f64 \<Rightarrow> f64) \<Rightarrow> reg_op \<Rightarrow> SampleRegister \<Rightarrow> SampleRegister" where
  "reg_step pw (RPush s) r = push s r"
| "reg_step pw (RSlew t f x) r = slew_samples t f x r"
| "reg_step pw RClear r = clear r"
| "reg_step pw (RRegress now) r = snd (regress pw now r)"

text \<open>The abstract register is a list: the last \<open>cap\<close> samples, in order.\<close>

fun spec_step :: "nat \<Rightarrow> reg_op \<Rightarrow> Sample list \<Rightarrow> Sample list" where
  "spec_step cap (RPush s) w = lastn cap (w @ [s])"
| "spec_step cap (RSlew t f x) w = map (slew_sample t f x) w"
| "spec_step cap RClear w = []"
| "spec_step cap (RRegress now) w = w"

definition op_ok :: "reg_op \<Rightarrow> bool" where
  "op_ok a \<longleftrightarrow> (case a of RPush s \<Rightarrow> \<not> is_nan (sm_delay s) | _ \<Rightarrow> True)"

lemma reg_step_refines:
  "reg_ok r \<Longrightarrow> op_ok a \<Longrightarrow> reg_ok (reg_step pw a r) \<and>
     window (reg_step pw a r) = spec_step (r_capacity r) a (window r) \<and> r_capacity (reg_step pw a r) = r_capacity r"
  by (cases a) (auto simp: push_refines slew_refines clear_refines regress_refines op_ok_def)

lemma reg_run_refines:
  "reg_ok r \<Longrightarrow> list_all op_ok ops \<Longrightarrow> reg_ok (fold (reg_step pw) ops r) \<and>
     window (fold (reg_step pw) ops r) = fold (spec_step (r_capacity r)) ops (window r)"
proof (induction ops arbitrary: r)
  case (Cons a ops)
  from Cons.prems have "reg_ok r" "op_ok a" "list_all op_ok ops" by auto
  with reg_step_refines[of r a pw] Cons.IH[of "reg_step pw a r"] show ?case by simp
qed simp

subsection \<open>The newest samples always take part\<close>

lemma lastn_drop: "n + k \<le> length xs \<Longrightarrow> lastn n (drop k xs) = lastn n xs"
  by (simp add: lastn_def)

lemma adapt_loop_cases: "8 \<le> len \<Longrightarrow> 8 \<le> bl \<Longrightarrow> 8 \<le> adapt_loop now used len bs bl"
proof (induction now used len bs bl rule: adapt_loop.induct)
  case (1 now used len best_se best_len)
  show ?case
    using 1 by (subst adapt_loop.simps) (auto split: option.split)
qed

lemma with_fit_Some: "with_fit rows fo = Some (u, f) \<Longrightarrow> u = rows"
  by (cases fo) auto

lemma adapt_window_newest:
  assumes "adapt_window on now used fit = Some (u, f)" "3 \<le> length used"
  shows "3 \<le> length u \<and> lastn 3 u = lastn 3 used \<and> subseq u used"
proof (cases "on \<and> MIN_ADAPTIVE \<le> length used \<and> adaptive_len now used fit < length used")
  case True
  then have "8 \<le> adaptive_len now used fit"
    using adapt_loop_cases[of 8 "length used"] by (simp add: adaptive_len_def MIN_ADAPTIVE_def Let_def)
  moreover have "u = drop (length used - adaptive_len now used fit) used"
    using True assms(1) by (auto simp: adapt_window_def narrow_to_def dest: with_fit_Some)
  ultimately show ?thesis using True by (auto simp: lastn_drop subseq_drop_many)
next
  case False
  then have "u = used" using assms(1) by (auto simp: adapt_window_def narrow_to_def split: if_splits)
  then show ?thesis using assms(2) by simp
qed

lemma trim_loop_newest:
  "3 \<le> length win \<Longrightarrow> 3 \<le> length (fst (trim_loop k win fit)) \<and>
     lastn 3 (fst (trim_loop k win fit)) = lastn 3 win \<and> subseq (fst (trim_loop k win fit)) win"
proof (induction k arbitrary: win fit)
  case (Suc k)
  show ?case
  proof (cases "regime_changed win fit")
    case True
    define rest where "rest = drop (max (length win div 4) 2) win"
    have "8 \<le> length win" using True by (simp add: regime_changed_def)
    then have r: "3 \<le> length rest" "lastn 3 rest = lastn 3 win" "subseq rest win"
      by (auto simp: rest_def lastn_drop subseq_drop_many)
    have "trim_loop (Suc k) win fit = trim_refit k rest fit (wls_fit rest)" using True by (simp add: rest_def)
    then show ?thesis using Suc.IH[OF r(1)] r by (cases "wls_fit rest") (auto intro: subseq_order.trans)
  qed (use Suc in simp)
qed simp

lemma spike_keep_newest:
  assumes "3 \<le> length used"
  shows "\<exists>front. spike_keep th used fit = front @ lastn 3 used" "subseq (spike_keep th used fit) used"
proof -
  define a where "a = length used - 3"
  define P where "P = (\<lambda>(i, r). length used - 3 \<le> i \<or> fle (fabs (residual fit r)) th)"
  have n: "length used = a + 3" using assms by (simp add: a_def)
  have "zip [0..<length used] used = zip [0..<a] (take a used) @ zip [a..<length used] (drop a used)"
    using n zip_append[of "[0..<a]" "take a used" "[a..<length used]" "drop a used"]
    by (simp flip: upt_add_eq_append add: upt_add_eq_append[symmetric])
  moreover have "filter P (zip [a..<length used] (drop a used)) = zip [a..<length used] (drop a used)"
    by (auto simp: filter_id_conv P_def a_def dest: set_zip_leftD)
  moreover have "map snd (zip [a..<length used] (drop a used)) = drop a used" using n by simp
  moreover have "drop a used = lastn 3 used" by (simp add: lastn_def a_def)
  ultimately show "\<exists>front. spike_keep th used fit = front @ lastn 3 used"
    unfolding spike_keep_def P_def[symmetric] by (metis filter_append map_append)
  have "subseq (filter P (zip [0..<length used] used)) (zip [0..<length used] used)" by (rule subseq_filter_left)
  then have "subseq (map snd (filter P (zip [0..<length used] used))) (map snd (zip [0..<length used] used))"
    by (rule subseq_map)
  then show "subseq (spike_keep th used fit) used" by (simp add: spike_keep_def P_def)
qed

lemma trim_spike_cases: "fst (trim_spike (used, fit)) = used \<or> (\<exists>th. fst (trim_spike (used, fit)) = spike_keep th used fit)"
proof -
  have k: "fst (try_kept used fit kept) = used \<or> fst (try_kept used fit kept) = kept" for kept
    by (cases "wls_fit kept") (simp_all add: try_kept_def)
  show ?thesis
    using k by (cases "spike_threshold_from (map (\<lambda>r. fabs (residual fit r)) used)") auto
qed

lemma trim_spike_newest:
  assumes "3 \<le> length used"
  shows "3 \<le> length (fst (trim_spike (used, fit))) \<and> lastn 3 (fst (trim_spike (used, fit))) = lastn 3 used \<and>
    subseq (fst (trim_spike (used, fit))) used"
proof -
  define u where "u = fst (trim_spike (used, fit))"
  consider "u = used" | th where "u = spike_keep th used fit" using trim_spike_cases u_def by blast
  then have "3 \<le> length u \<and> lastn 3 u = lastn 3 used \<and> subseq u used"
  proof cases
    case 2
    obtain front where "u = front @ lastn 3 used" using spike_keep_newest(1)[OF assms] 2 by blast
    moreover have "length (lastn 3 used) = 3" using assms by (simp add: lastn_def)
    ultimately show ?thesis using spike_keep_newest(2)[OF assms, of th fit] 2 by (simp add: lastn_def)
  qed (use assms in simp)
  then show ?thesis by (simp add: u_def)
qed

lemma regress_rows_newest:
  assumes "regress_rows r now = Some (u, f)" "3 \<le> length (build_rows r)"
  shows "3 \<le> length u \<and> lastn 3 u = lastn 3 (build_rows r) \<and> subseq u (build_rows r)"
proof -
  obtain fit where a: "apply_trims (adapt_window (r_adaptive_window r) now (build_rows r) fit) = Some (u, f)"
    using assms(1) by (cases "wls_fit (build_rows r)") (auto simp: regress_rows_def fit_rows_def)
  then obtain u1 f1 where w: "adapt_window (r_adaptive_window r) now (build_rows r) fit = Some (u1, f1)"
    and t: "trim_spike (trim_loop 4 u1 f1) = (u, f)"
    by (cases "adapt_window (r_adaptive_window r) now (build_rows r) fit") (auto split: prod.splits)
  obtain u2 f2 where l: "trim_loop 4 u1 f1 = (u2, f2)" by force
  note 1 = adapt_window_newest[OF w assms(2)]
  note 2 = trim_loop_newest[of u1 4 f1, unfolded l fst_conv]
  have "u = fst (trim_spike (u2, f2))" using t l by simp
  then show ?thesis using 1 2 trim_spike_newest[of u2 f2] by (metis subseq_order.trans)
qed

lemma length_build_rows: "reg_ok r \<Longrightarrow> length (build_rows r) = register_len r"
  by (auto simp: build_rows_def Let_def reg_ok_def register_len_def window_def)

lemma build_rows_t: "reg_ok r \<Longrightarrow> map rw_offset (build_rows r) = map sm_offset (window r)"
proof -
  assume "reg_ok r"
  then have l: "length (window r) = length (drop (r_head r) (r_weights r))"
    by (simp add: reg_ok_def window_def)
  have "map rw_offset (build_rows r) = map sm_offset (map fst (zip (window r) (drop (r_head r) (r_weights r))))"
    by (simp add: build_rows_def Let_def comp_def case_prod_unfold)
  then show ?thesis using l by simp
qed

subsection \<open>Properties\<close>

text \<open>C8: whatever sequence of pushes, slews, clears and estimates a register
goes through, its live window is exactly the specification's list of the last \<open>capacity\<close>
samples, re-expressed by every slew, and the cached minimum delay is the smallest delay in it; the
head offset, the amortised compaction and the incremental minimum are invisible.\<close>

theorem register_refines_window:
  assumes "list_all op_ok ops"
  shows "window (fold (reg_step pw) ops (register_new c)) = fold (spec_step (max c 3)) ops [] \<and>
    min_ok (r_min_delay (fold (reg_step pw) ops (register_new c))) (fold (spec_step (max c 3)) ops [])"
proof -
  let ?r = "fold (reg_step pw) ops (register_new c)"
  have a: "reg_ok ?r" and w: "window ?r = fold (spec_step (max c 3)) ops []"
    using reg_run_refines[OF register_new_ok(1) assms, of pw c] by (simp_all add: register_new_ok)
  have "min_ok (r_min_delay ?r) (window ?r)" using a unfolding reg_ok_def by blast
  then show ?thesis unfolding w by simp
qed

definition smp :: "rat \<Rightarrow> rat \<Rightarrow> rat \<Rightarrow> Sample" where
  "smp t x d = \<lparr> sm_t = FFin t, sm_offset = FFin x, sm_delay = FFin d, sm_dispersion = FFin 0 \<rparr>"

lemma register_refines_window_witness:
  "map sm_t (window (fold (reg_step (\<lambda>_ _. FNaN))
       [RPush (smp 1 0 1), RPush (smp 2 0 5), RPush (smp 3 0 4), RPush (smp 4 0 7)] (register_new 2)))
     = [FFin 2, FFin 3, FFin 4] \<and>
   min_ok (r_min_delay (fold (reg_step (\<lambda>_ _. FNaN))
       [RPush (smp 1 0 1), RPush (smp 2 0 5), RPush (smp 3 0 4), RPush (smp 4 0 7)] (register_new 2)))
     [smp 2 0 5, smp 3 0 4, smp 4 0 7]"
proof -
  have ok: "list_all op_ok [RPush (smp 1 0 1), RPush (smp 2 0 5), RPush (smp 3 0 4), RPush (smp 4 0 7)]"
    by (simp add: op_ok_def smp_def)
  have sp: "fold (spec_step (max 2 3)) [RPush (smp 1 0 1), RPush (smp 2 0 5), RPush (smp 3 0 4), RPush (smp 4 0 7)] []
     = [smp 2 0 5, smp 3 0 4, smp 4 0 7]"
    by (simp add: lastn_def)
  show ?thesis using register_refines_window[OF ok, of "\<lambda>_ _. FNaN" 2, unfolded sp]
    by (simp only:) (simp add: smp_def)
qed

text \<open>None of the regression's passes can vote the present away: when an
estimate is made, the rows it is fitted over are a subsequence of the window and still end with
its three newest samples.\<close>

theorem newest_samples_kept:
  assumes "reg_ok r" "3 \<le> register_len r" "regress_rows r now = Some (used, fit)"
  shows "subseq used (build_rows r) \<and> lastn 3 used = lastn 3 (build_rows r) \<and>
    map rw_offset (lastn 3 used) = map sm_offset (lastn 3 (window r))"
proof -
  have k: "subseq used (build_rows r) \<and> lastn 3 used = lastn 3 (build_rows r)"
    using regress_rows_newest[OF assms(3)] assms(1,2) by (simp add: length_build_rows)
  have "map rw_offset (lastn 3 (build_rows r)) = lastn 3 (map rw_offset (build_rows r))"
    by (simp add: lastn_def drop_map)
  also have "\<dots> = map sm_offset (lastn 3 (window r))"
    using build_rows_t[OF assms(1)] by (simp add: lastn_def drop_map)
  finally show ?thesis using k by simp
qed


definition reg5 :: SampleRegister where
  "reg5 = fold push [smp 0 1 1, smp 10 50 1, smp 20 1 1, smp 30 1 1, smp 40 1 1] (register_new 8)"

definition reg5_synced :: SampleRegister where
  "reg5_synced = sync_weights (FFin 1) (FFin (1/8)) reg5"

lemma newest_samples_kept_witness:
  "\<exists>used fit. regress_rows reg5_synced (FFin 50) = Some (used, fit) \<and>
     map rw_t used = [FFin 0, FFin 10, FFin 20, FFin 30, FFin 40] \<and>
     lastn 3 used = lastn 3 (build_rows reg5_synced)"
proof -
  have ok: "reg_ok reg5_synced"
    unfolding reg5_synced_def reg5_def
    by (intro sync_weights_keeps[THEN conjunct1])
       (simp add: push_refines register_new_ok smp_def)
  have l: "register_len reg5_synced = 5" by code_simp
  have "map_option (\<lambda>(u, _). map rw_t u) (regress_rows reg5_synced (FFin 50)) = Some [FFin 0, FFin 10, FFin 20, FFin 30, FFin 40]"
    by code_simp
  then obtain used fit where r: "regress_rows reg5_synced (FFin 50) = Some (used, fit)"
    and t: "map rw_t used = [FFin 0, FFin 10, FFin 20, FFin 30, FFin 40]" by (auto split: prod.splits)
  from newest_samples_kept[OF ok _ r] l show ?thesis using r t by auto
qed

text \<open>The cached weights are refreshed only for the newest sample when the key has not moved: of two
samples pushed between estimates, the earlier keeps the placeholder weight zero.\<close>

lemma skipped_weight_stays_zero:
  "r_weights (sync_weights (FFin 1) (FFin (1/8))
      (push (smp 60 1 1) (push (smp 50 1 1) reg5_synced))) ! 5 = FFin 0"
  by code_simp

end
