(* ===== verification/Controller.thy ===== *)
theory Controller
  imports Discipline SampleFilter
begin

text \<open>The synchronisation controller, \<open>crates/rusty_time-core/src/client.rs\<close>: one sample register
per source, one discipline loop, and the books that keep every register consistent with what the
clock was told.  Indexing a register that does not exist panics, so \<open>observe\<close> and \<open>estimate\<close> return
options; \<open>steer\<close> does because the discipline may.  \<open>SyncController\<close> delegates to a one-source
controller.\<close>

subsection \<open>State\<close>

record Estimate =
  ce_offset_s :: f64
  ce_freq_ppm :: "f64 option"
  ce_sd_s :: f64
  ce_samples :: nat

record Unapplied =
  un_mono_s :: f64
  un_dfreq_ppm :: f64
  un_step_s :: f64
  un_freq_cmd_before :: f64
  un_drain_ppm_before :: f64
  un_drain_remaining_before :: f64

record MultiController =
  mc_registers :: "SampleRegister list"
  mc_discipline :: Discipline
  mc_freq_cmd_ppm :: f64
  mc_drain_ppm :: f64
  mc_drain_remaining_s :: f64
  mc_last_plan_mono_s :: "f64 option"
  mc_drain_booked_until :: "f64 option"
  mc_unapplied :: "Unapplied option"

record ControllerStep =
  st_plan :: Plan
  st_applied_ppm :: f64
  st_estimate_offset_s :: f64
  st_estimate_freq_ppm :: "f64 option"
  st_estimate_sd_s :: f64
  st_samples_used :: nat
  st_verdict :: ChangeVerdict

definition REGISTER_CAPACITY :: nat where "REGISTER_CAPACITY = 64"

definition new_register :: "DisciplineConfig \<Rightarrow> SampleRegister" where
  "new_register c =
     set_adaptive_window (cf_adaptive_window c)
      (set_slope_density_weighting (cf_slope_density_weighting c)
       (set_offset_weight_dispersion_k (cf_offset_weight_dispersion_k c)
        (set_offset_age_halflife_s (cf_offset_age_halflife_s c)
         (set_offset_weight_floor_ratio (cf_offset_weight_floor_ratio c)
          (set_weight_floor_ratio (cf_weight_floor_ratio c) (register_new REGISTER_CAPACITY))))))"

definition multi_new :: "DisciplineConfig \<Rightarrow> nat \<Rightarrow> MultiController" where
  "multi_new c sources = \<lparr>
     mc_registers = replicate (max sources 1) (new_register c), mc_discipline = discipline_new c,
     mc_freq_cmd_ppm = FFin 0, mc_drain_ppm = FFin 0, mc_drain_remaining_s = FFin 0,
     mc_last_plan_mono_s = None, mc_drain_booked_until = None, mc_unapplied = None \<rparr>"

subsection \<open>Books\<close>

definition slew_all :: "f64 \<Rightarrow> f64 \<Rightarrow> f64 \<Rightarrow> MultiController \<Rightarrow> MultiController" where
  "slew_all t df x m = m\<lparr> mc_registers := map (slew_samples t df x) (mc_registers m) \<rparr>"

definition revert_last_plan :: "MultiController \<Rightarrow> bool \<times> MultiController" where
  "revert_last_plan m =
     (case mc_unapplied m of
        None \<Rightarrow> (False, m)
      | Some u \<Rightarrow> (True, (slew_all (un_mono_s u) (fneg (un_dfreq_ppm u)) (fneg (un_step_s u)) m)
          \<lparr> mc_unapplied := None, mc_freq_cmd_ppm := un_freq_cmd_before u,
            mc_drain_ppm := un_drain_ppm_before u, mc_drain_remaining_s := un_drain_remaining_before u \<rparr>))"

definition confirm_last_plan :: "MultiController \<Rightarrow> MultiController" where
  "confirm_last_plan m = m\<lparr> mc_unapplied := None \<rparr>"

definition applied_ppm :: "MultiController \<Rightarrow> f64" where
  "applied_ppm m = fadd (mc_freq_cmd_ppm m) (mc_drain_ppm m)"

definition poll_interval_s :: "MultiController \<Rightarrow> f64" where
  "poll_interval_s m = exp2i (d_poll (mc_discipline m))"

definition preload_frequency :: "f64 \<Rightarrow> MultiController \<Rightarrow> MultiController" where
  "preload_frequency f m = m\<lparr> mc_freq_cmd_ppm := f \<rparr>"

definition drain_completes_at :: "MultiController \<Rightarrow> f64 option" where
  "drain_completes_at m =
     (case mc_last_plan_mono_s m of
        None \<Rightarrow> None
      | Some l \<Rightarrow> if feq (mc_drain_ppm m) (FFin 0) \<or> fle (mc_drain_remaining_s m) (FFin 0) then None
          else Some (fadd l (fdiv (mc_drain_remaining_s m) (fmul (fabs (mc_drain_ppm m)) e_minus6))))"

definition drained_since :: "MultiController \<Rightarrow> f64 \<Rightarrow> f64 \<Rightarrow> f64" where
  "drained_since m now l = fmul (fmul (mc_drain_ppm m) e_minus6) (fmax (fsub now l) (FFin 0))"

definition retire_drain :: "f64 \<Rightarrow> f64 \<Rightarrow> MultiController \<Rightarrow> MultiController" where
  "retire_drain now l m =
     (let consumed = drained_since m now l;
          m1 = (if \<not> feq consumed (FFin 0) then slew_all now (FFin 0) consumed m else m)
      in m1\<lparr> mc_drain_ppm := FFin 0, mc_drain_remaining_s := FFin 0,
             mc_last_plan_mono_s := Some now, mc_drain_booked_until := Some now \<rparr>)"

definition poll_drain :: "f64 \<Rightarrow> MultiController \<Rightarrow> ClockCommand option \<times> MultiController" where
  "poll_drain now m =
     (case drain_completes_at m of
        None \<Rightarrow> (None, m)
      | Some completes_at \<Rightarrow>
          if flt now completes_at then (None, m)
          else (case mc_drain_booked_until m of
                  None \<Rightarrow> (None, m)
                | Some l \<Rightarrow> (Some (Slew (mc_freq_cmd_ppm m) (FFin 0) (FFin 0)), retire_drain now l m)))"

definition settle_amount :: "f64 \<Rightarrow> MultiController \<Rightarrow> f64" where
  "settle_amount now m =
     (case mc_drain_booked_until m of
        Some l \<Rightarrow> if \<not> feq (mc_drain_ppm m) (FFin 0) then drained_since m now l else FFin 0
      | None \<Rightarrow> FFin 0)"

definition settle_drain :: "f64 \<Rightarrow> MultiController \<Rightarrow> MultiController" where
  "settle_drain now m =
     (let drained = settle_amount now m;
          m1 = (if \<not> feq drained (FFin 0)
                then (slew_all now (FFin 0) drained m)
                  \<lparr> mc_drain_remaining_s := fmax (fsub (mc_drain_remaining_s m) (fabs drained)) (FFin 0) \<rparr>
                else m)
      in if mc_drain_booked_until m \<noteq> None then m1\<lparr> mc_drain_booked_until := Some now \<rparr> else m1)"

subsection \<open>Observing and steering\<close>

fun estimate_from :: "nat \<Rightarrow> RegressEstimate option \<Rightarrow> Sample option \<Rightarrow> Estimate" where
  "estimate_from n (Some e) b = \<lparr> ce_offset_s = re_offset e, ce_freq_ppm = re_freq_ppm e,
      ce_sd_s = fmax (re_offset_sd e) (flit (1 / 10000000)), ce_samples = n \<rparr>"
| "estimate_from n None (Some b) = \<lparr> ce_offset_s = sm_offset b, ce_freq_ppm = None,
      ce_sd_s = fmax (fdiv (sm_delay b) (FFin 2)) (flit (1 / 10000000)), ce_samples = n \<rparr>"
| "estimate_from n None None = \<lparr> ce_offset_s = FFin 0, ce_freq_ppm = None, ce_sd_s = flit (1 / 1000), ce_samples = n \<rparr>"

definition estimate :: "(f64 \<Rightarrow> f64 \<Rightarrow> f64) \<Rightarrow> nat \<Rightarrow> f64 \<Rightarrow> MultiController \<Rightarrow> (Estimate \<times> MultiController) option" where
  "estimate pw index now m =
     (if index < length (mc_registers m)
      then (case regress pw now (mc_registers m ! index) of (e, reg) \<Rightarrow>
              Some (estimate_from (register_len (mc_registers m ! index)) e (best reg),
                    m\<lparr> mc_registers := (mc_registers m)[index := reg] \<rparr>))
      else None)"

definition push_at :: "nat \<Rightarrow> Sample \<Rightarrow> MultiController \<Rightarrow> MultiController option" where
  "push_at index s m =
     (if index < length (mc_registers m)
      then Some (m\<lparr> mc_registers := (mc_registers m)[index := push s (mc_registers m ! index)] \<rparr>)
      else None)"

definition observe :: "(f64 \<Rightarrow> f64 \<Rightarrow> f64) \<Rightarrow> nat \<Rightarrow> f64 \<Rightarrow> Sample \<Rightarrow> MultiController \<Rightarrow> (Estimate \<times> MultiController) option" where
  "observe pw index now s m =
     (case push_at index s (settle_drain now m) of None \<Rightarrow> None | Some m1 \<Rightarrow> estimate pw index now m1)"

fun plan_step :: "ClockCommand \<Rightarrow> f64" where
  "plan_step (Step x) = x"
| "plan_step (Slew f x r) = FFin 0"

fun set_drain :: "ClockCommand \<Rightarrow> MultiController \<Rightarrow> MultiController" where
  "set_drain (Step x) m = m\<lparr> mc_drain_ppm := FFin 0, mc_drain_remaining_s := FFin 0 \<rparr>"
| "set_drain (Slew f x r) m = m\<lparr> mc_drain_ppm := fcopysign r x, mc_drain_remaining_s := fabs x \<rparr>"

fun book_plan :: "f64 \<Rightarrow> MultiController \<Rightarrow> Plan \<times> Discipline \<Rightarrow> MultiController" where
  "book_plan now m (plan, d') =
     (slew_all now (fsub (d_freq_ppm d') (mc_freq_cmd_ppm m)) (plan_step (pl_command plan))
        (set_drain (pl_command plan) (m\<lparr> mc_discipline := d' \<rparr>)))
     \<lparr> mc_freq_cmd_ppm := d_freq_ppm d', mc_last_plan_mono_s := Some now, mc_drain_booked_until := Some now,
       mc_unapplied := Some \<lparr> un_mono_s = now, un_dfreq_ppm = fsub (d_freq_ppm d') (mc_freq_cmd_ppm m),
         un_step_s = plan_step (pl_command plan), un_freq_cmd_before = mc_freq_cmd_ppm m,
         un_drain_ppm_before = mc_drain_ppm m, un_drain_remaining_before = mc_drain_remaining_s m \<rparr> \<rparr>"

definition report_step :: "Estimate \<Rightarrow> Plan \<Rightarrow> MultiController \<Rightarrow> ControllerStep" where
  "report_step est plan m = \<lparr>
     st_plan = plan, st_applied_ppm = applied_ppm m, st_estimate_offset_s = ce_offset_s est,
     st_estimate_freq_ppm = ce_freq_ppm est, st_estimate_sd_s = ce_sd_s est,
     st_samples_used = ce_samples est, st_verdict = pl_verdict plan \<rparr>"

definition steer_plan :: "Estimate \<Rightarrow> f64 \<Rightarrow> bool \<Rightarrow> MultiController \<Rightarrow> (ControllerStep \<times> MultiController) option" where
  "steer_plan est now leap m =
     map_option (\<lambda>pd. (report_step est (fst pd) (book_plan now m pd), book_plan now m pd))
       (on_estimate_with_leap (ce_offset_s est) (ce_freq_ppm est) (ce_sd_s est) leap (mc_discipline m))"

definition on_sample_with_leap ::
  "(f64 \<Rightarrow> f64 \<Rightarrow> f64) \<Rightarrow> f64 \<Rightarrow> Sample \<Rightarrow> bool \<Rightarrow> MultiController \<Rightarrow> (ControllerStep \<times> MultiController) option" where
  "on_sample_with_leap pw now s leap m =
     (case observe pw 0 now s m of None \<Rightarrow> None | Some em \<Rightarrow> steer_plan (fst em) now leap (snd em))"

subsection \<open>The controller's invariant\<close>

text \<open>Every register is well formed, the loop's own invariant holds, and the commanded frequency and the
drain stay within the configured ceilings - in the live state and in the values a revert would put back.\<close>

definition drain_ok :: "DisciplineConfig \<Rightarrow> f64 \<Rightarrow> bool" where
  "drain_ok c r \<longleftrightarrow> fle (fabs r) (cf_max_slew_ppm c)"

definition mc_ok :: "DisciplineConfig \<Rightarrow> nat \<Rightarrow> MultiController \<Rightarrow> bool" where
  "mc_ok c n m \<longleftrightarrow>
     length (mc_registers m) = n \<and> list_all reg_ok (mc_registers m) \<and>
     disc_ok (mc_discipline m) \<and> d_cfg (mc_discipline m) = c \<and>
     freq_ok c (mc_freq_cmd_ppm m) \<and> drain_ok c (mc_drain_ppm m) \<and>
     (\<forall>u. mc_unapplied m = Some u \<longrightarrow> freq_ok c (un_freq_cmd_before u) \<and> drain_ok c (un_drain_ppm_before u))"

datatype mc_op = CObserve nat f64 Sample | CSteer Estimate f64 bool | CPollDrain f64
  | CRevert | CConfirm | CPreload f64

fun mc_step :: "(f64 \<Rightarrow> f64 \<Rightarrow> f64) \<Rightarrow> mc_op \<Rightarrow> MultiController \<Rightarrow> MultiController option" where
  "mc_step pw (CObserve i now s) m = map_option snd (observe pw i now s m)"
| "mc_step pw (CSteer est now leap) m = map_option snd (steer_plan est now leap m)"
| "mc_step pw (CPollDrain now) m = Some (snd (poll_drain now m))"
| "mc_step pw CRevert m = Some (snd (revert_last_plan m))"
| "mc_step pw CConfirm m = Some (confirm_last_plan m)"
| "mc_step pw (CPreload f) m = Some (preload_frequency f m)"

fun mc_legal :: "DisciplineConfig \<Rightarrow> nat \<Rightarrow> mc_op \<Rightarrow> bool" where
  "mc_legal c n (CObserve i now s) = (i < n \<and> \<not> is_nan (sm_delay s))"
| "mc_legal c n (CSteer est now leap) = (\<forall>f. ce_freq_ppm est = Some f \<longrightarrow> \<not> is_nan f)"
| "mc_legal c n (CPreload f) = freq_ok c f"
| "mc_legal c n _ = True"

lemma reg_ok_slew_all [simp]: "list_all reg_ok (mc_registers m) \<Longrightarrow> list_all reg_ok (mc_registers (slew_all t f x m))"
  by (auto simp: slew_all_def list_all_iff slew_refines)

lemma slew_all_fields [simp]:
  "mc_discipline (slew_all t f x m) = mc_discipline m" "mc_freq_cmd_ppm (slew_all t f x m) = mc_freq_cmd_ppm m"
  "mc_drain_ppm (slew_all t f x m) = mc_drain_ppm m" "mc_unapplied (slew_all t f x m) = mc_unapplied m"
  "mc_drain_remaining_s (slew_all t f x m) = mc_drain_remaining_s m"
  "mc_last_plan_mono_s (slew_all t f x m) = mc_last_plan_mono_s m"
  "mc_drain_booked_until (slew_all t f x m) = mc_drain_booked_until m"
  "length (mc_registers (slew_all t f x m)) = length (mc_registers m)"
  by (simp_all add: slew_all_def)

lemma drain_ok_zero: "cfg_ok c \<Longrightarrow> drain_ok c (FFin 0)"
  by (cases "cf_max_slew_ppm c") (auto simp: cfg_ok_def drain_ok_def fle_def)

lemma fabs_fcopysign: "fle (FFin 0) r \<Longrightarrow> fabs (fcopysign r x) = fabs r"
  by (cases r) (auto simp: fcopysign_def fle_def)

lemma fabs_id_nonneg: "fle (FFin 0) r \<Longrightarrow> fle r b \<Longrightarrow> fle (fabs r) b"
  by (cases r; cases b) (auto simp: fle_def split: if_splits)

lemma settle_ok: "mc_ok c n m \<Longrightarrow> mc_ok c n (settle_drain now m)"
  by (auto simp: mc_ok_def settle_drain_def Let_def)

lemma retire_ok: "cfg_ok c \<Longrightarrow> mc_ok c n m \<Longrightarrow> mc_ok c n (retire_drain now l m)"
  by (auto simp: mc_ok_def retire_drain_def Let_def drain_ok_zero)

lemma poll_drain_ok: "cfg_ok c \<Longrightarrow> mc_ok c n m \<Longrightarrow> mc_ok c n (snd (poll_drain now m))"
  by (auto simp: poll_drain_def retire_ok split: option.splits)

lemma revert_ok: "mc_ok c n m \<Longrightarrow> mc_ok c n (snd (revert_last_plan m))"
  by (auto simp: mc_ok_def revert_last_plan_def split: option.splits)

lemma observe_ok:
  assumes "mc_ok c n m" "i < n" "\<not> is_nan (sm_delay s)"
  shows "\<exists>e m'. observe pw i now s m = Some (e, m') \<and> mc_ok c n m'"
proof -
  let ?m = "settle_drain now m"
  have m: "mc_ok c n ?m" using assms(1) by (rule settle_ok)
  define r where "r = push s (mc_registers ?m ! i)"
  have i: "i < length (mc_registers ?m)" using m assms(2) by (simp add: mc_ok_def)
  have r: "reg_ok r" using m i assms(3) by (simp add: r_def mc_ok_def list_all_length push_refines)
  define m1 where "m1 = ?m\<lparr> mc_registers := (mc_registers ?m)[i := r] \<rparr>"
  have 1: "push_at i s ?m = Some m1" using i by (simp add: push_at_def m1_def r_def)
  have "mc_ok c n m1" using m r i by (auto simp: m1_def mc_ok_def list_all_length nth_list_update)
  moreover have "mc_registers m1 ! i = r" "i < length (mc_registers m1)" using i by (simp_all add: m1_def)
  moreover have "reg_ok (snd (regress pw now r))" using r by (simp add: regress_refines)
  ultimately show ?thesis using 1
    by (auto simp: observe_def estimate_def mc_ok_def list_all_length nth_list_update split: prod.splits)
qed

lemma set_drain_ok:
  assumes "cfg_ok c" "plan_ok c p" "list_all reg_ok (mc_registers m)"
  shows "drain_ok c (mc_drain_ppm (set_drain (pl_command p) m)) \<and> mc_registers (set_drain (pl_command p) m) = mc_registers m \<and>
     mc_discipline (set_drain (pl_command p) m) = mc_discipline m"
  using assms drain_ok_zero[OF assms(1)] by (cases "pl_command p")
    (auto simp: plan_ok_def drain_ok_def fabs_fcopysign intro: fabs_id_nonneg)

lemma steer_plan_ok:
  assumes m: "mc_ok c n m" and f: "\<forall>f. ce_freq_ppm est = Some f \<longrightarrow> \<not> is_nan f"
  shows "\<exists>st m'. steer_plan est now leap m = Some (st, m') \<and> mc_ok c n m' \<and> plan_ok c (st_plan st)"
proof -
  have d: "disc_ok (mc_discipline m)" and c: "d_cfg (mc_discipline m) = c" using m by (simp_all add: mc_ok_def)
  obtain p d' where o: "on_estimate_with_leap (ce_offset_s est) (ce_freq_ppm est) (ce_sd_s est) leap (mc_discipline m) = Some (p, d')"
    and p: "plan_ok c p" and d': "disc_ok d'" "d_cfg d' = c"
    using on_estimate_ok[OF d f] c by blast
  have cfg: "cfg_ok c" and fr: "freq_ok c (d_freq_ppm d')" using d' by (auto simp: disc_ok_def)
  let ?m = "m\<lparr> mc_discipline := d' \<rparr>"
  have s: "drain_ok c (mc_drain_ppm (set_drain (pl_command p) ?m))" "mc_registers (set_drain (pl_command p) ?m) = mc_registers m"
    "mc_discipline (set_drain (pl_command p) ?m) = d'"
    using set_drain_ok[OF cfg p, of ?m] m by (simp_all add: mc_ok_def)
  have "mc_ok c n (book_plan now m (p, d'))"
    using s d' fr m by (simp add: mc_ok_def slew_refines list_all_iff slew_all_def)
  then show ?thesis using o p by (simp add: steer_plan_def report_step_def)
qed

lemma multi_new_ok: "cfg_ok c \<Longrightarrow> mc_ok c (max k 1) (multi_new c k)"
proof -
  assume c: "cfg_ok c"
  have "reg_ok (new_register c)"
    by (simp add: new_register_def reg_ok_def register_new_def window_def min_ok_def REGISTER_CAPACITY_def
        set_adaptive_window_def set_slope_density_weighting_def set_offset_weight_dispersion_k_def
        set_offset_age_halflife_s_def set_offset_weight_floor_ratio_def set_weight_floor_ratio_def)
  moreover have "disc_ok (discipline_new c)" "freq_ok c (FFin 0)"
    using discipline_new_ok[OF c] by (simp_all add: disc_ok_def discipline_new_def)
  ultimately show ?thesis using c by (simp add: mc_ok_def multi_new_def drain_ok_zero list_all_iff discipline_new_def)
qed

lemma mc_ok_cfg: "mc_ok c n m \<Longrightarrow> cfg_ok c"
  by (auto simp: mc_ok_def disc_ok_def)

interpretation controller: guarded_machine "mc_step pw" "mc_ok c n" "mc_legal c n" for pw c n
proof
  fix m a assume m: "mc_ok c n m" and a: "mc_legal c n a"
  show "\<exists>m'. mc_step pw a m = Some m' \<and> mc_ok c n m'"
  proof (cases a)
    case (CObserve i now s) then show ?thesis using observe_ok[OF m, of i s pw now] a by auto
  next
    case (CSteer est now leap) then show ?thesis using steer_plan_ok[OF m, of est now leap] a by auto
  next
    case (CPollDrain now) then show ?thesis using poll_drain_ok[OF mc_ok_cfg[OF m] m] by simp
  next
    case CRevert then show ?thesis using revert_ok[OF m] by simp
  next
    case CConfirm then show ?thesis using m by (simp add: mc_ok_def confirm_last_plan_def)
  next
    case (CPreload f) then show ?thesis using m a by (simp add: mc_ok_def preload_frequency_def)
  qed
qed

lemma applied_bound:
  assumes "mc_ok c n m"
  shows "fle (fabs (applied_ppm m)) (fadd (cf_max_freq_ppm c) (cf_max_slew_ppm c))"
proof -
  let ?f = "mc_freq_cmd_ppm m" and ?r = "mc_drain_ppm m" and ?F = "cf_max_freq_ppm c" and ?R = "cf_max_slew_ppm c"
  have c: "cfg_ok c" using assms by (rule mc_ok_cfg)
  have f: "fle (fneg ?F) ?f" "fle ?f ?F" and r: "fle (fabs ?r) ?R" and F: "is_finite ?F"
    using assms c by (simp_all add: mc_ok_def freq_ok_def drain_ok_def cfg_ok_def)
  have ff: "is_finite ?f" using freq_ok_finite[OF c] f by (simp add: freq_ok_def)
  show ?thesis
  proof (cases "is_finite ?R")
    case True
    then have rr: "is_finite ?r" "fle (fneg ?R) ?r" "fle ?r ?R"
      using r by (cases ?r; cases ?R; auto simp: fle_def)+
    have "fle (fadd ?f ?r) (fadd ?f ?R)" using rr ff by (intro fadd_mono)
    also have "fle (fadd ?f ?R) (fadd ?F ?R)" using fadd_mono[OF f(2) True] by (simp add: fadd_commute)
    finally have u: "fle (fadd ?f ?r) (fadd ?F ?R)" .
    have "fle (fadd (fneg ?F) (fneg ?R)) (fadd (fneg ?F) ?r)" using rr F by (intro fadd_mono) simp_all
    also have "fle (fadd (fneg ?F) ?r) (fadd ?f ?r)" using fadd_mono[OF f(1) rr(1)] by (simp add: fadd_commute)
    finally have "fle (fadd (fneg ?F) (fneg ?R)) (fadd ?f ?r)" .
    then show ?thesis using u fle_trans[OF fneg_fadd_le[OF F True]] by (simp add: applied_ppm_def fabs_le_iff)
  next
    case False
    then have "?R = FInf False" using r c by (cases ?R) (auto simp: cfg_ok_def fle_def)
    moreover have "fadd ?F (FInf False) = FInf False" using F by (cases ?F) simp_all
    moreover have "\<not> is_nan ?r" using r by (auto simp: fle_def)
    ultimately show ?thesis using ff by (cases ?f; cases ?r) (simp_all add: applied_ppm_def fle_top)
  qed
qed

subsection \<open>Properties\<close>

text \<open>C9: from a fresh controller, any sequence of observations, steers, drain polls,
reverts, confirmations and preloads runs to the end without a panic; afterwards every register is well
formed and the frequency commanded to the driver (the permanent correction plus the drain) is within
the sum of the configured frequency and slew ceilings.  The conditions: an observation names an existing
register and its delay is not NaN, a measured frequency is not NaN and a preloaded frequency is within the
frequency ceiling (\<open>mc_legal\<close>); the configuration has a finite frequency ceiling that is not negative, a
slew ceiling that is not NaN and has no minus sign, a longest correction time with no minus sign, a finite
integral gain of any value, and poll bounds ordered within an \<open>i8\<close> (\<open>cfg_ok\<close>).\<close>

theorem controller_run_safe:
  assumes "cfg_ok c" and "list_all (mc_legal c (max k 1)) ops"
  shows "\<exists>m. run_ops (mc_step pw) ops (multi_new c k) = Some m \<and>
     fle (fabs (applied_ppm m)) (fadd (cf_max_freq_ppm c) (cf_max_slew_ppm c)) \<and>
     freq_ok c (mc_freq_cmd_ppm m) \<and> length (mc_registers m) = max k 1 \<and> list_all reg_ok (mc_registers m)"
proof -
  obtain m where r: "run_ops (mc_step pw) ops (multi_new c k) = Some m" and m: "mc_ok c (max k 1) m"
    using controller.run_inv[OF multi_new_ok[OF assms(1)] assms(2)] by blast
  from m have "freq_ok c (mc_freq_cmd_ppm m) \<and> length (mc_registers m) = max k 1 \<and> list_all reg_ok (mc_registers m)"
    by (simp add: mc_ok_def)
  with r applied_bound[OF m] show ?thesis by blast
qed

definition demo_ops :: "mc_op list" where
  "demo_ops = [CPreload (FFin 12), CObserve 1 (FFin 1) (smp 1 1 1),
     CSteer \<lparr> ce_offset_s = FFin 3, ce_freq_ppm = Some (FInf True), ce_sd_s = FFin 1, ce_samples = 1 \<rparr> (FFin 1) False,
     CRevert, CPollDrain (FFin 2), CConfirm]
   @ replicate 12 (CSteer \<lparr> ce_offset_s = FFin (1/4), ce_freq_ppm = None, ce_sd_s = FFin 0, ce_samples = 1 \<rparr> (FFin 3) False)"

lemma controller_run_safe_witness:
  "\<exists>m. run_ops (mc_step (\<lambda>x y. x)) demo_ops (multi_new (config_integral (FFin 5)) 2) = Some m \<and>
     fle (fabs (applied_ppm m)) (fadd (cf_max_freq_ppm (config_integral (FFin 5))) (cf_max_slew_ppm (config_integral (FFin 5)))) \<and>
     freq_ok (config_integral (FFin 5)) (mc_freq_cmd_ppm m) \<and> length (mc_registers m) = max 2 1 \<and>
     list_all reg_ok (mc_registers m)"
  by (rule controller_run_safe[OF config_integral_ok])
    (simp_all add: demo_ops_def smp_def freq_ok_def config_integral_def config_default_def fle_def list_all_iff)

text \<open>A refused plan can be undone exactly once.  After \<open>steer\<close> the revert
succeeds, puts the commanded frequency, the drain rate and the drain budget back to their values before
the plan, and applies to every register the opposite transformation at the plan's instant; a second
revert, or a revert after a confirmation, does nothing.  The discipline's own state keeps the plan.\<close>

theorem revert_undoes_the_books:
  assumes "mc_ok c n m" and "\<forall>f. ce_freq_ppm est = Some f \<longrightarrow> \<not> is_nan f"
  shows "\<exists>st m' r. steer_plan est now leap m = Some (st, m') \<and> revert_last_plan m' = (True, r) \<and>
     mc_freq_cmd_ppm r = mc_freq_cmd_ppm m \<and> mc_drain_ppm r = mc_drain_ppm m \<and>
     mc_drain_remaining_s r = mc_drain_remaining_s m \<and> mc_discipline r = mc_discipline m' \<and>
     mc_registers r = map (slew_samples now (fneg (fsub (mc_freq_cmd_ppm m') (mc_freq_cmd_ppm m)))
       (fneg (plan_step (pl_command (st_plan st))))) (mc_registers m') \<and>
     revert_last_plan r = (False, r) \<and> revert_last_plan (confirm_last_plan m') = (False, confirm_last_plan m')"
proof -
  obtain st m' where s: "steer_plan est now leap m = Some (st, m')" using steer_plan_ok[OF assms] by blast
  then obtain p d' where m': "m' = book_plan now m (p, d')" "st_plan st = p"
    by (auto simp: steer_plan_def report_step_def)
  define r where "r = snd (revert_last_plan m')"
  have u: "mc_unapplied m' = Some \<lparr> un_mono_s = now, un_dfreq_ppm = fsub (mc_freq_cmd_ppm m') (mc_freq_cmd_ppm m),
      un_step_s = plan_step (pl_command p), un_freq_cmd_before = mc_freq_cmd_ppm m,
      un_drain_ppm_before = mc_drain_ppm m, un_drain_remaining_before = mc_drain_remaining_s m \<rparr>"
    by (simp add: m')
  have "revert_last_plan m' = (True, r)" using u by (simp add: r_def revert_last_plan_def)
  moreover have "mc_unapplied r = None" using u by (simp add: r_def revert_last_plan_def)
  ultimately show ?thesis using s u m'(2)
    by (simp add: r_def revert_last_plan_def confirm_last_plan_def slew_all_def)
qed

lemma revert_undoes_the_books_witness:
  "let m = multi_new config_default 1; est = \<lparr> ce_offset_s = FFin 3, ce_freq_ppm = None, ce_sd_s = FFin 1, ce_samples = 1 \<rparr>
   in \<exists>st m' r. steer_plan est (FFin 5) False m = Some (st, m') \<and> revert_last_plan m' = (True, r) \<and>
     mc_freq_cmd_ppm r = FFin 0 \<and> mc_drain_ppm r = FFin 0"
proof -
  define m where "m = multi_new config_default 1"
  have ok: "mc_ok config_default (max 1 1) m" unfolding m_def by (rule multi_new_ok[OF config_default_ok])
  have z: "mc_freq_cmd_ppm m = FFin 0" "mc_drain_ppm m = FFin 0" by (simp_all add: m_def multi_new_def)
  show ?thesis
    using revert_undoes_the_books[OF ok, of "\<lparr> ce_offset_s = FFin 3, ce_freq_ppm = None, ce_sd_s = FFin 1, ce_samples = 1 \<rparr>" "FFin 5" False]
    unfolding m_def[symmetric] Let_def z by (simp del: max.idem) blast
qed

lemma not_feq_zero_completes: "mc_drain_ppm m = FFin 0 \<Longrightarrow> drain_completes_at m = None"
  by (simp add: drain_completes_at_def feq_def split: option.splits)

lemma settle_zero: "mc_drain_ppm m = FFin 0 \<Longrightarrow> mc_drain_booked_until m = Some l \<Longrightarrow>
    settle_drain t m = m\<lparr> mc_drain_booked_until := Some t \<rparr>"
  by (simp add: settle_drain_def settle_amount_def feq_def)

lemma retire_registers:
  "mc_registers (retire_drain now l m) =
     (if feq (drained_since m now l) (FFin 0) then mc_registers m
      else map (slew_samples now (FFin 0) (drained_since m now l)) (mc_registers m))"
  by (simp add: retire_drain_def Let_def slew_all_def)

lemma retire_settles:
  "mc_drain_booked_until m = Some l \<Longrightarrow> drain_completes_at m \<noteq> None \<Longrightarrow>
   mc_registers (retire_drain now l m) = mc_registers (settle_drain now m)"
  by (auto simp: retire_registers settle_drain_def settle_amount_def slew_all_def Let_def drain_completes_at_def
      split: option.splits if_splits)

text \<open>C10: when \<open>poll_drain\<close> ends a drain, the clock is commanded to the frequency term
alone and the drain is booked once.  Booked: every register is moved by exactly what the drain has drained
since it was last booked - rate times elapsed time, none if that is zero - which is also what a settlement
at that instant would have booked.  Once: the retired controller owes nothing, a later poll returns nothing
and changes nothing, and a later settlement moves only the booking time and no register, whatever the
times are.\<close>

theorem drain_retired_once:
  assumes "poll_drain now m = (Some cmd, m')"
  shows "cmd = Slew (mc_freq_cmd_ppm m) (FFin 0) (FFin 0) \<and> applied_ppm m' = fadd (mc_freq_cmd_ppm m) (FFin 0) \<and>
     (\<exists>l consumed. mc_drain_booked_until m = Some l \<and>
        consumed = fmul (fmul (mc_drain_ppm m) e_minus6) (fmax (fsub now l) (FFin 0)) \<and>
        mc_registers m' = (if feq consumed (FFin 0) then mc_registers m
                           else map (slew_samples now (FFin 0) consumed) (mc_registers m))) \<and>
     mc_registers m' = mc_registers (settle_drain now m) \<and> mc_drain_booked_until m' = Some now \<and>
     drain_completes_at m' = None \<and> (\<forall>t. poll_drain t m' = (None, m')) \<and>
     (\<forall>t. settle_drain t m' = m'\<lparr> mc_drain_booked_until := Some t \<rparr>) \<and>
     mc_discipline m' = mc_discipline m \<and> mc_freq_cmd_ppm m' = mc_freq_cmd_ppm m"
proof -
  obtain l where m': "m' = retire_drain now l m" "cmd = Slew (mc_freq_cmd_ppm m) (FFin 0) (FFin 0)"
    and l: "mc_drain_booked_until m = Some l" "drain_completes_at m \<noteq> None"
    using assms by (auto simp: poll_drain_def split: option.splits if_splits)
  then have d: "mc_drain_ppm m' = FFin 0" "mc_drain_booked_until m' = Some now" "mc_freq_cmd_ppm m' = mc_freq_cmd_ppm m"
    "mc_discipline m' = mc_discipline m"
    by (simp_all add: retire_drain_def Let_def)
  then have "drain_completes_at m' = None" by (simp add: not_feq_zero_completes)
  moreover have "mc_registers m' = (if feq (drained_since m now l) (FFin 0) then mc_registers m
      else map (slew_samples now (FFin 0) (drained_since m now l)) (mc_registers m))"
    unfolding m'(1) by (rule retire_registers)
  moreover have "mc_registers m' = mc_registers (settle_drain now m)" unfolding m'(1) by (rule retire_settles[OF l])
  ultimately show ?thesis using d m'(2) l(1) unfolding drained_since_def
    by (simp only: applied_ppm_def poll_drain_def settle_zero option.case option.inject) blast
qed

text \<open>A controller with a 1000 ppm drain of one second started at time 0, its register empty; and the same
with a sample at time 1, which the retirement moves.\<close>

definition draining :: MultiController where
  "draining = (multi_new config_default 1)\<lparr> mc_drain_ppm := FFin 1000, mc_drain_remaining_s := FFin 1,
     mc_last_plan_mono_s := Some (FFin 0), mc_drain_booked_until := Some (FFin 0) \<rparr>"

definition draining_sample :: MultiController where
  "draining_sample = draining\<lparr> mc_registers := [push (smp 1 1 1) (new_register config_default)] \<rparr>"

lemma drain_retired_once_witness:
  "\<exists>cmd m'. poll_drain (FFin 1001) draining_sample = (Some cmd, m') \<and> drain_completes_at m' = None \<and>
     mc_registers m' = map (slew_samples (FFin 1001) (FFin 0) (drained_since draining_sample (FFin 1001) (FFin 0)))
       (mc_registers draining_sample)"
proof -
  have "fst (poll_drain (FFin 1001) draining_sample) \<noteq> None" by code_simp
  then obtain cmd m' where p: "poll_drain (FFin 1001) draining_sample = (Some cmd, m')"
    by (cases "poll_drain (FFin 1001) draining_sample") auto
  have b: "mc_drain_booked_until draining_sample = Some (FFin 0)" "\<not> feq (drained_since draining_sample (FFin 1001) (FFin 0)) (FFin 0)"
    by code_simp+
  show ?thesis using drain_retired_once[OF p] b p unfolding drained_since_def by fastforce
qed

text \<open>Two observations on the drain's books.  The completion time is the last plan's time plus the
\<open>remaining\<close> budget, but settling reduces the budget and leaves that time: a drain settled half way is
declared complete half way.  And a settlement after the budget is spent leaves the rate running with a
budget of zero, which \<open>drain_completes_at\<close> reads as no drain at all, so it is never retired.\<close>

lemma settled_drain_retires_early:
  "drain_completes_at draining = Some (FFin 1000) \<and>
   (let m = settle_drain (FFin 500) draining
    in mc_drain_remaining_s m = FFin (1/2) \<and> fst (poll_drain (FFin 500) m) = Some (Slew (FFin 0) (FFin 0) (FFin 0)))"
  by code_simp

lemma late_settlement_strands_the_drain:
  "let m = settle_drain (FFin 2000) draining
   in mc_drain_ppm m = FFin 1000 \<and> mc_drain_remaining_s m = FFin 0 \<and> drain_completes_at m = None"
  by code_simp

end
