(* ===== verification/Select.thy ===== *)
theory Select
  imports Prelude Float64 "HOL-Library.Multiset"
begin

text \<open>Source selection, \<open>crates/rusty_time-core/src/select.rs\<close>: the endpoint sweep that rejects
falsetickers and the weighted combination of the survivors.  \<open>usize\<close> identifiers are
natural numbers; \<open>sort_by(total_cmp)\<close> is \<open>sort_key\<close> over the total order of \<^typ>\<open>f64\<close>; the
survivor sort uses a partial comparator, so it is written as the standard library's stable insertion
sort, which calls only the strict comparison.\<close>

subsection \<open>Definitions\<close>

record SourceEstimate =
  src_id :: nat
  src_offset :: f64
  src_root_distance :: f64
  src_stratum :: u8

record Selection =
  sel_truechimers :: "nat list"
  sel_offset :: "f64 option"

definition selection_default :: Selection where
  "selection_default = \<lparr> sel_truechimers = [], sel_offset = None \<rparr>"

definition min_rd :: f64 where "min_rd = flit (1 / 1000000000)"

definition src_rd :: "SourceEstimate \<Rightarrow> f64" where
  "src_rd s = fmax (src_root_distance s) min_rd"

definition src_lo :: "SourceEstimate \<Rightarrow> f64" where
  "src_lo s = fsub (src_offset s) (src_rd s)"

definition src_hi :: "SourceEstimate \<Rightarrow> f64" where
  "src_hi s = fadd (src_offset s) (src_rd s)"

definition src_edges :: "SourceEstimate list \<Rightarrow> (f64 \<times> int) list" where
  "src_edges sources = sort_key fst (concat (map (\<lambda>s. [(src_lo s, 1), (src_hi s, -1)]) sources))"

fun scan_up :: "int \<Rightarrow> int \<Rightarrow> (f64 \<times> int) list \<Rightarrow> f64 option" where
  "scan_up need cnt [] = None"
| "scan_up need cnt ((v, k) # es) =
     (if need \<le> cnt + k then Some v else scan_up need (cnt + k) es)"

fun scan_down :: "int \<Rightarrow> int \<Rightarrow> (f64 \<times> int) list \<Rightarrow> f64 option" where
  "scan_down need cnt [] = None"
| "scan_down need cnt ((v, k) # es) =
     (if need \<le> cnt - k then Some v else scan_down need (cnt - k) es)"

definition try_f :: "nat \<Rightarrow> (f64 \<times> int) list \<Rightarrow> nat \<Rightarrow> (f64 \<times> f64) option" where
  "try_f n es f =
     (let need = int (n - f) in
      case (scan_up need 0 es, scan_down need 0 (rev es)) of
        (Some lo, Some hi) \<Rightarrow> if fle lo hi then Some (lo, hi) else None
      | _ \<Rightarrow> None)"

fun first_some :: "('a \<Rightarrow> 'b option) \<Rightarrow> 'a list \<Rightarrow> 'b option" where
  "first_some g [] = None"
| "first_some g (x # xs) = (case g x of Some y \<Rightarrow> Some y | None \<Rightarrow> first_some g xs)"

definition choose_interval :: "SourceEstimate list \<Rightarrow> (f64 \<times> f64) option" where
  "choose_interval sources =
     (let n = length sources in first_some (try_f n (src_edges sources)) [0..<(n - 1) div 2 + 1])"

definition survives :: "f64 \<Rightarrow> f64 \<Rightarrow> SourceEstimate \<Rightarrow> bool" where
  "survives lo hi s \<longleftrightarrow> fle lo (src_hi s) \<and> fle (src_lo s) hi"

definition survivor_less :: "SourceEstimate \<Rightarrow> SourceEstimate \<Rightarrow> bool" where
  "survivor_less a b \<longleftrightarrow> src_stratum a < src_stratum b \<or>
     src_stratum a = src_stratum b \<and> flt (src_root_distance a) (src_root_distance b)"

definition insert_tail :: "('a \<Rightarrow> 'a \<Rightarrow> bool) \<Rightarrow> 'a \<Rightarrow> 'a list \<Rightarrow> 'a list" where
  "insert_tail lt x ys =
     rev (dropWhile (lt x) (rev ys)) @ [x] @ rev (takeWhile (lt x) (rev ys))"

definition stable_sort :: "('a \<Rightarrow> 'a \<Rightarrow> bool) \<Rightarrow> 'a list \<Rightarrow> 'a list" where
  "stable_sort lt xs = foldl (\<lambda>ys x. insert_tail lt x ys) [] xs"

definition weight_sums :: "SourceEstimate list \<Rightarrow> f64 \<times> f64" where
  "weight_sums ss = foldl (\<lambda>(wsum, osum) s.
     let w = fdiv (FFin 1) (src_rd s) in (fadd wsum w, fadd osum (fmul w (src_offset s)))) (FFin 0, FFin 0) ss"

definition combine :: "SourceEstimate list \<Rightarrow> Selection" where
  "combine best =
     (let (wsum, osum) = weight_sums best
      in \<lparr> sel_truechimers = map src_id best,
           sel_offset = (if flt (FFin 0) wsum then Some (fdiv osum wsum) else None) \<rparr>)"

fun select_within :: "SourceEstimate list \<Rightarrow> f64 \<times> f64 \<Rightarrow> Selection" where
  "select_within sources (lo, hi) =
     (let survivors = filter (survives lo hi) sources in
      if survivors = [] then selection_default else combine (stable_sort survivor_less survivors))"

definition select :: "SourceEstimate list \<Rightarrow> Selection" where
  "select sources =
     (if sources = [] then selection_default
      else case choose_interval sources of
        None \<Rightarrow> selection_default
      | Some interval \<Rightarrow> select_within sources interval)"

subsection \<open>The stable sort is a permutation\<close>

lemma mset_insert_tail [simp]: "mset (insert_tail lt x ys) = add_mset x (mset ys)"
proof -
  have "mset (takeWhile (lt x) (rev ys)) + mset (dropWhile (lt x) (rev ys)) = mset (rev ys)"
    by (metis mset_append takeWhile_dropWhile_id)
  then show ?thesis by (simp add: insert_tail_def add.commute)
qed

lemma mset_stable_sort [simp]: "mset (stable_sort lt xs) = mset xs"
proof -
  have "mset (foldl (\<lambda>ys x. insert_tail lt x ys) zs xs) = mset zs + mset xs" for zs
    by (induction xs arbitrary: zs) auto
  then show ?thesis by (simp add: stable_sort_def)
qed

lemma length_stable_sort [simp]: "length (stable_sort lt xs) = length xs"
  by (metis mset_stable_sort size_mset)

subsection \<open>The sweep counts sources\<close>

lemma scan_up_Some:
  "scan_up need cnt es = Some v \<Longrightarrow>
     \<exists>ys k zs. es = ys @ (v, k) # zs \<and> need \<le> cnt + sum_list (map snd ys) + k"
proof (induction need cnt es rule: scan_up.induct)
  case (2 need cnt v' k es)
  show ?case
  proof (cases "need \<le> cnt + k")
    case True
    then show ?thesis using 2(2) by (intro exI[of _ "[]"]) auto
  next
    case False
    then obtain ys k' zs where "es = ys @ (v, k') # zs" "need \<le> cnt + k + sum_list (map snd ys) + k'"
      using 2 by auto
    then show ?thesis by (intro exI[of _ "(v', k) # ys"]) auto
  qed
qed simp

lemma insort_key_map: "insort_key f (g x) (map g xs) = map g (insort_key (\<lambda>y. f (g y)) x xs)"
  by (induction xs) auto

lemma sort_key_map: "sort_key f (map g xs) = map g (sort_key (\<lambda>y. f (g y)) xs)"
  by (induction xs) (simp_all add: insort_key_map)

text \<open>The same edges, each tagged with the index of its source.\<close>

definition tagged :: "SourceEstimate list \<Rightarrow> (nat \<times> f64 \<times> int) list" where
  "tagged sources = concat (map (\<lambda>i. [(i, src_lo (sources ! i), 1), (i, src_hi (sources ! i), -1)]) [0..<length sources])"

lemma src_edges_tagged: "src_edges sources = map snd (sort_key (\<lambda>t. fst (snd t)) (tagged sources))"
proof -
  have "concat (map (\<lambda>s. [(src_lo s, 1), (src_hi s, -1 :: int)]) sources) = map snd (tagged sources)"
    by (subst map_nth[symmetric]) (simp add: tagged_def map_concat comp_def del: map_nth)
  then show ?thesis by (simp add: src_edges_def sort_key_map)
qed

lemma filter_tagged: "i < length sources \<Longrightarrow>
  filter (\<lambda>t. fst t = i) (tagged sources) = [(i, src_lo (sources ! i), 1), (i, src_hi (sources ! i), -1)]"
proof -
  assume i: "i < length sources"
  have "filter (\<lambda>t. fst t = i) (concat (map (\<lambda>i. [(i, src_lo (sources ! i), 1 :: int), (i, src_hi (sources ! i), -1)]) [0..<k]))
     = (if i < k then [(i, src_lo (sources ! i), 1), (i, src_hi (sources ! i), -1)] else [])" for k
    by (induction k) auto
  then show ?thesis using i by (simp add: tagged_def)
qed

lemma fst_tagged: "t \<in> set (tagged sources) \<Longrightarrow> fst t < length sources"
  by (auto simp: tagged_def)

lemma sum_by_index:
  "(\<And>t. t \<in> set ts \<Longrightarrow> fst t < n) \<Longrightarrow>
   sum_list (map g ts) = (\<Sum>i<n. sum_list (map g (filter (\<lambda>t. fst t = i) ts)))" for g :: "nat \<times> 'a \<Rightarrow> int"
proof (induction ts)
  case (Cons t ts)
  then have "(\<Sum>i<n. sum_list (map g (filter (\<lambda>t. fst t = i) (t # ts))))
     = (\<Sum>i<n. (if fst t = i then g t else 0) + sum_list (map g (filter (\<lambda>t. fst t = i) ts)))"
    by (intro sum.cong) auto
  also have "\<dots> = g t + (\<Sum>i<n. sum_list (map g (filter (\<lambda>t. fst t = i) ts)))"
    using Cons.prems by (simp add: sum.distrib)
  finally show ?case using Cons by simp
qed simp


lemma prefix_of_pair: "ys @ zs = [a, b] \<Longrightarrow> ys = [] \<or> ys = [a] \<and> zs = [b] \<or> ys = [a, b]"
  by (cases ys; cases "tl ys") auto

lemma sort_key_pair: "f a \<le> f b \<Longrightarrow> sort_key f [a, b] = [a, b]"
  by simp

lemma not_nan_le_fle: "x \<le> y \<Longrightarrow> \<not> is_nan y \<Longrightarrow> fle x y"
  by (rule le_imp_fle)

lemma src_rd_pos: "fle min_rd (src_rd s)"
  unfolding src_rd_def by (rule fmax_ge_right) (simp add: min_rd_def flit_def)

lemma min_rd_eq: "min_rd = FFin (4835703278458517 / 4835703278458516698824704)"
  by code_simp

lemma min_rd_val: "min_rd = FFin (fval min_rd)" "0 < fval min_rd"
  by (simp_all add: min_rd_eq)

lemma src_rd_cases:
  obtains "src_rd s = FInf False" | r where "src_rd s = FFin r" "0 < r"
proof -
  have "fle (FFin (fval min_rd)) (src_rd s)" using src_rd_pos[of s] min_rd_val(1) by simp
  then show ?thesis using that min_rd_val(2) by (cases "src_rd s") (auto simp: fle_def split: if_splits)
qed

lemma endpoints:
  assumes "is_finite (src_offset s)"
  shows "\<not> is_nan (src_lo s)" "\<not> is_nan (src_hi s)" "fle (src_lo s) (src_hi s)" "src_lo s \<le> src_hi s"
proof -
  consider "src_rd s = FInf False" | r where "src_rd s = FFin r" "0 < r" by (rule src_rd_cases)
  then have "\<not> is_nan (src_lo s) \<and> \<not> is_nan (src_hi s) \<and> fle (src_lo s) (src_hi s) \<and> src_lo s \<le> src_hi s"
  proof cases
    case 1
    then show ?thesis using assms
      by (cases "src_offset s") (auto simp: src_lo_def src_hi_def fsub_def fle_def less_eq_f64_def)
  next
    case 2
    have l: "src_lo s = rnd False (fval (src_offset s) - r)" and h: "src_hi s = rnd False (fval (src_offset s) + r)"
      using 2 assms by (simp_all add: src_lo_def src_hi_def fsub_finite fadd_finite)
    have f: "fle (src_lo s) (src_hi s)" unfolding l h using 2 by (intro fle_rnd) simp
    have "\<not> (src_lo s = FFin 0 \<and> src_hi s = FNegZero)"
    proof
      assume a: "src_lo s = FFin 0 \<and> src_hi s = FNegZero"
      then have "0 \<le> fval (src_offset s) - r" "fval (src_offset s) + r \<le> 0"
        unfolding l h by (auto simp: rnd_alt Let_def split: if_splits)
      then show False using 2 by linarith
    qed
    then show ?thesis using f l h fle_imp_le by simp
  qed
  then show "\<not> is_nan (src_lo s)" "\<not> is_nan (src_hi s)" "fle (src_lo s) (src_hi s)" "src_lo s \<le> src_hi s"
    by auto
qed

lemma first_some_Some: "first_some g xs = Some y \<Longrightarrow> \<exists>x \<in> set xs. g x = Some y"
  by (induction xs) (auto split: option.splits)

lemma scan_up_survivors:
  assumes fin: "\<forall>s \<in> set sources. is_finite (src_offset s)"
    and up: "scan_up need 0 (src_edges sources) = Some lo" and le: "fle lo hi"
  shows "need \<le> int (length (filter (survives lo hi) sources))"
proof -
  define T where "T = sort_key (\<lambda>t. fst (snd t)) (tagged sources)"
  define n where "n = length sources"
  obtain ys k zs where e: "map snd T = ys @ (lo, k) # zs" and c: "need \<le> sum_list (map snd ys) + k"
    using scan_up_Some[OF up] by (auto simp: src_edges_tagged T_def)
  obtain P t Z where T: "T = P @ t # Z" and P: "map snd P = ys" and t: "snd t = (lo, k)"
    using e by (auto simp: map_eq_append_conv map_eq_Cons_conv)
  define Q where "Q = P @ [t]"
  have TQ: "T = Q @ Z" by (simp add: T Q_def)
  have sT: "sorted (map (\<lambda>t. fst (snd t)) T)" unfolding T_def by (rule sorted_sort_key)
  have idx: "fst u < n" if "u \<in> set T" for u using that by (simp add: T_def n_def fst_tagged)
  have total: "need \<le> (\<Sum>i<n. sum_list (map (snd \<circ> snd) (filter (\<lambda>u. fst u = i) Q)))"
  proof -
    have "sum_list (map snd ys) + k = sum_list (map (snd \<circ> snd) Q)" using t by (simp add: Q_def flip: P)
    also have "\<dots> = (\<Sum>i<n. sum_list (map (snd \<circ> snd) (filter (\<lambda>u. fst u = i) Q)))"
      using idx by (intro sum_by_index) (auto simp: TQ)
    finally show ?thesis using c by simp
  qed
  have each: "sum_list (map (snd \<circ> snd) (filter (\<lambda>u. fst u = i) Q)) \<le> (if survives lo hi (sources ! i) then 1 else 0)"
    if i: "i < n" for i
  proof -
    define s where "s = sources ! i"
    have fs: "is_finite (src_offset s)" using fin i by (simp add: s_def n_def)
    have "filter (\<lambda>u. fst u = i) T = sort_key (\<lambda>t. fst (snd t)) (filter (\<lambda>u. fst u = i) (tagged sources))"
      unfolding T_def by (rule filter_sort)
    also have "\<dots> = [(i, src_lo s, 1), (i, src_hi s, -1)]"
      using i endpoints(4)[OF fs] by (simp add: filter_tagged n_def s_def)
    finally have two: "filter (\<lambda>u. fst u = i) Q @ filter (\<lambda>u. fst u = i) Z = [(i, src_lo s, 1), (i, src_hi s, -1)]"
      by (simp add: TQ)
    show ?thesis
    proof (cases "filter (\<lambda>u. fst u = i) Q = [(i, src_lo s, 1)]")
      case True
      then have "(i, src_lo s, 1) \<in> set (filter (\<lambda>u. fst u = i) Q)" by simp
      then have "(i, src_lo s, 1) \<in> set Q" by simp
      moreover have "\<forall>u \<in> set Q. fst (snd u) \<le> lo" using sT t by (auto simp: T Q_def sorted_append)
      ultimately have l: "src_lo s \<le> lo" by auto
      have "(i, src_hi s, -1) \<in> set (filter (\<lambda>u. fst u = i) Z)" using two True by simp
      then have "(i, src_hi s, -1) \<in> set Z" by simp
      moreover have "\<forall>u \<in> set Z. lo \<le> fst (snd u)" using sT t by (auto simp: T sorted_append)
      ultimately have h: "lo \<le> src_hi s" by auto
      have "fle (src_lo s) lo" using l le by (intro le_imp_fle) (auto dest: fle_not_nan)
      moreover have "fle lo (src_hi s)" using h endpoints(2)[OF fs] by (rule le_imp_fle)
      ultimately have "survives lo hi s" using le by (auto simp: survives_def intro: fle_trans)
      then show ?thesis using True by (simp add: s_def)
    next
      case False
      then have "filter (\<lambda>u. fst u = i) Q = [] \<or> filter (\<lambda>u. fst u = i) Q = [(i, src_lo s, 1), (i, src_hi s, -1)]"
        using prefix_of_pair[OF two] by blast
      then show ?thesis by auto
    qed
  qed
  have "need \<le> (\<Sum>i<n. if survives lo hi (sources ! i) then 1 else 0)"
    by (rule order_trans[OF total sum_mono]) (simp add: each)
  also have "\<dots> = int (card {i. i < n \<and> survives lo hi (sources ! i)})"
    by (subst sum.If_cases) (auto simp: Int_def)
  finally show ?thesis by (simp add: length_filter_conv_card n_def)
qed

lemma length_truechimers:
  "sel_truechimers (select sources) \<noteq> [] \<Longrightarrow>
     \<exists>lo hi. choose_interval sources = Some (lo, hi) \<and>
       length (sel_truechimers (select sources)) = length (filter (survives lo hi) sources)"
  by (auto simp: select_def combine_def selection_default_def Let_def split: option.splits if_splits prod.splits)

lemma survivors_majority:
  assumes "\<forall>s \<in> set sources. is_finite (src_offset s)" "choose_interval sources = Some (lo, hi)" "sources \<noteq> []"
  shows "length sources < 2 * length (filter (survives lo hi) sources)"
proof -
  obtain f where f: "f \<le> (length sources - 1) div 2" "try_f (length sources) (src_edges sources) f = Some (lo, hi)"
    using first_some_Some[OF assms(2)[unfolded choose_interval_def Let_def]] by (fastforce simp: less_Suc_eq_le)
  then have "scan_up (int (length sources - f)) 0 (src_edges sources) = Some lo" "fle lo hi"
    by (auto simp: try_f_def Let_def split: option.splits if_splits)
  from scan_up_survivors[OF assms(1) this] have "length sources - f \<le> length (filter (survives lo hi) sources)"
    by simp
  moreover have "0 < length sources" using assms(3) by simp
  ultimately show ?thesis using f(1) by linarith
qed

lemma set_stable_sort [simp]: "set (stable_sort lt xs) = set xs"
  by (metis mset_stable_sort set_mset_mset)

lemma truechimers_are_sources: "set (sel_truechimers (select sources)) \<subseteq> src_id ` set sources"
  by (auto simp: select_def combine_def selection_default_def Let_def split: option.splits if_splits prod.splits)

text \<open>C2: whatever the intervals are, a selection that names any truechimer at all
names a strict majority of the sources it was given: a minority of falsetickers can never be
selected against an honest majority.\<close>

theorem select_majority:
  assumes "\<forall>s \<in> set sources. is_finite (src_offset s)"
    and "sel_truechimers (select sources) \<noteq> []"
  shows "length sources < 2 * length (sel_truechimers (select sources))"
proof -
  obtain lo hi where "choose_interval sources = Some (lo, hi)"
    and "length (sel_truechimers (select sources)) = length (filter (survives lo hi) sources)"
    using length_truechimers[OF assms(2)] by blast
  moreover have "sources \<noteq> []" using assms(2) by (auto simp: select_def selection_default_def)
  ultimately show ?thesis using survivors_majority[OF assms(1)] by simp
qed


definition est :: "nat \<Rightarrow> rat \<Rightarrow> rat \<Rightarrow> u8 \<Rightarrow> SourceEstimate" where
  "est i x rd st = \<lparr>src_id = i, src_offset = FFin x, src_root_distance = FFin rd, src_stratum = st\<rparr>"

lemma select_majority_witness:
  "sel_truechimers (select [est 7 1 (1/4) 2, est 8 (9/8) (1/4) 1, est 9 50 (1/4) 1]) = [8, 7] \<and>
   3 < 2 * length (sel_truechimers (select [est 7 1 (1/4) 2, est 8 (9/8) (1/4) 1, est 9 50 (1/4) 1]))"
proof -
  define ss where "ss = [est 7 1 (1/4) 2, est 8 (9/8) (1/4) 1, est 9 50 (1/4) 1]"
  have e: "sel_truechimers (select ss) = [8, 7]" unfolding ss_def by code_simp
  have "length ss < 2 * length (sel_truechimers (select ss))"
    by (rule select_majority) (simp add: ss_def est_def, simp add: e)
  then show ?thesis using e by (simp add: ss_def)
qed

subsection \<open>Agreement of all sources\<close>

lemma scan_up_ones: "\<forall>e \<in> set es. snd e = 1 \<Longrightarrow> es \<noteq> [] \<Longrightarrow>
  scan_up (c + int (length es)) c (es @ rest) = Some (fst (last es))"
proof (induction es arbitrary: c)
  case (Cons e es)
  show ?case
  proof (cases "es = []")
    case True
    then show ?thesis using Cons.prems by (cases e) simp
  next
    case False
    then have "\<not> c + int (length (e # es)) \<le> c + 1" by (simp add: Suc_le_eq)
    moreover have "scan_up (c + 1 + int (length es)) (c + 1) (es @ rest) = Some (fst (last es))"
      using Cons False by simp
    ultimately show ?thesis using Cons.prems False by (cases e) (simp add: add.assoc)
  qed
qed simp

lemma scan_down_as_up: "scan_down need c es = scan_up need c (map (\<lambda>e. (fst e, - snd e)) es)"
  by (induction need c es rule: scan_down.induct) auto

lemma partition_sorted_wrt:
  "sorted_wrt (\<lambda>x y. Q y \<longrightarrow> Q x) xs \<Longrightarrow> xs = filter Q xs @ filter (\<lambda>x. \<not> Q x) xs"
proof (induction xs)
  case (Cons x xs)
  show ?case
  proof (cases "Q x")
    case True
    then show ?thesis using Cons by simp
  next
    case False
    then have "\<forall>y \<in> set xs. \<not> Q y" using Cons.prems by auto
    then show ?thesis using False by (simp add: filter_empty_conv[THEN iffD2] filter_True)
  qed
qed simp

lemma mset_src_edges: "mset (src_edges sources) =
    mset (map (\<lambda>s. (src_lo s, 1)) sources) + mset (map (\<lambda>s. (src_hi s, -1)) sources)"
  unfolding src_edges_def mset_sort by (induction sources) auto

lemma choose_unanimous:
  assumes ne: "sources \<noteq> []"
    and meet: "\<forall>s \<in> set sources. \<forall>t \<in> set sources. flt (src_lo s) (src_hi t)"
  shows "\<exists>lo hi. choose_interval sources = Some (lo, hi) \<and> filter (survives lo hi) sources = sources"
proof -
  define T where "T = src_edges sources"
  define L H where "L = filter (\<lambda>e. snd e = 1) T" and "H = filter (\<lambda>e. snd e \<noteq> 1) T"
  define n where "n = length sources"
  have sT: "sorted_wrt (\<lambda>x y. fst x \<le> fst y) T"
    using sorted_sort_key[of fst] by (simp add: T_def src_edges_def sorted_map)
  have mem: "e \<in> set T \<longleftrightarrow> (\<exists>s \<in> set sources. e = (src_lo s, 1) \<or> e = (src_hi s, -1))" for e
    using arg_cong[OF mset_src_edges, of "\<lambda>m. e \<in># m" sources] by (auto simp: T_def)
  have "sorted_wrt (\<lambda>x y. snd y = 1 \<longrightarrow> snd x = 1) T"
    using sT
  proof (rule sorted_wrt_mono_rel[rotated])
    fix x y assume x: "x \<in> set T" and y: "y \<in> set T" and le: "fst x \<le> fst y"
    show "snd y = 1 \<longrightarrow> snd x = 1"
    proof (rule impI, rule ccontr)
      assume "snd y = 1" "snd x \<noteq> 1"
      then obtain s t where "s \<in> set sources" "t \<in> set sources" "x = (src_hi t, -1)" "y = (src_lo s, 1)"
        using x y mem by fastforce
      then have "flt (fst y) (fst x)" using meet by simp
      moreover have "fle (fst x) (fst y)" using le \<open>flt (fst y) (fst x)\<close> by (intro le_imp_fle) (auto simp: flt_def)
      ultimately show False by (simp add: flt_iff)
    qed
  qed
  then have TLH: "T = L @ H" unfolding L_def H_def by (rule partition_sorted_wrt)
  have lens: "length L = n" "length H = n"
  proof -
    have m: "mset L = mset (map (\<lambda>s. (src_lo s, 1)) sources)" "mset H = mset (map (\<lambda>s. (src_hi s, -1)) sources)"
      unfolding L_def H_def T_def mset_filter mset_src_edges filter_union_mset
      by (induction sources) auto
    then show "length L = n" "length H = n" by (metis length_map n_def size_mset)+
  qed
  then have ne2: "L \<noteq> []" "H \<noteq> []" using ne by (auto simp: n_def)
  have "scan_up (0 + int (length L)) 0 (L @ H) = Some (fst (last L))"
    using ne2 by (intro scan_up_ones) (auto simp: L_def)
  then have up: "scan_up (int (n - 0)) 0 T = Some (fst (last L))" using lens by (simp add: TLH)
  have H1: "snd e = -1" if "e \<in> set H" for e using that mem by (auto simp: H_def)
  have "scan_up (0 + int (length (rev H))) 0 (map (\<lambda>e. (fst e, - snd e)) (rev H) @ map (\<lambda>e. (fst e, - snd e)) (rev L))
      = Some (fst (last (map (\<lambda>e. (fst e, - snd e)) (rev H))))"
    using ne2 scan_up_ones[of "map (\<lambda>e. (fst e, - snd e)) (rev H)" 0] H1 by auto
  then have down: "scan_down (int (n - 0)) 0 (rev T) = Some (fst (hd H))"
    using lens ne2 by (simp add: TLH scan_down_as_up last_map last_rev)
  obtain s t where s: "s \<in> set sources" "fst (last L) = src_lo s" and t: "t \<in> set sources" "fst (hd H) = src_hi t"
  proof -
    have "last L \<in> set L" "hd H \<in> set H" using ne2 by auto
    then show ?thesis using that mem by (fastforce simp: L_def H_def)
  qed
  have le: "fle (fst (last L)) (fst (hd H))" using meet s t by (simp add: flt_imp_fle)
  have "try_f n T 0 = Some (fst (last L), fst (hd H))"
    unfolding try_f_def Let_def up down by (simp add: le)
  then have "choose_interval sources = Some (fst (last L), fst (hd H))"
    using upt_conv_Cons[of 0 "(n - 1) div 2 + 1"] by (simp add: choose_interval_def Let_def n_def T_def del: upt_Suc)
  moreover have "filter (survives (fst (last L)) (fst (hd H))) sources = sources"
    using meet s t by (auto simp: survives_def filter_id_conv flt_imp_fle)
  ultimately show ?thesis by blast
qed

text \<open>When every pair of correctness intervals overlaps in more than a point,
nobody is called a falseticker: the truechimers are all the sources, each exactly once.\<close>

theorem select_unanimous:
  assumes "sources \<noteq> []"
    and "\<forall>s \<in> set sources. \<forall>t \<in> set sources. flt (src_lo s) (src_hi t)"
  shows "mset (sel_truechimers (select sources)) = mset (map src_id sources)"
proof -
  obtain lo hi where "choose_interval sources = Some (lo, hi)" "filter (survives lo hi) sources = sources"
    using choose_unanimous[OF assms] by blast
  then have "sel_truechimers (select sources) = map src_id (stable_sort survivor_less sources)"
    using assms(1) by (simp add: select_def combine_def Let_def split: prod.split)
  then show ?thesis by simp
qed

lemma select_unanimous_witness:
  "mset (sel_truechimers (select [est 7 1 (1/4) 2, est 8 (9/8) (1/4) 1])) = {#7, 8#}"
proof -
  have v: "src_lo (est 7 1 (1/4) 2) = FFin (3/4)" "src_lo (est 8 (9/8) (1/4) 1) = FFin (7/8)"
    "src_hi (est 7 1 (1/4) 2) = FFin (5/4)" "src_hi (est 8 (9/8) (1/4) 1) = FFin (11/8)"
    by code_simp+
  have "mset (sel_truechimers (select [est 7 1 (1/4) 2, est 8 (9/8) (1/4) 1]))
      = mset (map src_id [est 7 1 (1/4) 2, est 8 (9/8) (1/4) 1])"
    by (rule select_unanimous) (simp_all add: v)
  then show ?thesis by (simp add: est_def)
qed

text \<open>Intervals that only touch share a point, but whether the sweep counts it depends on the order
of the sources: ascending, the upper endpoint pushed first sorts before the equal lower one.\<close>

lemma touching_intervals_order_dependent:
  "sel_truechimers (select [est 1 1 1 1, est 2 3 1 1]) = [] \<and>
   sel_truechimers (select [est 2 3 1 1, est 1 1 1 1]) \<noteq> []"
  by code_simp

end
