(* ===== verification/SyncExchange.thy ===== *)
theory SyncExchange
  imports NtsSession Controller Select
begin

text \<open>One exchange of the client daemon with a source, \<open>exchange\<close> of
\<open>crates/rusty_time-daemon/src/sync.rs\<close>: the request (under NTS with renewal when the cookies are spent), the
search of the received batches for the reply, and the sample made of the four timestamps.  The clocks, the
random source, the network and a key establishment are arguments.\<close>

section \<open>State\<close>

record Source =
  sr_name :: bytes
  sr_nts :: "NtsSession option"
  sr_due :: nat
  sr_last_offset_s :: f64
  sr_last_root_distance_s :: f64
  sr_last_stratum :: u8
  sr_has_estimate :: bool
  sr_exchanges :: u64
  sr_lost :: u64
  sr_lost_in_a_row :: u32
  sr_leap_pending :: bool

text \<open>\<open>open_source\<close> after its socket connected; \<open>now\<close> is \<open>Instant::now()\<close> in nanoseconds.\<close>

definition open_source :: "bytes \<Rightarrow> NtsSession option \<Rightarrow> nat \<Rightarrow> Source" where
  "open_source name nts now = \<lparr> sr_name = name, sr_nts = nts, sr_due = now, sr_last_offset_s = FFin 0,
     sr_last_root_distance_s = FFin 1, sr_last_stratum = 16, sr_has_estimate = False, sr_exchanges = 0,
     sr_lost = 0, sr_lost_in_a_row = 0, sr_leap_pending = False \<rparr>"

text \<open>A received datagram with the kernel's receive stamp, and what one turn of the receive loop met: a batch
with the clocks read after it, or an end (deadline, socket or clock error).\<close>

record Message =
  ms_bytes :: bytes
  ms_kernel_rx_ns :: "int option"

datatype Receive = RecvBatch int f64 "Message list" | RecvEnd

text \<open>What the environment does during one exchange.  \<open>xe_renew\<close> is the outcome of running key
establishment again, \<open>xe_connect\<close> whether its server could be connected to.\<close>

record ExchangeEnv =
  xe_nonce :: u64
  xe_rand :: "nat \<Rightarrow> nat \<Rightarrow> KeError + bytes"
  xe_renew :: "NtsSessionError + NtsSession"
  xe_connect :: bool
  xe_rand_again :: "nat \<Rightarrow> nat \<Rightarrow> KeError + bytes"
  xe_wall :: "int option"
  xe_mono :: "f64 option"
  xe_send :: bool
  xe_receive :: "Receive list"

section \<open>The request\<close>

definition same_server :: "Source \<Rightarrow> NtsSession \<Rightarrow> bool" where
  "same_server source session =
     (case sr_nts source of None \<Rightarrow> False
      | Some old \<Rightarrow> ns_ntp_server old = ns_ntp_server session \<and> ns_ntp_port old = ns_ntp_port session)"

definition renew_nts :: "NtsSessionError + NtsSession \<Rightarrow> bool \<Rightarrow> Source \<Rightarrow> bool \<times> Source" where
  "renew_nts established connect source =
     (case established of Inl e \<Rightarrow> (False, source)
      | Inr session \<Rightarrow>
          if \<not> same_server source session \<and> \<not> connect then (False, source)
          else (True, source\<lparr> sr_nts := Some session \<rparr>))"

definition protect_with :: "Aead \<Rightarrow> (nat \<Rightarrow> nat \<Rightarrow> KeError + bytes) \<Rightarrow> bytes \<Rightarrow> NtsSession \<Rightarrow> Source \<Rightarrow> (NtsSessionError + bytes) \<times> Source" where
  "protect_with c rand header session source =
     (case session_protect c rand header session of (r, s') \<Rightarrow> (r, source\<lparr> sr_nts := Some s' \<rparr>))"

definition protect_renewed :: "Aead \<Rightarrow> ExchangeEnv \<Rightarrow> bytes \<Rightarrow> Source \<Rightarrow> bytes option \<times> Source" where
  "protect_renewed c env header source =
     (case renew_nts (xe_renew env) (xe_connect env) source of
        (False, source') \<Rightarrow> (None, source')
      | (True, source') \<Rightarrow>
          (case sr_nts source' of None \<Rightarrow> (None, source')
           | Some s \<Rightarrow> (case protect_with c (xe_rand_again env) header s source' of
                (Inl e, source'') \<Rightarrow> (None, source'') | (Inr packet, source'') \<Rightarrow> (Some packet, source''))))"

definition build_request :: "Aead \<Rightarrow> ExchangeEnv \<Rightarrow> bytes \<Rightarrow> Source \<Rightarrow> bytes option \<times> Source" where
  "build_request c env header source =
     (case sr_nts source of None \<Rightarrow> (Some header, source)
      | Some session \<Rightarrow>
          (case protect_with c (xe_rand env) header session source of
             (Inr packet, source') \<Rightarrow> (Some packet, source')
           | (Inl CookiesExhausted, source') \<Rightarrow> protect_renewed c env header source'
           | (Inl e, source') \<Rightarrow> (None, source')))"

section \<open>The reply\<close>

definition NTS_NAK_CODE :: bytes where "NTS_NAK_CODE = ascii ''NTSN''"

datatype Scan = Found NtpPacket int f64 | NakSeen | NotFound

definition our_reply :: "NtpTimestamp \<Rightarrow> bytes \<Rightarrow> NtpPacket option" where
  "our_reply nonce b =
     (if length b < HEADER_LEN then None
      else case parse b of Inl _ \<Rightarrow> None
        | Inr p \<Rightarrow> if p_origin_ts p = nonce \<and> p_mode p = Server then Some p else None)"

text \<open>Under NTS a reply counts only if it verifies: the verdict and the session with its cookies banked.\<close>

definition verify_reply :: "Aead \<Rightarrow> bytes \<Rightarrow> NtsSession option \<Rightarrow> bool \<times> NtsSession option" where
  "verify_reply c b nts =
     (case nts of None \<Rightarrow> (True, None)
      | Some session \<Rightarrow> (case session_verify c b session of (r, s') \<Rightarrow> (\<not> isl r, Some s')))"

definition arrival :: "int \<Rightarrow> f64 \<Rightarrow> Message \<Rightarrow> int \<times> f64" where
  "arrival wall mono_s m =
     (let t4 = (case ms_kernel_rx_ns m of None \<Rightarrow> wall | Some k \<Rightarrow> k);
          latency = fmax (fmul (f_of_int (wall - t4)) e_minus9) (FFin 0)
      in (t4, fsub mono_s latency))"

fun scan_batch :: "Aead \<Rightarrow> NtpTimestamp \<Rightarrow> int \<Rightarrow> f64 \<Rightarrow> Message list \<Rightarrow> NtsSession option \<Rightarrow> Scan \<times> NtsSession option" where
  "scan_batch c nonce wall mono_s [] nts = (NotFound, nts)"
| "scan_batch c nonce wall mono_s (m # ms) nts =
     (case our_reply nonce (ms_bytes m) of None \<Rightarrow> scan_batch c nonce wall mono_s ms nts
      | Some p \<Rightarrow>
          (case verify_reply c (ms_bytes m) nts of
             (True, nts') \<Rightarrow> (Found p (fst (arrival wall mono_s m)) (snd (arrival wall mono_s m)), nts')
           | (False, nts') \<Rightarrow>
               if p_stratum p = 0 \<and> p_reference_id p = NTS_NAK_CODE
               then (NakSeen, map_option forget_cookies nts')
               else scan_batch c nonce wall mono_s ms nts'))"

fun await_reply :: "Aead \<Rightarrow> NtpTimestamp \<Rightarrow> Receive list \<Rightarrow> NtsSession option \<Rightarrow> (NtpPacket \<times> int \<times> f64) option \<times> NtsSession option" where
  "await_reply c nonce [] nts = (None, nts)"
| "await_reply c nonce (RecvEnd # rs) nts = (None, nts)"
| "await_reply c nonce (RecvBatch wall mono_s ms # rs) nts =
     (case scan_batch c nonce wall mono_s ms nts of
        (Found p t4 m4, nts') \<Rightarrow> (Some (p, t4, m4), nts')
      | (NakSeen, nts') \<Rightarrow> (None, nts')
      | (NotFound, nts') \<Rightarrow> await_reply c nonce rs nts')"

section \<open>The sample\<close>

definition usable_reply :: "NtpPacket \<Rightarrow> bool" where
  "usable_reply p \<longleftrightarrow> \<not> (p_stratum p = 0 \<or> p_stratum p > 15 \<or> p_leap p = Unsynchronized) \<and>
     \<not> (ts_is_zero (p_transmit_ts p) \<or> ts_is_zero (p_receive_ts p))"

definition wall_to_ntp :: "int \<Rightarrow> NtpTimestamp" where
  "wall_to_ntp ns = from_unix (word_of_int (ns div 1000000000)) (word_of_int (ns mod 1000000000))"

definition exchange_offset_delay :: "NtpPacket \<Rightarrow> int \<Rightarrow> int \<Rightarrow> f64 \<times> f64" where
  "exchange_offset_delay p t1_ns t4_ns =
     offset_delay (FFin 0) (seconds_since (p_receive_ts p) (wall_to_ntp t1_ns))
       (seconds_since (p_transmit_ts p) (wall_to_ntp t1_ns)) (fmul (f_of_int (t4_ns - t1_ns)) e_minus9)"

definition reply_sample :: "NtpPacket \<Rightarrow> f64 \<Rightarrow> f64 \<Rightarrow> f64 \<times> f64 \<Rightarrow> Sample \<times> u8 \<times> f64" where
  "reply_sample p t1_mono t4_mono od =
     (let dispersion = short_to_seconds (p_root_dispersion p) in
      (\<lparr> sm_t = fdiv (fadd t1_mono t4_mono) (FFin 2), sm_offset = fst od, sm_delay = snd od, sm_dispersion = dispersion \<rparr>,
       p_stratum p,
       fadd (fadd (fdiv (short_to_seconds (p_root_delay p)) (FFin 2)) dispersion) (fdiv (snd od) (FFin 2))))"

definition announces_leap :: "NtpPacket \<Rightarrow> bool" where
  "announces_leap p \<longleftrightarrow> p_leap p = LastMinute61 \<or> p_leap p = LastMinute59"

definition accept_reply ::
  "NtpPacket \<Rightarrow> int \<Rightarrow> f64 \<Rightarrow> int \<Rightarrow> f64 \<Rightarrow> Source \<Rightarrow> (Sample \<times> u8 \<times> f64) option \<times> Source" where
  "accept_reply p t1_ns t1_mono t4_ns t4_mono source =
     (if \<not> usable_reply p then (None, source)
      else let od = exchange_offset_delay p t1_ns t4_ns in
        if flt (snd od) (FFin 0) then (None, source)
        else (Some (reply_sample p t1_mono t4_mono od), source\<lparr> sr_leap_pending := announces_leap p \<rparr>))"

definition exchange :: "Aead \<Rightarrow> ExchangeEnv \<Rightarrow> Source \<Rightarrow> (Sample \<times> u8 \<times> f64) option \<times> Source" where
  "exchange c env source =
     (case build_request c env (to_bytes (client_request 4 (NtpTimestamp (xe_nonce env)))) source of
        (None, s1) \<Rightarrow> (None, s1)
      | (Some request, s1) \<Rightarrow>
          (case xe_wall env of None \<Rightarrow> (None, s1) | Some t1_ns \<Rightarrow>
            (case xe_mono env of None \<Rightarrow> (None, s1) | Some t1_mono \<Rightarrow>
              if \<not> xe_send env then (None, s1)
              else (case await_reply c (NtpTimestamp (xe_nonce env)) (xe_receive env) (sr_nts s1) of
                      (None, nts) \<Rightarrow> (None, s1\<lparr> sr_nts := nts \<rparr>)
                    | (Some (p, t4_ns, t4_mono), nts) \<Rightarrow>
                        accept_reply p t1_ns t1_mono t4_ns t4_mono (s1\<lparr> sr_nts := nts \<rparr>)))))"

section \<open>What an accepted sample rests on\<close>

lemma our_reply_Some:
  "our_reply nonce b = Some p \<longleftrightarrow> parse b = Inr p \<and> p_origin_ts p = nonce \<and> p_mode p = Server"
  by (auto simp: our_reply_def parse_def Let_def split: sum.splits if_splits)

text \<open>The session only ever changes by banking or forgetting cookies.\<close>

definition same_keys :: "NtsSession option \<Rightarrow> NtsSession option \<Rightarrow> bool" where
  "same_keys a b \<longleftrightarrow> map_option (\<lambda>s. (ns_keys s, ns_pending s)) a = map_option (\<lambda>s. (ns_keys s, ns_pending s)) b"

lemma same_keys_refl [simp]: "same_keys a a" by (simp add: same_keys_def)

lemma same_keys_trans: "same_keys a b \<Longrightarrow> same_keys b c \<Longrightarrow> same_keys a c" by (simp add: same_keys_def)

lemma verify_reply_same: "verify_reply c b nts = (ok, nts') \<Longrightarrow> same_keys nts nts'"
  by (auto simp: verify_reply_def session_verify_def same_keys_def split: option.splits sum.splits prod.splits)

text \<open>Under NTS a datagram is authentic for the request in flight when it verifies under the session's
server-to-client key and its pending identifier.\<close>

definition authentic :: "Aead \<Rightarrow> NtsSession option \<Rightarrow> bytes \<Rightarrow> bool" where
  "authentic c nts b \<longleftrightarrow> (\<forall>s. nts = Some s \<longrightarrow> (\<exists>cookies. verify_response c b (k_s2c (ns_keys s)) (ns_pending s) = Inr cookies))"

lemma verify_reply_True: "verify_reply c b nts = (True, nts') \<Longrightarrow> authentic c nts b"
  by (auto simp: verify_reply_def session_verify_def authentic_def split: option.splits sum.splits prod.splits)

lemma authentic_same: "same_keys a b \<Longrightarrow> authentic c b m \<Longrightarrow> authentic c a m"
  by (cases a; cases b) (auto simp: same_keys_def authentic_def)

lemma scan_batch_Found:
  "scan_batch c nonce wall mono_s ms nts = (Found p t4 m4, nts') \<Longrightarrow>
     \<exists>m\<in>set ms. our_reply nonce (ms_bytes m) = Some p \<and> authentic c nts (ms_bytes m) \<and> (t4, m4) = arrival wall mono_s m"
proof (induction ms arbitrary: nts)
  case (Cons m ms)
  show ?case
  proof (cases "our_reply nonce (ms_bytes m)")
    case None
    then show ?thesis using Cons by auto
  next
    case (Some q)
    obtain ok n2 where v: "verify_reply c (ms_bytes m) nts = (ok, n2)" by fastforce
    show ?thesis
    proof (cases ok)
      case True
      then show ?thesis using Cons.prems Some v verify_reply_True by fastforce
    next
      case False
      then have "scan_batch c nonce wall mono_s ms n2 = (Found p t4 m4, nts')"
        using Cons.prems Some v by (simp split: if_splits)
      from Cons.IH[OF this] show ?thesis using authentic_same[OF verify_reply_same[OF v]] by auto
    qed
  qed
qed simp

lemma scan_batch_same: "scan_batch c nonce wall mono_s ms nts = (NotFound, nts') \<Longrightarrow> same_keys nts nts'"
proof (induction ms arbitrary: nts)
  case (Cons m ms)
  show ?case
  proof (cases "our_reply nonce (ms_bytes m)")
    case None
    then show ?thesis using Cons by auto
  next
    case (Some q)
    obtain ok n2 where v: "verify_reply c (ms_bytes m) nts = (ok, n2)" by fastforce
    then show ?thesis using Cons.prems Some Cons.IH[of n2] same_keys_trans[OF verify_reply_same[OF v]]
      by (auto split: if_splits bool.splits)
  qed
qed simp

lemma await_reply_Some:
  "await_reply c nonce rs nts = (Some (p, t4, m4), nts') \<Longrightarrow>
     \<exists>wall mono_s ms m. RecvBatch wall mono_s ms \<in> set rs \<and> m \<in> set ms \<and> our_reply nonce (ms_bytes m) = Some p \<and>
       authentic c nts (ms_bytes m) \<and> (t4, m4) = arrival wall mono_s m"
proof (induction rs arbitrary: nts)
  case (Cons r rs)
  show ?case
  proof (cases r)
    case (RecvBatch wall mono_s ms)
    obtain sc n2 where b: "scan_batch c nonce wall mono_s ms nts = (sc, n2)" by fastforce
    show ?thesis
    proof (cases sc)
      case (Found q t m)
      then show ?thesis using Cons.prems RecvBatch b scan_batch_Found by fastforce
    next
      case NakSeen
      then show ?thesis using Cons.prems RecvBatch b by simp
    next
      case NotFound
      then have "await_reply c nonce rs n2 = (Some (p, t4, m4), nts')" using Cons.prems RecvBatch b by simp
      from Cons.IH[OF this] authentic_same[OF scan_batch_same[OF b[unfolded NotFound]]] show ?thesis by (meson list.set_intros(2))
    qed
  qed (use Cons.prems in simp)
qed simp

lemma build_request_nts:
  "build_request c env header source = (Some request, s1) \<Longrightarrow> (sr_nts s1 = None) = (sr_nts source = None)"
  by (auto simp: build_request_def protect_renewed_def protect_with_def split: option.splits prod.splits sum.splits NtsSessionError.splits bool.splits)

text \<open>C26: a sample that may influence the clock comes from a datagram received during this
exchange that answers this very request (server mode, the request's unpredictable transmit time as origin),
from a synchronised source of stratum 1 to 15 with both timestamps present and a delay that is not negative;
and under NTS the datagram verified under the session's keys and the identifier of the request in flight.
The sample's numbers are the offset and delay of that datagram's timestamps.\<close>

theorem exchange_accepts:
  assumes "exchange c env source = (Some (sample, stratum, distance), source')"
  shows "\<exists>request s1 wall mono_s ms m p t1.
    build_request c env (to_bytes (client_request 4 (NtpTimestamp (xe_nonce env)))) source = (Some request, s1) \<and>
    RecvBatch wall mono_s ms \<in> set (xe_receive env) \<and> m \<in> set ms \<and> parse (ms_bytes m) = Inr p \<and>
    p_mode p = Server \<and> p_origin_ts p = NtpTimestamp (xe_nonce env) \<and>
    (sr_nts s1 = None) = (sr_nts source = None) \<and> authentic c (sr_nts s1) (ms_bytes m) \<and>
    0 < stratum \<and> stratum \<le> 15 \<and> p_stratum p = stratum \<and> p_leap p \<noteq> Unsynchronized \<and>
    \<not> ts_is_zero (p_receive_ts p) \<and> \<not> ts_is_zero (p_transmit_ts p) \<and> \<not> flt (sm_delay sample) (FFin 0) \<and>
    xe_wall env = Some t1 \<and> (sm_offset sample, sm_delay sample) = exchange_offset_delay p t1 (fst (arrival wall mono_s m))"
proof -
  obtain request s1 where 1: "build_request c env (to_bytes (client_request 4 (NtpTimestamp (xe_nonce env)))) source = (Some request, s1)"
    using assms by (cases "fst (build_request c env (to_bytes (client_request 4 (NtpTimestamp (xe_nonce env)))) source)")
      (auto simp: exchange_def split: prod.splits)
  obtain t1 t1m where 2: "xe_wall env = Some t1" "xe_mono env = Some t1m" "xe_send env"
    using assms 1 by (auto simp: exchange_def split: option.splits if_splits)
  obtain r nts where 3: "await_reply c (NtpTimestamp (xe_nonce env)) (xe_receive env) (sr_nts s1) = (r, nts)" by fastforce
  obtain p t4 m4 where r: "r = Some (p, t4, m4)" using assms 1 2 3 by (cases r) (auto simp: exchange_def)
  have a: "accept_reply p t1 t1m t4 m4 (s1\<lparr> sr_nts := nts \<rparr>) = (Some (sample, stratum, distance), source')"
    using assms 1 2 3 r by (simp add: exchange_def)
  then have u: "usable_reply p" "\<not> flt (snd (exchange_offset_delay p t1 t4)) (FFin 0)"
    "(sample, stratum, distance) = reply_sample p t1m m4 (exchange_offset_delay p t1 t4)"
    by (auto simp: accept_reply_def Let_def split: if_splits)
  obtain wall mono_s ms m where b: "RecvBatch wall mono_s ms \<in> set (xe_receive env)" "m \<in> set ms"
    "our_reply (NtpTimestamp (xe_nonce env)) (ms_bytes m) = Some p" "authentic c (sr_nts s1) (ms_bytes m)" "(t4, m4) = arrival wall mono_s m"
    using await_reply_Some[OF 3[unfolded r]] by blast
  have "p_stratum p = stratum" "sm_offset sample = fst (exchange_offset_delay p t1 t4)" "sm_delay sample = snd (exchange_offset_delay p t1 t4)"
    using u(3) by (simp_all add: reply_sample_def Let_def)
  then show ?thesis using 1 2 b u(1,2) build_request_nts[OF 1] unfolding our_reply_Some usable_reply_def
    by (intro exI[of _ request] exI[of _ s1] exI[of _ wall] exI[of _ mono_s] exI[of _ ms] exI[of _ m] exI[of _ p] exI[of _ t1])
      (auto simp: word_gt_0 not_less dest: sym)
qed

section \<open>The exchange with the responder\<close>

lemma keys_of_protect: "session_protect c rand header s = (r, s1) \<Longrightarrow> ns_keys s1 = ns_keys s"
  by (auto simp: session_protect_def Let_def split: list.splits sum.splits)




section \<open>Concrete exchanges\<close>

definition demo_reply_packet :: NtpPacket where
  "demo_reply_packet = \<lparr> p_leap = NoWarning, p_version = 4, p_mode = Server, p_stratum = 2, p_poll = 0, p_precision = - 20,
     p_root_delay = NtpShort 65536, p_root_dispersion = NtpShort 65536, p_reference_id = [10, 0, 0, 1], p_reference_ts = ts_ZERO,
     p_origin_ts = NtpTimestamp 3, p_receive_ts = from_unix 5 1000000, p_transmit_ts = from_unix 5 2000000 \<rparr>"

definition demo_xe :: ExchangeEnv where
  "demo_xe = \<lparr> xe_nonce = 3, xe_rand = (\<lambda>i n. Inr (zeros n)), xe_renew = Inl CookiesExhausted, xe_connect = False,
     xe_rand_again = (\<lambda>i n. Inr (zeros n)), xe_wall = Some 5000000000, xe_mono = Some (FFin 1), xe_send = True,
     xe_receive = [RecvBatch 5004000000 (FFin 1) [\<lparr> ms_bytes = to_bytes demo_reply_packet, ms_kernel_rx_ns = Some 5004000000 \<rparr>]] \<rparr>"

lemma demo_xe_sample:
  "case exchange null_cipher demo_xe (open_source [] None 0) of
     (Some (s, st, d), src) \<Rightarrow> st = 2 \<and> flt (FFin 0) (sm_delay s) \<and> sr_nts src = None
   | _ \<Rightarrow> False"
  by code_simp

lemma exchange_accepts_witness:
  "\<exists>sample stratum distance source' t1 p m. exchange null_cipher demo_xe (open_source [] None 0) = (Some (sample, stratum, distance), source') \<and>
     parse (ms_bytes m) = Inr p \<and> p_origin_ts p = NtpTimestamp 3 \<and> stratum \<le> 15 \<and>
     (sm_offset sample, sm_delay sample) = exchange_offset_delay p t1 (fst (arrival 5004000000 (FFin 1) m))"
proof -
  obtain sample stratum distance source' where
    x: "exchange null_cipher demo_xe (open_source [] None 0) = (Some (sample, stratum, distance), source')"
    using demo_xe_sample by (auto split: prod.splits option.splits)
  have r: "RecvBatch wall mono_s ms \<in> set (xe_receive demo_xe) \<longleftrightarrow> wall = 5004000000 \<and> mono_s = FFin 1 \<and>
     ms = [\<lparr> ms_bytes = to_bytes demo_reply_packet, ms_kernel_rx_ns = Some 5004000000 \<rparr>]" for wall mono_s ms
    by (simp add: demo_xe_def)
  from exchange_accepts[OF x] x show ?thesis unfolding r by (fastforce simp: demo_xe_def)
qed


end
