(* ===== verification/ControlPlane.thy ===== *)
theory ControlPlane
  imports ServerRuns Discipline
begin

text \<open>The control plane's answers (\<open>crates/rusty_time-daemon/src/control.rs\<close>, report types of
\<open>crates/rusty_time-api/src/lib.rs\<close>): the discipline loop's published estimate with its ageing, and one answer per
operation.  \<open>Instant\<close>s are nanoseconds; \<open>lg\<close> is \<open>f64::log2\<close> and \<open>show\<close> the text of an address.  A lock is
poisoned only by a panic: its state is then \<open>None\<close>.\<close>

section \<open>Tracking\<close>

record TrackingReport =
  tr_synchronized :: bool
  tr_offset_s :: f64
  tr_freq_ppm :: f64
  tr_error_bound_s :: f64
  tr_poll_log2 :: int

record TrackingState =
  tk_report :: TrackingReport
  tk_updated :: nat
  tk_poll_interval_s :: f64

definition STALE_DRIFT_PPM :: f64 where "STALE_DRIFT_PPM = FFin 100"

definition tracking_unsynchronized :: "nat \<Rightarrow> TrackingState" where
  "tracking_unsynchronized now = \<lparr>
     tk_report = \<lparr> tr_synchronized = False, tr_offset_s = FFin 0, tr_freq_ppm = FFin 0, tr_error_bound_s = FInf False,
                   tr_poll_log2 = 0 \<rparr>,
     tk_updated = now, tk_poll_interval_s = FFin 64 \<rparr>"

definition poll_log2_of :: "(f64 \<Rightarrow> f64) \<Rightarrow> f64 \<Rightarrow> int" where
  "poll_log2_of lg poll_interval_s =
     (if \<not> is_finite poll_interval_s \<or> fle poll_interval_s (FFin 0) then 0
      else f_to_int (-128) 127 (the (fclamp (fround (lg poll_interval_s)) (FFin (-128)) (FFin 127))))"

definition publish :: "(f64 \<Rightarrow> f64) \<Rightarrow> nat \<Rightarrow> bool \<Rightarrow> f64 \<Rightarrow> f64 \<Rightarrow> f64 \<Rightarrow> f64 \<Rightarrow> TrackingState" where
  "publish lg now synchronized offset_s freq_ppm error_bound_s poll_interval_s = \<lparr>
     tk_report = \<lparr> tr_synchronized = synchronized, tr_offset_s = offset_s, tr_freq_ppm = freq_ppm,
                   tr_error_bound_s = error_bound_s, tr_poll_log2 = poll_log2_of lg poll_interval_s \<rparr>,
     tk_updated = now, tk_poll_interval_s = fmax poll_interval_s (FFin 1) \<rparr>"

text \<open>\<open>Duration::as_secs_f64\<close> of a number of nanoseconds.\<close>

definition as_secs_f64 :: "nat \<Rightarrow> f64" where
  "as_secs_f64 ns = fadd (f_of_int (int (ns div 1000000000))) (fdiv (f_of_int (int (ns mod 1000000000))) (FFin 1000000000))"

definition stale_after_s :: "TrackingState \<Rightarrow> f64" where
  "stale_after_s t = fmax (fmul (FFin 4) (tk_poll_interval_s t)) (FFin 64)"

definition snapshot :: "nat \<Rightarrow> TrackingState \<Rightarrow> TrackingReport" where
  "snapshot now t =
     (let age_s = as_secs_f64 (now - tk_updated t); r = tk_report t;
          r' = (if flt (stale_after_s t) age_s then r\<lparr> tr_synchronized := False \<rparr> else r)
      in r'\<lparr> tr_error_bound_s := fadd (tr_error_bound_s r) (fmul (fmul age_s STALE_DRIFT_PPM) (flit (1 / 1000000))) \<rparr>)"

section \<open>One answer\<close>

record ServerStatsReport =
  rp_ntp_requests :: u64
  rp_ntp_responses :: u64
  rp_dropped_rate_limit :: u64
  rp_kiss_of_death :: u64
  rp_interleaved_responses :: u64
  rp_refused :: u64
  rp_clients_tracked :: nat
  rp_clients_evicted :: u64
  rp_uptime_s :: u64
  rp_stratum :: u8

record ClientRow =
  rw_address :: string
  rw_last_seen_ago_s :: f64
  rw_requests :: u64
  rw_responses :: u64
  rw_dropped :: u64
  rw_interleaved :: bool

datatype ControlRequest = GetServerStats | GetClients nat | GetNtsData | GetTracking | Ping

datatype ControlResponse = ServerStatsAre ServerStatsReport | ClientsAre "ClientRow list" | NtsDataIs "u32 list"
  | TrackingIs TrackingReport | Pong | ControlError string

record 'k ControlState =
  co_server :: "'k ServerState option option"
  co_tracking :: "TrackingState option option"

definition control_for_server :: "'k ServerState \<Rightarrow> 'k ControlState" where
  "control_for_server sv = \<lparr> co_server = Some (Some sv), co_tracking = None \<rparr>"

definition control_for_sync :: "TrackingState \<Rightarrow> 'k ControlState" where
  "control_for_sync t = \<lparr> co_server = None, co_tracking = Some (Some t) \<rparr>"

definition stats_report :: "u64 option \<Rightarrow> 'k ServerState \<Rightarrow> ServerStatsReport" where
  "stats_report now_unix sv =
     (let s = tb_stats (sv_clients sv) in \<lparr>
        rp_ntp_requests = ss_requests s, rp_ntp_responses = ss_responses s, rp_dropped_rate_limit = ss_dropped_rate_limit s,
        rp_kiss_of_death = ss_kiss_of_death s, rp_interleaved_responses = ss_interleaved_responses s, rp_refused = ss_refused s,
        rp_clients_tracked = table_len (sv_clients sv), rp_clients_evicted = ss_evicted s,
        rp_uptime_s = (case now_unix of None \<Rightarrow> 0 | Some n \<Rightarrow> if n < sv_started_unix sv then 0 else n - sv_started_unix sv),
        rp_stratum = sv_stratum sv \<rparr>)"

definition client_row :: "('k \<Rightarrow> string) \<Rightarrow> f64 \<Rightarrow> 'k \<times> ClientRecord \<Rightarrow> ClientRow" where
  "client_row show now kr = \<lparr>
     rw_address = show (fst kr), rw_last_seen_ago_s = fmax (fsub now (cl_last_seen (snd kr))) (FFin 0),
     rw_requests = cl_requests (snd kr), rw_responses = cl_responses (snd kr), rw_dropped = cl_dropped (snd kr),
     rw_interleaved = cl_interleaved_now (snd kr) \<rparr>"

definition handle_tracking :: "nat \<Rightarrow> TrackingState option option \<Rightarrow> ControlResponse" where
  "handle_tracking now tracking =
     (case tracking of
        None \<Rightarrow> ControlError ''this daemon runs no discipline loop; tracking is served by `rtimed sync`''
      | Some None \<Rightarrow> ControlError ''tracking state is poisoned''
      | Some (Some t) \<Rightarrow> TrackingIs (snapshot now t))"

definition handle_server ::
  "('k \<Rightarrow> string) \<Rightarrow> u64 option \<Rightarrow> f64 option \<Rightarrow> ControlRequest \<Rightarrow> 'k ServerState \<Rightarrow> ControlResponse option" where
  "handle_server show now_unix mono_s request sv =
     (case request of
        GetServerStats \<Rightarrow> Some (ServerStatsAre (stats_report now_unix sv))
      | GetClients limit \<Rightarrow>
          map_option (\<lambda>rows. ClientsAre (map (client_row show (case mono_s of None \<Rightarrow> FFin 0 | Some n \<Rightarrow> n)) rows))
            (most_recent (min limit 4096) (sv_clients sv))
      | GetNtsData \<Rightarrow> Some (NtsDataIs (key_ids (sv_ring sv)))
      | _ \<Rightarrow> Some (ControlError ''unreachable: handled above''))"

definition control_handle ::
  "('k \<Rightarrow> string) \<Rightarrow> nat \<Rightarrow> u64 option \<Rightarrow> f64 option \<Rightarrow> ControlRequest \<Rightarrow> 'k ControlState \<Rightarrow> ControlResponse option" where
  "control_handle show now now_unix mono_s request state =
     (if request = Ping then Some Pong
      else if request = GetTracking then Some (handle_tracking now (co_tracking state))
      else case co_server state of
        None \<Rightarrow> Some (ControlError ''this daemon runs no server; these ops are served by `rtimed serve`'')
      | Some None \<Rightarrow> Some (ControlError ''server state is poisoned'')
      | Some (Some sv) \<Rightarrow> handle_server show now_unix mono_s request sv)"

section \<open>Lemmas\<close>

lemma f_of_int_mono: "m \<le> n \<Longrightarrow> fle (f_of_int m) (f_of_int n)"
  unfolding f_of_int_def by (rule fle_rnd) simp

lemma as_secs_parts:
  assumes "ns < 2 ^ 53 * 1000000000"
  shows "as_secs_f64 ns = rnd False (of_nat (ns div 1000000000) + rndr (of_nat (ns mod 1000000000) / 1000000000))"
    "0 \<le> rndr (of_nat (ns mod 1000000000) / 1000000000 :: rat)" "rndr (of_nat (ns mod 1000000000) / 1000000000 :: rat) \<le> 1"
proof -
  define s where "s = ns div 1000000000"
  define n where "n = ns mod 1000000000"
  have s: "s < 2 ^ 53" unfolding s_def by (rule less_mult_imp_div_less[OF assms])
  have n: "n < 1000000000" by (simp add: n_def)
  have fs: "f_of_int (int s) = FFin (of_nat s)" "f_of_int (int n) = FFin (of_nat n)"
    using f_of_int_exact[of "int s"] f_of_int_exact[of "int n"] s n by simp_all
  have "(of_nat n :: rat) \<le> of_nat 1000000000" unfolding of_nat_le_iff using n by simp
  then have q: "(of_nat n / 1000000000 :: rat) \<le> 1" by simp
  have r: "0 \<le> rndr (of_nat n / 1000000000 :: rat)" "rndr (of_nat n / 1000000000 :: rat) \<le> 1"
    using rndr_nonneg[of "of_nat n / 1000000000"] rndr_mono[OF q] rndr_int[of 1] by simp_all
  show "0 \<le> rndr (of_nat (ns mod 1000000000) / 1000000000 :: rat)" "rndr (of_nat (ns mod 1000000000) / 1000000000 :: rat) \<le> 1"
    using r by (simp_all add: n_def)
  have "fbnd 0 (rnd False (of_nat n / 1000000000))" using q by (intro fbnd_rnd) simp_all
  then have fin: "is_finite (rnd False (of_nat n / 1000000000))" "fval (rnd False (of_nat n / 1000000000)) = rndr (of_nat n / 1000000000)"
    by (auto simp: fbnd_def intro!: fval_rnd) (cases "rnd False (of_nat n / 1000000000)"; simp)
  show "as_secs_f64 ns = rnd False (of_nat (ns div 1000000000) + rndr (of_nat (ns mod 1000000000) / 1000000000))"
    using fin by (simp add: as_secs_f64_def flip: s_def n_def) (simp add: fs fdiv_finite fadd_finite)
qed

lemma as_secs_mono:
  assumes "a \<le> b" "b < 2 ^ 53 * 1000000000"
  shows "fle (as_secs_f64 a) (as_secs_f64 b)"
proof -
  have a: "a < 2 ^ 53 * 1000000000" using assms by simp
  have "a div 1000000000 < b div 1000000000 \<or> a div 1000000000 = b div 1000000000 \<and> a mod 1000000000 \<le> b mod 1000000000"
    using assms(1) div_le_mono[OF assms(1), of 1000000000] div_mult_mod_eq[of a 1000000000] div_mult_mod_eq[of b 1000000000] by linarith
  then have "of_nat (a div 1000000000) + rndr (of_nat (a mod 1000000000) / 1000000000)
    \<le> (of_nat (b div 1000000000) + rndr (of_nat (b mod 1000000000) / 1000000000) :: rat)"
  proof
    assume "a div 1000000000 < b div 1000000000"
    then have "(of_nat (a div 1000000000) + 1 :: rat) \<le> of_nat (b div 1000000000)"
      by (metis Suc_leI of_nat_Suc of_nat_mono add.commute)
    then show ?thesis using as_secs_parts(2)[OF assms(2)] as_secs_parts(3)[OF a] by linarith
  next
    assume "a div 1000000000 = b div 1000000000 \<and> a mod 1000000000 \<le> b mod 1000000000"
    then show ?thesis by (simp add: rndr_mono divide_right_mono)
  qed
  then show ?thesis unfolding as_secs_parts(1)[OF a] as_secs_parts(1)[OF assms(2)] by (rule fle_rnd)
qed

lemma as_secs_finite: "b < 2 ^ 53 * 1000000000 \<Longrightarrow> is_finite (as_secs_f64 b) \<and> fle (FFin 0) (as_secs_f64 b)"
proof -
  assume b: "b < 2 ^ 53 * 1000000000"
  have "b div 1000000000 < 2 ^ 53" by (rule less_mult_imp_div_less[OF b])
  then have "(of_nat (b div 1000000000) :: rat) \<le> of_nat (2 ^ 53)" unfolding of_nat_le_iff by simp
  then have "\<bar>of_nat (b div 1000000000) + rndr (of_nat (b mod 1000000000) / 1000000000) :: rat\<bar> \<le> pow2 54"
    using as_secs_parts(2,3)[OF b] by (simp add: pow2_def)
  then have "fbnd 54 (as_secs_f64 b)" unfolding as_secs_parts(1)[OF b] by (intro fbnd_rnd) simp_all
  moreover have "fle (FFin 0) (as_secs_f64 b)"
    unfolding as_secs_parts(1)[OF b] using as_secs_parts(2)[OF b] by (intro fle_rnd_0) simp
  ultimately show ?thesis by (simp add: fbnd_def)
qed

lemma age_drift:
  assumes "a \<le> b" "b < 2 ^ 53 * 1000000000"
  shows "fle (fmul (fmul (as_secs_f64 a) STALE_DRIFT_PPM) (flit (1 / 1000000))) (fmul (fmul (as_secs_f64 b) STALE_DRIFT_PPM) (flit (1 / 1000000)))"
    "is_finite (fmul (fmul (as_secs_f64 b) STALE_DRIFT_PPM) (flit (1 / 1000000)))"
proof -
  have s: "fbnd 54 (as_secs_f64 b)" if "b < 2 ^ 53 * 1000000000" for b
  proof -
    have "b div 1000000000 < 2 ^ 53" by (rule less_mult_imp_div_less[OF that])
    then have "(of_nat (b div 1000000000) :: rat) \<le> of_nat (2 ^ 53)" unfolding of_nat_le_iff by simp
    then have "\<bar>of_nat (b div 1000000000) + rndr (of_nat (b mod 1000000000) / 1000000000) :: rat\<bar> \<le> pow2 54"
      using as_secs_parts(2,3)[OF that] by (simp add: pow2_def)
    then show ?thesis unfolding as_secs_parts(1)[OF that] by (intro fbnd_rnd) simp_all
  qed
  have k: "fbnd 7 STALE_DRIFT_PPM" "fle (FFin 0) STALE_DRIFT_PPM" by (simp_all add: STALE_DRIFT_PPM_def fbnd_def pow2_def)
  have l: "fbnd 0 (flit (1 / 1000000))" "fle (FFin 0) (flit (1 / 1000000))"
    unfolding flit_def by (intro fbnd_rnd fle_rnd_0; simp)+
  have m: "fbnd 61 (fmul (as_secs_f64 b) STALE_DRIFT_PPM)" if "b < 2 ^ 53 * 1000000000" for b
    using fbnd_fmul[OF s[OF that] k(1)] by simp
  show "is_finite (fmul (fmul (as_secs_f64 b) STALE_DRIFT_PPM) (flit (1 / 1000000)))"
    using fbnd_fmul[OF m[OF assms(2)] l(1)] by (simp add: fbnd_def)
  show "fle (fmul (fmul (as_secs_f64 a) STALE_DRIFT_PPM) (flit (1 / 1000000))) (fmul (fmul (as_secs_f64 b) STALE_DRIFT_PPM) (flit (1 / 1000000)))"
  proof -
    have p: "0 < fval STALE_DRIFT_PPM" "0 < fval (flit (1 / 1000000))" by code_simp+
    have "fle (fmul STALE_DRIFT_PPM (as_secs_f64 a)) (fmul STALE_DRIFT_PPM (as_secs_f64 b))"
      using as_secs_mono[OF assms] k p by (intro fmul_mono) (simp_all add: fbnd_def)
    then have "fle (fmul (flit (1 / 1000000)) (fmul STALE_DRIFT_PPM (as_secs_f64 a))) (fmul (flit (1 / 1000000)) (fmul STALE_DRIFT_PPM (as_secs_f64 b)))"
      by (rule fmul_mono) (use l p in \<open>simp_all add: fbnd_def\<close>)
    then show ?thesis by (simp add: fmul_commute)
  qed
qed

lemma stale_trans: "fle a b \<Longrightarrow> flt s a \<Longrightarrow> flt s b"
  using fle_trans[of s a b] fle_trans[of b s a] fle_trans[of a b s] unfolding flt_iff by (meson fle_trans)

text \<open>C31: a consumer of the control socket is never told to trust a loop that has gone
quiet.  However long after a publication it asks, it is told \<open>synchronized\<close> only if the loop said so and no
later than the stale age; once told otherwise it stays so until the next publication, and the error bound it
is given never shrinks with time.  Before any publication the answer is unsynchronized with an infinite bound.\<close>

theorem tracking_fails_closed:
  assumes "t0 \<le> now1" "now1 \<le> now2" "now2 - t0 < 2 ^ 53 * 1000000000" "\<not> is_nan bound"
    and "control_handle show now1 u m GetTracking (control_for_sync (publish lg t0 synced off freq bound poll)) = Some (TrackingIs r1)"
    and "control_handle show now2 u m GetTracking (control_for_sync (publish lg t0 synced off freq bound poll)) = Some (TrackingIs r2)"
  shows "(tr_synchronized r2 \<longrightarrow> synced \<and> tr_synchronized r1 \<and>
      \<not> flt (fmax (fmul (FFin 4) (fmax poll (FFin 1))) (FFin 64)) (as_secs_f64 (now2 - t0))) \<and>
    fle (tr_error_bound_s r1) (tr_error_bound_s r2) \<and>
    (\<exists>r. control_handle show now1 u m GetTracking (control_for_sync (tracking_unsynchronized t0)) = Some (TrackingIs r) \<and>
       \<not> tr_synchronized r \<and> tr_error_bound_s r = FInf False)"
proof -
  let ?T = "publish lg t0 synced off freq bound poll"
  have r: "r1 = snapshot now1 ?T" "r2 = snapshot now2 ?T"
    using assms(5,6) by (simp_all add: control_handle_def handle_tracking_def control_for_sync_def)
  have le: "now1 - t0 \<le> now2 - t0" using assms(2) by simp
  note ag = as_secs_mono[OF le assms(3)] age_drift[OF le assms(3)]
  have st: "stale_after_s ?T = fmax (fmul (FFin 4) (fmax poll (FFin 1))) (FFin 64)" by (simp add: stale_after_s_def publish_def)
  have "tr_synchronized (snapshot now ?T) \<longleftrightarrow> synced \<and> \<not> flt (stale_after_s ?T) (as_secs_f64 (now - t0))" for now
    by (simp add: snapshot_def publish_def Let_def)
  then have 1: "tr_synchronized r2 \<longrightarrow> synced \<and> tr_synchronized r1 \<and> \<not> flt (stale_after_s ?T) (as_secs_f64 (now2 - t0))"
    using stale_trans[OF ag(1)] by (auto simp: r)
  define d where "d = (\<lambda>now. fmul (fmul (as_secs_f64 (now - t0)) STALE_DRIFT_PPM) (flit (1 / 1000000)))"
  have eb: "tr_error_bound_s (snapshot now ?T) = fadd bound (d now)" for now
    by (simp add: snapshot_def publish_def Let_def d_def)
  have f1: "is_finite (d now1)" using age_drift(2)[of "now1 - t0" "now1 - t0"] assms(3) le by (simp add: d_def)
  have 2: "fle (tr_error_bound_s r1) (tr_error_bound_s r2)"
  proof (cases "is_finite bound")
    case True
    then show ?thesis using fadd_mono[OF ag(2)[folded d_def] True] by (simp add: r eb d_def fadd_commute)
  next
    case False
    then show ?thesis using assms(4) f1 ag(3)
      unfolding r eb d_def by (cases bound; cases "d now1"; cases "d now2") (simp_all add: d_def)
  qed
  have "fadd (FInf False) (d now1) = FInf False" using f1 by (cases "d now1") simp_all
  then have 3: "\<exists>r. control_handle show now1 u m GetTracking (control_for_sync (tracking_unsynchronized t0)) = Some (TrackingIs r) \<and>
       \<not> tr_synchronized r \<and> tr_error_bound_s r = FInf False"
    by (simp add: control_handle_def handle_tracking_def control_for_sync_def snapshot_def tracking_unsynchronized_def Let_def d_def)
  show ?thesis using 1 2 3 by (simp add: st)
qed

lemma tracking_fails_closed_witness:
  "let t = publish id 0 True (FFin 0) (FFin 0) (FFin 1) (FFin 16);
       r1 = snapshot 3000000000 t; r2 = snapshot 70000000000 t in
   \<not> tr_synchronized r2 \<and> fle (tr_error_bound_s r1) (tr_error_bound_s r2)"
proof -
  define t where "t = publish id 0 True (FFin 0) (FFin 0) (FFin 1) (FFin 16)"
  have q: "control_handle (\<lambda>_ :: u32. []) now None None GetTracking (control_for_sync t) = Some (TrackingIs (snapshot now t))" for now
    by (simp add: control_handle_def handle_tracking_def control_for_sync_def)
  have s: "flt (fmax (fmul (FFin 4) (fmax (FFin 16) (FFin 1))) (FFin 64)) (as_secs_f64 (70000000000 - 0))"
    by (simp add: as_secs_f64_def) code_simp
  show ?thesis
    using tracking_fails_closed[OF _ _ _ _ q[of 3000000000, unfolded t_def] q[of 70000000000, unfolded t_def]] s
    unfolding Let_def t_def[symmetric] by (simp del: One_nat_def)
qed

end
