(* ===== verification/RefId.thy ===== *)
theory RefId
  imports Prelude
begin

text \<open>The reference id a server reports for the source it follows
(\<open>crates/rusty_time-daemon/src/refid.rs\<close>): an IPv4 address itself, or the first four octets of the MD5 digest
of an IPv6 address, with the single-block MD5 of the file.\<close>

datatype IpAddr = V4 bytes | V6 bytes

definition MD5_S :: "nat list" where
  "MD5_S = [7, 12, 17, 22, 7, 12, 17, 22, 7, 12, 17, 22, 7, 12, 17, 22,
     5, 9, 14, 20, 5, 9, 14, 20, 5, 9, 14, 20, 5, 9, 14, 20,
     4, 11, 16, 23, 4, 11, 16, 23, 4, 11, 16, 23, 4, 11, 16, 23,
     6, 10, 15, 21, 6, 10, 15, 21, 6, 10, 15, 21, 6, 10, 15, 21]"

definition MD5_K :: "u32 list" where
  "MD5_K = [0xd76aa478, 0xe8c7b756, 0x242070db, 0xc1bdceee, 0xf57c0faf, 0x4787c62a, 0xa8304613, 0xfd469501,
     0x698098d8, 0x8b44f7af, 0xffff5bb1, 0x895cd7be, 0x6b901122, 0xfd987193, 0xa679438e, 0x49b40821,
     0xf61e2562, 0xc040b340, 0x265e5a51, 0xe9b6c7aa, 0xd62f105d, 0x02441453, 0xd8a1e681, 0xe7d3fbc8,
     0x21e1cde6, 0xc33707d6, 0xf4d50d87, 0x455a14ed, 0xa9e3e905, 0xfcefa3f8, 0x676f02d9, 0x8d2a4c8a,
     0xfffa3942, 0x8771f681, 0x6d9d6122, 0xfde5380c, 0xa4beea44, 0x4bdecfa9, 0xf6bb4b60, 0xbebfbc70,
     0x289b7ec6, 0xeaa127fa, 0xd4ef3085, 0x04881d05, 0xd9d4d039, 0xe6db99e5, 0x1fa27cf8, 0xc4ac5665,
     0xf4292244, 0x432aff97, 0xab9423a7, 0xfc93a039, 0x655b59c3, 0x8f0ccc92, 0xffeff47d, 0x85845dd1,
     0x6fa87e4f, 0xfe2ce6e0, 0xa3014314, 0x4e0811a1, 0xf7537e82, 0xbd3af235, 0x2ad7d2bb, 0xeb86d391]"

definition md5_block :: "bytes \<Rightarrow> bytes" where
  "md5_block message = (message @ [0x80] @ replicate 47 0)[56 := 128]"

definition of_le4 :: "bytes \<Rightarrow> nat \<Rightarrow> u32" where
  "of_le4 b i = of_be (rev (slice b (4 * i) (4 * i + 4)))"

definition to_le4 :: "u32 \<Rightarrow> bytes" where "to_le4 w = rev (to_be 4 w)"

definition md5_words :: "bytes \<Rightarrow> u32 list" where
  "md5_words block = map (of_le4 block) [0..<16]"

definition md5_mix :: "nat \<Rightarrow> u32 \<Rightarrow> u32 \<Rightarrow> u32 \<Rightarrow> u32 \<times> nat" where
  "md5_mix i b c d =
     (if i div 16 = 0 then ((b AND c) OR (NOT b AND d), i)
      else if i div 16 = 1 then ((d AND b) OR (NOT d AND c), (5 * i + 1) mod 16)
      else if i div 16 = 2 then (b XOR c XOR d, (3 * i + 5) mod 16)
      else (c XOR (b OR NOT d), (7 * i) mod 16))"

definition md5_round :: "u32 list \<Rightarrow> nat \<Rightarrow> u32 \<times> u32 \<times> u32 \<times> u32 \<Rightarrow> u32 \<times> u32 \<times> u32 \<times> u32" where
  "md5_round m i = (\<lambda>(a, b, c, d).
     let (f, g) = md5_mix i b c d;
         rotated = word_rotl (MD5_S ! i) (a + f + MD5_K ! i + m ! g)
     in (d, b + rotated, b, c))"

fun md5_out :: "u32 \<times> u32 \<times> u32 \<times> u32 \<Rightarrow> bytes" where
  "md5_out (a, b, c, d) =
     to_le4 (0x67452301 + a) @ to_le4 (0xefcdab89 + b) @ to_le4 (0x98badcfe + c) @ to_le4 (0x10325476 + d)"

definition md5_rounds :: "u32 list \<Rightarrow> u32 \<times> u32 \<times> u32 \<times> u32" where
  "md5_rounds m = fold (md5_round m) [0..<64] (0x67452301, 0xefcdab89, 0x98badcfe, 0x10325476)"

definition md5_16 :: "bytes \<Rightarrow> bytes" where
  "md5_16 message = md5_out (md5_rounds (md5_words (md5_block message)))"

fun reference_id :: "IpAddr \<Rightarrow> bytes" where
  "reference_id (V4 octets) = octets"
| "reference_id (V6 octets) = take 4 (md5_16 octets)"

fun ip_ok :: "IpAddr \<Rightarrow> bool" where
  "ip_ok (V4 octets) \<longleftrightarrow> length octets = 4"
| "ip_ok (V6 octets) \<longleftrightarrow> length octets = 16"

lemma length_md5_out [simp]: "length (md5_out s) = 16"
  by (cases s) (simp add: to_le4_def)

lemma length_reference_id: "ip_ok a \<Longrightarrow> length (reference_id a) = 4"
  by (cases a) (simp_all add: md5_16_def)

text \<open>The digest of 2001:db8::1, one of the file's test vectors, computed by another implementation.\<close>

lemma ipv6_reference_id:
  "reference_id (V6 ([0x20, 0x01, 0x0d, 0xb8] @ replicate 11 0 @ [1])) = [57, 171, 155, 55]"
  by code_simp

end
