(* ===== verification/SyncLoop.thy ===== *)
theory SyncLoop
  imports SyncExchange ControlPlane RefId
begin

text \<open>The client daemon's loop, \<open>run\<close> of \<open>crates/rusty_time-daemon/src/sync.rs\<close>: the quorum and the choice of the
source that steers, one visit to a due source, one pass of the loop with its drain and its wait, and what is
published to the control socket and to the clients of \<open>--serve\<close>.  \<open>Instant\<close>s and \<open>Duration\<close>s are nanoseconds;
clock readings, exchanges and the driver's answers are arguments.  An outer \<open>None\<close> is a panic.\<close>

section \<open>Durations\<close>

definition DURATION_LIMIT_NS :: nat where "DURATION_LIMIT_NS = 2 ^ 64 * 1000000000"
definition INSTANT_LIMIT_NS :: nat where "INSTANT_LIMIT_NS = 2 ^ 63 * 1000000000"

text \<open>\<open>Duration::from_secs_f64\<close>: the nearest nanosecond, panicking on a negative, not finite or too large value.\<close>

fun duration_from_secs_f64 :: "f64 \<Rightarrow> nat option" where
  "duration_from_secs_f64 (FFin r) =
     (if r < 0 then None
      else let n = nat (rne (r * 1000000000)) in if n < DURATION_LIMIT_NS then Some n else None)"
| "duration_from_secs_f64 FNegZero = Some 0"
| "duration_from_secs_f64 _ = None"

definition instant_add :: "nat \<Rightarrow> nat \<Rightarrow> nat option" where
  "instant_add t d = (if t + d < INSTANT_LIMIT_NS then Some (t + d) else None)"

definition after_secs :: "nat \<Rightarrow> f64 \<Rightarrow> nat option" where
  "after_secs now secs = (case duration_from_secs_f64 secs of None \<Rightarrow> None | Some d \<Rightarrow> instant_add now d)"

section \<open>Which source steers\<close>

definition UNREACHABLE_AFTER :: u32 where "UNREACHABLE_AFTER = 4"
definition MAX_REFUSALS :: u32 where "MAX_REFUSALS = 10"

definition answering :: "Source list \<Rightarrow> nat" where
  "answering sources = length (filter (\<lambda>s. sr_has_estimate s \<or> sr_lost_in_a_row s < UNREACHABLE_AFTER) sources)"

definition heard :: "Source list \<Rightarrow> nat" where
  "heard sources = length (filter sr_has_estimate sources)"

definition source_estimate :: "nat \<times> Source \<Rightarrow> SourceEstimate" where
  "source_estimate iv = \<lparr> src_id = fst iv, src_offset = sr_last_offset_s (snd iv),
     src_root_distance = fmax (sr_last_root_distance_s (snd iv)) e_minus9, src_stratum = sr_last_stratum (snd iv) \<rparr>"

definition estimates :: "Source list \<Rightarrow> SourceEstimate list" where
  "estimates sources = map source_estimate (filter (\<lambda>iv. sr_has_estimate (snd iv)) (List.enumerate 0 sources))"

definition selected_index :: "Source list \<Rightarrow> nat option" where
  "selected_index sources =
     (if 1 < answering sources \<and> heard sources * 2 \<le> answering sources then None
      else if estimates sources = [] then None
      else case sel_truechimers (select (estimates sources)) of [] \<Rightarrow> None | i # _ \<Rightarrow> Some i)"

section \<open>State\<close>

record SyncOptions =
  so_dry_run :: bool
  so_run_seconds :: nat
  so_discipline :: DisciplineConfig
  so_stop_drains :: bool

record 'k SyncState =
  sy_sources :: "Source list"
  sy_ctl :: MultiController
  sy_tracking :: TrackingState
  sy_served :: "'k ServerState option"
  sy_served_synced_at :: "nat option"
  sy_refused_in_a_row :: u32
  sy_holding :: bool
  sy_applied_any :: bool
  sy_clock_set :: bool
  sy_drains_retired :: u64

text \<open>The start of the loop.  The configuration clamped to what the driver can deliver is only handed to
\<open>open_source\<close>, which ignores it; the controller is built from the options' own.\<close>

definition clamped_config :: "f64 \<Rightarrow> DisciplineConfig \<Rightarrow> DisciplineConfig" where
  "clamped_config caps_max_slew_ppm c = c\<lparr> cf_max_slew_ppm := fmin (cf_max_slew_ppm c) caps_max_slew_ppm \<rparr>"

definition sync_start :: "SyncOptions \<Rightarrow> Source list \<Rightarrow> 'k ServerState option \<Rightarrow> nat \<Rightarrow> 'k SyncState" where
  "sync_start opts sources served now = \<lparr>
     sy_sources = sources, sy_ctl = multi_new (so_discipline opts) (length sources),
     sy_tracking = tracking_unsynchronized now, sy_served = served, sy_served_synced_at = None,
     sy_refused_in_a_row = 0, sy_holding = False, sy_applied_any = False, sy_clock_set = False,
     sy_drains_retired = 0 \<rparr>"

text \<open>The commands sent to the driver, with what caused them (a drain that ended, a hold for want of a majority,
or the plan of a source, with the verdict on the change) and whether the driver took them.\<close>

datatype Cause = Drained | Held | Planned nat ChangeVerdict

type_synonym Driven = "(Cause \<times> ClockCommand \<times> bool) list"

section \<open>One source\<close>

text \<open>What one visit meets: the \<open>Instant\<close>s it reads, its exchange, the monotonic clock after it, the driver's
answer to a command, and the peer's address.\<close>

record SourceIn =
  in_due_now :: nat
  in_exchange :: ExchangeEnv
  in_mono :: "f64 option"
  in_resched_now :: nat
  in_driver :: bool
  in_publish_now :: nat
  in_peer :: "IpAddr option"
  in_synced_now :: nat

definition put_source :: "nat \<Rightarrow> Source \<Rightarrow> 'k SyncState \<Rightarrow> 'k SyncState" where
  "put_source i source s = s\<lparr> sy_sources := (sy_sources s)[i := source] \<rparr>"

definition reschedule :: "nat \<Rightarrow> nat \<Rightarrow> f64 \<Rightarrow> 'k SyncState \<Rightarrow> 'k SyncState option" where
  "reschedule i now secs s =
     (case after_secs now secs of None \<Rightarrow> None
      | Some due \<Rightarrow> Some (put_source i ((sy_sources s ! i)\<lparr> sr_due := due \<rparr>) s))"

definition note_lost :: "Source \<Rightarrow> Source" where
  "note_lost source = source\<lparr> sr_lost := sr_lost source + 1, sr_lost_in_a_row := sat_inc (sr_lost_in_a_row source) \<rparr>"

definition note_answer :: "Estimate \<Rightarrow> u8 \<Rightarrow> f64 \<Rightarrow> Source \<Rightarrow> Source" where
  "note_answer measured stratum root_distance source = source\<lparr> sr_exchanges := sr_exchanges source + 1, sr_lost_in_a_row := 0,
     sr_last_offset_s := ce_offset_s measured, sr_last_root_distance_s := fadd root_distance (ce_sd_s measured),
     sr_last_stratum := stratum, sr_has_estimate := True \<rparr>"

definition visit_lost :: "nat \<Rightarrow> SourceIn \<Rightarrow> 'k SyncState \<Rightarrow> ('k SyncState \<times> Driven \<times> int option) option" where
  "visit_lost i si s =
     map_option (\<lambda>s'. (s', [], None))
       (reschedule i (in_resched_now si) (retry_interval_s (mc_discipline (sy_ctl s))) (put_source i (note_lost (sy_sources s ! i)) s))"

definition hold_if_no_majority :: "bool \<Rightarrow> nat option \<Rightarrow> bool \<Rightarrow> 'k SyncState \<Rightarrow> 'k SyncState \<times> Driven" where
  "hold_if_no_majority dry_run selected driver s =
     (if selected \<noteq> None then (s\<lparr> sy_holding := False \<rparr>, [])
      else if dry_run then (s, [])
      else (s\<lparr> sy_holding := True \<rparr>, [(Held, Slew (mc_freq_cmd_ppm (sy_ctl s)) (FFin 0) (FFin 0), driver)]))"

text \<open>What the clients of \<open>--serve\<close> are told after a correction from a source.\<close>

definition vouch :: "Source \<Rightarrow> IpAddr \<Rightarrow> 'k ServerState \<Rightarrow> 'k ServerState" where
  "vouch source peer sv = sv\<lparr>
     sv_stratum := min (if sr_last_stratum source = 255 then 255 else sr_last_stratum source + 1) STRATUM_UNSYNCHRONIZED,
     sv_upstream := \<lparr> up_leap = NoWarning, up_reference_id = reference_id peer, up_root_delay_s = FFin 0,
                      up_root_dispersion_s = sr_last_root_distance_s source \<rparr> \<rparr>"

definition serve_view :: "bool \<Rightarrow> Source \<Rightarrow> SourceIn \<Rightarrow> 'k SyncState \<Rightarrow> 'k SyncState" where
  "serve_view synchronized source si s =
     (case (sy_served s, in_peer si) of
        (Some sv, Some peer) \<Rightarrow>
          if synchronized then s\<lparr> sy_served := Some (vouch source peer sv), sy_served_synced_at := Some (in_synced_now si) \<rparr> else s
      | _ \<Rightarrow> s)"

definition publish_step :: "(f64 \<Rightarrow> f64) \<Rightarrow> bool \<Rightarrow> nat \<Rightarrow> SourceIn \<Rightarrow> ControllerStep \<Rightarrow> 'k SyncState \<Rightarrow> 'k SyncState" where
  "publish_step lg steered i si step s =
     (let synchronized = (steered \<and> st_verdict step = Accepted) in
      serve_view synchronized (sy_sources s ! i) si
        (s\<lparr> sy_tracking := publish lg (in_publish_now si) synchronized (st_estimate_offset_s step)
             (case st_estimate_freq_ppm step of None \<Rightarrow> FFin 0 | Some f \<Rightarrow> f) (st_estimate_sd_s step)
             (pl_next_poll_s (st_plan step)) \<rparr>))"

definition apply_accepted :: "'k SyncState \<Rightarrow> 'k SyncState" where
  "apply_accepted s = s\<lparr> sy_applied_any := True, sy_clock_set := True, sy_refused_in_a_row := 0,
     sy_ctl := confirm_last_plan (sy_ctl s) \<rparr>"

definition apply_refused :: "'k SyncState \<Rightarrow> 'k SyncState" where
  "apply_refused s = s\<lparr> sy_ctl := snd (revert_last_plan (sy_ctl s)), sy_refused_in_a_row := sy_refused_in_a_row s + 1 \<rparr>"

definition command_clock :: "(f64 \<Rightarrow> f64) \<Rightarrow> bool \<Rightarrow> nat \<Rightarrow> SourceIn \<Rightarrow> ControllerStep \<Rightarrow> 'k SyncState \<Rightarrow> 'k SyncState \<times> Driven \<times> int option" where
  "command_clock lg dry_run i si step s =
     (let cmd = pl_command (st_plan step) in
      if dry_run then (publish_step lg False i si step s, [], None)
      else if in_driver si then (publish_step lg True i si step (apply_accepted s), [(Planned i (st_verdict step), cmd, True)], None)
      else let s' = apply_refused s in
        if MAX_REFUSALS \<le> sy_refused_in_a_row s' then (s', [(Planned i (st_verdict step), cmd, False)], Some 1)
        else (publish_step lg False i si step s', [(Planned i (st_verdict step), cmd, False)], None))"

definition steer_selected ::
  "(f64 \<Rightarrow> f64) \<Rightarrow> bool \<Rightarrow> nat \<Rightarrow> SourceIn \<Rightarrow> Estimate \<Rightarrow> f64 \<Rightarrow> 'k SyncState \<Rightarrow> ('k SyncState \<times> Driven \<times> int option) option" where
  "steer_selected lg dry_run i si measured mono_now s =
     (case steer_plan measured mono_now (sr_leap_pending (sy_sources s ! i)) (sy_ctl s) of None \<Rightarrow> None
      | Some (step, ctl) \<Rightarrow>
          (case reschedule i (in_resched_now si) (pl_next_poll_s (st_plan step)) (s\<lparr> sy_ctl := ctl \<rparr>) of None \<Rightarrow> None
           | Some s' \<Rightarrow> Some (case st_verdict step of GiveUp _ \<Rightarrow> (s', [], Some 1)
               | _ \<Rightarrow> command_clock lg dry_run i si step (s'\<lparr> sy_holding := False \<rparr>))))"

definition visit_answered ::
  "(f64 \<Rightarrow> f64 \<Rightarrow> f64) \<Rightarrow> (f64 \<Rightarrow> f64) \<Rightarrow> bool \<Rightarrow> nat \<Rightarrow> SourceIn \<Rightarrow> Sample \<times> u8 \<times> f64 \<Rightarrow> f64 \<Rightarrow> 'k SyncState \<Rightarrow>
   ('k SyncState \<times> Driven \<times> int option) option" where
  "visit_answered pw lg dry_run i si answer mono_now s =
     (case observe pw i mono_now (fst answer) (sy_ctl s) of None \<Rightarrow> None
      | Some (measured, ctl) \<Rightarrow>
          let s' = put_source i (note_answer measured (fst (snd answer)) (snd (snd answer)) (sy_sources s ! i)) (s\<lparr> sy_ctl := ctl \<rparr>);
              selected = selected_index (sy_sources s') in
          if selected = Some i then steer_selected lg dry_run i si measured mono_now s'
          else map_option (\<lambda>s''. case hold_if_no_majority dry_run selected (in_driver si) s'' of (t, driven) \<Rightarrow> (t, driven, None))
                 (reschedule i (in_resched_now si) (poll_interval_s ctl) s'))"

definition visit ::
  "Aead \<Rightarrow> (f64 \<Rightarrow> f64 \<Rightarrow> f64) \<Rightarrow> (f64 \<Rightarrow> f64) \<Rightarrow> bool \<Rightarrow> nat \<Rightarrow> SourceIn \<Rightarrow> 'k SyncState \<Rightarrow> ('k SyncState \<times> Driven \<times> int option) option" where
  "visit c pw lg dry_run i si s =
     (if in_due_now si < sr_due (sy_sources s ! i) then Some (s, [], None)
      else case exchange c (in_exchange si) (sy_sources s ! i) of
        (None, source) \<Rightarrow> visit_lost i si (put_source i source s)
      | (Some answer, source) \<Rightarrow>
          (case in_mono si of None \<Rightarrow> Some (put_source i source s, [], None)
           | Some mono_now \<Rightarrow> visit_answered pw lg dry_run i si answer mono_now (put_source i source s)))"

fun visit_all ::
  "Aead \<Rightarrow> (f64 \<Rightarrow> f64 \<Rightarrow> f64) \<Rightarrow> (f64 \<Rightarrow> f64) \<Rightarrow> bool \<Rightarrow> (nat \<Rightarrow> SourceIn) \<Rightarrow> nat list \<Rightarrow> 'k SyncState \<Rightarrow>
   ('k SyncState \<times> Driven \<times> int option) option" where
  "visit_all c pw lg dry_run ins [] s = Some (s, [], None)"
| "visit_all c pw lg dry_run ins (i # is) s =
     (case visit c pw lg dry_run i (ins i) s of None \<Rightarrow> None
      | Some (s', driven, Some code) \<Rightarrow> Some (s', driven, Some code)
      | Some (s', driven, None) \<Rightarrow>
          map_option (\<lambda>(t, more, code). (t, driven @ more, code)) (visit_all c pw lg dry_run ins is s'))"

section \<open>One pass\<close>

record PassIn =
  pi_elapsed_s :: nat
  pi_stop :: bool
  pi_stale_now :: nat
  pi_mono :: "f64 option"
  pi_drain_driver :: bool
  pi_wait_now :: nat
  pi_source :: "nat \<Rightarrow> SourceIn"

datatype PassEnd = Again | Finished bool | Exit int

definition served_stale_after :: "SyncOptions \<Rightarrow> nat option" where
  "served_stale_after opts = duration_from_secs_f64 (fmul (FFin 4) (exp2i (cf_max_poll (so_discipline opts))))"

definition expire_served :: "nat \<Rightarrow> nat \<Rightarrow> 'k SyncState \<Rightarrow> 'k SyncState" where
  "expire_served stale_after now s =
     (case (sy_served s, sy_served_synced_at s) of
        (Some sv, Some synced_at) \<Rightarrow>
          if stale_after < now - synced_at
          then s\<lparr> sy_served := Some (sv\<lparr> sv_stratum := STRATUM_UNSYNCHRONIZED, sv_upstream := UNSYNCHRONIZED \<rparr>),
                  sy_served_synced_at := None \<rparr>
          else s
      | _ \<Rightarrow> s)"

definition end_drain :: "SyncOptions \<Rightarrow> f64 \<Rightarrow> bool \<Rightarrow> 'k SyncState \<Rightarrow> 'k SyncState \<times> Driven" where
  "end_drain opts mono_now driver s =
     (if \<not> so_stop_drains opts then (s, [])
      else case poll_drain mono_now (sy_ctl s) of
        (None, ctl) \<Rightarrow> (s\<lparr> sy_ctl := ctl \<rparr>, [])
      | (Some command, ctl) \<Rightarrow>
          let s' = s\<lparr> sy_ctl := ctl, sy_drains_retired := sy_drains_retired s + 1 \<rparr> in
          if so_dry_run opts then (s', [])
          else ((if driver then s' else s'\<lparr> sy_refused_in_a_row := sy_refused_in_a_row s' + 1 \<rparr>), [(Drained, command, driver)]))"

definition until_due :: "nat \<Rightarrow> Source list \<Rightarrow> nat" where
  "until_due now sources = (if sources = [] then 0 else Min (set (map sr_due sources)) - now)"

definition until_drain :: "SyncOptions \<Rightarrow> f64 \<Rightarrow> MultiController \<Rightarrow> f64" where
  "until_drain opts mono_now ctl =
     (case drain_completes_at ctl of None \<Rightarrow> FInf False
      | Some completes_at \<Rightarrow>
          if so_stop_drains opts \<and> flt (FFin 0) (fsub completes_at mono_now) then fsub completes_at mono_now else FInf False)"

definition pass_wait :: "SyncOptions \<Rightarrow> f64 \<Rightarrow> nat \<Rightarrow> 'k SyncState \<Rightarrow> nat option" where
  "pass_wait opts mono_now now s =
     (let drain = until_drain opts mono_now (sy_ctl s); due = until_due now (sy_sources s) in
      if is_finite drain then map_option (min due) (duration_from_secs_f64 drain) else Some due)"

definition pass_visits :: "Aead \<Rightarrow> (f64 \<Rightarrow> f64 \<Rightarrow> f64) \<Rightarrow> (f64 \<Rightarrow> f64) \<Rightarrow> SyncOptions \<Rightarrow> PassIn \<Rightarrow> Driven \<Rightarrow> 'k SyncState \<Rightarrow>
   ('k SyncState \<times> Driven \<times> PassEnd) option" where
  "pass_visits c pw lg opts inp driven s =
     map_option (\<lambda>(t, more, code). (t, driven @ more, case code of None \<Rightarrow> Again | Some n \<Rightarrow> Exit n))
       (visit_all c pw lg (so_dry_run opts) (pi_source inp) [0..<length (sy_sources s)] s)"

definition sync_pass ::
  "Aead \<Rightarrow> (f64 \<Rightarrow> f64 \<Rightarrow> f64) \<Rightarrow> (f64 \<Rightarrow> f64) \<Rightarrow> SyncOptions \<Rightarrow> nat \<Rightarrow> PassIn \<Rightarrow> 'k SyncState \<Rightarrow> ('k SyncState \<times> Driven \<times> PassEnd) option" where
  "sync_pass c pw lg opts stale_after inp s =
     (if 0 < so_run_seconds opts \<and> so_run_seconds opts \<le> pi_elapsed_s inp then Some (s, [], Finished False)
      else if pi_stop inp then Some (s, [], Finished True)
      else let s1 = expire_served stale_after (pi_stale_now inp) s;
               mono_now = (case pi_mono inp of None \<Rightarrow> FFin 0 | Some m \<Rightarrow> m);
               (s2, driven) = end_drain opts mono_now (pi_drain_driver inp) s1
        in case pass_wait opts mono_now (pi_wait_now inp) s2 of None \<Rightarrow> None
           | Some wait \<Rightarrow> if 0 < wait then Some (s2, driven, Again) else pass_visits c pw lg opts inp driven s2)"

text \<open>The process's exit code.\<close>

definition exit_code :: "SyncOptions \<Rightarrow> 'k SyncState \<Rightarrow> PassEnd \<Rightarrow> int option" where
  "exit_code opts s e =
     (case e of Again \<Rightarrow> None | Exit n \<Rightarrow> Some n
      | Finished stopped \<Rightarrow> Some (if \<not> so_dry_run opts \<and> \<not> sy_applied_any s \<and> \<not> stopped then 1 else 0))"

end
