(* ===== verification/SyncRuns.thy ===== *)
theory SyncRuns
  imports SyncLoop
begin

text \<open>What the client daemon of \<open>SyncLoop\<close> guarantees: nothing reaches the clock without a majority of the
sources, neither the control socket nor a client of \<open>--serve\<close> is told the time is good before a correction
reached the clock, and a driver that keeps refusing ends the process.\<close>

section \<open>The sources as selection sees them\<close>

definition sr_view :: "Source \<Rightarrow> bool \<times> u32 \<times> f64 \<times> f64 \<times> u8" where
  "sr_view v = (sr_has_estimate v, sr_lost_in_a_row v, sr_last_offset_s v, sr_last_root_distance_s v, sr_last_stratum v)"

lemma estimates_by_view:
  assumes "map sr_view xs = map sr_view ys"
  shows "estimates xs = estimates ys" "answering xs = answering ys" "heard xs = heard ys"
proof -
  have r: "list_all2 (\<lambda>a b. sr_view a = sr_view b) xs ys"
    using assms by (simp add: list_all2_conv_all_nth list_eq_iff_nth_eq)
  have "map source_estimate (filter (\<lambda>iv. sr_has_estimate (snd iv)) (List.enumerate n xs)) =
        map source_estimate (filter (\<lambda>iv. sr_has_estimate (snd iv)) (List.enumerate n ys))" for n
    using r by (induction arbitrary: n rule: list_all2_induct) (auto simp: sr_view_def source_estimate_def)
  then show "estimates xs = estimates ys" by (simp add: estimates_def)
  have c: "answering zs = length (filter (\<lambda>v. fst v \<or> fst (snd v) < UNREACHABLE_AFTER) (map sr_view zs))"
    "heard zs = length (filter fst (map sr_view zs))" for zs
    by (simp_all add: answering_def heard_def filter_map comp_def sr_view_def)
  show "answering xs = answering ys" by (simp only: c(1) assms)
  show "heard xs = heard ys" by (simp only: c(2) assms)
qed

lemma selected_by_view: "map sr_view xs = map sr_view ys \<Longrightarrow> selected_index xs = selected_index ys"
  using estimates_by_view[of xs ys] by (simp add: selected_index_def)

lemma view_due: "map sr_view (xs[i := (xs ! i)\<lparr> sr_due := d \<rparr>]) = map sr_view xs"
proof (cases "i < length xs")
  case True
  have "sr_view ((xs ! i)\<lparr> sr_due := d \<rparr>) = map sr_view xs ! i" using True by (simp add: sr_view_def)
  then show ?thesis by (metis map_update list_update_id)
qed (simp add: list_update_beyond)

lemma length_estimates: "length (estimates xs) = heard xs"
proof -
  have "length (filter (\<lambda>iv. sr_has_estimate (snd iv)) (List.enumerate n xs)) = length (filter sr_has_estimate xs)" for n
    by (induction xs arbitrary: n) simp_all
  then show ?thesis by (simp add: estimates_def heard_def)
qed

lemma estimates_of: "e \<in> set (estimates xs) \<Longrightarrow> src_id e < length xs \<and> sr_has_estimate (xs ! src_id e) \<and>
    src_offset e = sr_last_offset_s (xs ! src_id e)"
  by (auto simp: estimates_def source_estimate_def in_set_enumerate_eq)

text \<open>A source with a majority behind it: more than half the sources that have an estimate agree with it, and
they are more than half of the sources still counted as answering.\<close>

definition supported :: "nat \<Rightarrow> Source list \<Rightarrow> bool" where
  "supported i xs \<longleftrightarrow> i < length xs \<and> sr_has_estimate (xs ! i) \<and> i \<in> set (sel_truechimers (select (estimates xs))) \<and>
     heard xs < 2 * length (sel_truechimers (select (estimates xs))) \<and> (answering xs \<le> 1 \<or> answering xs < 2 * heard xs)"

lemma selected_supported:
  assumes sel: "selected_index xs = Some i"
    and fin: "\<forall>v\<in>set xs. sr_has_estimate v \<longrightarrow> is_finite (sr_last_offset_s v)"
  shows "supported i xs"
proof -
  let ?T = "sel_truechimers (select (estimates xs))"
  have q: "answering xs \<le> 1 \<or> answering xs < 2 * heard xs" and i: "i \<in> set ?T"
    using sel by (auto simp: selected_index_def split: if_splits list.splits)
  have "\<forall>e\<in>set (estimates xs). is_finite (src_offset e)" using estimates_of fin by fastforce
  moreover obtain lo hi where "choose_interval (estimates xs) = Some (lo, hi)" "length ?T = length (filter (survives lo hi) (estimates xs))"
    using length_truechimers[of "estimates xs"] i by fastforce
  moreover have "estimates xs \<noteq> []" using i truechimers_are_sources[of "estimates xs"] by auto
  ultimately have "heard xs < 2 * length ?T" using survivors_majority length_estimates[of xs] by metis
  moreover have "i < length xs \<and> sr_has_estimate (xs ! i)" using i truechimers_are_sources[of "estimates xs"] estimates_of by auto
  ultimately show ?thesis using q i by (simp add: supported_def)
qed

section \<open>One visit\<close>

lemma reschedule_Some: "reschedule i now secs s = Some s' \<Longrightarrow>
    \<exists>due. s' = put_source i ((sy_sources s ! i)\<lparr> sr_due := due \<rparr>) s \<and> map sr_view (sy_sources s') = map sr_view (sy_sources s)"
  by (auto simp: reschedule_def put_source_def view_due split: option.splits)

lemma publish_step_sources [simp]: "sy_sources (publish_step lg steered i si step s) = sy_sources s"
  by (simp add: publish_step_def serve_view_def Let_def split: option.splits)

lemma command_clock_driven:
  assumes "command_clock lg dry_run i si step s = (s', driven, code)"
  shows "sy_sources s' = sy_sources s" "d \<in> set driven \<Longrightarrow> \<not> dry_run \<and> d = (Planned i (st_verdict step), pl_command (st_plan step), in_driver si)"
  using assms by (auto simp: command_clock_def apply_accepted_def apply_refused_def Let_def split: if_splits)

lemma steer_selected_driven:
  assumes "steer_selected lg dry_run i si measured mono_now s = Some (s', driven, code)"
  shows "map sr_view (sy_sources s') = map sr_view (sy_sources s) \<and> (\<forall>(cause, cmd, ok)\<in>set driven. \<not> dry_run \<and> (\<exists>verdict. cause = Planned i verdict))"
proof -
  obtain step ctl s1 where 1: "reschedule i (in_resched_now si) (pl_next_poll_s (st_plan step)) (s\<lparr> sy_ctl := ctl \<rparr>) = Some s1"
    "(s', driven, code) = (case st_verdict step of GiveUp _ \<Rightarrow> (s1, [], Some 1)
       | _ \<Rightarrow> command_clock lg dry_run i si step (s1\<lparr> sy_holding := False \<rparr>))"
    using assms by (auto simp: steer_selected_def split: option.splits prod.splits)
  have v: "map sr_view (sy_sources s1) = map sr_view (sy_sources s)" using reschedule_Some[OF 1(1)] by auto
  show ?thesis
  proof (cases "driven = [] \<and> s' = s1")
    case True
    then show ?thesis using v by simp
  next
    case False
    then have "command_clock lg dry_run i si step (s1\<lparr> sy_holding := False \<rparr>) = (s', driven, code)"
      using 1(2) by (auto split: ChangeVerdict.splits)
    from command_clock_driven[OF this] show ?thesis using v by auto
  qed
qed

lemma hold_driven:
  assumes "hold_if_no_majority dry_run selected driver s = (s', driven)"
  shows "sy_sources s' = sy_sources s \<and> sy_ctl s' = sy_ctl s \<and>
    (\<forall>(cause, cmd, ok)\<in>set driven. \<not> dry_run \<and> cause = Held \<and> selected = None \<and> cmd = Slew (mc_freq_cmd_ppm (sy_ctl s)) (FFin 0) (FFin 0))"
  using assms by (auto simp: hold_if_no_majority_def split: if_splits)

lemma visit_cases:
  assumes "visit c pw lg dry_run i si s = Some (s', driven, code)" "exchange c (in_exchange si) (sy_sources s ! i) = (a, source)"
  shows "driven = [] \<and> (s' = s \<or> s' = put_source i source s) \<or>
    \<not> in_due_now si < sr_due (sy_sources s ! i) \<and> a = None \<and> visit_lost i si (put_source i source s) = Some (s', driven, code) \<or>
    \<not> in_due_now si < sr_due (sy_sources s ! i) \<and> a \<noteq> None \<and>
      visit_answered pw lg dry_run i si (the a) (the (in_mono si)) (put_source i source s) = Some (s', driven, code)"
  using assms by (cases "in_due_now si < sr_due (sy_sources s ! i)"; cases a; cases "in_mono si") (simp_all add: visit_def)

text \<open>The state in which the selection is made, and what follows it.\<close>

definition answered :: "nat \<Rightarrow> Sample \<times> u8 \<times> f64 \<Rightarrow> Estimate \<Rightarrow> MultiController \<Rightarrow> 'k SyncState \<Rightarrow> 'k SyncState" where
  "answered i answer measured ctl s =
     put_source i (note_answer measured (fst (snd answer)) (snd (snd answer)) (sy_sources s ! i)) (s\<lparr> sy_ctl := ctl \<rparr>)"

lemma visit_answered_cases:
  assumes "visit_answered pw lg dry_run i si answer mono_now s = Some (s', driven, code)"
  shows "\<exists>measured ctl. let s1 = answered i answer measured ctl s; selected = selected_index (sy_sources s1) in
    (selected = Some i \<and> steer_selected lg dry_run i si measured mono_now s1 = Some (s', driven, code) \<or>
     selected \<noteq> Some i \<and> code = None \<and> (\<exists>s2. reschedule i (in_resched_now si) (poll_interval_s ctl) s1 = Some s2 \<and>
       hold_if_no_majority dry_run selected (in_driver si) s2 = (s', driven)))"
proof -
  obtain measured ctl where o: "observe pw i mono_now (fst answer) (sy_ctl s) = Some (measured, ctl)"
    using assms by (auto simp: visit_answered_def split: option.splits)
  define s1 where "s1 = answered i answer measured ctl s"
  note v = assms[unfolded visit_answered_def o option.case prod.case Let_def, folded answered_def s1_def]
  show ?thesis
  proof (cases "selected_index (sy_sources s1) = Some i")
    case True
    then show ?thesis using v s1_def by (intro exI[of _ measured] exI[of _ ctl]) (simp add: Let_def)
  next
    case False
    then obtain s2 where "reschedule i (in_resched_now si) (poll_interval_s ctl) s1 = Some s2"
      "hold_if_no_majority dry_run (selected_index (sy_sources s1)) (in_driver si) s2 = (s', driven)" "code = None"
      using v by (cases "hold_if_no_majority dry_run (selected_index (sy_sources s1)) (in_driver si)
        (the (reschedule i (in_resched_now si) (poll_interval_s ctl) s1))") auto
    then show ?thesis using False s1_def by (intro exI[of _ measured] exI[of _ ctl]) (simp add: Let_def)
  qed
qed

text \<open>C28: the clock is never touched on the word of a minority.  Whatever a visit meets,
a command it sends is either the plan of the source just visited, on a fresh answer of that source, when more than
half of the sources with an estimate agree with it and they are more than half of those still answering; or, when
no source has such a majority, the command that holds the current rate.  In a dry run no command is sent.\<close>

theorem commands_need_majority:
  assumes "visit c pw lg dry_run i si s = Some (s', driven, code)" "(cause, cmd, ok) \<in> set driven"
    and "\<forall>v\<in>set (sy_sources s'). sr_has_estimate v \<longrightarrow> is_finite (sr_last_offset_s v)"
  shows "\<not> dry_run \<and> sr_due (sy_sources s ! i) \<le> in_due_now si \<and> fst (exchange c (in_exchange si) (sy_sources s ! i)) \<noteq> None \<and>
    ((\<exists>verdict. cause = Planned i verdict) \<and> supported i (sy_sources s') \<or>
     cause = Held \<and> selected_index (sy_sources s') = None \<and> cmd = Slew (mc_freq_cmd_ppm (sy_ctl s')) (FFin 0) (FFin 0))"
proof -
  obtain a source where ex: "exchange c (in_exchange si) (sy_sources s ! i) = (a, source)" by fastforce
  have v: "\<not> in_due_now si < sr_due (sy_sources s ! i)" "a \<noteq> None"
    "visit_answered pw lg dry_run i si (the a) (the (in_mono si)) (put_source i source s) = Some (s', driven, code)"
    using visit_cases[OF assms(1) ex] assms(2) by (auto simp: visit_lost_def)
  obtain measured ctl s1 where "selected_index (sy_sources s1) = Some i \<and> steer_selected lg dry_run i si measured (the (in_mono si)) s1 = Some (s', driven, code) \<or>
     selected_index (sy_sources s1) \<noteq> Some i \<and> (\<exists>s2. reschedule i (in_resched_now si) (poll_interval_s ctl) s1 = Some s2 \<and>
       hold_if_no_majority dry_run (selected_index (sy_sources s1)) (in_driver si) s2 = (s', driven))"
    using visit_answered_cases[OF v(3)] unfolding Let_def by blast
  then show ?thesis
  proof (elim disjE conjE exE)
    assume sel: "selected_index (sy_sources s1) = Some i"
      and st: "steer_selected lg dry_run i si measured (the (in_mono si)) s1 = Some (s', driven, code)"
    have "selected_index (sy_sources s') = Some i" using selected_by_view sel steer_selected_driven[OF st] by metis
    then show ?thesis using selected_supported[OF _ assms(3)] steer_selected_driven[OF st] assms(2) v ex by auto
  next
    fix s2 assume s2: "reschedule i (in_resched_now si) (poll_interval_s ctl) s1 = Some s2"
      "hold_if_no_majority dry_run (selected_index (sy_sources s1)) (in_driver si) s2 = (s', driven)"
    have "selected_index (sy_sources s') = selected_index (sy_sources s1)"
      using selected_by_view reschedule_Some[OF s2(1)] hold_driven[OF s2(2)] by metis
    then show ?thesis using hold_driven[OF s2(2)] assms(2) v ex by auto
  qed
qed

section \<open>The daemon and its server\<close>

text \<open>The daemon running: passes of its loop, and between them the replies and transmit notes of the server threads
of \<open>--serve\<close>, which share its \<open>ServerState\<close> under the lock.  The list holds the commands sent so far.\<close>

definition peers_ok :: "PassIn \<Rightarrow> bool" where
  "peers_ok inp \<longleftrightarrow> (\<forall>i ip. in_peer (pi_source inp i) = Some ip \<longrightarrow> ip_ok ip)"

inductive daemon_run ::
  "('k \<Rightarrow> HashWrite list) \<Rightarrow> Aead \<Rightarrow> (f64 \<Rightarrow> f64 \<Rightarrow> f64) \<Rightarrow> (f64 \<Rightarrow> f64) \<Rightarrow> SyncOptions \<Rightarrow> nat \<Rightarrow> Driven \<Rightarrow> 'k SyncState \<Rightarrow> bool"
  for kh c pw lg opts stale_after where
  start_serving: "following_state seed ring started = Some sv \<Longrightarrow>
    daemon_run kh c pw lg opts stale_after [] (sync_start opts sources (Some sv) now)"
| start_alone: "daemon_run kh c pw lg opts stale_after [] (sync_start opts sources None now)"
| run_pass: "daemon_run kh c pw lg opts stale_after sent s \<Longrightarrow> peers_ok inp \<Longrightarrow>
    sync_pass c pw lg opts stale_after inp s = Some (s', driven, Again) \<Longrightarrow>
    daemon_run kh c pw lg opts stale_after (sent @ driven) s'"
| run_reply: "daemon_run kh c pw lg opts stale_after sent s \<Longrightarrow> sy_served s = Some sv \<Longrightarrow>
    build_reply_in kh c env request peer recv_ts sv = Some (r, sv') \<Longrightarrow>
    daemon_run kh c pw lg opts stale_after sent (s\<lparr> sy_served := Some sv' \<rparr>)"
| run_sent: "daemon_run kh c pw lg opts stale_after sent s \<Longrightarrow> sy_served s = Some sv \<Longrightarrow>
    daemon_run kh c pw lg opts stale_after sent (s\<lparr> sy_served := Some (note_sent tx rs sv) \<rparr>)"

text \<open>A correction reached the clock: the command of a plan whose change was accepted was taken by the driver.
The command of a plan whose change was refused only holds the rate, and does not count.\<close>

definition corrected :: "Driven \<Rightarrow> bool" where
  "corrected sent \<longleftrightarrow> (\<exists>i cmd. (Planned i Accepted, cmd, True) \<in> set sent)"

text \<open>The refusals of planned corrections since the last one the driver took.\<close>

fun of_a_source :: "Cause \<times> ClockCommand \<times> bool \<Rightarrow> bool" where
  "of_a_source (Planned _ _, _, _) = True"
| "of_a_source _ = False"

definition refusals :: "Driven \<Rightarrow> nat" where
  "refusals sent = length (takeWhile (\<lambda>d. \<not> snd (snd d)) (rev (filter of_a_source sent)))"

lemma refusals_simps [simp]:
  "refusals [] = 0"
  "refusals (sent @ [(Planned i verdict, cmd, ok)]) = (if ok then 0 else Suc (refusals sent))"
  "refusals (sent @ [(Held, cmd, ok)]) = refusals sent"
  "refusals (sent @ [(Drained, cmd, ok)]) = refusals sent"
  by (simp_all add: refusals_def)

lemma corrected_simps [simp]:
  "\<not> corrected []" "corrected (sent @ later) \<longleftrightarrow> corrected sent \<or> corrected later"
  "corrected [(cause, cmd, ok)] \<longleftrightarrow> ok \<and> (\<exists>i. cause = Planned i Accepted)"
  by (auto simp: corrected_def)

text \<open>The served half: intact, and silent about the time until a correction.\<close>

definition served_ok :: "('k \<Rightarrow> HashWrite list) \<Rightarrow> nat option \<Rightarrow> 'k ServerState \<Rightarrow> bool" where
  "served_ok kh synced_at sv \<longleftrightarrow> sv_ok kh sv \<and>
     (synced_at = None \<longrightarrow> sv_stratum sv = STRATUM_UNSYNCHRONIZED \<and> sv_upstream sv = UNSYNCHRONIZED)"

text \<open>The invariant of a stretch of a run: \<open>pre\<close> if a correction may have gone before it, \<open>base\<close> when the served
half last vouched before it.\<close>

definition told_ok :: "('k \<Rightarrow> HashWrite list) \<Rightarrow> bool \<Rightarrow> nat option \<Rightarrow> Driven \<Rightarrow> 'k SyncState \<Rightarrow> bool" where
  "told_ok kh pre base sent s \<longleftrightarrow> (tr_synchronized (tk_report (sy_tracking s)) \<longrightarrow> pre \<or> corrected sent) \<and>
     (sy_served_synced_at s = base \<or> corrected sent) \<and> (sy_served s = None \<longrightarrow> sy_served_synced_at s = None) \<and>
     (\<forall>sv. sy_served s = Some sv \<longrightarrow> served_ok kh (sy_served_synced_at s) sv)"

definition streak_ok :: "bool \<Rightarrow> Driven \<Rightarrow> 'k SyncState \<Rightarrow> bool" where
  "streak_ok pre sent s \<longleftrightarrow> (\<not> pre \<and> length sent < 2 ^ 32 \<longrightarrow>
     unat (sy_refused_in_a_row s) \<le> length sent \<and> refusals sent \<le> unat (sy_refused_in_a_row s) \<and> refusals sent < 10)"

definition run_ok :: "('k \<Rightarrow> HashWrite list) \<Rightarrow> bool \<Rightarrow> nat option \<Rightarrow> bool \<Rightarrow> Driven \<Rightarrow> 'k SyncState \<Rightarrow> bool" where
  "run_ok kh pre base dry_run sent s \<longleftrightarrow> told_ok kh pre base sent s \<and> streak_ok pre sent s \<and> (dry_run \<longrightarrow> sent = [])"

lemmas run_ok_defs = run_ok_def told_ok_def streak_ok_def

lemma run_ok_frame [simp]:
  "run_ok kh pre base dry sent (s\<lparr> sy_sources := a \<rparr>) = run_ok kh pre base dry sent s"
  "run_ok kh pre base dry sent (s\<lparr> sy_ctl := b \<rparr>) = run_ok kh pre base dry sent s"
  "run_ok kh pre base dry sent (s\<lparr> sy_holding := d \<rparr>) = run_ok kh pre base dry sent s"
  "run_ok kh pre base dry sent (s\<lparr> sy_drains_retired := e \<rparr>) = run_ok kh pre base dry sent s"
  "run_ok kh pre base dry sent (put_source i v s) = run_ok kh pre base dry sent s"
  by (simp_all add: run_ok_defs put_source_def)

lemma run_ok_reschedule: "reschedule i now secs s = Some s' \<Longrightarrow> run_ok kh pre base dry sent s' = run_ok kh pre base dry sent s"
  by (auto simp: reschedule_def split: option.splits)

lemma run_ok_log: "run_ok kh pre base False sent s \<Longrightarrow> cause = Held \<or> cause = Drained \<and> ok \<Longrightarrow> run_ok kh pre base False (sent @ [(cause, cmd, ok)]) s"
  by (auto simp: run_ok_defs served_ok_def)

lemma refused_inc: "unat (r :: u32) + 1 < 2 ^ 32 \<Longrightarrow> unat (r + 1) = unat r + 1"
  by (simp add: unat_word_ariths)

lemma run_ok_drain_refused: "run_ok kh pre base False sent s \<Longrightarrow>
    run_ok kh pre base False (sent @ [(Drained, cmd, ok)]) (s\<lparr> sy_refused_in_a_row := sy_refused_in_a_row s + 1 \<rparr>)"
  by (auto simp: run_ok_defs served_ok_def refused_inc)

lemma run_ok_refused: "run_ok kh pre base False sent s \<Longrightarrow> \<not> MAX_REFUSALS \<le> sy_refused_in_a_row s + 1 \<Longrightarrow>
    run_ok kh pre base False (sent @ [(Planned i verdict, cmd, False)]) (apply_refused s)"
proof -
  assume r: "run_ok kh pre base False sent s" and m: "\<not> MAX_REFUSALS \<le> sy_refused_in_a_row s + 1"
  have "unat (sy_refused_in_a_row s + 1) < 10" using m by (simp add: MAX_REFUSALS_def word_le_nat_alt)
  then show ?thesis using r by (auto simp: run_ok_defs served_ok_def apply_refused_def refused_inc)
qed

lemma run_ok_accepted: "run_ok kh pre base False sent s \<Longrightarrow> run_ok kh pre base False (sent @ [(Planned i verdict, cmd, True)]) (apply_accepted s)"
  by (auto simp: run_ok_defs served_ok_def apply_accepted_def)

lemma publish_unsteered:
  assumes "\<not> (steered \<and> st_verdict step = Accepted)"
  shows "\<exists>o' f d p. publish_step lg steered i si step s = s\<lparr> sy_tracking := publish lg (in_publish_now si) False o' f d p \<rparr>"
proof -
  have "serve_view False source si t = t" for source and t :: "'a SyncState" by (simp add: serve_view_def split: option.split)
  then show ?thesis unfolding publish_step_def Let_def using assms by (simp only: simp_thms) blast
qed

lemma run_ok_publish:
  assumes "run_ok kh pre base dry sent s" "steered \<and> st_verdict step = Accepted \<longrightarrow> corrected sent" "\<forall>ip. in_peer si = Some ip \<longrightarrow> ip_ok ip"
  shows "run_ok kh pre base dry sent (publish_step lg steered i si step s)"
proof (cases "steered \<and> st_verdict step = Accepted")
  case True
  then show ?thesis using assms length_reference_id
    by (auto simp: run_ok_defs served_ok_def sv_ok_def publish_step_def serve_view_def vouch_def publish_def Let_def split: option.splits)
next
  case False
  from publish_unsteered[OF this, of lg i si s] show ?thesis using assms(1) by (auto simp: run_ok_defs publish_def)
qed

lemma run_ok_command:
  assumes "run_ok kh pre base dry sent s" "\<forall>ip. in_peer si = Some ip \<longrightarrow> ip_ok ip"
    and "command_clock lg dry i si step s = (s', driven, None)"
  shows "run_ok kh pre base dry (sent @ driven) s'"
proof -
  consider "dry" "s' = publish_step lg False i si step s" "driven = []"
    | "\<not> dry" "s' = publish_step lg True i si step (apply_accepted s)" "driven = [(Planned i (st_verdict step), pl_command (st_plan step), True)]"
    | "\<not> dry" "s' = publish_step lg False i si step (apply_refused s)" "driven = [(Planned i (st_verdict step), pl_command (st_plan step), False)]"
      "\<not> MAX_REFUSALS \<le> sy_refused_in_a_row s + 1"
    using assms(3) by (auto simp: command_clock_def Let_def apply_refused_def split: if_splits)
  then show ?thesis
  proof cases
    case 1
    then show ?thesis using run_ok_publish[OF assms(1) _ assms(2), of False] by simp
  next
    case 2
    have d: "dry = False" using 2 by simp
    show ?thesis unfolding 2 d by (rule run_ok_publish[OF run_ok_accepted _ assms(2)]) (use 2 assms(1) in simp_all)
  next
    case 3
    have d: "dry = False" using 3 by simp
    show ?thesis unfolding 3 d by (rule run_ok_publish[OF run_ok_refused _ assms(2)]) (use 3 assms(1) in simp_all)
  qed
qed

lemma run_ok_steer:
  assumes "run_ok kh pre base dry sent s" "\<forall>ip. in_peer si = Some ip \<longrightarrow> ip_ok ip"
    and "steer_selected lg dry i si measured mono_now s = Some (s', driven, None)"
  shows "run_ok kh pre base dry (sent @ driven) s'"
proof -
  obtain step ctl s1 where 1: "reschedule i (in_resched_now si) (pl_next_poll_s (st_plan step)) (s\<lparr> sy_ctl := ctl \<rparr>) = Some s1"
    "command_clock lg dry i si step (s1\<lparr> sy_holding := False \<rparr>) = (s', driven, None)"
    using assms(3) by (fastforce simp: steer_selected_def split: option.splits prod.splits ChangeVerdict.splits)
  show ?thesis by (rule run_ok_command[OF _ assms(2) 1(2)]) (use run_ok_reschedule[OF 1(1)] assms(1) in simp)
qed

lemma run_ok_visit:
  assumes "run_ok kh pre base dry sent s" "\<forall>ip. in_peer si = Some ip \<longrightarrow> ip_ok ip"
    and v: "visit c pw lg dry i si s = Some (s', driven, None)"
  shows "run_ok kh pre base dry (sent @ driven) s'"
proof -
  obtain a source where ex: "exchange c (in_exchange si) (sy_sources s ! i) = (a, source)" by fastforce
  have lost: "run_ok kh pre base dry (sent @ driven) s'" if "visit_lost i si (put_source i source s) = Some (s', driven, None)"
    using that assms(1) run_ok_reschedule[of i _ _ _ _ kh pre base dry sent] by (fastforce simp: visit_lost_def)
  have answer: "run_ok kh pre base dry (sent @ driven) s'"
    if v': "visit_answered pw lg dry i si answer mono_now (put_source i source s) = Some (s', driven, None)" for answer mono_now
  proof -
    have f: "run_ok kh pre base dry sent (answered i answer measured ctl (put_source i source s))" for measured ctl
      using assms(1) by (simp add: answered_def)
    obtain measured ctl s1 where s1: "run_ok kh pre base dry sent s1"
      and "steer_selected lg dry i si measured mono_now s1 = Some (s', driven, None) \<or>
        (\<exists>s2. reschedule i (in_resched_now si) (poll_interval_s ctl) s1 = Some s2 \<and>
          hold_if_no_majority dry (selected_index (sy_sources s1)) (in_driver si) s2 = (s', driven))"
      using visit_answered_cases[OF v'] f unfolding Let_def by metis
    then show ?thesis
    proof (elim disjE conjE exE)
      fix s2 assume s2: "reschedule i (in_resched_now si) (poll_interval_s ctl) s1 = Some s2"
        "hold_if_no_majority dry (selected_index (sy_sources s1)) (in_driver si) s2 = (s', driven)"
      have "run_ok kh pre base dry sent s2" using run_ok_reschedule[OF s2(1)] s1 by blast
      then show ?thesis using s2(2) by (cases dry) (auto simp: hold_if_no_majority_def intro: run_ok_log split: if_splits)
    qed (rule run_ok_steer[OF s1 assms(2)])
  qed
  show ?thesis using visit_cases[OF v ex] lost answer assms(1) by auto
qed

lemma run_ok_visits:
  assumes "run_ok kh pre base dry sent s" "\<forall>i ip. in_peer (ins i) = Some ip \<longrightarrow> ip_ok ip"
    and "visit_all c pw lg dry ins is s = Some (s', driven, None)"
  shows "run_ok kh pre base dry (sent @ driven) s'"
  using assms
proof (induction "is" arbitrary: sent s driven)
  case (Cons i "is")
  obtain s1 d1 d2 where 1: "visit c pw lg dry i (ins i) s = Some (s1, d1, None)" "visit_all c pw lg dry ins is s1 = Some (s', d2, None)" "driven = d1 @ d2"
    using Cons.prems(3) by (auto split: option.splits prod.splits)
  show ?case using Cons.IH[OF run_ok_visit[OF Cons.prems(1) _ 1(1)] Cons.prems(2) 1(2)] Cons.prems(2) 1(3) by simp
qed simp

lemma run_ok_end_drain:
  assumes "run_ok kh pre base (so_dry_run opts) sent s" "end_drain opts mono_now driver s = (s', driven)"
  shows "run_ok kh pre base (so_dry_run opts) (sent @ driven) s'"
proof -
  obtain r ctl where d: "poll_drain mono_now (sy_ctl s) = (r, ctl)" by fastforce
  define s1 where "s1 = s\<lparr> sy_ctl := ctl, sy_drains_retired := sy_drains_retired s + 1 \<rparr>"
  have s1: "run_ok kh pre base (so_dry_run opts) sent s1" using assms(1) by (simp add: s1_def)
  show ?thesis
  proof (cases "\<not> so_stop_drains opts \<or> r = None \<or> so_dry_run opts")
    case True
    then show ?thesis using assms d by (cases r) (auto simp: end_drain_def Let_def split: if_splits)
  next
    case False
    then obtain cmd where "driven = [(Drained, cmd, driver)]"
      "s' = (if driver then s1 else s1\<lparr> sy_refused_in_a_row := sy_refused_in_a_row s1 + 1 \<rparr>)"
      using assms(2) d by (auto simp: end_drain_def Let_def s1_def split: if_splits)
    moreover have "run_ok kh pre base False sent s1" using s1 False by simp
    ultimately show ?thesis using False run_ok_log[of kh pre base sent s1] run_ok_drain_refused[of kh pre base sent s1] by simp
  qed
qed

lemma run_ok_pass_from:
  assumes "run_ok kh pre base (so_dry_run opts) sent (expire_served stale_after (pi_stale_now inp) s)" "peers_ok inp"
    and "sync_pass c pw lg opts stale_after inp s = Some (s', driven, Again)"
  shows "run_ok kh pre base (so_dry_run opts) (sent @ driven) s'"
proof -
  obtain mono_now s1 d1 where 1: "end_drain opts mono_now (pi_drain_driver inp) (expire_served stale_after (pi_stale_now inp) s) = (s1, d1)"
    "s' = s1 \<and> driven = d1 \<or> pass_visits c pw lg opts inp d1 s1 = Some (s', driven, Again)"
    using assms(3) by (auto simp: sync_pass_def Let_def split: if_splits option.splits prod.splits)
  have r: "run_ok kh pre base (so_dry_run opts) (sent @ d1) s1" by (rule run_ok_end_drain[OF assms(1) 1(1)])
  show ?thesis
  proof (cases "s' = s1 \<and> driven = d1")
    case False
    then obtain d2 where "visit_all c pw lg (so_dry_run opts) (pi_source inp) [0..<length (sy_sources s1)] s1 = Some (s', d2, None)" "driven = d1 @ d2"
      using 1(2) by (auto simp: pass_visits_def split: option.splits)
    then show ?thesis using run_ok_visits[OF r] assms(2) by (simp add: peers_ok_def)
  qed (use r in simp)
qed

lemma run_ok_expire: "run_ok kh pre None dry sent s \<Longrightarrow> run_ok kh pre None dry sent (expire_served stale_after now s)"
  by (auto simp: run_ok_defs served_ok_def sv_ok_def expire_served_def UNSYNCHRONIZED_def ascii_def split: option.splits)

lemmas run_ok_pass = run_ok_pass_from[OF run_ok_expire]

lemma table_new_served: "following_state seed ring started = Some sv \<Longrightarrow> served_ok kh None sv"
  by (auto simp: following_state_def served_ok_def sv_ok_def UNSYNCHRONIZED_def ascii_def dest!: table_new_ok[where kh = kh])

lemma daemon_run_ok: "daemon_run kh c pw lg opts stale_after sent s \<Longrightarrow> run_ok kh False None (so_dry_run opts) sent s"
proof (induction rule: daemon_run.induct)
  case (start_serving seed ring started sv sources now)
  then show ?case using table_new_served by (auto simp: run_ok_defs sync_start_def tracking_unsynchronized_def)
next
  case (start_alone sources now)
  then show ?case by (simp add: run_ok_defs sync_start_def tracking_unsynchronized_def)
next
  case (run_pass sent s inp s' driven)
  then show ?case using run_ok_pass by blast
next
  case (run_reply sent s sv env request peer recv_ts r sv')
  have "served_ok kh (sy_served_synced_at s) sv" using run_reply.IH run_reply.hyps by (auto simp: run_ok_defs)
  then have "served_ok kh (sy_served_synced_at s) sv'"
    using build_reply_safe[of kh sv c env request peer recv_ts] run_reply.hyps(3) by (auto simp: served_ok_def)
  then show ?case using run_reply.IH by (simp add: run_ok_defs)
next
  case (run_sent sent s sv tx rs)
  have "served_ok kh (sy_served_synced_at s) sv" using run_sent.IH run_sent.hyps by (auto simp: run_ok_defs)
  moreover have "sv_stratum (note_sent tx rs sv) = sv_stratum sv \<and> sv_upstream (note_sent tx rs sv) = sv_upstream sv"
    by (induction rs arbitrary: sv) (auto simp: note_sent_def split: prod.splits)
  ultimately show ?case using run_sent.IH note_sent_ok by (auto simp: run_ok_defs served_ok_def)
qed



text \<open>C30: a driver that keeps refusing ends the process.  In any state the daemon goes on
from, fewer than ten planned corrections were refused in a row (holds and ended drains between them notwithstanding), so
the tenth refusal always is an exit; as long as fewer than \<open>2 ^ 32\<close> commands were sent.\<close>

theorem refusals_end_the_daemon:
  assumes "daemon_run kh c pw lg opts stale_after sent s" "length sent < 2 ^ 32"
    and "sent = before @ latest" "\<forall>d\<in>set latest. of_a_source d \<longrightarrow> \<not> snd (snd d)"
  shows "length (filter of_a_source latest) < 10"
proof -
  have "refusals sent < 10" using daemon_run_ok[OF assms(1)] assms(2) by (simp add: run_ok_defs)
  moreover have "length (filter of_a_source latest) \<le> refusals (before @ latest)"
    using assms(4) by (simp add: refusals_def takeWhile_append)
  ultimately show ?thesis using assms(3) by simp
qed

section \<open>A concrete pass\<close>

definition demo_options :: SyncOptions where
  "demo_options = \<lparr> so_dry_run = False, so_run_seconds = 0, so_discipline = config_default, so_stop_drains = True \<rparr>"

definition demo_in :: "bool \<Rightarrow> SourceIn" where
  "demo_in ok = \<lparr> in_due_now = 0, in_exchange = demo_xe, in_mono = Some (FFin 2), in_resched_now = 0, in_driver = ok,
     in_publish_now = 0, in_peer = Some (V4 [10, 0, 0, 1]), in_synced_now = 0 \<rparr>"

definition demo_pass :: "bool \<Rightarrow> PassIn" where
  "demo_pass ok = \<lparr> pi_elapsed_s = 0, pi_stop = False, pi_stale_now = 0, pi_mono = Some (FFin 1), pi_drain_driver = True,
     pi_wait_now = 0, pi_source = (\<lambda>_. demo_in ok) \<rparr>"

definition demo_source :: Source where "demo_source = open_source [] None 0"

definition demo_sample :: Sample where
  "demo_sample = \<lparr> sm_t = FFin 1, sm_offset = FFin (- (288230435744383 / 576460752303423488)),
     sm_delay = FFin (864691148319359 / 288230376151711744), sm_dispersion = FFin 1 \<rparr>"

definition demo_measured :: Estimate where
  "demo_measured = \<lparr> ce_offset_s = sm_offset demo_sample, ce_freq_ppm = None,
     ce_sd_s = FFin (864691148319359 / 576460752303423488), ce_samples = 1 \<rparr>"

lemma demo_answer:
  "exchange null_cipher demo_xe demo_source = (Some (demo_sample, 2, FFin (6762154840651989 / 4503599627370496)), demo_source)"
  by code_simp

lemma demo_steer:
  "case observe (\<lambda>x y. y) 0 (FFin 2) demo_sample (multi_new config_default 1) of None \<Rightarrow> False
   | Some (e, c) \<Rightarrow> e = demo_measured \<and> (case steer_plan e (FFin 2) False c of None \<Rightarrow> False
       | Some (step, c') \<Rightarrow> pl_next_poll_s (st_plan step) = FFin 2 \<and> st_verdict step = Accepted)"
  by code_simp

lemma demo_selected:
  "selected_index [note_answer demo_measured 2 (FFin (6762154840651989 / 4503599627370496)) demo_source] = Some 0"
  by code_simp

lemma demo_visit:
  assumes "sy_sources s = [demo_source]" "sy_ctl s = multi_new config_default 1" "sy_refused_in_a_row s = 0"
  shows "\<exists>s' cmd source. visit null_cipher (\<lambda>x y. y) id False 0 (demo_in ok) s = Some (s', [(Planned 0 Accepted, cmd, ok)], None) \<and>
    sy_sources s' = [source] \<and> is_finite (sr_last_offset_s source) \<and>
    sr_last_stratum source = 2 \<and> sy_served s' = (if ok then map_option (vouch source (V4 [10, 0, 0, 1])) (sy_served s) else sy_served s)"
proof -
  obtain c step c' where o: "observe (\<lambda>x y. y) 0 (FFin 2) demo_sample (multi_new config_default 1) = Some (demo_measured, c)"
    "steer_plan demo_measured (FFin 2) False c = Some (step, c')" "pl_next_poll_s (st_plan step) = FFin 2" "st_verdict step = Accepted"
    using demo_steer by (auto split: option.splits)
  have "rne (2 * 1000000000) = 2000000000" by code_simp
  then have d: "after_secs 0 (FFin 2) = Some 2000000000"
    by (simp add: after_secs_def instant_add_def DURATION_LIMIT_NS_def INSTANT_LIMIT_NS_def)
  have f: "sr_due demo_source = 0" "put_source 0 demo_source s = s" using assms by (simp_all add: demo_source_def open_source_def put_source_def)
  define source where "source = note_answer demo_measured 2 (FFin (6762154840651989 / 4503599627370496)) demo_source"
  have src: "\<not> sr_leap_pending source" "sr_last_stratum source = 2" "sr_last_offset_s source = sm_offset demo_sample"
    by (simp_all add: source_def note_answer_def demo_source_def open_source_def demo_measured_def)
  define s1 where "s1 = s\<lparr> sy_ctl := c, sy_sources := [source] \<rparr>"
  define s2 where "s2 = (s1\<lparr> sy_ctl := c' \<rparr>)\<lparr> sy_sources := [source\<lparr> sr_due := 2000000000 \<rparr>], sy_holding := False \<rparr>"
  have i: "in_due_now (demo_in ok) = 0" "in_exchange (demo_in ok) = demo_xe" "in_mono (demo_in ok) = Some (FFin 2)" "in_resched_now (demo_in ok) = 0"
    "in_driver (demo_in ok) = ok" "in_peer (demo_in ok) = Some (V4 [10, 0, 0, 1])" by (simp_all add: demo_in_def)
  have "visit null_cipher (\<lambda>x y. y) id False 0 (demo_in ok) s = visit_answered (\<lambda>x y. y) id False 0 (demo_in ok)
      (demo_sample, 2, FFin (6762154840651989 / 4503599627370496)) (FFin 2) s"
    using f by (simp add: visit_def i assms(1) demo_answer)
  also have "\<dots> = steer_selected id False 0 (demo_in ok) demo_measured (FFin 2) s1"
    using demo_selected o(1) assms by (simp add: visit_answered_def put_source_def s1_def source_def Let_def)
  also have "\<dots> = Some (command_clock id False 0 (demo_in ok) step s2)"
    using o(2-4) src(1) by (simp add: steer_selected_def s1_def s2_def i reschedule_def Let_def d put_source_def)
  also have "command_clock id False 0 (demo_in ok) step s2 = (publish_step id ok 0 (demo_in ok) step (if ok then apply_accepted s2 else apply_refused s2),
      [(Planned 0 Accepted, pl_command (st_plan step), ok)], None)"
    using assms(3) o(4) by (simp add: command_clock_def Let_def i apply_refused_def s2_def s1_def MAX_REFUSALS_def word_le_nat_alt)
  finally have v: "visit null_cipher (\<lambda>x y. y) id False 0 (demo_in ok) s =
      Some (publish_step id ok 0 (demo_in ok) step (if ok then apply_accepted s2 else apply_refused s2),
        [(Planned 0 Accepted, pl_command (st_plan step), ok)], None)" .
  let ?s' = "publish_step id ok 0 (demo_in ok) step (if ok then apply_accepted s2 else apply_refused s2)"
  let ?v = "source\<lparr> sr_due := 2000000000 \<rparr>"
  have src': "sy_sources ?s' = [?v]" by (simp add: apply_accepted_def apply_refused_def s2_def)
  have fin: "is_finite (sr_last_offset_s ?v)" "sr_last_stratum ?v = 2" using src by (simp_all add: demo_sample_def)
  have sv: "sy_served ?s' = (if ok then map_option (vouch ?v (V4 [10, 0, 0, 1])) (sy_served s) else sy_served s)"
    using o(4) by (simp add: publish_step_def serve_view_def apply_accepted_def apply_refused_def s2_def s1_def i Let_def split: option.split)
  show ?thesis by (intro exI conjI, rule v, rule src', rule fin, rule fin, rule sv)
qed

lemma demo_sync_pass:
  "\<exists>s' cmd source. sync_pass null_cipher (\<lambda>x y. y) id demo_options stale_after (demo_pass ok) (sync_start demo_options [demo_source] served 0)
     = Some (s', [(Planned 0 Accepted, cmd, ok)], Again) \<and> sr_last_stratum source = 2 \<and>
    sy_served s' = (if ok then map_option (vouch source (V4 [10, 0, 0, 1])) served else served)"
proof -
  define s where "s = sync_start demo_options [demo_source] served 0"
  have s: "sy_sources s = [demo_source]" "sy_ctl s = multi_new config_default 1" "sy_served s = served" "sy_served_synced_at s = None"
    "sy_refused_in_a_row s = 0" by (simp_all add: s_def sync_start_def demo_options_def)
  have "drain_completes_at (sy_ctl s) = None" by (simp add: s multi_new_def drain_completes_at_def)
  then have w: "expire_served stale_after 0 s = s" "end_drain demo_options (FFin 1) True s = (s, [])"
    "pass_wait demo_options (FFin 1) 0 s = Some 0"
    using s by (simp_all add: expire_served_def end_drain_def demo_options_def poll_drain_def pass_wait_def until_drain_def until_due_def
      demo_source_def open_source_def split: option.splits)
  have "sync_pass null_cipher (\<lambda>x y. y) id demo_options stale_after (demo_pass ok) s = pass_visits null_cipher (\<lambda>x y. y) id demo_options (demo_pass ok) [] s"
    using w by (simp add: sync_pass_def demo_pass_def) (simp add: demo_options_def)
  moreover obtain s' cmd source where "visit null_cipher (\<lambda>x y. y) id False 0 (demo_in ok) s = Some (s', [(Planned 0 Accepted, cmd, ok)], None)"
    "sr_last_stratum source = 2" "sy_served s' = (if ok then map_option (vouch source (V4 [10, 0, 0, 1])) served else served)"
    using demo_visit[OF s(1,2,5), of ok] s(3) by auto
  ultimately show ?thesis using s(1) unfolding s_def[symmetric]
    by (intro exI[of _ s'] exI[of _ cmd] exI[of _ source]) (simp add: pass_visits_def demo_pass_def demo_options_def)
qed

lemma commands_need_majority_witness:
  "\<exists>s cmd. visit null_cipher (\<lambda>x y. y) id False 0 (demo_in True) (sync_start demo_options [demo_source] (None :: u32 ServerState option) 0)
     = Some (s, [(Planned 0 Accepted, cmd, True)], None) \<and> supported 0 (sy_sources s)"
proof -
  have s: "sy_sources (sync_start demo_options [demo_source] None 0) = [demo_source]"
    "sy_ctl (sync_start demo_options [demo_source] None 0) = multi_new config_default 1"
    "sy_refused_in_a_row (sync_start demo_options [demo_source] None 0) = 0"
    by (simp_all add: sync_start_def demo_options_def)
  obtain s' cmd source where v: "visit null_cipher (\<lambda>x y. y) id False 0 (demo_in True)
      (sync_start demo_options [demo_source] (None :: u32 ServerState option) 0) = Some (s', [(Planned 0 Accepted, cmd, True)], None)"
    "sy_sources s' = [source]" "is_finite (sr_last_offset_s source)" using demo_visit[OF s] by blast
  from commands_need_majority[OF v(1), of "Planned 0 Accepted" cmd True] v show ?thesis by auto
qed


lemma demo_run_start:
  "\<exists>sv. following_state 7 (ring_new 3) 0 = Some sv \<and> daemon_run key_bytes null_cipher (\<lambda>x y. y) id demo_options stale_after []
     (sync_start demo_options [demo_source] (Some (sv :: u32 ServerState)) 0)"
proof -
  have "\<exists>t. (table_new CLIENT_TABLE_CAPACITY rate_limit_default 7 :: u32 ClientTable option) = Some t"
    by (simp add: table_new_def with_capacity_def next_pow2_from.simps CLIENT_TABLE_CAPACITY_def)
  then show ?thesis using start_serving by (fastforce simp: following_state_def)
qed

lemma demo_peers_ok: "peers_ok (demo_pass ok)" by (simp add: peers_ok_def demo_pass_def demo_in_def)


lemma refusals_end_the_daemon_witness:
  "\<exists>s cmd. daemon_run key_bytes null_cipher (\<lambda>x y. y) id demo_options 10 [(Planned 0 Accepted, cmd, False)] s \<and>
     length (filter of_a_source [(Planned 0 Accepted, cmd, False)]) < 10"
proof -
  obtain sv :: "u32 ServerState" where
    "daemon_run key_bytes null_cipher (\<lambda>x y. y) id demo_options 10 [] (sync_start demo_options [demo_source] (Some sv) 0)"
    using demo_run_start by blast
  moreover obtain s' cmd where "sync_pass null_cipher (\<lambda>x y. y) id demo_options 10 (demo_pass False) (sync_start demo_options [demo_source] (Some sv) 0)
      = Some (s', [(Planned 0 Accepted, cmd, False)], Again)"
    using demo_sync_pass[of 10 False "Some sv"] by auto
  ultimately have "daemon_run key_bytes null_cipher (\<lambda>x y. y) id demo_options 10 ([] @ [(Planned 0 Accepted, cmd, False)]) s'"
    using run_pass demo_peers_ok by blast
  then show ?thesis using refusals_end_the_daemon[of key_bytes null_cipher "\<lambda>x y. y" id demo_options 10 "[(Planned 0 Accepted, cmd, False)]" s' "[]" "[(Planned 0 Accepted, cmd, False)]"]
    by auto
qed

section \<open>Options\<close>

text \<open>The slew rate clamped to what the driver can deliver never reaches the controller: whatever the driver
reports, the loop plans with the options' own rate.\<close>

lemma slew_clamp_unused:
  "d_cfg (mc_discipline (sy_ctl (sync_start opts sources served now))) = so_discipline opts \<and>
   cf_max_slew_ppm (clamped_config (FFin 1) (config_default\<lparr> cf_max_slew_ppm := FFin 250 \<rparr>)) = FFin 1"
proof -
  have "fmin (FFin 250) (FFin 1) = FFin 1" by code_simp
  then show ?thesis by (simp add: sync_start_def multi_new_def discipline_new_def clamped_config_def)
qed

text \<open>A maximum poll exponent of 70, which no check refuses, panics at start-up.\<close>

lemma large_max_poll_panics:
  "served_stale_after (demo_options\<lparr> so_discipline := config_default\<lparr> cf_max_poll := 70 \<rparr> \<rparr>) = None"
proof -
  have f: "fmul (FFin 4) (exp2i 70) = FFin 4722366482869645213696" by code_simp
  have "rne (4722366482869645213696 * 1000000000) = 4722366482869645213696000000000" by code_simp
  then show ?thesis unfolding served_stale_after_def by (simp add: f demo_options_def DURATION_LIMIT_NS_def)
qed

end
