(* ===== verification/TextBytes.thy ===== *)
theory TextBytes
  imports KeyExchange Float64
begin

text \<open>The standard library's text operations the program uses, over the UTF-8 bytes of a string: whitespace splitting
and trimming with Unicode's \<open>White_Space\<close>, decimal display, and \<open>parse\<close> for integers and for \<open>f64\<close> (correctly
rounded from the decimal).\<close>

section \<open>Whitespace\<close>

text \<open>The length in bytes of the whitespace character at the front, 0 if there is none.\<close>

fun ws_len :: "bytes \<Rightarrow> nat" where
  "ws_len [] = 0"
| "ws_len (a # bs) =
     (if 0x09 \<le> a \<and> a \<le> 0x0D \<or> a = 0x20 then 1
      else case bs of [] \<Rightarrow> 0
      | b # cs \<Rightarrow>
          if a = 0xC2 \<and> (b = 0x85 \<or> b = 0xA0) then 2
          else case cs of [] \<Rightarrow> 0
          | c # _ \<Rightarrow>
              if a = 0xE1 \<and> b = 0x9A \<and> c = 0x80 \<or>
                 a = 0xE2 \<and> b = 0x80 \<and> (0x80 \<le> c \<and> c \<le> 0x8A \<or> c = 0xA8 \<or> c = 0xA9 \<or> c = 0xAF) \<or>
                 a = 0xE2 \<and> b = 0x81 \<and> c = 0x9F \<or> a = 0xE3 \<and> b = 0x80 \<and> c = 0x80 then 3 else 0)"

definition emit :: "bytes \<Rightarrow> bytes list" where "emit word = (if word = [] then [] else [word])"

text \<open>\<open>split_whitespace\<close>: \<open>skip\<close> counts the bytes left of a whitespace character.\<close>

fun split_go :: "nat \<Rightarrow> bytes \<Rightarrow> bytes \<Rightarrow> bytes list" where
  "split_go skip word [] = emit word"
| "split_go (Suc skip) word (b # bs) = split_go skip word bs"
| "split_go 0 word (b # bs) =
     (case ws_len (b # bs) of 0 \<Rightarrow> split_go 0 (word @ [b]) bs | Suc k \<Rightarrow> emit word @ split_go k [] bs)"

definition split_ws :: "bytes \<Rightarrow> bytes list" where "split_ws s = split_go 0 [] s"

text \<open>\<open>trim\<close>.\<close>

fun trim_start :: "nat \<Rightarrow> bytes \<Rightarrow> bytes" where
  "trim_start skip [] = []"
| "trim_start (Suc skip) (b # bs) = trim_start skip bs"
| "trim_start 0 (b # bs) = (case ws_len (b # bs) of 0 \<Rightarrow> b # bs | Suc k \<Rightarrow> trim_start k bs)"

fun trim_end :: "bytes \<Rightarrow> bytes" where
  "trim_end [] = []"
| "trim_end (b # bs) = (if trim_start 0 (b # bs) = [] then [] else b # trim_end bs)"

definition trim :: "bytes \<Rightarrow> bytes" where "trim s = trim_end (trim_start 0 s)"

section \<open>Integers\<close>

fun digits_of :: "nat \<Rightarrow> bytes" where
  "digits_of n = (if n < 10 then [word_of_nat (48 + n)] else digits_of (n div 10) @ [word_of_nat (48 + n mod 10)])"

declare digits_of.simps [simp del]

definition is_digit :: "u8 \<Rightarrow> bool" where "is_digit b \<longleftrightarrow> 0x30 \<le> b \<and> b \<le> 0x39"

definition decimal :: "bytes \<Rightarrow> nat" where
  "decimal b = foldl (\<lambda>n d. 10 * n + (unat d - 48)) 0 b"

definition parse_digits :: "bytes \<Rightarrow> nat option" where
  "parse_digits b = (if b = [] \<or> \<not> list_all is_digit b then None else Some (decimal b))"

fun parse_unsigned :: "nat \<Rightarrow> bytes \<Rightarrow> nat option" where
  "parse_unsigned limit b =
     (case parse_digits (if take 1 b = [0x2B] then drop 1 b else b) of None \<Rightarrow> None
      | Some n \<Rightarrow> if n < limit then Some n else None)"

fun parse_signed :: "nat \<Rightarrow> bytes \<Rightarrow> int option" where
  "parse_signed limit b =
     (if take 1 b = [0x2D] then
        (case parse_digits (drop 1 b) of None \<Rightarrow> None | Some n \<Rightarrow> if n \<le> limit then Some (- int n) else None)
      else map_option int (parse_unsigned limit b))"

section \<open>Decimals\<close>

definition ascii_lower :: "bytes \<Rightarrow> bytes" where
  "ascii_lower = map (\<lambda>b. if 0x41 \<le> b \<and> b \<le> 0x5A then b + 0x20 else b)"

definition apply_sign :: "bool \<Rightarrow> f64 \<Rightarrow> f64" where "apply_sign neg v = (if neg then fneg v else v)"

text \<open>\<open>mantissa * 10 ^ exponent\<close>, the digits after the point counted in the exponent.\<close>

definition decimal_value :: "bytes \<Rightarrow> bytes \<Rightarrow> int \<Rightarrow> rat" where
  "decimal_value whole part e =
     (let n = of_nat (decimal (whole @ part)) :: rat; k = e - int (length part) in
      if 0 \<le> k then n * 10 ^ nat k else n / 10 ^ nat (- k))"

definition parse_exponent :: "bytes \<Rightarrow> int option" where
  "parse_exponent b =
     (if b = [] then Some 0
      else if hd b = 0x65 \<or> hd b = 0x45 then
        (let e = drop 1 b in
         if take 1 e = [0x2D] then map_option (\<lambda>n. - int n) (parse_digits (drop 1 e))
         else map_option int (parse_digits (if take 1 e = [0x2B] then drop 1 e else e)))
      else None)"

definition parse_decimal :: "bytes \<Rightarrow> f64 option" where
  "parse_decimal b =
     (let whole = takeWhile is_digit b; rest = dropWhile is_digit b;
          part = (if take 1 rest = [0x2E] then takeWhile is_digit (drop 1 rest) else []);
          tail = (if take 1 rest = [0x2E] then dropWhile is_digit (drop 1 rest) else rest)
      in if whole = [] \<and> part = [] then None
         else map_option (\<lambda>e. rnd False (decimal_value whole part e)) (parse_exponent tail))"

definition parse_f64 :: "bytes \<Rightarrow> f64 option" where
  "parse_f64 b =
     (let neg = take 1 b = [0x2D]; body = (if neg \<or> take 1 b = [0x2B] then drop 1 b else b); low = ascii_lower body in
      if low = ascii ''inf'' \<or> low = ascii ''infinity'' then Some (FInf neg)
      else if low = ascii ''nan'' then Some FNaN
      else map_option (apply_sign neg) (parse_decimal body))"

section \<open>Lemmas\<close>

lemma digits_of_plain:
  "list_all is_digit (digits_of n)" "digits_of n \<noteq> []" "decimal (digits_of n) = n"
proof -
  have d: "is_digit (word_of_nat (48 + d))" "unat (word_of_nat (48 + d) :: u8) = 48 + d" if "d < 10" for d
  proof -
    show "unat (word_of_nat (48 + d) :: u8) = 48 + d" unfolding unat_of_nat using that by simp
    then show "is_digit (word_of_nat (48 + d))" using that by (simp add: is_digit_def word_le_nat_alt del: of_nat_add)
  qed
  have "list_all is_digit (digits_of n) \<and> digits_of n \<noteq> [] \<and> decimal (digits_of n) = n"
  proof (induction n rule: digits_of.induct)
    case (1 n)
    show ?case
    proof (cases "n < 10")
      case True
      then show ?thesis using d[of n] by (simp add: digits_of.simps[of n] decimal_def del: of_nat_add)
    next
      case False
      then show ?thesis using 1 d[of "n mod 10"] by (simp add: digits_of.simps[of n] decimal_def del: of_nat_add)
    qed
  qed
  then show "list_all is_digit (digits_of n)" "digits_of n \<noteq> []" "decimal (digits_of n) = n" by simp_all
qed

lemma digits_of_inj: "digits_of m = digits_of n \<longleftrightarrow> m = n"
  using digits_of_plain(3) by metis

lemma parse_digits_of: "parse_digits (digits_of n) = Some n"
  using digits_of_plain by (simp add: parse_digits_def)

lemma parse_unsigned_of: "n < limit \<Longrightarrow> parse_unsigned limit (digits_of n) = Some n"
proof -
  assume n: "n < limit"
  obtain d ds where e: "digits_of n = d # ds" using digits_of_plain(2) by (cases "digits_of n") auto
  then have "d \<noteq> 0x2B" using digits_of_plain(1)[of n] by (auto simp: is_digit_def)
  then show ?thesis using n parse_digits_of[of n] by (simp add: e)
qed

text \<open>A word: not empty and nowhere the start of whitespace, whatever follows it.\<close>

definition no_ws :: "u8 \<Rightarrow> bool" where
  "no_ws b \<longleftrightarrow> \<not> (0x09 \<le> b \<and> b \<le> 0x0D) \<and> b \<noteq> 0x20 \<and> b \<noteq> 0xC2 \<and> b \<noteq> 0xE1 \<and> b \<noteq> 0xE2 \<and> b \<noteq> 0xE3"

definition plain_word :: "bytes \<Rightarrow> bool" where "plain_word w \<longleftrightarrow> w \<noteq> [] \<and> list_all no_ws w"

lemma ws_len_no: "no_ws b \<Longrightarrow> ws_len (b # bs) = 0"
  by (auto simp: no_ws_def split: list.splits)

lemma split_go_word: "list_all no_ws w \<Longrightarrow> split_go 0 pre (w @ rest) = split_go 0 (pre @ w) rest"
  by (induction w arbitrary: pre) (simp_all add: ws_len_no del: ws_len.simps)

lemma split_words:
  assumes "list_all plain_word ws"
  shows "split_ws (concat (map (\<lambda>w. w @ [0x20]) ws)) = ws"
    "ws \<noteq> [] \<Longrightarrow> split_ws (concat (map (\<lambda>w. w @ [0x20]) (butlast ws)) @ last ws) = ws"
proof -
  have s: "split_go 0 w (0x20 # bs) = emit w @ split_go 0 [] bs" for w bs by simp
  have all: "list_all plain_word vs \<Longrightarrow> split_go 0 [] (concat (map (\<lambda>w. w @ [0x20]) vs) @ rest) = vs @ split_go 0 [] rest" for vs rest
    by (induction vs) (simp_all add: plain_word_def split_go_word s emit_def del: split_go.simps ws_len.simps)
  show "split_ws (concat (map (\<lambda>w. w @ [0x20]) ws)) = ws"
    using all[OF assms, of "[]"] by (simp add: split_ws_def emit_def)
  assume ne: "ws \<noteq> []"
  have p: "list_all plain_word (butlast ws)" "plain_word (last ws)"
    using assms ne by (auto simp: list_all_iff dest: in_set_butlastD)
  have "split_go 0 [] (last ws) = [last ws]"
    using split_go_word[of "last ws" "[]" "[]"] p(2) by (simp add: plain_word_def emit_def)
  then show "split_ws (concat (map (\<lambda>w. w @ [0x20]) (butlast ws)) @ last ws) = ws"
    using all[OF p(1), of "last ws"] ne by (simp add: split_ws_def)
qed

lemma digits_plain: "plain_word (digits_of n)"
proof -
  have "is_digit b \<Longrightarrow> no_ws b" for b
    unfolding is_digit_def no_ws_def word_le_nat_alt by (auto simp: unat_eq_nat_uint[symmetric] dest: arg_cong[of _ _ unat])
  then show ?thesis using digits_of_plain(1,2)[of n] by (auto simp: plain_word_def list_all_iff)
qed
end
