(* ===== verification/Dates.thy ===== *)
theory Dates
  imports TextBytes
begin

text \<open>The validity window of a certificate (\<open>crates/rusty_time-nts/src/dates.rs\<close>): the DER element reader, the walk to
the two times, their text, and the day number of a civil date, which is compared with the calendar itself.  A
string is its bytes; the years read have four digits, so \<open>i64\<close> does not overflow and is \<open>int\<close> here.\<close>

section \<open>Reading\<close>

fun be_len :: "nat \<Rightarrow> bytes \<Rightarrow> nat" where
  "be_len len [] = len"
| "be_len len (b # bs) = be_len (256 * len + unat b) bs"

text \<open>The length octets: the length and what follows them.\<close>

definition element_len :: "u8 \<Rightarrow> bytes \<Rightarrow> (nat \<times> bytes) option" where
  "element_len first input =
     (if first < 0x80 then Some (unat first, input)
      else let count = unat (first AND 0x7F) in
        if count = 0 \<or> 4 < count \<or> length input < count then None
        else Some (be_len 0 (take count input), drop count input))"

fun element :: "bytes \<Rightarrow> (u8 \<times> bytes \<times> bytes) option" where
  "element (tag # first # input) =
     (case element_len first input of None \<Rightarrow> None
      | Some (len, rest) \<Rightarrow> if length rest < len then None else Some (tag, take len rest, drop len rest))"
| "element _ = None"

definition digits_int :: "bytes \<Rightarrow> int" where
  "digits_int b = foldl (\<lambda>n d. 10 * n + (uint d - 48)) 0 b"

definition days_from_civil :: "int \<Rightarrow> int \<Rightarrow> int \<Rightarrow> int" where
  "days_from_civil year month day =
     (let y = (if month \<le> 2 then year - 1 else year);
          era = y div 400;
          yoe = y - era * 400;
          mp = (month + 9) mod 12;
          doy = (153 * mp + 2) div 5 + day - 1;
          doe = yoe * 365 + yoe div 4 - yoe div 100 + doy
      in era * 146097 + doe - 719468)"

definition year_part :: "u8 \<Rightarrow> bytes \<Rightarrow> (int \<times> bytes) option" where
  "year_part tag digits =
     (if tag = 0x17 \<and> length digits = 12 then
        (let yy = digits_int (take 2 digits) in Some (if 50 \<le> yy then 1900 + yy else 2000 + yy, drop 2 digits))
      else if tag = 0x18 \<and> length digits = 14 then Some (digits_int (take 4 digits), drop 4 digits)
      else None)"

definition two_at :: "bytes \<Rightarrow> nat \<Rightarrow> int" where "two_at b i = digits_int (slice b i (i + 2))"

definition seconds_of :: "int \<Rightarrow> bytes \<Rightarrow> int option" where
  "seconds_of year fs =
     (let month = two_at fs 0; day = two_at fs 2; hour = two_at fs 4; minute = two_at fs 6; second = two_at fs 8 in
      if \<not> (1 \<le> month \<and> month \<le> 12) \<or> \<not> (1 \<le> day \<and> day \<le> 31) \<or> 23 < hour \<or> 59 < minute \<or> 60 < second then None
      else Some (days_from_civil year month day * 86400 + hour * 3600 + minute * 60 + second))"

definition der_time :: "u8 \<Rightarrow> bytes \<Rightarrow> int option" where
  "der_time tag v =
     (if \<not> utf8_ok v \<or> v = [] \<or> last v \<noteq> 0x5A then None
      else let digits = butlast v in
        if \<not> list_all is_digit digits then None
        else case year_part tag digits of None \<Rightarrow> None | Some (year, rest) \<Rightarrow> seconds_of year rest)"

definition expect :: "u8 \<Rightarrow> bytes \<Rightarrow> (bytes \<times> bytes) option" where
  "expect tag input = (case element input of None \<Rightarrow> None | Some (t, body, after) \<Rightarrow> if t = tag then Some (body, after) else None)"

definition skip_version :: "bytes \<Rightarrow> bytes option" where
  "skip_version tbs = map_option (\<lambda>(tag, _, after). if tag = 0xA0 then after else tbs) (element tbs)"

fun skip_fields :: "u8 list \<Rightarrow> bytes \<Rightarrow> bytes option" where
  "skip_fields [] rest = Some rest"
| "skip_fields (tag # tags) rest = (case expect tag rest of None \<Rightarrow> None | Some (_, after) \<Rightarrow> skip_fields tags after)"

definition read_window :: "bytes \<Rightarrow> (int \<times> int) option" where
  "read_window v =
     (case element v of None \<Rightarrow> None
      | Some (tag_before, before, after) \<Rightarrow>
          (case element after of None \<Rightarrow> None
           | Some (tag_after, not_after, _) \<Rightarrow>
               (case der_time tag_before before of None \<Rightarrow> None
                | Some b \<Rightarrow> (case der_time tag_after not_after of None \<Rightarrow> None | Some a \<Rightarrow> Some (b, a)))))"

definition validity :: "bytes \<Rightarrow> (int \<times> int) option" where
  "validity der =
     (case expect 0x30 der of None \<Rightarrow> None
      | Some (cert, _) \<Rightarrow> (case expect 0x30 cert of None \<Rightarrow> None
        | Some (tbs, _) \<Rightarrow> (case skip_version tbs of None \<Rightarrow> None
          | Some rest \<Rightarrow> (case skip_fields [0x02, 0x30, 0x30] rest of None \<Rightarrow> None
            | Some rest' \<Rightarrow> (case expect 0x30 rest' of None \<Rightarrow> None | Some (v, _) \<Rightarrow> read_window v)))))"

section \<open>The calendar\<close>

definition leap_year :: "int \<Rightarrow> bool" where
  "leap_year y \<longleftrightarrow> y mod 4 = 0 \<and> (y mod 100 \<noteq> 0 \<or> y mod 400 = 0)"

definition month_length :: "int \<Rightarrow> int \<Rightarrow> int" where
  "month_length y m = (if m = 2 then (if leap_year y then 29 else 28) else if m \<in> {4, 6, 9, 11} then 30 else 31)"

definition date_ok :: "int \<times> int \<times> int \<Rightarrow> bool" where
  "date_ok = (\<lambda>(y, m, d). 1 \<le> m \<and> m \<le> 12 \<and> 1 \<le> d \<and> d \<le> month_length y m)"

definition next_day :: "int \<times> int \<times> int \<Rightarrow> int \<times> int \<times> int" where
  "next_day = (\<lambda>(y, m, d). if d < month_length y m then (y, m, d + 1) else if m < 12 then (y, m + 1, 1) else (y + 1, 1, 1))"

fun days_later :: "nat \<Rightarrow> int \<times> int \<times> int \<Rightarrow> int \<times> int \<times> int" where
  "days_later 0 d = d"
| "days_later (Suc n) d = next_day (days_later n d)"

definition civil :: "int \<times> int \<times> int \<Rightarrow> int" where "civil = (\<lambda>(y, m, d). days_from_civil y m d)"

lemma days_closed: "days_from_civil year month day =
    (let y = (if month \<le> 2 then year - 1 else year) in
     365 * y + y div 4 - y div 100 + y div 400 + (153 * ((month + 9) mod 12) + 2) div 5 + day - 719469)"
proof -
  have eq: "y div 400 * 146097 + ((y - y div 400 * 400) * 365 + (y - y div 400 * 400) div 4 - (y - y div 400 * 400) div 100)
    = 365 * y + y div 4 - y div 100 + y div 400" for y :: int
  proof -
    define q r where "q = y div 400" and "r = y mod 400"
    have y: "y = r + q * 400" "y - q * 400 = r" by (simp_all add: q_def r_def minus_div_mult_eq_mod)
    have "(r + (100 * q) * 4) div 4 = 100 * q + r div 4" "(r + (4 * q) * 100) div 100 = 4 * q + r div 100"
      by (rule div_mult_self1, simp)+
    moreover have "y = r + (100 * q) * 4" "y = r + (4 * q) * 100" using y(1) by simp_all
    ultimately have d: "y div 4 = 100 * q + r div 4" "y div 100 = 4 * q + r div 100" by metis+
    have shape: "q * 146097 + (r * 365 + a - b) = 365 * y + (100 * q + a) - (4 * q + b) + q" for a b using y(1) by simp
    show ?thesis unfolding q_def[symmetric] y(2) d by (rule shape)
  qed
  have shape: "e * 146097 + (a + b - c + (d + x - 1)) - 719468 = (e * 146097 + (a + b - c)) + d + x - 719469" for e a b c d x :: int
    by simp
  show ?thesis unfolding days_from_civil_def Let_def shape eq by (rule refl)
qed

lemma div_step:
  fixes y n :: int
  assumes "1 < n"
  shows "(y + 1) div n = y div n + (if (y + 1) mod n = 0 then 1 else 0)"
proof (cases "(y + 1) mod n = 0")
  case True
  then obtain k where k: "y + 1 = n * k" by (auto simp: mod_eq_0_iff_dvd elim: dvdE)
  have "y div n = k - 1"
    by (rule int_div_pos_eq[where r = "n - 1"]) (use k assms in \<open>auto simp: algebra_simps\<close>)
  then show ?thesis using k assms by simp
next
  case False
  have "y mod n + 1 \<noteq> n"
  proof
    assume "y mod n + 1 = n"
    then have "(y mod n + 1) mod n = 0" by simp
    then show False using False by (simp add: mod_add_left_eq)
  qed
  then have "y mod n + 1 < n" using pos_mod_bound[of n y] assms by linarith
  moreover have "y + 1 = n * (y div n) + (y mod n + 1)" by (simp add: mult_div_mod_eq algebra_simps)
  ultimately have "(y + 1) div n = y div n" using assms by (intro int_div_pos_eq[where r = "y mod n + 1"]) auto
  then show ?thesis using False by simp
qed

lemma year_step: "365 * (y + 1) + (y + 1) div 4 - (y + 1) div 100 + (y + 1) div 400 =
    365 * y + y div 4 - y div 100 + y div 400 + (if leap_year (y + 1) then 366 else 365)" for y :: int
proof -
  have d: "(4 :: int) dvd 100" "(100 :: int) dvd 400" by simp_all
  have m: "(y + 1) mod 100 = 0 \<longrightarrow> (y + 1) mod 4 = 0" "(y + 1) mod 400 = 0 \<longrightarrow> (y + 1) mod 100 = 0"
    unfolding mod_eq_0_iff_dvd by (rule impI, rule dvd_trans[OF d(1)], assumption) (rule impI, rule dvd_trans[OF d(2)], assumption)
  have l: "365 + (if a then 1 else 0) - (if b then 1 else 0) + (if c then 1 else 0) = (if a \<and> (\<not> b \<or> c) then 366 else (365 :: int))"
    if "b \<longrightarrow> a" "c \<longrightarrow> b" for a b c using that by (cases a; cases b; cases c) simp_all
  have shape: "365 * (y + 1) + (a + i) - (b + j) + (c + k) = 365 * y + a - b + c + (365 + i - j + k)" for a b c i j k :: int
    by simp
  have n: "1 < (4 :: int)" "1 < (100 :: int)" "1 < (400 :: int)" by simp_all
  show ?thesis unfolding div_step[OF n(1)] div_step[OF n(2)] div_step[OF n(3)] leap_year_def shape l[OF m] by (rule refl)
qed

text \<open>The days of the year before a month, the year beginning in March.\<close>

definition before_month :: "int \<Rightarrow> int" where "before_month m = (153 * ((m + 9) mod 12) + 2) div 5"

lemma before_month_next: "1 \<le> m \<Longrightarrow> m < 12 \<Longrightarrow> m \<noteq> 2 \<Longrightarrow> before_month (m + 1) = before_month m + month_length y m"
proof -
  assume "1 \<le> m" "m < 12" "m \<noteq> 2"
  then have "m = 1 \<or> m = 3 \<or> m = 4 \<or> m = 5 \<or> m = 6 \<or> m = 7 \<or> m = 8 \<or> m = 9 \<or> m = 10 \<or> m = 11" by presburger
  then show ?thesis by (elim disjE) (simp_all add: before_month_def month_length_def)
qed

lemma civil_next: "date_ok d \<Longrightarrow> civil (next_day d) = civil d + 1"
proof -
  obtain y m x where d: "d = (y, m, x)" by (cases d) auto
  assume ok: "date_ok d"
  then have m: "1 \<le> m" "m \<le> 12" and x: "1 \<le> x" "x \<le> month_length y m" by (simp_all add: date_ok_def d)
  define base where "base = (\<lambda>y :: int. 365 * y + y div 4 - y div 100 + y div 400)"
  have c: "days_from_civil y m x = base (if m \<le> 2 then y - 1 else y) + before_month m + x - 719469" for y m x
    by (simp add: days_closed base_def before_month_def Let_def)
  consider "x < month_length y m" | "x = month_length y m" "m = 2" | "x = month_length y m" "m = 12"
    | "x = month_length y m" "m < 12" "m \<noteq> 2" using x m by linarith
  then show ?thesis
  proof cases
    case 1
    then show ?thesis by (simp add: d next_day_def civil_def c)
  next
    case 2
    have "base y = base (y - 1) + (if leap_year y then 366 else 365)" using year_step[of "y - 1"] by (simp add: base_def)
    then show ?thesis by (simp add: d 2 next_day_def civil_def c month_length_def before_month_def)
  next
    case 3
    then show ?thesis by (simp add: d next_day_def civil_def c month_length_def before_month_def)
  next
    case 4
    then show ?thesis using m before_month_next[of m y] by (simp add: d next_day_def civil_def c)
  qed
qed

lemma date_ok_next: "date_ok d \<Longrightarrow> date_ok (next_day d)"
proof -
  have "1 \<le> month_length y m" for y m by (simp add: month_length_def)
  then show "date_ok d \<Longrightarrow> date_ok (next_day d)" by (cases d) (simp add: date_ok_def next_day_def)
qed

lemma date_ok_later: "date_ok d \<Longrightarrow> date_ok (days_later n d)"
  by (induction n) (simp_all add: date_ok_next)

text \<open>C33: the closed formula counts the days of the calendar.  Starting at 1970-01-01, the date
\<open>n\<close> days later, each day being the calendar's successor of the one before with its month lengths and leap years, has
day number \<open>n\<close>; and any two dates are as many days apart as their numbers differ by.\<close>

theorem civil_days_count:
  assumes "date_ok d"
  shows "civil (days_later n d) = civil d + int n \<and> civil (days_later n (1970, 1, 1)) = int n"
proof -
  have step: "civil (days_later k e) = civil e + int k" if "date_ok e" for k e
    by (induction k) (simp_all add: civil_next date_ok_later[OF that])
  have "date_ok (1970, 1, 1)" "civil (1970, 1, 1) = 0" by (simp_all add: date_ok_def month_length_def civil_def days_from_civil_def)
  then show ?thesis using step[OF assms] step[of "(1970, 1, 1)"] by simp
qed

lemma civil_days_count_witness: "civil (days_later 2 (2024, 2, 28)) = civil (2024, 2, 28) + 2 \<and> days_later 2 (2024, 2, 28) = (2024, 3, 1)"
proof -
  have "date_ok (2024, 2, 28)" by (simp add: date_ok_def month_length_def)
  moreover have "days_later 2 (2024, 2, 28) = (2024, 3, 1)"
    by (simp add: numeral_2_eq_2 next_day_def month_length_def leap_year_def)
  ultimately show ?thesis using civil_days_count[of "(2024, 2, 28)" 2] by simp
qed


section \<open>Certificates\<close>

text \<open>The encoder the reader is compared with: DER lengths, decimal times, and the fields of a certificate before and
after its validity.\<close>

fun be_bytes :: "nat \<Rightarrow> nat \<Rightarrow> bytes" where
  "be_bytes 0 n = []"
| "be_bytes (Suc k) n = word_of_nat (n div 256 ^ k) # be_bytes k (n mod 256 ^ k)"

definition len_octets :: "nat \<Rightarrow> nat" where
  "len_octets n = (if n < 256 then 1 else if n < 65536 then 2 else if n < 16777216 then 3 else 4)"

definition der :: "u8 \<Rightarrow> bytes \<Rightarrow> bytes" where
  "der tag body =
     (let n = length body in
      tag # (if n < 128 then [word_of_nat n] else word_of_nat (128 + len_octets n) # be_bytes (len_octets n) n) @ body)"

fun dec :: "nat \<Rightarrow> nat \<Rightarrow> bytes" where
  "dec 0 n = []"
| "dec (Suc k) n = word_of_nat (48 + n div 10 ^ k) # dec k (n mod 10 ^ k)"

record Moment =
  mo_year :: nat
  mo_month :: nat
  mo_day :: nat
  mo_hour :: nat
  mo_minute :: nat
  mo_second :: nat

definition moment_ok :: "Moment \<Rightarrow> bool" where
  "moment_ok t \<longleftrightarrow> mo_year t < 10000 \<and> 1 \<le> mo_month t \<and> mo_month t \<le> 12 \<and> 1 \<le> mo_day t \<and> mo_day t \<le> 31 \<and>
     mo_hour t \<le> 23 \<and> mo_minute t \<le> 59 \<and> mo_second t \<le> 60"

definition unix_seconds :: "Moment \<Rightarrow> int" where
  "unix_seconds t = civil (int (mo_year t), int (mo_month t), int (mo_day t)) * 86400 + int (mo_hour t) * 3600 +
     int (mo_minute t) * 60 + int (mo_second t)"

definition time_fields :: "Moment \<Rightarrow> bytes" where
  "time_fields t = dec 2 (mo_month t) @ dec 2 (mo_day t) @ dec 2 (mo_hour t) @ dec 2 (mo_minute t) @ dec 2 (mo_second t)"

text \<open>\<open>UTCTime\<close> for the years it is for, \<open>GeneralizedTime\<close> for the others.\<close>

definition utc_years :: "Moment \<Rightarrow> bool" where "utc_years t \<longleftrightarrow> 1950 \<le> mo_year t \<and> mo_year t < 2050"

definition der_moment :: "Moment \<Rightarrow> bytes" where
  "der_moment t =
     (if utc_years t then der 0x17 (dec 2 (mo_year t mod 100) @ time_fields t @ [0x5A])
      else der 0x18 (dec 4 (mo_year t) @ time_fields t @ [0x5A]))"

lemma be_len_bytes: "n < 256 ^ k \<Longrightarrow> be_len len (be_bytes k n) = 256 ^ k * len + n"
proof (induction k arbitrary: n len)
  case (Suc k)
  have "n div 256 ^ k < 256" using Suc.prems by (simp add: less_mult_imp_div_less)
  then have "unat (word_of_nat (n div 256 ^ k) :: u8) = n div 256 ^ k" by (simp add: unat_of_nat)
  then show ?case using Suc.IH[of "n mod 256 ^ k" "256 * len + n div 256 ^ k"] by (simp add: algebra_simps)
qed simp

lemma length_be_bytes [simp]: "length (be_bytes k n) = k"
  by (induction k arbitrary: n) simp_all

lemma element_der: "length body < 2 ^ 32 \<Longrightarrow> element (der tag body @ rest) = Some (tag, body, rest)"
proof -
  assume b: "length body < 2 ^ 32"
  show ?thesis
  proof (cases "length body < 128")
    case True
    then have u: "unat (word_of_nat (length body) :: u8) = length body" by (simp add: unat_of_nat)
    then have "(word_of_nat (length body) :: u8) < 0x80" using True by (simp add: word_less_nat_alt)
    then show ?thesis using True u by (simp add: der_def Let_def element_len_def)
  next
    case False
    define k where "k = len_octets (length body)"
    have k: "k = 1 \<or> k = 2 \<or> k = 3 \<or> k = 4" "length body < 256 ^ k" using b by (auto simp: k_def len_octets_def)
    define f where "f = (word_of_nat (128 + k) :: u8)"
    have f: "\<not> f < 0x80" "unat (f AND 0x7F) = k"
      using k(1) by (auto simp: f_def word_less_nat_alt)
    have "element_len f (be_bytes k (length body) @ body @ rest) = Some (length body, body @ rest)"
      using f k be_len_bytes[OF k(2), of 0] by (auto simp: element_len_def Let_def)
    moreover have "der tag body @ rest = tag # f # be_bytes k (length body) @ body @ rest"
      using False by (simp add: der_def Let_def k_def f_def)
    ultimately show ?thesis by simp
  qed
qed

lemma expect_der: "length body < 2 ^ 32 \<Longrightarrow> expect tag (der tag body @ rest) = Some (body, rest)"
  by (simp add: expect_def element_der)

lemma length_dec [simp]: "length (dec k n) = k"
  by (induction k arbitrary: n) simp_all

lemma digit_word:
  assumes "d < 10"
  shows "uint (word_of_nat (48 + d) :: u8) = 48 + int d" "is_digit (word_of_nat (48 + d))"
proof -
  have u: "unat (word_of_nat (48 + d) :: u8) = 48 + d" unfolding unat_of_nat using assms by simp
  then show "uint (word_of_nat (48 + d) :: u8) = 48 + int d" by (simp add: uint_nat)
  show "is_digit (word_of_nat (48 + d))" using u assms by (simp add: is_digit_def word_le_nat_alt)
qed

lemma dec_digits: "n < 10 ^ k \<Longrightarrow> list_all is_digit (dec k n)"
proof (induction k arbitrary: n)
  case (Suc k)
  have "n div 10 ^ k < 10" using Suc.prems by (simp add: less_mult_imp_div_less)
  then show ?case using Suc.IH[of "n mod 10 ^ k"] digit_word(2) by simp
qed simp

lemma digits_int_dec: "n < 10 ^ k \<Longrightarrow> digits_int (dec k n) = int n"
proof -
  have "n < 10 ^ k \<Longrightarrow> foldl (\<lambda>n d. 10 * n + (uint d - 48)) a (dec k n) = 10 ^ k * a + int n" for a
  proof (induction k arbitrary: n a)
    case (Suc k)
    have "n div 10 ^ k < 10" using Suc.prems by (simp add: less_mult_imp_div_less)
    then have d: "uint (word_of_nat (48 + n div 10 ^ k) :: u8) = 48 + int (n div 10 ^ k)" by (rule digit_word)
    have m: "int n = 10 ^ k * int (n div 10 ^ k) + int (n mod 10 ^ k)"
    proof -
      have "int n = int (10 ^ k * (n div 10 ^ k) + n mod 10 ^ k)" by (simp only: mult_div_mod_eq)
      then show ?thesis by (simp only: of_nat_add of_nat_mult of_nat_power of_nat_numeral)
    qed
    show ?case using Suc.IH[of "n mod 10 ^ k" "10 * a + int (n div 10 ^ k)"] m
      by (simp only: dec.simps foldl.simps d) (simp add: algebra_simps)
  qed simp
  then show "n < 10 ^ k \<Longrightarrow> digits_int (dec k n) = int n" by (simp add: digits_int_def)
qed

lemma utf8_digits: "list_all is_digit ds \<Longrightarrow> utf8_ok (ds @ [0x5A])"
proof (induction ds)
  case (Cons d ds)
  have "d < 0x80" using Cons.prems by (auto simp: is_digit_def intro: le_less_trans)
  then show ?case using Cons by simp
qed simp

lemma two_field: "n < 100 \<Longrightarrow> length pre = i \<Longrightarrow> two_at (pre @ dec 2 n @ post) i = int n"
  using digits_int_dec[of n 2] by (simp add: two_at_def slice_def)

lemma seconds_of_fields:
  assumes "moment_ok t"
  shows "seconds_of (int (mo_year t)) (time_fields t) = Some (unix_seconds t)"
proof -
  have b: "mo_month t < 100" "mo_day t < 100" "mo_hour t < 100" "mo_minute t < 100" "mo_second t < 100"
    using assms by (simp_all add: moment_ok_def)
  have "two_at (time_fields t) 0 = int (mo_month t)" "two_at (time_fields t) 2 = int (mo_day t)"
    "two_at (time_fields t) 4 = int (mo_hour t)" "two_at (time_fields t) 6 = int (mo_minute t)" "two_at (time_fields t) 8 = int (mo_second t)"
    unfolding time_fields_def
    using two_field[OF b(1), of "[]"] two_field[OF b(2), of "dec 2 (mo_month t)"]
      two_field[OF b(3), of "dec 2 (mo_month t) @ dec 2 (mo_day t)"]
      two_field[OF b(4), of "dec 2 (mo_month t) @ dec 2 (mo_day t) @ dec 2 (mo_hour t)"]
      two_field[OF b(5), of "dec 2 (mo_month t) @ dec 2 (mo_day t) @ dec 2 (mo_hour t) @ dec 2 (mo_minute t)" 8 "[]"]
    by (simp_all del: dec.simps)
  then show ?thesis using assms by (simp add: seconds_of_def moment_ok_def unix_seconds_def civil_def Let_def)
qed

lemma year_part_utc:
  assumes "utc_years t" "length fs = 10"
  shows "year_part 0x17 (dec 2 (mo_year t mod 100) @ fs) = Some (int (mo_year t), fs)"
proof -
  have "digits_int (dec 2 (mo_year t mod 100)) = int (mo_year t mod 100)" by (rule digits_int_dec) simp
  moreover have "(if 50 \<le> int (mo_year t mod 100) then 1900 + int (mo_year t mod 100) else 2000 + int (mo_year t mod 100)) = int (mo_year t)"
  proof (cases "mo_year t < 2000")
    case True
    then have "mo_year t mod 100 = mo_year t - 1900" using assms(1) by (intro mod_nat_eqI) (auto simp: utc_years_def intro: exI[of _ 19])
    then show ?thesis using True assms(1) by (simp add: utc_years_def)
  next
    case False
    then have "mo_year t mod 100 = mo_year t - 2000" using assms(1) by (intro mod_nat_eqI) (auto simp: utc_years_def intro: exI[of _ 20])
    then show ?thesis using False assms(1) by (simp add: utc_years_def)
  qed
  ultimately show ?thesis using assms(2) by (simp add: year_part_def Let_def del: dec.simps)
qed

lemma der_moment_read:
  assumes "moment_ok t"
  shows "\<exists>tag body. element (der_moment t @ rest) = Some (tag, body, rest) \<and> der_time tag body = Some (unix_seconds t)"
proof -
  have len: "length (time_fields t) = 10" by (simp add: time_fields_def del: dec.simps)
  have dg: "list_all is_digit (time_fields t)" using assms
    by (simp add: time_fields_def moment_ok_def dec_digits del: dec.simps)
  show ?thesis
  proof (cases "utc_years t")
    case True
    let ?ds = "dec 2 (mo_year t mod 100) @ time_fields t"
    have d: "list_all is_digit ?ds" using dg dec_digits[of "mo_year t mod 100" 2] by simp
    have "der_time 0x17 (?ds @ [0x5A]) = Some (unix_seconds t)"
      using d utf8_digits[OF d] year_part_utc[OF True len] seconds_of_fields[OF assms]
      by (simp add: der_time_def Let_def butlast_append del: dec.simps append_assoc)
    moreover have "element (der_moment t @ rest) = Some (0x17, ?ds @ [0x5A], rest)"
      using True len by (simp add: der_moment_def element_der del: dec.simps)
    ultimately show ?thesis by blast
  next
    case False
    let ?ds = "dec 4 (mo_year t) @ time_fields t"
    have y: "mo_year t < 10 ^ 4" using assms by (simp add: moment_ok_def)
    have d: "list_all is_digit ?ds" using dg dec_digits[OF y] by simp
    have "year_part 0x18 ?ds = Some (int (mo_year t), time_fields t)"
      using len digits_int_dec[OF y] by (simp add: year_part_def del: dec.simps)
    then have "der_time 0x18 (?ds @ [0x5A]) = Some (unix_seconds t)"
      using d utf8_digits[OF d] seconds_of_fields[OF assms] by (simp add: der_time_def Let_def butlast_append del: dec.simps append_assoc)
    moreover have "element (der_moment t @ rest) = Some (0x18, ?ds @ [0x5A], rest)"
      using False len by (simp add: der_moment_def element_der del: dec.simps)
    ultimately show ?thesis by blast
  qed
qed

text \<open>A certificate around two times: the version is optional.\<close>

record CertParts =
  ct_version :: "bytes option"
  ct_serial :: bytes
  ct_algorithm :: bytes
  ct_issuer :: bytes
  ct_rest :: bytes
  ct_signature :: bytes

definition tbs_body :: "CertParts \<Rightarrow> bytes \<Rightarrow> bytes" where
  "tbs_body p v = (case ct_version p of None \<Rightarrow> [] | Some w \<Rightarrow> der 0xA0 w) @ der 0x02 (ct_serial p) @ der 0x30 (ct_algorithm p) @
     der 0x30 (ct_issuer p) @ der 0x30 v @ ct_rest p"

definition certificate :: "CertParts \<Rightarrow> bytes \<Rightarrow> bytes" where
  "certificate p v = der 0x30 (der 0x30 (tbs_body p v) @ ct_signature p)"

lemma length_der: "length body \<le> length (der tag body)" by (simp add: der_def Let_def)

text \<open>C34: the reader finds the window of every certificate.  Encode any two moments as RFC 5280 asks
(two-digit years from 1950 to 2049, four-digit years otherwise), put them into the validity of a certificate of less
than four gigabytes with or without a version, whatever the other fields and the bytes after it: the reader returns
exactly the two instants, in Unix seconds.\<close>

theorem validity_read:
  assumes "moment_ok before" "moment_ok after" "length (certificate p (der_moment before @ der_moment after @ extra)) < 2 ^ 32"
  shows "validity (certificate p (der_moment before @ der_moment after @ extra) @ trailing) =
    Some (unix_seconds before, unix_seconds after)"
proof -
  let ?v = "der_moment before @ der_moment after @ extra"
  have l1: "length (der 0x30 (tbs_body p ?v) @ ct_signature p) < 2 ^ 32"
    using le_less_trans[OF length_der assms(3)[unfolded certificate_def]] .
  have l2: "length (tbs_body p ?v) < 2 ^ 32" using l1 length_der[of "tbs_body p ?v" "0x30"] by simp
  have l3: "length (ct_serial p) < 2 ^ 32" "length (ct_algorithm p) < 2 ^ 32" "length (ct_issuer p) < 2 ^ 32" "length ?v < 2 ^ 32"
    "ct_version p = Some w \<Longrightarrow> length w < 2 ^ 32" for w
    using l2 length_der[of "ct_serial p" "0x02"] length_der[of "ct_algorithm p" "0x30"] length_der[of "ct_issuer p" "0x30"]
      length_der[of ?v "0x30"] length_der[of w "0xA0"] by (auto simp: tbs_body_def)
  have w: "read_window ?v = Some (unix_seconds before, unix_seconds after)"
    using der_moment_read[OF assms(1), of "der_moment after @ extra"] der_moment_read[OF assms(2), of extra]
    by (auto simp: read_window_def)
  have sv: "skip_version (tbs_body p ?v) = Some (der 0x02 (ct_serial p) @ der 0x30 (ct_algorithm p) @ der 0x30 (ct_issuer p) @ der 0x30 ?v @ ct_rest p)"
    using l3(1,5) by (cases "ct_version p") (simp_all add: tbs_body_def skip_version_def element_der)
  show ?thesis using l1 l2 l3(1-4) w sv
    by (simp add: validity_def certificate_def expect_der del: append_assoc)
qed

definition demo_moment :: Moment where
  "demo_moment = \<lparr> mo_year = 2024, mo_month = 2, mo_day = 29, mo_hour = 23, mo_minute = 59, mo_second = 60 \<rparr>"

definition demo_certificate :: CertParts where
  "demo_certificate = \<lparr> ct_version = Some [2, 1, 2], ct_serial = [7], ct_algorithm = [], ct_issuer = [], ct_rest = [9], ct_signature = [] \<rparr>"

lemma validity_read_witness:
  "validity (certificate demo_certificate (der_moment demo_moment @ der_moment (demo_moment\<lparr> mo_year := 2096 \<rparr>) @ []) @ [1, 2]) =
     Some (1709251200, 3981398400)"
proof -
  let ?v = "der_moment demo_moment @ der_moment (demo_moment\<lparr> mo_year := 2096 \<rparr>) @ []"
  have "length (certificate demo_certificate ?v) < 200" by code_simp
  moreover have "moment_ok demo_moment" "moment_ok (demo_moment\<lparr> mo_year := 2096 \<rparr>)" by (simp_all add: moment_ok_def demo_moment_def)
  ultimately have "validity (certificate demo_certificate ?v @ [1, 2]) = Some (unix_seconds demo_moment, unix_seconds (demo_moment\<lparr> mo_year := 2096 \<rparr>))"
    by (intro validity_read) simp_all
  moreover have "unix_seconds demo_moment = 1709251200" "unix_seconds (demo_moment\<lparr> mo_year := 2096 \<rparr>) = 3981398400"
    by (simp_all add: unix_seconds_def demo_moment_def civil_def days_from_civil_def)
  ultimately show ?thesis by simp
qed

end
