(* ===== verification/KeServer.thy ===== *)
theory KeServer
  imports NtsSession
begin

text \<open>The NTS-KE listener's session, \<open>handle_ke\<close> of \<open>crates/rusty_time-daemon/src/server.rs\<close>: the bounded read of
the client's records, the negotiation, the key export and the eight cookies of the answer, and that both halves of
key establishment agree.  The TLS connection is a parameter: the outcome of its set-up, of each read and of the
write, and its exporter.\<close>

definition KE_COOKIE_COUNT :: nat where "KE_COOKIE_COUNT = 8"
definition MAX_KE_REQUEST :: nat where "MAX_KE_REQUEST = 64 * 1024"

datatype ServeKeError = KsIo string | KsOversized | KsRecord RecordError | KsExport string | KsPoisoned
  | KsRandom KeError | KsMint CookieError

record ServerTls =
  kt_setup :: "string option"
  kt_reads :: "ReadEvent list"
  kt_export :: "bytes \<Rightarrow> bytes \<Rightarrow> string + bytes"
  kt_write :: "string option"

text \<open>\<open>None\<close> is a loop still waiting when the given reads are used up.\<close>

fun read_request :: "bytes \<Rightarrow> ReadEvent list \<Rightarrow> (ServeKeError + bytes) option" where
  "read_request buf [] = None"
| "read_request buf (Closed # _) = Some (Inr buf)"
| "read_request buf (UnexpectedEof # _) = Some (Inr buf)"
| "read_request buf (ReadFailed e # _) = Some (Inl (KsIo e))"
| "read_request buf (Got chunk # rest) =
     (if chunk = [] then Some (Inr buf)
      else if MAX_KE_REQUEST < length (buf @ chunk) then Some (Inl KsOversized)
      else if has_end_of_message (buf @ chunk) then Some (Inr (buf @ chunk))
      else read_request (buf @ chunk) rest)"

text \<open>The two verdicts, NTPv4 and AES-SIV-CMAC-256; every other record is passed over.\<close>

definition negotiate_record :: "KeRecord \<Rightarrow> bool \<times> bool \<Rightarrow> bool \<times> bool" where
  "negotiate_record r = (\<lambda>(proto, siv).
     if kr_record_type r = NEXT_PROTOCOL then (offers NEXT_PROTO_NTPV4 (kr_body r), siv)
     else if kr_record_type r = AEAD_ALGORITHM then (proto, offers AEAD_AES_SIV_CMAC_256 (kr_body r))
     else (proto, siv))"

fun negotiate :: "(RecordError + KeRecord) list \<Rightarrow> bool \<times> bool \<Rightarrow> ServeKeError + bool \<times> bool" where
  "negotiate [] oks = Inr oks"
| "negotiate (Inl e # _) oks = Inl (KsRecord e)"
| "negotiate (Inr r # rest) oks = negotiate rest (negotiate_record r oks)"

definition refusal :: bytes where
  "refusal = write_record (write_record [] True ERROR_RECORD (to_be 2 (1 :: u16))) True END_OF_MESSAGE []"

definition server_context :: "u8 \<Rightarrow> bytes" where
  "server_context direction =
     [ucast (drop_bit 8 NEXT_PROTO_NTPV4), ucast NEXT_PROTO_NTPV4,
      ucast (drop_bit 8 AEAD_AES_SIV_CMAC_256), ucast AEAD_AES_SIV_CMAC_256, direction]"

definition export_server_keys :: "ServerTls \<Rightarrow> ServeKeError + NtsKeys" where
  "export_server_keys conn =
     (case kt_export conn (ascii ''EXPORTER-network-time-security'') (server_context 0x00) of
        Inl e \<Rightarrow> Inl (KsExport e)
      | Inr c2s \<Rightarrow>
          (case kt_export conn (ascii ''EXPORTER-network-time-security'') (server_context 0x01) of
             Inl e \<Rightarrow> Inl (KsExport e)
           | Inr s2c \<Rightarrow> Inr \<lparr> k_c2s = c2s, k_s2c = s2c \<rparr>))"

definition answer_head :: "u16 \<Rightarrow> bytes" where
  "answer_head ntp_port =
     (let out = write_record (write_record [] True NEXT_PROTOCOL (to_be 2 NEXT_PROTO_NTPV4)) True AEAD_ALGORITHM
        (to_be 2 AEAD_AES_SIV_CMAC_256)
      in if ntp_port \<noteq> 123 then write_record out False PORT_NEGOTIATION (to_be 2 ntp_port) else out)"

fun ke_cookies :: "Aead \<Rightarrow> (nat \<Rightarrow> nat \<Rightarrow> KeError + bytes) \<Rightarrow> KeyRing \<Rightarrow> NtsKeys \<Rightarrow> nat list \<Rightarrow> bytes \<Rightarrow> ServeKeError + bytes" where
  "ke_cookies c rand ring keys [] out = Inr out"
| "ke_cookies c rand ring keys (i # is) out =
     (case rand i COOKIE_NONCE_LEN of Inl e \<Rightarrow> Inl (KsRandom e)
      | Inr nonce \<Rightarrow>
          (case mint c ring keys nonce of Inl e \<Rightarrow> Inl (KsMint e)
           | Inr cookie \<Rightarrow> ke_cookies c rand ring keys is (write_record out False NEW_COOKIE cookie)))"

text \<open>The key ring is \<open>None\<close> when the lock is poisoned.\<close>

definition ke_answer ::
  "Aead \<Rightarrow> (nat \<Rightarrow> nat \<Rightarrow> KeError + bytes) \<Rightarrow> u16 \<Rightarrow> KeyRing option \<Rightarrow> ServerTls \<Rightarrow> ServeKeError + bytes" where
  "ke_answer c rand ntp_port ring conn =
     (case export_server_keys conn of Inl e \<Rightarrow> Inl e
      | Inr keys \<Rightarrow>
          (case ring of None \<Rightarrow> Inl KsPoisoned
           | Some guard \<Rightarrow>
               (case ke_cookies c rand guard keys [0..<KE_COOKIE_COUNT] (answer_head ntp_port) of Inl e \<Rightarrow> Inl e
                | Inr out \<Rightarrow> Inr (write_record out True END_OF_MESSAGE []))))"

text \<open>The bytes sent; a refusal is sent without looking at the outcome of the write.\<close>

definition answer_request ::
  "Aead \<Rightarrow> (nat \<Rightarrow> nat \<Rightarrow> KeError + bytes) \<Rightarrow> u16 \<Rightarrow> KeyRing option \<Rightarrow> ServerTls \<Rightarrow> bytes \<Rightarrow> ServeKeError + bytes" where
  "answer_request c rand ntp_port ring conn buf =
     (case negotiate (records buf) (False, False) of Inl e \<Rightarrow> Inl e
      | Inr (proto, siv) \<Rightarrow>
          if \<not> proto \<or> \<not> siv then Inr refusal
          else case ke_answer c rand ntp_port ring conn of Inl e \<Rightarrow> Inl e
            | Inr out \<Rightarrow> (case kt_write conn of Some e \<Rightarrow> Inl (KsIo e) | None \<Rightarrow> Inr out))"

definition handle_ke ::
  "Aead \<Rightarrow> (nat \<Rightarrow> nat \<Rightarrow> KeError + bytes) \<Rightarrow> u16 \<Rightarrow> KeyRing option \<Rightarrow> ServerTls \<Rightarrow> (ServeKeError + bytes) option" where
  "handle_ke c rand ntp_port ring conn =
     (case kt_setup conn of Some e \<Rightarrow> Some (Inl (KsIo e))
      | None \<Rightarrow>
          (case read_request [] (kt_reads conn) of None \<Rightarrow> None
           | Some (Inl e) \<Rightarrow> Some (Inl e)
           | Some (Inr buf) \<Rightarrow> Some (answer_request c rand ntp_port ring conn buf)))"

section \<open>Reading a message in any pieces\<close>

definition whole :: "KeRecord list \<Rightarrow> bytes \<Rightarrow> bool" where
  "whole rs wire \<longleftrightarrow> wire = foldl put_record [] rs \<and> map on_wire rs = rs \<and> upto_eom rs = rs \<and> rs \<noteq> [] \<and>
     kr_record_type (last rs) = END_OF_MESSAGE"

lemma records_whole: "whole rs wire \<Longrightarrow> records (wire @ junk) = map Inr rs"
proof -
  assume w: "whole rs wire"
  then have "END_OF_MESSAGE \<in> kr_record_type ` on_wire ` set rs"
    by (metis image_eqI image_set last_in_set list.set_map whole_def)
  then have "records (wire @ junk) = map Inr (upto_eom (map on_wire rs))"
    unfolding records_def using w
    by (intro collect_written[where pre = "[]" and junk = junk]) (auto simp: whole_def foldl_put_record)
  then show ?thesis using w by (simp add: whole_def)
qed

lemma whole_nonempty: "whole rs wire \<Longrightarrow> wire \<noteq> []"
  using records_whole[of rs wire "[]"] by (auto simp: whole_def records_def record_collect.simps record_next_def)

lemma eom_whole: "whole rs wire \<Longrightarrow> has_end_of_message wire"
  using records_whole[of rs wire "[]"] by (auto simp: has_end_of_message_def is_eom_def whole_def list_ex_iff split: sum.splits)

lemma no_early_eom:
  assumes "whole rs wire" "wire = buf @ suffix" "suffix \<noteq> []"
  shows "\<not> has_end_of_message buf"
proof
  assume e: "has_end_of_message buf"
  obtain xs rest where xs: "buf = foldl put_record [] xs @ rest" "map on_wire xs = xs" "upto_eom xs = xs"
    "records buf = map Inr xs \<or> records buf = map Inr xs @ [Inl (Truncated (length (foldl put_record [] xs)))] \<and> END_OF_MESSAGE \<notin> kr_record_type ` set xs"
    using collect_read[of "\<lparr> ri_buf = buf, ri_at = 0, ri_done = False \<rparr>"] by (auto simp: records_def foldl_put_record)
  obtain r where r: "r \<in> set xs" "kr_record_type r = END_OF_MESSAGE"
    using e xs(4) by (auto simp: has_end_of_message_def is_eom_def list_ex_iff split: sum.splits)
  have u: "upto_eom ys = ys \<Longrightarrow> r \<in> set ys \<Longrightarrow> kr_record_type (last ys) = END_OF_MESSAGE" for ys
    using r(2) by (induction ys) (auto split: if_splits)
  have "whole xs (foldl put_record [] xs)" using xs(2,3) r(1) u[OF xs(3)] by (auto simp: whole_def)
  from records_whole[OF this, of "rest @ suffix"] records_whole[OF assms(1), of "[]"] assms(2) xs(1)
  have "xs = rs" by (simp add: inj_map_eq_map)
  then have "wire = foldl put_record [] xs" using assms(1) by (simp add: whole_def)
  then show False using assms(2,3) xs(1) by simp
qed

lemma read_whole:
  assumes "whole rs wire" "length wire \<le> MAX_KE_RESPONSE" "\<forall>b\<in>set chunks. b \<noteq> []" "chunks \<noteq> []" "buf @ concat chunks = wire"
  shows "read_response buf (map Got chunks @ later) = Some (Inr wire) \<and> read_request buf (map Got chunks @ later) = Some (Inr wire)"
  using assms(3-5)
proof (induction chunks arbitrary: buf)
  case (Cons b bs)
  have len: "length (buf @ b) \<le> MAX_KE_RESPONSE" using Cons.prems(3) assms(2) by auto
  show ?case
  proof (cases "bs = []")
    case True
    then show ?thesis using Cons.prems len eom_whole[OF assms(1)] by (auto simp: MAX_KE_RESPONSE_def MAX_KE_REQUEST_def)
  next
    case False
    then have "\<not> has_end_of_message (buf @ b)"
      using Cons.prems by (intro no_early_eom[OF assms(1), where suffix = "concat bs"]) (cases bs, auto)
    then show ?thesis using Cons.IH[of "buf @ b"] Cons.prems False len by (simp add: MAX_KE_RESPONSE_def MAX_KE_REQUEST_def)
  qed
qed simp

section \<open>Both halves\<close>

definition cookie_record :: "bytes \<Rightarrow> KeRecord" where
  "cookie_record k = \<lparr> kr_critical = False, kr_record_type = NEW_COOKIE, kr_body = k \<rparr>"

definition head_records :: "u16 \<Rightarrow> KeRecord list" where
  "head_records ntp_port =
     [\<lparr> kr_critical = True, kr_record_type = NEXT_PROTOCOL, kr_body = to_be 2 NEXT_PROTO_NTPV4 \<rparr>,
      \<lparr> kr_critical = True, kr_record_type = AEAD_ALGORITHM, kr_body = to_be 2 AEAD_AES_SIV_CMAC_256 \<rparr>] @
     (if ntp_port \<noteq> 123 then [\<lparr> kr_critical = False, kr_record_type = PORT_NEGOTIATION, kr_body = to_be 2 ntp_port \<rparr>] else [])"

definition eom_record :: KeRecord where
  "eom_record = \<lparr> kr_critical = True, kr_record_type = END_OF_MESSAGE, kr_body = [] \<rparr>"

lemmas ke_record_defs = cookie_record_def head_records_def eom_record_def

lemma answer_head_records: "answer_head ntp_port = foldl put_record [] (head_records ntp_port)"
  by (simp add: answer_head_def head_records_def put_record_def Let_def)

lemma request_whole: "whole (head_records 123 @ [eom_record]) ke_client_request"
  by (simp add: whole_def ke_record_defs ke_client_request_def put_record_def on_wire_def record_type_defs)

lemma ke_cookies_spec:
  assumes "aead_ok c" "ring_keys ring \<noteq> []" "\<forall>i. \<exists>nonce. rand i COOKIE_NONCE_LEN = Inr nonce \<and> length nonce = COOKIE_NONCE_LEN"
  shows "\<exists>cookies. ke_cookies c rand ring keys is out = Inr (foldl put_record out (map cookie_record cookies)) \<and>
    length cookies = length is \<and> (\<forall>k\<in>set cookies. \<exists>nonce. length nonce = COOKIE_NONCE_LEN \<and> mint c ring keys nonce = Inr k)"
proof (induction "is" arbitrary: out)
  case (Cons i "is")
  obtain nonce where n: "rand i COOKIE_NONCE_LEN = Inr nonce" "length nonce = COOKIE_NONCE_LEN" using assms(3) by blast
  obtain k where k: "mint c ring keys nonce = Inr k" using mint_some[OF assms(1,2)] by blast
  obtain ks where "ke_cookies c rand ring keys is (write_record out False NEW_COOKIE k)
      = Inr (foldl put_record (write_record out False NEW_COOKIE k) (map cookie_record ks))" "length ks = length is"
    "\<forall>k\<in>set ks. \<exists>nonce. length nonce = COOKIE_NONCE_LEN \<and> mint c ring keys nonce = Inr k" using Cons by blast
  moreover have "put_record out (cookie_record k) = write_record out False NEW_COOKIE k"
    by (simp add: put_record_def cookie_record_def)
  ultimately show ?case using n k by (intro exI[of _ "k # ks"]) auto
qed simp

lemma answer_whole:
  assumes "\<forall>k\<in>set cookies. length k = 100"
  shows "whole (head_records ntp_port @ map cookie_record cookies @ [eom_record])
    (foldl put_record [] (head_records ntp_port @ map cookie_record cookies @ [eom_record]))"
proof -
  have "upto_eom (map cookie_record cs @ [eom_record]) = map cookie_record cs @ [eom_record]" for cs
    by (induction cs) (simp_all add: ke_record_defs record_type_defs)
  moreover have "map on_wire (map cookie_record cookies) = map cookie_record cookies"
    using assms by (simp add: on_wire_def cookie_record_def record_type_defs)
  ultimately show ?thesis
    by (auto simp: whole_def head_records_def on_wire_def eom_record_def record_type_defs)
qed

lemma told_answer:
  "told (head_records ntp_port @ map cookie_record cookies @ [eom_record]) (parsing_start host) =
     \<lparr> pg_parsed = \<lparr> pa_cookies = cookies, pa_ntp_server = host, pa_ntp_port = ntp_port \<rparr>, pg_proto_ok = True, pg_aead_ok = True \<rparr>"
proof -
  have f: "filter (\<lambda>r. kr_record_type r = ty) (map cookie_record cookies) = (if ty = NEW_COOKIE then map cookie_record cookies else [])" for ty
    by (induction cookies) (auto simp: cookie_record_def)
  have m: "map kr_body (map cookie_record cookies) = cookies" by (induction cookies) (simp_all add: cookie_record_def)
  have o: "offers NEXT_PROTO_NTPV4 (to_be 2 NEXT_PROTO_NTPV4)" "offers AEAD_AES_SIV_CMAC_256 (to_be 2 AEAD_AES_SIV_CMAC_256)"
    by code_simp+
  have p: "of_be (slice (to_be 2 ntp_port) 0 2) = ntp_port"
    using of_be_to_be_id[of 2 ntp_port] by (simp add: slice_def)
  show ?thesis
    using m by (simp add: told_def bodies_def f parsing_start_def agreed_def port_of_def head_records_def eom_record_def record_type_defs o p)
qed

lemma answer_accepted:
  assumes "\<forall>k\<in>set cookies. length k = 100" "cookies \<noteq> []"
  shows "parse_response (foldl put_record [] (head_records ntp_port @ map cookie_record cookies @ [eom_record])) host =
    Inr \<lparr> pa_cookies = cookies, pa_ntp_server = host, pa_ntp_port = ntp_port \<rparr>"
proof -
  let ?rs = "head_records ntp_port @ map cookie_record cookies @ [eom_record]"
  note w = answer_whole[OF assms(1), of ntp_port]
  have r: "records (foldl put_record [] ?rs) = map Inr ?rs" using records_whole[OF w, of "[]"] by simp
  have "list_all record_ok ?rs"
    by (auto simp: list_all_iff ke_record_defs record_ok_def known_types_def record_type_defs)
  then have "parse_records (map Inr ?rs) (parsing_start host) = Inr (told ?rs (parsing_start host))"
    using parse_records_ok[of ?rs] w by (simp add: whole_def)
  then show ?thesis unfolding parse_response_def r told_answer using assms(2) by (simp add: parse_finish_def)
qed

text \<open>C32: the client and server halves of key establishment agree.  Give both ends of a TLS session the
same exporter, the server a ring with a master key, and let the network cut both messages into any pieces.  Then the
server answers the client's request; the client accepts the answer, and ends with the keys the server baked into the
cookies, eight cookies each of which the server redeems to these keys, the host it asked and the port the server
advertised.\<close>

theorem ke_halves_agree:
  assumes c: "aead_ok c" and ring: "ring_keys ring \<noteq> []" "distinct (key_ids ring)"
    and rand: "\<forall>i. \<exists>nonce. rand i COOKIE_NONCE_LEN = Inr nonce \<and> length nonce = COOKIE_NONCE_LEN"
    and ex: "kt_export srv EXPORTER_LABEL (export_context 0x00) = Inr c2s" "kt_export srv EXPORTER_LABEL (export_context 0x01) = Inr s2c"
      "length c2s = 32" "length s2c = 32"
    and srv: "kt_setup srv = None" "kt_write srv = None" "kt_reads srv = map Got qs @ later" "concat qs = ke_client_request" "[] \<notin> set qs"
    and cli: "tp_write cli = None" "tp_alpn cli = Some ALPN" "tp_export cli = kt_export srv"
  shows "\<exists>out cookies. handle_ke c rand ntp_port (Some ring) srv = Some (Inr out) \<and> length cookies = 8 \<and>
    (\<forall>k\<in>set cookies. redeem c ring k = Inr \<lparr> k_c2s = c2s, k_s2c = s2c \<rparr>) \<and>
    (\<forall>pieces rest. concat pieces = out \<and> [] \<notin> set pieces \<longrightarrow>
      ke_exchange host (cli\<lparr> tp_reads := map Got pieces @ rest \<rparr>) = Some (Inr
        \<lparr> kx_keys = \<lparr> k_c2s = c2s, k_s2c = s2c \<rparr>, kx_cookies = cookies, kx_ntp_server = host, kx_ntp_port = ntp_port \<rparr>))"
proof -
  let ?keys = "\<lparr> k_c2s = c2s, k_s2c = s2c \<rparr>"
  have keys: "keys_ok ?keys" using ex by (simp add: keys_ok_def)
  have n8: "length [0..<KE_COOKIE_COUNT] = 8" by (simp add: KE_COOKIE_COUNT_def)
  obtain cookies where ck: "ke_cookies c rand ring ?keys [0..<KE_COOKIE_COUNT] (answer_head ntp_port)
      = Inr (foldl put_record (answer_head ntp_port) (map cookie_record cookies))" "length cookies = 8"
    "\<forall>k\<in>set cookies. \<exists>nonce. length nonce = COOKIE_NONCE_LEN \<and> mint c ring ?keys nonce = Inr k"
    using ke_cookies_spec[where rand = rand, OF c ring(1) rand, of ?keys "[0..<KE_COOKIE_COUNT]" "answer_head ntp_port"] n8 by metis
  define rs where "rs = head_records ntp_port @ map cookie_record cookies @ [eom_record]"
  define out where "out = foldl put_record [] rs"
  have l100: "\<forall>k\<in>set cookies. length k = 100" using ck(3) mint_length[OF c keys] by blast
  have w: "whole rs out" using answer_whole[OF l100] by (simp add: rs_def out_def)
  have len: "length out \<le> MAX_KE_RESPONSE"
  proof -
    have "sum_list (map (length \<circ> record_bytes) (map cookie_record cookies)) = 104 * length cookies"
      using l100 by (induction cookies) (simp_all add: length_record_bytes cookie_record_def)
    moreover have lp: "length (foldl put_record [] xs) = sum_list (map (length \<circ> record_bytes) xs)" for xs
      by (simp add: foldl_put_record length_concat)
    ultimately show ?thesis using ck(2) unfolding out_def rs_def lp
      by (simp add: length_record_bytes head_records_def eom_record_def MAX_KE_RESPONSE_def)
  qed
  have oc: "foldl put_record (answer_head ntp_port) (map cookie_record cookies @ [eom_record]) = out"
    by (simp add: out_def rs_def answer_head_records)
  have exs: "export_server_keys srv = Inr ?keys"
    using ex by (simp add: export_server_keys_def server_context_def export_context_def EXPORTER_LABEL_def)
  have "ke_answer c rand ntp_port (Some ring) srv = Inr out"
    using oc by (simp add: ke_answer_def exs ck(1) put_record_def eom_record_def)
  moreover have "negotiate (records ke_client_request) (False, False) = Inr (True, True)"
  proof -
    have o: "offers NEXT_PROTO_NTPV4 (to_be 2 NEXT_PROTO_NTPV4)" "offers AEAD_AES_SIV_CMAC_256 (to_be 2 AEAD_AES_SIV_CMAC_256)"
      by code_simp+
    show ?thesis using records_whole[OF request_whole, of "[]"]
      by (simp add: head_records_def eom_record_def negotiate_record_def record_type_defs o)
  qed
  moreover have "length ke_client_request \<le> MAX_KE_RESPONSE"
    by (simp add: ke_client_request_def write_record_def Let_def MAX_KE_RESPONSE_def)
  moreover have "\<forall>b\<in>set qs. b \<noteq> []" using srv(5) by metis
  moreover have "qs \<noteq> []" using srv(4) whole_nonempty[OF request_whole] by auto
  ultimately have h: "handle_ke c rand ntp_port (Some ring) srv = Some (Inr out)"
    using read_whole[OF request_whole, of qs "[]" later] srv by (auto simp: handle_ke_def answer_request_def)
  have red: "redeem c ring k = Inr ?keys" if k: "k \<in> set cookies" for k
  proof -
    obtain nonce m sealed where m: "length nonce = COOKIE_NONCE_LEN" "ring_current ring = Some m"
      "encrypt c (mk_key m) [cookie_header m nonce] (key_payload ?keys) = Some sealed" "k = cookie_header m nonce @ sealed"
      using ck(3) k by (auto simp: mint_Inr)
    have "by_id ring (mk_id m) = Some m" using by_id_present[OF ring(2)] m(2) ring(1) by (auto simp: ring_current_def split: if_splits)
    then show ?thesis using redeem_minted[OF c keys m(1,3), of ring] m(4) by simp
  qed
  have x: "ke_exchange host (cli\<lparr> tp_reads := map Got pieces @ rest \<rparr>) = Some (Inr
        \<lparr> kx_keys = ?keys, kx_cookies = cookies, kx_ntp_server = host, kx_ntp_port = ntp_port \<rparr>)"
    if "concat pieces = out" "[] \<notin> set pieces" for pieces rest
  proof -
    have "pieces \<noteq> []" using that(1) whole_nonempty[OF w] by auto
    moreover have "\<forall>b\<in>set pieces. b \<noteq> []" using that(2) by metis
    ultimately have "read_response [] (map Got pieces @ rest) = Some (Inr out)" using read_whole[OF w len] that(1) by simp
    moreover have "parse_response out host = Inr \<lparr> pa_cookies = cookies, pa_ntp_server = host, pa_ntp_port = ntp_port \<rparr>"
      unfolding out_def rs_def using answer_accepted[OF l100] ck(2) by (cases cookies) auto
    ultimately show ?thesis using cli ex
      by (simp add: ke_exchange_def ke_conclude_def ke_result_def session_keys_def export_key_def)
  qed
  show ?thesis using h ck(2) red x by blast
qed

definition demo_server_tls :: ServerTls where
  "demo_server_tls = \<lparr> kt_setup = None, kt_reads = [Got (take 5 ke_client_request), Got (drop 5 ke_client_request)],
     kt_export = (\<lambda>_ _. Inr (zeros 32)), kt_write = None \<rparr>"

definition demo_client_tls :: TlsPeer where
  "demo_client_tls = \<lparr> tp_write = None, tp_reads = [], tp_alpn = Some ALPN, tp_export = (\<lambda>_ _. Inr (zeros 32)) \<rparr>"

lemma ke_halves_agree_witness:
  "\<exists>out cookies. handle_ke null_cipher (\<lambda>i n. Inr (zeros n)) 4123 (Some demo_ring) demo_server_tls = Some (Inr out) \<and>
     length cookies = 8 \<and> ke_exchange [104] (demo_client_tls\<lparr> tp_reads := [Got out] \<rparr>) = Some (Inr
        \<lparr> kx_keys = demo_keys, kx_cookies = cookies, kx_ntp_server = [104], kx_ntp_port = 4123 \<rparr>)"
proof -
  have l: "length ke_client_request = 16" by (simp add: ke_client_request_def write_record_def Let_def)
  have t: "take 5 ke_client_request \<noteq> []" "drop 5 ke_client_request \<noteq> []" using l by auto
  have r: "ring_keys demo_ring \<noteq> []" "distinct (key_ids demo_ring)" by (simp_all add: demo_ring_def ring_new_def rotate_in_def key_ids_def)
  obtain out cookies where o: "handle_ke null_cipher (\<lambda>i n. Inr (zeros n)) 4123 (Some demo_ring) demo_server_tls = Some (Inr out)"
    "length cookies = 8"
    "\<forall>pieces rest. concat pieces = out \<and> [] \<notin> set pieces \<longrightarrow> ke_exchange [104] (demo_client_tls\<lparr> tp_reads := map Got pieces @ rest \<rparr>) = Some (Inr
        \<lparr> kx_keys = \<lparr> k_c2s = zeros 32, k_s2c = zeros 32 \<rparr>, kx_cookies = cookies, kx_ntp_server = [104], kx_ntp_port = 4123 \<rparr>)"
    using ke_halves_agree[OF null_cipher_ok r, where rand = "\<lambda>i n. Inr (zeros n)" and srv = demo_server_tls and cli = demo_client_tls
        and qs = "[take 5 ke_client_request, drop 5 ke_client_request]" and later = "[]" and ?c2s = "zeros 32" and ?s2c = "zeros 32"
        and ntp_port = 4123 and host = "[104]"] t
    by (auto simp: demo_server_tls_def demo_client_tls_def zeros_def)
  have "out \<noteq> []"
  proof
    assume "out = []"
    then have "ke_exchange [104] (demo_client_tls\<lparr> tp_reads := map Got [] @ [Closed] \<rparr>) \<noteq> Some (Inl e)" for e
      using o(3)[rule_format, of "[]" "[Closed]"] by auto
    moreover have "\<exists>e. ke_exchange [104] (demo_client_tls\<lparr> tp_reads := map Got [] @ [Closed] \<rparr>) = Some (Inl e)"
      by (simp add: ke_exchange_def demo_client_tls_def ke_conclude_def parse_response_def records_def record_collect.simps record_next_def
        parsing_start_def parse_finish_def)
    ultimately show False by blast
  qed
  then show ?thesis using o(1,2) o(3)[rule_format, of "[out]" "[]"] by (auto simp: demo_keys_def)
qed

text \<open>A critical record of an unknown type does not stop the server, though the client's parser refuses one.\<close>

lemma server_ignores_unknown_critical:
  "kr_record_type r \<notin> {NEXT_PROTOCOL, AEAD_ALGORITHM} \<Longrightarrow> negotiate (Inr r # rs) oks = negotiate rs oks"
  by (cases oks) (simp add: negotiate_record_def)

end
