(* ===== verification/Store.thy ===== *)
theory Store
  imports TextBytes KeServer "HOL-Library.List_Lexorder"
begin

text \<open>Durable state (\<open>crates/rusty_time-daemon/src/store.rs\<close>) and the server's use of it, \<open>load_or_create_ring\<close> of
\<open>server.rs\<close>.  A string is its UTF-8 bytes.  SpaceDB, AES-256-GCM, Argon2id and the random source are parameters, in
the record \<open>StoreEnv\<close>; what the operating system answers to each file operation is the record \<open>Io\<close>.  An operation
takes the store and returns its result beside the store it leaves, errors included.\<close>

section \<open>Parameters\<close>

text \<open>SpaceDB.  A session is minted for each call from the collection's grant.  An import may panic, which is \<open>None\<close>.\<close>

record 'd Sdk =
  sd_empty :: 'd
  sd_define :: "bytes \<Rightarrow> bytes list \<Rightarrow> 'd \<Rightarrow> 'd"
  sd_put :: "bytes \<Rightarrow> bytes \<Rightarrow> bytes \<Rightarrow> 'd \<Rightarrow> string option \<times> 'd"
  sd_read :: "bytes \<Rightarrow> bytes \<Rightarrow> 'd \<Rightarrow> string + bytes option"
  sd_export :: "bytes \<Rightarrow> 'd \<Rightarrow> bytes"
  sd_import :: "bytes \<Rightarrow> bytes \<Rightarrow> 'd \<Rightarrow> string option option \<times> 'd"

text \<open>AES-256-GCM: key, nonce, associated data and message.\<close>

record Gcm =
  gcm_encrypt :: "bytes \<Rightarrow> bytes \<Rightarrow> bytes \<Rightarrow> bytes \<Rightarrow> bytes option"
  gcm_decrypt :: "bytes \<Rightarrow> bytes \<Rightarrow> bytes \<Rightarrow> bytes \<Rightarrow> bytes option"

text \<open>Argon2id takes the passphrase and the salt; \<open>ev_rand i n\<close> is the \<open>i\<close>th draw of \<open>n\<close> bytes; \<open>ev_setup\<close> the outcome
of creating identities and grants; \<open>ev_show\<close> the display of a float.\<close>

record 'd StoreEnv =
  ev_sdk :: "'d Sdk"
  ev_gcm :: Gcm
  ev_kdf :: "bytes \<Rightarrow> bytes \<Rightarrow> bytes option"
  ev_rand :: "nat \<Rightarrow> nat \<Rightarrow> bytes option"
  ev_setup :: "string option"
  ev_show :: "f64 \<Rightarrow> bytes"

text \<open>The files beside each other, and the errors of the operations on them; a failed write leaves what it got done.\<close>

record Disk =
  dk_store :: "bytes option"
  dk_salt :: "bytes option"
  dk_tmp :: "bytes option"

record Io =
  io_mkdir :: "string option"
  io_read_salt :: "string option"
  io_write_salt :: "string option"
  io_read_store :: "string option"
  io_write_tmp :: "string option"
  io_rename :: "string option"
  io_partial :: bytes

section \<open>Data\<close>

definition C_DRIFT :: bytes where "C_DRIFT = ascii ''rusty_time.drift''"
definition C_COOKIES :: bytes where "C_COOKIES = ascii ''rusty_time.nts_cookies''"
definition C_KEYS :: bytes where "C_KEYS = ascii ''rusty_time.nts_keys''"
definition COLLECTIONS :: "bytes list" where "COLLECTIONS = [C_DRIFT, C_COOKIES, C_KEYS]"

definition STORE_NONCE_LEN :: nat where "STORE_NONCE_LEN = 12"
definition SALT_LEN :: nat where "SALT_LEN = 16"
definition MASTER_KEY_SLOTS :: nat where "MASTER_KEY_SLOTS = 3"
definition MAX_COOKIES_PER_SERVER :: nat where "MAX_COOKIES_PER_SERVER = 64"

datatype StoreError = StoreIo string | StoreCrypto string | StoreSdk string | StoreCorrupt string

record DriftRecord =
  dr_freq_ppm :: f64
  dr_offset_s :: f64
  dr_updated_unix :: u64

record StoredMasterKey =
  sk_id :: u32
  sk_key :: bytes

record StoredClientSession =
  ss_keys :: NtsKeys
  ss_cookies :: "bytes list"
  ss_ntp_server :: bytes
  ss_ntp_port :: u16

text \<open>\<open>st_draws\<close> counts the random draws made so far; \<open>st_caps\<close> are the collections a signed grant is held for.\<close>

record 'd Store =
  st_db :: 'd
  st_caps :: "bytes list"
  st_fields :: "bytes \<Rightarrow> bytes list option"
  st_key :: bytes
  st_draws :: nat

type_synonym ('d, 'a) storeop = "'d Store \<Rightarrow> (StoreError + 'a) \<times> 'd Store"

definition st_return :: "'a \<Rightarrow> ('d, 'a) storeop" where "st_return a = (\<lambda>st. (Inr a, st))"
definition st_fail :: "StoreError \<Rightarrow> ('d, 'a) storeop" where "st_fail e = (\<lambda>st. (Inl e, st))"

definition st_bind :: "('d, 'a) storeop \<Rightarrow> ('a \<Rightarrow> ('d, 'b) storeop) \<Rightarrow> ('d, 'b) storeop" where
  "st_bind m f = (\<lambda>st. case m st of (Inl e, st') \<Rightarrow> (Inl e, st') | (Inr a, st') \<Rightarrow> f a st')"

section \<open>Values\<close>

definition hex_digit :: "u8 \<Rightarrow> u8" where "hex_digit n = (if n < 10 then 0x30 + n else 0x57 + n)"

fun to_hex :: "bytes \<Rightarrow> bytes" where
  "to_hex [] = []"
| "to_hex (b # bs) = hex_digit (drop_bit 4 b) # hex_digit (b AND 0xF) # to_hex bs"

definition to_digit16 :: "u8 \<Rightarrow> u8 option" where
  "to_digit16 c =
     (if 0x30 \<le> c \<and> c \<le> 0x39 then Some (c - 0x30)
      else if 0x61 \<le> c \<and> c \<le> 0x66 then Some (c - 0x57)
      else if 0x41 \<le> c \<and> c \<le> 0x46 then Some (c - 0x37) else None)"

fun unhex :: "bytes \<Rightarrow> bytes option" where
  "unhex [] = Some []"
| "unhex [_] = None"
| "unhex (a # b # s) =
     (case to_digit16 a of None \<Rightarrow> None | Some hi \<Rightarrow>
        (case to_digit16 b of None \<Rightarrow> None | Some lo \<Rightarrow> map_option ((#) (push_bit 4 hi OR lo)) (unhex s)))"

definition store_seal :: "'d StoreEnv \<Rightarrow> bytes \<Rightarrow> bytes \<Rightarrow> ('d, bytes) storeop" where
  "store_seal env plaintext aad = (\<lambda>st.
     let st' = st\<lparr> st_draws := st_draws st + 1 \<rparr> in
     case ev_rand env (st_draws st) STORE_NONCE_LEN of
       None \<Rightarrow> (Inl (StoreCrypto ''no system randomness for nonce''), st')
     | Some nonce \<Rightarrow>
         (case gcm_encrypt (ev_gcm env) (st_key st) nonce aad plaintext of
            None \<Rightarrow> (Inl (StoreCrypto ''AES-256-GCM seal failed''), st')
          | Some ciphertext \<Rightarrow> (Inr (to_hex (nonce @ ciphertext)), st')))"

definition open_value :: "'d StoreEnv \<Rightarrow> bytes \<Rightarrow> bytes \<Rightarrow> bytes \<Rightarrow> StoreError + bytes" where
  "open_value env key stored aad =
     (case unhex stored of None \<Rightarrow> Inl (StoreCorrupt ''value is not hex'')
      | Some raw \<Rightarrow>
          if length raw < STORE_NONCE_LEN + 16 then Inl (StoreCorrupt ''value is too short to be sealed'')
          else case gcm_decrypt (ev_gcm env) key (take STORE_NONCE_LEN raw) aad (drop STORE_NONCE_LEN raw) of
            None \<Rightarrow> Inl (StoreCrypto ''value failed authentication'')
          | Some plain \<Rightarrow> Inr plain)"

definition compound_key :: "bytes \<Rightarrow> bytes \<Rightarrow> nat \<Rightarrow> bytes" where
  "compound_key kind owner index = kind @ [0x2F] @ owner @ [0x2F] @ digits_of index"

section \<open>Entries\<close>

definition ensure_field :: "'d StoreEnv \<Rightarrow> bytes \<Rightarrow> bytes \<Rightarrow> 'd Store \<Rightarrow> 'd Store" where
  "ensure_field env collection field st =
     (let fs = (case st_fields st collection of None \<Rightarrow> [] | Some fs \<Rightarrow> fs) in
      if field \<in> set fs then st
      else st\<lparr> st_fields := (st_fields st)(collection \<mapsto> insort field fs),
               st_db := sd_define (ev_sdk env) collection (insort field fs) (st_db st) \<rparr>)"

definition no_grant :: StoreError where "no_grant = StoreSdk ''no capability for collection''"

definition put_raw :: "'d StoreEnv \<Rightarrow> bytes \<Rightarrow> bytes \<Rightarrow> bytes \<Rightarrow> ('d, unit) storeop" where
  "put_raw env collection key val = (\<lambda>st0.
     let st = ensure_field env collection key st0 in
     if collection \<notin> set (st_caps st) then (Inl no_grant, st)
     else case sd_put (ev_sdk env) collection key val (st_db st) of
       (Some e, db) \<Rightarrow> (Inl (StoreSdk e), st\<lparr> st_db := db \<rparr>)
     | (None, db) \<Rightarrow> (Inr (), st\<lparr> st_db := db \<rparr>))"

definition get_raw :: "'d StoreEnv \<Rightarrow> bytes \<Rightarrow> bytes \<Rightarrow> ('d, bytes option) storeop" where
  "get_raw env collection key = (\<lambda>st0.
     let st = ensure_field env collection key st0 in
     if collection \<notin> set (st_caps st) then (Inl no_grant, st)
     else case sd_read (ev_sdk env) collection key (st_db st) of
       Inl e \<Rightarrow> (Inl (StoreSdk e), st)
     | Inr v \<Rightarrow> (Inr v, st))"

definition put_sealed :: "'d StoreEnv \<Rightarrow> bytes \<Rightarrow> bytes \<Rightarrow> bytes \<Rightarrow> ('d, unit) storeop" where
  "put_sealed env collection key plaintext = st_bind (store_seal env plaintext key) (put_raw env collection key)"

text \<open>An entry as it is read: absent, retired (the empty tombstone), or opened.\<close>

fun read_entry :: "'d StoreEnv \<Rightarrow> bytes \<Rightarrow> bytes \<Rightarrow> bytes option \<Rightarrow> StoreError + bytes option" where
  "read_entry env key aad None = Inr None"
| "read_entry env key aad (Some v) =
     (if v = [] then Inr (Some []) else case open_value env key v aad of Inl e \<Rightarrow> Inl e | Inr p \<Rightarrow> Inr (Some p))"

definition get_sealed :: "'d StoreEnv \<Rightarrow> bytes \<Rightarrow> bytes \<Rightarrow> ('d, bytes option) storeop" where
  "get_sealed env collection key = st_bind (get_raw env collection key) (\<lambda>v st. (read_entry env (st_key st) key v, st))"

section \<open>Drift\<close>

definition u64_display :: "u64 \<Rightarrow> bytes" where "u64_display n = digits_of (unat n)"

definition put_drift :: "'d StoreEnv \<Rightarrow> bytes \<Rightarrow> DriftRecord \<Rightarrow> ('d, unit) storeop" where
  "put_drift env source rec =
     put_sealed env C_DRIFT (compound_key (ascii ''drift'') source 0)
       (ev_show env (dr_freq_ppm rec) @ [0x20] @ ev_show env (dr_offset_s rec) @ [0x20] @ u64_display (dr_updated_unix rec))"

definition next_num :: "bytes list \<Rightarrow> StoreError + f64 \<times> bytes list" where
  "next_num parts =
     (case parts of [] \<Rightarrow> Inl (StoreCorrupt ''drift field is not a number'')
      | v # rest \<Rightarrow> (case parse_f64 v of None \<Rightarrow> Inl (StoreCorrupt ''drift field is not a number'') | Some x \<Rightarrow> Inr (x, rest)))"

definition parse_drift :: "bytes \<Rightarrow> StoreError + DriftRecord" where
  "parse_drift plain =
     (if \<not> utf8_ok plain then Inl (StoreCorrupt ''drift is not utf-8'')
      else case next_num (split_ws plain) of Inl e \<Rightarrow> Inl e
      | Inr (freq, parts1) \<Rightarrow> (case next_num parts1 of Inl e \<Rightarrow> Inl e
        | Inr (offset, parts2) \<Rightarrow> (case next_num parts2 of Inl e \<Rightarrow> Inl e
          | Inr (updated, _) \<Rightarrow> Inr \<lparr> dr_freq_ppm = freq, dr_offset_s = offset,
              dr_updated_unix = word_of_int (f_to_int 0 (2 ^ 64 - 1) updated) \<rparr>)))"

definition get_drift :: "'d StoreEnv \<Rightarrow> bytes \<Rightarrow> ('d, DriftRecord option) storeop" where
  "get_drift env source =
     st_bind (get_sealed env C_DRIFT (compound_key (ascii ''drift'') source 0))
       (\<lambda>v. case v of None \<Rightarrow> st_return None
          | Some plain \<Rightarrow> if plain = [] then st_return None
              else (case parse_drift plain of Inl e \<Rightarrow> st_fail e | Inr r \<Rightarrow> st_return (Some r)))"

section \<open>Cookies and sessions\<close>

definition cookie_key :: "bytes \<Rightarrow> nat \<Rightarrow> bytes" where "cookie_key server i = compound_key (ascii ''cookie'') server i"

fun put_each_cookie :: "'d StoreEnv \<Rightarrow> bytes \<Rightarrow> nat \<Rightarrow> bytes list \<Rightarrow> ('d, unit) storeop" where
  "put_each_cookie env server i [] = st_return ()"
| "put_each_cookie env server i (cookie # rest) =
     st_bind (put_sealed env C_COOKIES (cookie_key server i) cookie) (\<lambda>_. put_each_cookie env server (Suc i) rest)"

fun retire_tail :: "'d StoreEnv \<Rightarrow> bytes \<Rightarrow> nat list \<Rightarrow> ('d, unit) storeop" where
  "retire_tail env server [] = st_return ()"
| "retire_tail env server (i # is) =
     st_bind (get_sealed env C_COOKIES (cookie_key server i)) (\<lambda>v. case v of
         None \<Rightarrow> st_return ()
       | Some [] \<Rightarrow> st_return ()
       | Some _ \<Rightarrow> st_bind (put_raw env C_COOKIES (cookie_key server i) []) (\<lambda>_. retire_tail env server is))"

definition put_cookies :: "'d StoreEnv \<Rightarrow> bytes \<Rightarrow> bytes list \<Rightarrow> ('d, unit) storeop" where
  "put_cookies env server cookies =
     (let keep = min (length cookies) MAX_COOKIES_PER_SERVER in
      st_bind (put_each_cookie env server 0 (take keep cookies)) (\<lambda>_. retire_tail env server [keep..<MAX_COOKIES_PER_SERVER]))"

fun collect_cookies :: "'d StoreEnv \<Rightarrow> bytes \<Rightarrow> nat list \<Rightarrow> bytes list \<Rightarrow> ('d, bytes list) storeop" where
  "collect_cookies env server [] out = st_return out"
| "collect_cookies env server (i # is) out =
     st_bind (get_sealed env C_COOKIES (cookie_key server i)) (\<lambda>v. case v of
         None \<Rightarrow> st_return out
       | Some [] \<Rightarrow> st_return out
       | Some v \<Rightarrow> collect_cookies env server is (out @ [v]))"

definition get_cookies :: "'d StoreEnv \<Rightarrow> bytes \<Rightarrow> ('d, bytes list) storeop" where
  "get_cookies env server = collect_cookies env server [0..<MAX_COOKIES_PER_SERVER] []"

definition put_client_session ::
  "'d StoreEnv \<Rightarrow> bytes \<Rightarrow> NtsKeys \<Rightarrow> bytes list \<Rightarrow> bytes \<Rightarrow> u16 \<Rightarrow> ('d, unit) storeop" where
  "put_client_session env ke_host keys cookies ntp_server ntp_port =
     st_bind (put_sealed env C_KEYS (compound_key (ascii ''client_keys'') ke_host 0) (k_c2s keys @ k_s2c keys)) (\<lambda>_.
     st_bind (put_sealed env C_KEYS (compound_key (ascii ''client_meta'') ke_host 0)
                (ntp_server @ [0x20] @ digits_of (unat ntp_port))) (\<lambda>_.
     put_cookies env ke_host cookies))"

text \<open>The endpoint: two words, the second a port; \<open>None\<close> when either is missing or wrong.\<close>

definition parse_meta :: "bytes \<Rightarrow> (bytes \<times> u16) option" where
  "parse_meta meta =
     (case split_ws meta of
        server # port # _ \<Rightarrow> map_option (\<lambda>p. (server, word_of_nat p)) (parse_unsigned 65536 port)
      | _ \<Rightarrow> None)"

definition finish_session :: "'d StoreEnv \<Rightarrow> bytes \<Rightarrow> bytes \<Rightarrow> bytes \<times> u16 \<Rightarrow> ('d, StoredClientSession option) storeop" where
  "finish_session env ke_host raw = (\<lambda>(server, port). st_bind (get_cookies env ke_host) (\<lambda>cookies.
     if cookies = [] then st_return None
     else st_return (Some \<lparr> ss_keys = \<lparr> k_c2s = take 32 raw, k_s2c = drop 32 raw \<rparr>, ss_cookies = cookies,
            ss_ntp_server = server, ss_ntp_port = port \<rparr>)))"

definition get_client_session :: "'d StoreEnv \<Rightarrow> bytes \<Rightarrow> ('d, StoredClientSession option) storeop" where
  "get_client_session env ke_host =
     st_bind (get_sealed env C_KEYS (compound_key (ascii ''client_keys'') ke_host 0)) (\<lambda>r. case r of
       None \<Rightarrow> st_return None
     | Some raw \<Rightarrow>
         if length raw \<noteq> 64 then st_return None
         else st_bind (get_sealed env C_KEYS (compound_key (ascii ''client_meta'') ke_host 0)) (\<lambda>m. case m of
           None \<Rightarrow> st_return None
         | Some meta \<Rightarrow>
             if \<not> utf8_ok meta then st_fail (StoreCorrupt ''client meta is not utf-8'')
             else (case parse_meta meta of None \<Rightarrow> st_return None | Some endpoint \<Rightarrow> finish_session env ke_host raw endpoint)))"

section \<open>Master keys\<close>

definition master_field :: "nat \<Rightarrow> bytes" where
  "master_field slot = compound_key (ascii ''master'') (ascii ''self'') (slot mod MASTER_KEY_SLOTS)"

definition put_master_key :: "'d StoreEnv \<Rightarrow> nat \<Rightarrow> StoredMasterKey \<Rightarrow> ('d, unit) storeop" where
  "put_master_key env slot key = put_sealed env C_KEYS (master_field slot) (to_be 4 (sk_id key) @ sk_key key)"

definition get_master_key :: "'d StoreEnv \<Rightarrow> nat \<Rightarrow> ('d, StoredMasterKey option) storeop" where
  "get_master_key env slot =
     st_bind (get_sealed env C_KEYS (master_field slot)) (\<lambda>v. case v of
       None \<Rightarrow> st_return None
     | Some plain \<Rightarrow>
         if length plain \<noteq> 36 then st_return None
         else st_return (Some \<lparr> sk_id = of_be (take 4 plain), sk_key = drop 4 plain \<rparr>))"

fun keys_in :: "'d StoreEnv \<Rightarrow> nat list \<Rightarrow> StoredMasterKey list \<Rightarrow> ('d, StoredMasterKey list) storeop" where
  "keys_in env [] out = st_return out"
| "keys_in env (slot # slots) out =
     st_bind (get_master_key env slot) (\<lambda>k. keys_in env slots (case k of None \<Rightarrow> out | Some k \<Rightarrow> out @ [k]))"

definition all_master_keys :: "'d StoreEnv \<Rightarrow> ('d, StoredMasterKey list) storeop" where
  "all_master_keys env = keys_in env [0..<MASTER_KEY_SLOTS] []"

section \<open>The file\<close>

definition encode_entry :: "nat \<Rightarrow> bytes \<Rightarrow> bytes \<Rightarrow> bytes" where
  "encode_entry index key val =
     to_be 2 (of_nat index :: u16) @ to_be 4 (of_nat (length key) :: u32) @ key @
     to_be 4 (of_nat (length val) :: u32) @ val"

fun flush_keys :: "'d StoreEnv \<Rightarrow> nat \<Rightarrow> bytes list \<Rightarrow> bytes \<Rightarrow> ('d, bytes) storeop" where
  "flush_keys env index [] blob = st_return blob"
| "flush_keys env index (key # rest) blob =
     st_bind (get_raw env (COLLECTIONS ! index) key) (\<lambda>v. flush_keys env index rest
       (case v of None \<Rightarrow> blob | Some val \<Rightarrow> blob @ encode_entry index key val))"

fun flush_plan :: "'d StoreEnv \<Rightarrow> (nat \<times> bytes list) list \<Rightarrow> bytes \<Rightarrow> ('d, bytes) storeop" where
  "flush_plan env [] blob = st_return blob"
| "flush_plan env ((index, keys) # plan) blob = st_bind (flush_keys env index keys blob) (flush_plan env plan)"

definition key_plan :: "'d Store \<Rightarrow> (nat \<times> bytes list) list" where
  "key_plan st = map (\<lambda>i. (i, case st_fields st (COLLECTIONS ! i) of None \<Rightarrow> [] | Some fs \<Rightarrow> fs)) [0..<length COLLECTIONS]"

text \<open>Write, then rename.\<close>

definition replace_file :: "Io \<Rightarrow> bytes \<Rightarrow> Disk \<Rightarrow> (StoreError + unit) \<times> Disk" where
  "replace_file io blob disk =
     (case io_write_tmp io of Some e \<Rightarrow> (Inl (StoreIo e), disk\<lparr> dk_tmp := Some (io_partial io) \<rparr>)
      | None \<Rightarrow>
          (case io_rename io of Some e \<Rightarrow> (Inl (StoreIo e), disk\<lparr> dk_tmp := Some blob \<rparr>)
           | None \<Rightarrow> (Inr (), disk\<lparr> dk_store := Some blob, dk_tmp := None \<rparr>)))"

definition flush :: "'d StoreEnv \<Rightarrow> Io \<Rightarrow> Disk \<Rightarrow> 'd Store \<Rightarrow> ((StoreError + unit) \<times> Disk) \<times> 'd Store" where
  "flush env io disk st =
     (case flush_plan env (key_plan st) [] st of
        (Inl e, st') \<Rightarrow> ((Inl e, disk), st')
      | (Inr blob, st') \<Rightarrow> (replace_file io blob disk, st'))"

definition take_bytes :: "nat \<Rightarrow> bytes \<Rightarrow> StoreError + bytes \<times> bytes" where
  "take_bytes n b = (if length b < n then Inl (StoreCorrupt ''store file ended mid-record'') else Inr (take n b, drop n b))"

text \<open>A length, and the text of that length.\<close>

definition take_text :: "string \<Rightarrow> bytes \<Rightarrow> StoreError + bytes \<times> bytes" where
  "take_text what b =
     (case take_bytes 4 b of Inl e \<Rightarrow> Inl e
      | Inr (len, rest) \<Rightarrow>
          (case take_bytes (unat (of_be len :: u32)) rest of Inl e \<Rightarrow> Inl e
           | Inr (s, rest') \<Rightarrow> if utf8_ok s then Inr (s, rest') else Inl (StoreCorrupt what)))"

definition take_entry :: "bytes \<Rightarrow> StoreError + (bytes \<times> bytes \<times> bytes) \<times> bytes" where
  "take_entry b =
     (case take_bytes 2 b of Inl e \<Rightarrow> Inl e
      | Inr (ix, rest) \<Rightarrow>
          (let index = unat (of_be ix :: u16) in
           if length COLLECTIONS \<le> index then Inl (StoreCorrupt ''store names an unknown collection'')
           else case take_text ''entry key is not utf-8'' rest of Inl e \<Rightarrow> Inl e
           | Inr (key, rest1) \<Rightarrow>
               (case take_text ''entry value is not utf-8'' rest1 of Inl e \<Rightarrow> Inl e
                | Inr (val, rest2) \<Rightarrow> Inr ((COLLECTIONS ! index, key, val), rest2))))"

lemma take_text_shorter: "take_text what b = Inr (s, rest) \<Longrightarrow> length rest < length b"
  by (auto simp: take_text_def take_bytes_def split: if_splits sum.splits)

lemma take_entry_shorter: "take_entry b = Inr (e, rest) \<Longrightarrow> length rest < length b"
  by (auto simp: take_entry_def take_bytes_def Let_def split: if_splits sum.splits prod.splits dest!: take_text_shorter)

function load_entries :: "'d StoreEnv \<Rightarrow> bytes \<Rightarrow> ('d, unit) storeop" where
  "load_entries env blob =
     (if blob = [] then st_return ()
      else case take_entry blob of Inl e \<Rightarrow> st_fail e
      | Inr ((collection, key, val), rest) \<Rightarrow> st_bind (put_raw env collection key val) (\<lambda>_. load_entries env rest))"
  by pat_completeness auto
termination by (relation "measure (length \<circ> snd)") (auto dest: take_entry_shorter)

declare load_entries.simps [simp del]

definition load_from_disk :: "'d StoreEnv \<Rightarrow> Io \<Rightarrow> Disk \<Rightarrow> ('d, unit) storeop" where
  "load_from_disk env io disk =
     (case dk_store disk of None \<Rightarrow> st_return ()
      | Some blob \<Rightarrow> (case io_read_store io of Some e \<Rightarrow> st_fail (StoreIo e) | None \<Rightarrow> load_entries env blob))"

text \<open>The salt, with the draws spent on it.\<close>

definition obtain_salt :: "'d StoreEnv \<Rightarrow> Io \<Rightarrow> Disk \<Rightarrow> (StoreError + bytes \<times> nat) \<times> Disk" where
  "obtain_salt env io disk =
     (case dk_salt disk of
        Some raw \<Rightarrow>
          (case io_read_salt io of Some e \<Rightarrow> (Inl (StoreIo e), disk)
           | None \<Rightarrow> if length raw \<noteq> SALT_LEN then (Inl (StoreCorrupt ''salt file is the wrong length''), disk)
                     else (Inr (raw, 0), disk))
      | None \<Rightarrow>
          (case ev_rand env 0 SALT_LEN of None \<Rightarrow> (Inl (StoreCrypto ''no system randomness for salt''), disk)
           | Some s \<Rightarrow>
               (case io_write_salt io of Some e \<Rightarrow> (Inl (StoreIo e), disk\<lparr> dk_salt := Some (io_partial io) \<rparr>)
                | None \<Rightarrow> (Inr (s, 1), disk\<lparr> dk_salt := Some s \<rparr>))))"

definition derive_key :: "'d StoreEnv \<Rightarrow> bytes \<Rightarrow> bytes \<Rightarrow> StoreError + bytes" where
  "derive_key env passphrase salt =
     (case ev_kdf env passphrase salt of None \<Rightarrow> Inl (StoreCrypto ''Argon2id key derivation failed'')
      | Some key \<Rightarrow> if length key \<noteq> 32 then Inl (StoreCrypto ''AES-256-GCM rejected the derived key'') else Inr key)"

definition new_store :: "'d StoreEnv \<Rightarrow> bytes \<Rightarrow> nat \<Rightarrow> 'd Store" where
  "new_store env key draws = \<lparr>
     st_db = fold (\<lambda>c. sd_define (ev_sdk env) c []) COLLECTIONS (sd_empty (ev_sdk env)),
     st_caps = COLLECTIONS, st_fields = (\<lambda>c. if c \<in> set COLLECTIONS then Some [] else None),
     st_key = key, st_draws = draws \<rparr>"

definition store_open :: "'d StoreEnv \<Rightarrow> Io \<Rightarrow> bytes \<Rightarrow> Disk \<Rightarrow> (StoreError + 'd Store) \<times> Disk" where
  "store_open env io passphrase disk =
     (case io_mkdir io of Some e \<Rightarrow> (Inl (StoreIo e), disk)
      | None \<Rightarrow>
          (case obtain_salt env io disk of (Inl e, disk1) \<Rightarrow> (Inl e, disk1)
           | (Inr (salt, draws), disk1) \<Rightarrow>
               (case derive_key env passphrase salt of Inl e \<Rightarrow> (Inl e, disk1)
                | Inr key \<Rightarrow>
                    (case ev_setup env of Some e \<Rightarrow> (Inl (StoreSdk e), disk1)
                     | None \<Rightarrow>
                         (case load_from_disk env io disk1 (new_store env key draws) of
                            (Inl e, _) \<Rightarrow> (Inl e, disk1)
                          | (Inr _, st) \<Rightarrow> (Inr st, disk1))))))"

section \<open>Merging a replica\<close>

definition import_guarded :: "'d StoreEnv \<Rightarrow> bytes \<Rightarrow> bytes \<Rightarrow> ('d, unit) storeop" where
  "import_guarded env collection update = (\<lambda>st.
     case sd_import (ev_sdk env) collection update (st_db st) of
       (None, db) \<Rightarrow> (Inr (), st\<lparr> st_db := db \<rparr>)
     | (Some None, db) \<Rightarrow> (Inr (), st\<lparr> st_db := db \<rparr>)
     | (Some (Some e), db) \<Rightarrow> (Inl (StoreSdk e), st\<lparr> st_db := db \<rparr>))"

fun merge_collections :: "'d StoreEnv \<Rightarrow> 'd Store \<Rightarrow> bytes list \<Rightarrow> ('d, unit) storeop" where
  "merge_collections env other [] = st_return ()"
| "merge_collections env other (c # cs) =
     (let update = sd_export (ev_sdk env) c (st_db other) in
      if update = [] then merge_collections env other cs
      else st_bind (import_guarded env c update) (\<lambda>_. merge_collections env other cs))"

definition merge_from :: "'d StoreEnv \<Rightarrow> 'd Store \<Rightarrow> ('d, unit) storeop" where
  "merge_from env other = merge_collections env other COLLECTIONS"

section \<open>The server's key ring\<close>

datatype RingError = NoPassphrase | RingStore StoreError | RingRandom

definition ring_of_stored :: "StoredMasterKey list \<Rightarrow> KeyRing" where
  "ring_of_stored stored = foldl rotate_in (ring_new MASTER_KEY_SLOTS) (map (\<lambda>k. \<lparr> mk_id = sk_id k, mk_key = sk_key k \<rparr>) stored)"

definition stored_key :: "MasterKey \<Rightarrow> StoredMasterKey" where "stored_key k = \<lparr> sk_id = mk_id k, sk_key = mk_key k \<rparr>"

text \<open>A fresh ring draws after the store's own draws; here the source of the new key is given apart.\<close>

definition create_ring ::
  "'d StoreEnv \<Rightarrow> Io \<Rightarrow> (nat \<Rightarrow> nat \<Rightarrow> bytes option) \<Rightarrow> Disk \<Rightarrow> 'd Store \<Rightarrow> (RingError + KeyRing \<times> 'd Store option) \<times> Disk" where
  "create_ring env io rand disk st =
     (case fresh_key_ring rand of None \<Rightarrow> (Inl RingRandom, disk)
      | Some fresh \<Rightarrow>
          (case ring_current fresh of None \<Rightarrow> (Inr (fresh, Some st), disk)
           | Some k \<Rightarrow>
               (case put_master_key env 0 (stored_key k) st of (Inl e, _) \<Rightarrow> (Inl (RingStore e), disk)
                | (Inr _, st1) \<Rightarrow>
                    (case flush env io disk st1 of ((Inl e, disk1), _) \<Rightarrow> (Inl (RingStore e), disk1)
                     | ((Inr _, disk1), st2) \<Rightarrow> (Inr (fresh, Some st2), disk1)))))"

definition load_or_create_ring ::
  "'d StoreEnv \<Rightarrow> Io \<Rightarrow> (nat \<Rightarrow> nat \<Rightarrow> bytes option) \<Rightarrow> bool \<Rightarrow> bytes option \<Rightarrow> Disk \<Rightarrow>
     (RingError + KeyRing \<times> 'd Store option) \<times> Disk" where
  "load_or_create_ring env io rand state_path passphrase disk =
     (if \<not> state_path then
        (case fresh_key_ring rand of None \<Rightarrow> (Inl RingRandom, disk) | Some fresh \<Rightarrow> (Inr (fresh, None), disk))
      else case passphrase of None \<Rightarrow> (Inl NoPassphrase, disk)
      | Some pass \<Rightarrow>
          (case store_open env io pass disk of (Inl e, disk1) \<Rightarrow> (Inl (RingStore e), disk1)
           | (Inr st, disk1) \<Rightarrow>
               (case all_master_keys env st of (Inl e, _) \<Rightarrow> (Inl (RingStore e), disk1)
                | (Inr stored, st1) \<Rightarrow>
                    if stored = [] then create_ring env io rand disk1 st1
                    else (Inr (ring_of_stored stored, Some st1), disk1))))"

end
