(* ===== verification/StoreRuns.thy ===== *)
theory StoreRuns
  imports Store
begin

text \<open>What the durable state guarantees: every operation keeps the store well formed, an entry written is the entry
read, and a store flushed and opened again answers every read as before, so that client sessions and the server's
cookies survive a restart.\<close>

section \<open>Text\<close>

lemma utf8_ok_append: "utf8_ok a \<Longrightarrow> utf8_ok b \<Longrightarrow> utf8_ok (a @ b)"
proof (induction a rule: utf8_ok.induct)
  case (2 x xs)
  show ?case
  proof (cases "x < 0x80")
    case True
    then show ?thesis using 2 by simp
  next
    case big: False
    then obtain y ys where xs: "xs = y # ys" using "2.prems"(1) by (cases xs) simp_all
    show ?thesis
    proof (cases "utf8_pair x y")
      case True
      then show ?thesis using "2.IH"(2)[OF big xs True] "2.prems" big xs by simp
    next
      case two: False
      then obtain z zs where ys: "ys = z # zs" using "2.prems"(1) big xs by (cases ys) simp_all
      show ?thesis
      proof (cases "utf8_triple x y z")
        case True
        then show ?thesis using "2.IH"(3)[OF big xs two ys True] "2.prems" big xs two ys by simp
      next
        case three: False
        then obtain w ws where zs: "zs = w # ws" using "2.prems"(1) big xs two ys by (cases zs) simp_all
        then show ?thesis using "2.IH"(4)[OF big xs two ys three zs] "2.prems" big xs two ys three by simp
      qed
    qed
  qed
qed simp

lemma utf8_ok_ascii: "list_all (\<lambda>b. b < 0x80) s \<Longrightarrow> utf8_ok s"
  by (induction s) auto

lemma digits_ascii: "utf8_ok (digits_of n)"
proof -
  have "b < 0x80" if "is_digit b" for b
    using that unfolding is_digit_def word_le_nat_alt word_less_nat_alt by simp
  then show ?thesis using digits_of_plain(1) by (intro utf8_ok_ascii) (auto simp: list_all_iff)
qed

lemma hex_digit_back: "n \<le> 0xF \<Longrightarrow> to_digit16 (hex_digit n) = Some n \<and> hex_digit n < 0x80"
proof -
  assume "n \<le> 0xF"
  then have "n \<in> set (map word_of_nat [0..<16])" by (intro word_in_range) (simp add: word_le_nat_alt)
  moreover have "\<forall>n\<in>set (map word_of_nat [0..<16]). to_digit16 (hex_digit n) = Some n \<and> hex_digit n < 0x80" by code_simp
  ultimately show ?thesis by blast
qed

lemma to_hex_back: "unhex (to_hex b) = Some b" "list_all (\<lambda>c. c < 0x80) (to_hex b)" "length (to_hex b) = 2 * length b"
proof -
  have "unhex (to_hex b) = Some b \<and> list_all (\<lambda>c. c < 0x80) (to_hex b) \<and> length (to_hex b) = 2 * length b"
  proof (induction b)
    case (Cons x b)
    have "unat x < 2 ^ 8" using unsigned_less[of x] by simp
    then have "unat (drop_bit 4 x) \<le> 15" by (simp only: unat_drop_bit_eq drop_bit_eq_div[of 4 "unat x"]) simp
    then have n: "drop_bit 4 x \<le> 0xF" "x AND 0xF \<le> 0xF"
      by (simp_all add: word_le_nat_alt[of "drop_bit 4 x"] word_and_le1)
    have "push_bit 4 (drop_bit 4 x) OR (x AND 0xF) = x"
    proof -
      have m: "(0xF :: u8) = mask 4" by (simp add: mask_eq_exp_minus_1)
      show ?thesis unfolding m by (rule bit_word_eqI) (auto simp: bit_or_iff bit_push_bit_iff bit_drop_bit_eq bit_and_iff bit_mask_iff)
    qed
    then show ?case using Cons hex_digit_back[OF n(1)] hex_digit_back[OF n(2)] by simp
  qed simp
  then show "unhex (to_hex b) = Some b" "list_all (\<lambda>c. c < 0x80) (to_hex b)" "length (to_hex b) = 2 * length b" by simp_all
qed


definition text_ok :: "bytes \<Rightarrow> bool" where "text_ok s \<longleftrightarrow> utf8_ok s \<and> length s < 2 ^ 32"

text \<open>A display of an index below 64 has at most two digits.\<close>

lemma length_digits: "n < 100 \<Longrightarrow> length (digits_of n) \<le> 2"
  using digits_of.simps[of n] digits_of.simps[of "n div 10"] by (cases "n < 10") auto

lemma compound_key_text:
  assumes "utf8_ok kind" "utf8_ok owner" "length kind < 2 ^ 10" "length owner < 2 ^ 31" "index < 100"
  shows "text_ok (compound_key kind owner index)"
  using assms length_digits[OF assms(5)] unfolding text_ok_def compound_key_def
  by (auto intro!: utf8_ok_append digits_ascii)

lemma compound_key_inj: "compound_key kind owner i = compound_key kind owner j \<longleftrightarrow> i = j"
  by (simp add: compound_key_def digits_of_inj)

text \<open>Keys of two owners are apart: an owner ends at the last slash.\<close>

lemma compound_key_owner:
  assumes "compound_key kind owner i = compound_key kind other j"
  shows "owner = other"
proof -
  have no: "0x2F \<notin> set (digits_of n)" for n
    using digits_of_plain(1)[of n] by (auto simp: list_all_iff is_digit_def)
  have tail: "takeWhile ((\<noteq>) 0x2F) (rev (o' @ [0x2F] @ digits_of n)) = rev (digits_of n)" for o' n
    using no[of n] by (auto simp: takeWhile_append takeWhile_eq_all_conv)
  have e: "owner @ [0x2F] @ digits_of i = other @ [0x2F] @ digits_of j" using assms by (simp add: compound_key_def)
  then have "rev (digits_of i) = rev (digits_of j)" using tail by metis
  then show ?thesis using e by simp
qed

section \<open>The contracts of the parts\<close>

text \<open>SpaceDB as its documentation has it: a document is a map of fields, a schema declares the fields, defining
replaces the schema only, and a declared field is written and read.\<close>

definition sdk_ok :: "'d Sdk \<Rightarrow> ('d \<Rightarrow> bytes \<Rightarrow> bytes list) \<Rightarrow> ('d \<Rightarrow> bytes \<Rightarrow> bytes \<Rightarrow> bytes option) \<Rightarrow> bool" where
  "sdk_ok sdk declared docs \<longleftrightarrow>
     (\<forall>c k. docs (sd_empty sdk) c k = None) \<and>
     (\<forall>c fs d. docs (sd_define sdk c fs d) = docs d \<and> declared (sd_define sdk c fs d) = (declared d)(c := fs)) \<and>
     (\<forall>c k v d. k \<in> set (declared d c) \<longrightarrow> (\<exists>d'. sd_put sdk c k v d = (None, d') \<and>
        docs d' = (docs d)(c := (docs d c)(k \<mapsto> v)) \<and> declared d' = declared d)) \<and>
     (\<forall>c k d. k \<in> set (declared d c) \<longrightarrow> sd_read sdk c k d = Inr (docs d c k))"

definition gcm_ok :: "Gcm \<Rightarrow> bool" where
  "gcm_ok g \<longleftrightarrow> (\<forall>k n a m. length k = 32 \<and> length n = STORE_NONCE_LEN \<longrightarrow>
     (\<exists>c. gcm_encrypt g k n a m = Some c \<and> length c = length m + 16 \<and> gcm_decrypt g k n a c = Some m))"

definition env_ok :: "'d StoreEnv \<Rightarrow> ('d \<Rightarrow> bytes \<Rightarrow> bytes list) \<Rightarrow> ('d \<Rightarrow> bytes \<Rightarrow> bytes \<Rightarrow> bytes option) \<Rightarrow> bool" where
  "env_ok env declared docs \<longleftrightarrow> sdk_ok (ev_sdk env) declared docs \<and> gcm_ok (ev_gcm env) \<and> ev_setup env = None \<and>
     (\<forall>i n. \<exists>b. ev_rand env i n = Some b \<and> length b = n) \<and>
     (\<forall>p s. length s = SALT_LEN \<longrightarrow> (\<exists>k. ev_kdf env p s = Some k \<and> length k = 32))"

text \<open>A well-formed store: its declared fields are the database's and hold every entry, and every value is text and,
unless it is a tombstone, opens under its own key.\<close>

definition value_ok :: "'d StoreEnv \<Rightarrow> bytes \<Rightarrow> bytes \<Rightarrow> bytes \<Rightarrow> bool" where
  "value_ok env key k v \<longleftrightarrow> text_ok v \<and> (v \<noteq> [] \<longrightarrow> (\<exists>p. open_value env key v k = Inr p))"

definition store_ok :: "'d StoreEnv \<Rightarrow> ('d \<Rightarrow> bytes \<Rightarrow> bytes list) \<Rightarrow> ('d \<Rightarrow> bytes \<Rightarrow> bytes \<Rightarrow> bytes option) \<Rightarrow> 'd Store \<Rightarrow> bool" where
  "store_ok env declared docs st \<longleftrightarrow> length (st_key st) = 32 \<and> st_caps st = COLLECTIONS \<and>
     (\<forall>c\<in>set COLLECTIONS. \<exists>fs. st_fields st c = Some fs \<and> declared (st_db st) c = fs \<and> (\<forall>k\<in>set fs. text_ok k)) \<and>
     (\<forall>c k v. docs (st_db st) c k = Some v \<longrightarrow> c \<in> set COLLECTIONS \<and> k \<in> set (declared (st_db st) c) \<and> value_ok env (st_key st) k v)"

text \<open>What an operation that only reads may change.\<close>

definition kept :: "'d StoreEnv \<Rightarrow> ('d \<Rightarrow> bytes \<Rightarrow> bytes list) \<Rightarrow> ('d \<Rightarrow> bytes \<Rightarrow> bytes \<Rightarrow> bytes option) \<Rightarrow> 'd Store \<Rightarrow> 'd Store \<Rightarrow> bool" where
  "kept env declared docs st st' \<longleftrightarrow> store_ok env declared docs st' \<and> st_key st' = st_key st \<and> docs (st_db st') = docs (st_db st)"

text \<open>The entry under a key, and an update of one entry.\<close>

definition entry :: "'d StoreEnv \<Rightarrow> ('d \<Rightarrow> bytes \<Rightarrow> bytes \<Rightarrow> bytes option) \<Rightarrow> 'd Store \<Rightarrow> bytes \<Rightarrow> bytes \<Rightarrow> StoreError + bytes option" where
  "entry env docs st c k = read_entry env (st_key st) k (docs (st_db st) c k)"

definition sets ::
  "'d StoreEnv \<Rightarrow> ('d \<Rightarrow> bytes \<Rightarrow> bytes list) \<Rightarrow> ('d \<Rightarrow> bytes \<Rightarrow> bytes \<Rightarrow> bytes option) \<Rightarrow> 'd Store \<Rightarrow> bytes \<Rightarrow> bytes \<Rightarrow> bytes \<Rightarrow> 'd Store \<Rightarrow> bool" where
  "sets env declared docs st c k p st' \<longleftrightarrow> store_ok env declared docs st' \<and> st_key st' = st_key st \<and>
     entry env docs st' = (entry env docs st)(c := (entry env docs st c)(k := Inr (Some p)))"

lemma kept_refl: "store_ok env declared docs st \<Longrightarrow> kept env declared docs st st" by (simp add: kept_def)

lemma kept_trans: "kept env declared docs a b \<Longrightarrow> kept env declared docs b d \<Longrightarrow> kept env declared docs a d"
  by (simp add: kept_def)

lemma kept_entry: "kept env declared docs st st' \<Longrightarrow> entry env docs st' = entry env docs st"
  by (auto simp: kept_def entry_def fun_eq_iff)

lemma kept_ok: "kept env declared docs st st' \<Longrightarrow> store_ok env declared docs st'" by (simp add: kept_def)

lemma entry_Inr: "store_ok env declared docs st \<Longrightarrow> \<exists>x. entry env docs st c k = Inr x"
  unfolding store_ok_def value_ok_def entry_def by (cases "docs (st_db st) c k") (auto, force)

section \<open>Operations\<close>

lemma ensure_field_ok:
  assumes "sdk_ok (ev_sdk env) declared docs" "store_ok env declared docs st" "c \<in> set COLLECTIONS" "text_ok k"
  shows "kept env declared docs st (ensure_field env c k st)" "k \<in> set (declared (st_db (ensure_field env c k st)) c)"
proof -
  obtain fs where f: "st_fields st c = Some fs" "declared (st_db st) c = fs" "\<forall>k\<in>set fs. text_ok k"
    using assms(2,3) by (auto simp: store_ok_def)
  have d: "docs (sd_define (ev_sdk env) c gs d) = docs d" "declared (sd_define (ev_sdk env) c gs d) = (declared d)(c := gs)" for gs d
    using assms(1) by (simp_all add: sdk_ok_def)
  show "k \<in> set (declared (st_db (ensure_field env c k st)) c)"
    using f by (simp add: ensure_field_def Let_def d set_insort_key)
  show "kept env declared docs st (ensure_field env c k st)"
  proof (cases "k \<in> set fs")
    case False
    have "store_ok env declared docs (ensure_field env c k st)"
      using assms(2,4) f False unfolding store_ok_def
      by (auto simp: ensure_field_def Let_def d set_insort_key)
    then show ?thesis using f False by (simp add: kept_def ensure_field_def Let_def d)
  qed (use assms(2) f in \<open>simp add: kept_def ensure_field_def\<close>)
qed

lemma get_raw_ok:
  assumes "sdk_ok (ev_sdk env) declared docs" "store_ok env declared docs st" "c \<in> set COLLECTIONS" "text_ok k"
  shows "\<exists>st'. get_raw env c k st = (Inr (docs (st_db st) c k), st') \<and> kept env declared docs st st'"
proof -
  note e = ensure_field_ok[OF assms]
  let ?st = "ensure_field env c k st"
  have "sd_read (ev_sdk env) c k (st_db ?st) = Inr (docs (st_db ?st) c k)"
    using assms(1) e(2) by (simp add: sdk_ok_def)
  then show ?thesis using e(1) assms(3) by (auto simp: get_raw_def Let_def kept_def store_ok_def)
qed

lemma get_sealed_ok:
  assumes "sdk_ok (ev_sdk env) declared docs" "store_ok env declared docs st" "c \<in> set COLLECTIONS" "text_ok k"
  shows "\<exists>st'. get_sealed env c k st = (entry env docs st c k, st') \<and> kept env declared docs st st'"
  using get_raw_ok[OF assms] by (auto simp: get_sealed_def st_bind_def entry_def kept_def)

lemma put_raw_ok:
  assumes "sdk_ok (ev_sdk env) declared docs" "store_ok env declared docs st" "c \<in> set COLLECTIONS" "text_ok k"
    "value_ok env (st_key st) k v"
  shows "\<exists>st'. put_raw env c k v st = (Inr (), st') \<and> store_ok env declared docs st' \<and> st_key st' = st_key st \<and>
    docs (st_db st') = (docs (st_db st))(c := (docs (st_db st) c)(k \<mapsto> v))"
proof -
  note e = ensure_field_ok[OF assms(1-4)]
  let ?st = "ensure_field env c k st"
  obtain d where d: "sd_put (ev_sdk env) c k v (st_db ?st) = (None, d)" "declared d = declared (st_db ?st)"
    "docs d = (docs (st_db ?st))(c := (docs (st_db ?st) c)(k \<mapsto> v))"
    using assms(1) e(2) unfolding sdk_ok_def by blast
  have st: "store_ok env declared docs ?st" "st_key ?st = st_key st" "docs (st_db ?st) = docs (st_db st)" using e(1) by (simp_all add: kept_def)
  have caps: "st_caps ?st = COLLECTIONS" using st(1) by (simp add: store_ok_def)
  have "store_ok env declared docs (?st\<lparr> st_db := d \<rparr>)"
    using st(1) assms(3,5) e(2) st(2) unfolding store_ok_def by (auto simp: d)
  then show ?thesis using assms(3) st(2,3) d caps by (simp add: put_raw_def Let_def)
qed


lemma put_sealed_ok:
  assumes "env_ok env declared docs" "store_ok env declared docs st" "c \<in> set COLLECTIONS" "text_ok k" "length p < 2 ^ 30"
  shows "\<exists>st'. put_sealed env c k p st = (Inr (), st') \<and> sets env declared docs st c k p st'"
proof -
  have sdk: "sdk_ok (ev_sdk env) declared docs" and g: "gcm_ok (ev_gcm env)" using assms(1) by (simp_all add: env_ok_def)
  obtain nonce where n: "ev_rand env (st_draws st) STORE_NONCE_LEN = Some nonce" "length nonce = STORE_NONCE_LEN"
    using assms(1) unfolding env_ok_def by blast
  have key: "length (st_key st) = 32" using assms(2) by (simp add: store_ok_def)
  obtain ct where ct: "gcm_encrypt (ev_gcm env) (st_key st) nonce k p = Some ct" "length ct = length p + 16"
    "gcm_decrypt (ev_gcm env) (st_key st) nonce k ct = Some p" using g key n(2) unfolding gcm_ok_def by blast
  let ?v = "to_hex (nonce @ ct)" and ?st = "st\<lparr> st_draws := st_draws st + 1 \<rparr>"
  have len: "length ?v = 2 * (length p + 28)" using n(2) ct(2) by (simp add: to_hex_back(3) STORE_NONCE_LEN_def)
  then have ne: "?v \<noteq> []" by auto
  have op: "open_value env (st_key st) ?v k = Inr p"
    using n(2) ct by (simp add: open_value_def to_hex_back(1) STORE_NONCE_LEN_def)
  have v: "value_ok env (st_key st) k ?v"
    using op len assms(5) utf8_ok_ascii[OF to_hex_back(2)] by (simp add: value_ok_def text_ok_def)
  have st: "store_ok env declared docs ?st" using assms(2) by (simp add: store_ok_def)
  obtain st' where p: "put_raw env c k ?v ?st = (Inr (), st')" "store_ok env declared docs st'" "st_key st' = st_key st"
    "docs (st_db st') = (docs (st_db st))(c := (docs (st_db st) c)(k \<mapsto> ?v))"
    using put_raw_ok[OF sdk st assms(3,4), of ?v] v by auto
  have "entry env docs st' = (entry env docs st)(c := (entry env docs st c)(k := Inr (Some p)))"
    using p(3,4) op ne by (auto simp: entry_def fun_eq_iff)
  then show ?thesis using p n(1) ct(1) by (auto simp: put_sealed_def st_bind_def store_seal_def Let_def sets_def)
qed

lemma put_tombstone_ok:
  assumes "env_ok env declared docs" "store_ok env declared docs st" "c \<in> set COLLECTIONS" "text_ok k"
  shows "\<exists>st'. put_raw env c k [] st = (Inr (), st') \<and> sets env declared docs st c k [] st'"
proof -
  have sdk: "sdk_ok (ev_sdk env) declared docs" using assms(1) by (simp add: env_ok_def)
  have "value_ok env (st_key st) k []" by (simp add: value_ok_def text_ok_def)
  then obtain st' where p: "put_raw env c k [] st = (Inr (), st')" "store_ok env declared docs st'" "st_key st' = st_key st"
    "docs (st_db st') = (docs (st_db st))(c := (docs (st_db st) c)(k \<mapsto> []))"
    using put_raw_ok[OF sdk assms(2-4)] by blast
  then show ?thesis by (auto simp: sets_def entry_def fun_eq_iff intro!: exI[of _ st'])
qed

lemma collections [simp]: "C_DRIFT \<in> set COLLECTIONS" "C_COOKIES \<in> set COLLECTIONS" "C_KEYS \<in> set COLLECTIONS"
  by (simp_all add: COLLECTIONS_def)

lemma collections_apart [simp]: "C_KEYS \<noteq> C_COOKIES" "C_COOKIES \<noteq> C_KEYS" "C_KEYS \<noteq> C_DRIFT" "C_DRIFT \<noteq> C_KEYS" "C_DRIFT \<noteq> C_COOKIES" "C_COOKIES \<noteq> C_DRIFT"
  by (simp_all add: C_KEYS_def C_COOKIES_def C_DRIFT_def ascii_def)

text \<open>A host name the store can hold.\<close>

definition host_ok :: "bytes \<Rightarrow> bool" where "host_ok h \<longleftrightarrow> utf8_ok h \<and> length h < 2 ^ 31"

lemma host_keys:
  assumes "host_ok h"
  shows "i < 100 \<Longrightarrow> text_ok (cookie_key h i)" "text_ok (compound_key (ascii ''client_keys'') h 0)"
    "text_ok (compound_key (ascii ''client_meta'') h 0)" "text_ok (compound_key (ascii ''drift'') h 0)"
  using assms unfolding host_ok_def cookie_key_def by (auto intro!: compound_key_text simp: ascii_def)

lemma cookie_key_eq: "cookie_key h i = cookie_key g j \<longleftrightarrow> h = g \<and> i = j"
  unfolding cookie_key_def using compound_key_owner compound_key_inj by blast

section \<open>Cookies\<close>

text \<open>The cookies a reader of the entries finds.\<close>

fun cookies_at :: "(nat \<Rightarrow> StoreError + bytes option) \<Rightarrow> nat list \<Rightarrow> bytes list \<Rightarrow> StoreError + bytes list" where
  "cookies_at ent [] out = Inr out"
| "cookies_at ent (i # is) out =
     (case ent i of Inl e \<Rightarrow> Inl e
      | Inr None \<Rightarrow> Inr out
      | Inr (Some v) \<Rightarrow> if v = [] then Inr out else cookies_at ent is (out @ [v]))"

lemma collect_cookies_at:
  assumes "sdk_ok (ev_sdk env) declared docs" "host_ok h"
  shows "store_ok env declared docs st \<Longrightarrow> \<forall>i\<in>set is. i < 100 \<Longrightarrow> \<exists>st'. collect_cookies env h is out st =
    (cookies_at (\<lambda>i. entry env docs st C_COOKIES (cookie_key h i)) is out, st') \<and> kept env declared docs st st'"
proof (induction "is" arbitrary: st out)
  case Nil
  then show ?case by (simp add: st_return_def kept_refl)
next
  case (Cons i "is")
  obtain st1 where g: "get_sealed env C_COOKIES (cookie_key h i) st = (entry env docs st C_COOKIES (cookie_key h i), st1)"
    "kept env declared docs st st1"
    using get_sealed_ok[OF assms(1) Cons.prems(1), of C_COOKIES "cookie_key h i"] host_keys(1)[OF assms(2)] Cons.prems(2) by auto
  show ?case
  proof (cases "\<exists>v. entry env docs st C_COOKIES (cookie_key h i) = Inr (Some v) \<and> v \<noteq> []")
    case True
    then obtain v where v: "entry env docs st C_COOKIES (cookie_key h i) = Inr (Some v)" "v \<noteq> []" by blast
    obtain st2 where "collect_cookies env h is (out @ [v]) st1 =
        (cookies_at (\<lambda>i. entry env docs st1 C_COOKIES (cookie_key h i)) is (out @ [v]), st2)" "kept env declared docs st1 st2"
      using Cons.IH[OF kept_ok[OF g(2)]] Cons.prems(2) by (metis list.set_intros(2))
    then show ?thesis using v g kept_entry[OF g(2)] kept_trans[OF g(2)]
      by (cases v) (auto simp: st_bind_def)
  next
    case False
    then show ?thesis using g by (auto simp: st_bind_def st_return_def split: sum.splits option.splits list.splits)
  qed
qed

lemma get_cookies_at:
  assumes "sdk_ok (ev_sdk env) declared docs" "host_ok h" "store_ok env declared docs st"
  shows "\<exists>st'. get_cookies env h st =
    (cookies_at (\<lambda>i. entry env docs st C_COOKIES (cookie_key h i)) [0..<64] [], st') \<and> kept env declared docs st st'"
  unfolding get_cookies_def MAX_COOKIES_PER_SERVER_def by (rule collect_cookies_at[OF assms]) simp

lemma cookies_at_full:
  assumes "\<forall>i<n. ent (k + i) = Inr (Some (cs ! i)) \<and> cs ! i \<noteq> []" "length cs = n"
    "k + n < m \<Longrightarrow> ent (k + n) = Inr None \<or> ent (k + n) = Inr (Some [])" "k + n \<le> m"
  shows "cookies_at ent [k..<m] out = Inr (out @ cs)"
  using assms
proof (induction n arbitrary: k cs out)
  case 0
  then show ?case by (cases "k < m") (auto simp: upt_conv_Cons)
next
  case (Suc n)
  obtain a as where cs: "cs = a # as" using Suc.prems(2) by (cases cs) auto
  have a: "ent k = Inr (Some a)" "a \<noteq> []" using Suc.prems(1)[rule_format, of 0] cs by auto
  have "\<forall>i<n. ent (Suc k + i) = Inr (Some (as ! i)) \<and> as ! i \<noteq> []"
    using Suc.prems(1) cs by (metis Suc_less_eq add_Suc_shift nth_Cons_Suc)
  then have "cookies_at ent [Suc k..<m] (out @ [a]) = Inr ((out @ [a]) @ as)"
    using Suc.prems(2-4) cs by (intro Suc.IH) simp_all
  moreover have "[k..<m] = k # [Suc k..<m]" using Suc.prems(4) by (simp add: upt_conv_Cons)
  ultimately show ?case using a cs by simp
qed


text \<open>Writing the cookies of a host touches no other entry.\<close>

definition cookies_only ::
  "'d StoreEnv \<Rightarrow> ('d \<Rightarrow> bytes \<Rightarrow> bytes list) \<Rightarrow> ('d \<Rightarrow> bytes \<Rightarrow> bytes \<Rightarrow> bytes option) \<Rightarrow> bytes \<Rightarrow> nat set \<Rightarrow> 'd Store \<Rightarrow> 'd Store \<Rightarrow> bool" where
  "cookies_only env declared docs h js st st' \<longleftrightarrow> store_ok env declared docs st' \<and> st_key st' = st_key st \<and>
     (\<forall>c k. c \<noteq> C_COOKIES \<or> k \<notin> cookie_key h ` js \<longrightarrow> entry env docs st' c k = entry env docs st c k)"

lemma cookies_only_trans:
  "cookies_only env declared docs h is a b \<Longrightarrow> cookies_only env declared docs h js b d \<Longrightarrow> cookies_only env declared docs h (is \<union> js) a d"
  by (simp add: cookies_only_def image_Un)

lemma cookies_only_sets: "sets env declared docs st C_COOKIES (cookie_key h i) p st' \<Longrightarrow> cookies_only env declared docs h {i} st st'"
  by (auto simp: cookies_only_def sets_def)

lemma cookies_only_kept: "kept env declared docs st st' \<Longrightarrow> cookies_only env declared docs h {} st st'"
  using kept_entry by (fastforce simp: cookies_only_def kept_def)

lemma put_each_cookie_ok:
  assumes "env_ok env declared docs" "host_ok h"
  shows "store_ok env declared docs st \<Longrightarrow> i + length cs \<le> 64 \<Longrightarrow> \<forall>k\<in>set cs. length k < 2 ^ 30 \<Longrightarrow>
    \<exists>st'. put_each_cookie env h i cs st = (Inr (), st') \<and> cookies_only env declared docs h {i..<i + length cs} st st' \<and>
      (\<forall>j<length cs. entry env docs st' C_COOKIES (cookie_key h (i + j)) = Inr (Some (cs ! j)))"
proof (induction cs arbitrary: st i)
  case Nil
  then show ?case using cookies_only_kept[OF kept_refl] by (auto simp: st_return_def)
next
  case (Cons a as)
  obtain st1 where p: "put_sealed env C_COOKIES (cookie_key h i) a st = (Inr (), st1)"
    "sets env declared docs st C_COOKIES (cookie_key h i) a st1"
    using put_sealed_ok[OF assms(1) Cons.prems(1) collections(2), of "cookie_key h i" a] host_keys(1)[OF assms(2), of i] Cons.prems(2,3) by auto
  then have o: "store_ok env declared docs st1" by (simp add: sets_def)
  obtain st2 where q: "put_each_cookie env h (Suc i) as st1 = (Inr (), st2)"
    "cookies_only env declared docs h {Suc i..<Suc i + length as} st1 st2"
    "\<forall>j<length as. entry env docs st2 C_COOKIES (cookie_key h (Suc i + j)) = Inr (Some (as ! j))"
    using Cons.IH[OF o, of "Suc i"] Cons.prems(2,3) by auto
  have "entry env docs st1 C_COOKIES (cookie_key h i) = Inr (Some a)" using p(2) by (simp add: sets_def)
  moreover have "cookie_key h i \<notin> cookie_key h ` {Suc i..<Suc i + length as}" by (auto simp: cookie_key_eq)
  ultimately have e: "entry env docs st2 C_COOKIES (cookie_key h i) = Inr (Some a)"
    using q(2) by (simp add: cookies_only_def)
  have r: "{i} \<union> {Suc i..<Suc i + length as} = {i..<i + length (a # as)}" by auto
  have "cookies_only env declared docs h {i..<i + length (a # as)} st st2"
    using cookies_only_trans[OF cookies_only_sets[OF p(2)] q(2)] unfolding r .
  moreover have "\<forall>j<length (a # as). entry env docs st2 C_COOKIES (cookie_key h (i + j)) = Inr (Some ((a # as) ! j))"
    using e q(3) by (auto simp: nth_Cons split: nat.splits)
  ultimately show ?case using p(1) q(1) by (simp add: st_bind_def)
qed

lemma retire_tail_ok:
  assumes "env_ok env declared docs" "host_ok h"
  shows "store_ok env declared docs st \<Longrightarrow> distinct is \<Longrightarrow> \<forall>i\<in>set is. i < 100 \<Longrightarrow>
    \<exists>st'. retire_tail env h is st = (Inr (), st') \<and> cookies_only env declared docs h (set is) st st' \<and>
      (is \<noteq> [] \<longrightarrow> entry env docs st' C_COOKIES (cookie_key h (hd is)) \<in> {Inr None, Inr (Some [])})"
proof (induction "is" arbitrary: st)
  case Nil
  then show ?case using cookies_only_kept[OF kept_refl] by (auto simp: st_return_def)
next
  case (Cons i "is")
  have sdk: "sdk_ok (ev_sdk env) declared docs" using assms(1) by (simp add: env_ok_def)
  have t: "text_ok (cookie_key h i)" using host_keys(1)[OF assms(2)] Cons.prems(3) by simp
  obtain st1 where g: "get_sealed env C_COOKIES (cookie_key h i) st = (entry env docs st C_COOKIES (cookie_key h i), st1)"
    "kept env declared docs st st1" using get_sealed_ok[OF sdk Cons.prems(1) collections(2) t] by blast
  obtain x where x: "entry env docs st C_COOKIES (cookie_key h i) = Inr x" using entry_Inr[OF Cons.prems(1)] by blast
  show ?case
  proof (cases "\<exists>v. x = Some v \<and> v \<noteq> []")
    case False
    have "cookies_only env declared docs h (set (i # is)) st st1"
      using cookies_only_kept[OF g(2), of h] by (auto simp: cookies_only_def)
    then show ?thesis using g x False kept_entry[OF g(2)]
      by (cases x) (auto simp: st_bind_def st_return_def)
  next
    case True
    then obtain v where v: "x = Some v" "v \<noteq> []" by blast
    obtain st2 where p: "put_raw env C_COOKIES (cookie_key h i) [] st1 = (Inr (), st2)"
      "sets env declared docs st1 C_COOKIES (cookie_key h i) [] st2"
      using put_tombstone_ok[OF assms(1) kept_ok[OF g(2)] collections(2) t] by blast
    then have o: "store_ok env declared docs st2" by (simp add: sets_def)
    obtain st3 where q: "retire_tail env h is st2 = (Inr (), st3)" "cookies_only env declared docs h (set is) st2 st3"
      using Cons.IH[OF o] Cons.prems(2,3) by auto
    have "entry env docs st2 C_COOKIES (cookie_key h i) = Inr (Some [])" using p(2) by (simp add: sets_def)
    moreover have "cookie_key h i \<notin> cookie_key h ` set is" using Cons.prems(2) by (auto simp: cookie_key_eq)
    ultimately have "entry env docs st3 C_COOKIES (cookie_key h i) = Inr (Some [])" using q(2) by (simp add: cookies_only_def)
    moreover have "cookies_only env declared docs h (set (i # is)) st st3"
      using cookies_only_trans[OF cookies_only_trans[OF cookies_only_kept[OF g(2)] cookies_only_sets[OF p(2)]] q(2)] by simp
    ultimately show ?thesis using g(1) x v p(1) q(1) by (cases v) (auto simp: st_bind_def)
  qed
qed

lemma put_cookies_ok:
  assumes "env_ok env declared docs" "host_ok h" "store_ok env declared docs st" "\<forall>k\<in>set cs. k \<noteq> [] \<and> length k < 2 ^ 30"
  shows "\<exists>st'. put_cookies env h cs st = (Inr (), st') \<and> cookies_only env declared docs h {..<64} st st' \<and>
    cookies_at (\<lambda>i. entry env docs st' C_COOKIES (cookie_key h i)) [0..<64] [] = Inr (take 64 cs)"
proof -
  define n where "n = min (length cs) 64"
  have n: "length (take n cs) = n" "n \<le> 64" "take n cs = take 64 cs" by (simp_all add: n_def min_def)
  have small: "\<forall>k\<in>set (take n cs). length k < 2 ^ 30" using assms(4) by (auto dest: in_set_takeD)
  obtain st1 where p: "put_each_cookie env h 0 (take n cs) st = (Inr (), st1)" "cookies_only env declared docs h {0..<n} st st1"
    "\<forall>j<n. entry env docs st1 C_COOKIES (cookie_key h j) = Inr (Some (take n cs ! j))"
    using put_each_cookie_ok[OF assms(1-3), of 0 "take n cs"] n small by auto
  then have o: "store_ok env declared docs st1" by (simp add: cookies_only_def)
  obtain st2 where q: "retire_tail env h [n..<64] st1 = (Inr (), st2)" "cookies_only env declared docs h (set [n..<64]) st1 st2"
    "[n..<64] \<noteq> [] \<longrightarrow> entry env docs st2 C_COOKIES (cookie_key h (hd [n..<64])) \<in> {Inr None, Inr (Some [])}"
    using retire_tail_ok[OF assms(1,2) o, of "[n..<64]"] by auto
  have e: "entry env docs st2 C_COOKIES (cookie_key h j) = Inr (Some (take n cs ! j))" if "j < n" for j
  proof -
    have "cookie_key h j \<notin> cookie_key h ` set [n..<64]" using that by (auto simp: cookie_key_eq)
    then show ?thesis using p(3) q(2) that by (simp add: cookies_only_def)
  qed
  have "cookies_at (\<lambda>i. entry env docs st2 C_COOKIES (cookie_key h i)) [0..<64] [] = Inr ([] @ take n cs)"
  proof (rule cookies_at_full[where n = n])
    show "\<forall>i<n. entry env docs st2 C_COOKIES (cookie_key h (0 + i)) = Inr (Some (take n cs ! i)) \<and> take n cs ! i \<noteq> []"
      using e assms(4) n(1) nth_mem[of _ "take n cs"] in_set_takeD[of _ n cs] by fastforce
    show "0 + n < 64 \<Longrightarrow> entry env docs st2 C_COOKIES (cookie_key h (0 + n)) = Inr None \<or> entry env docs st2 C_COOKIES (cookie_key h (0 + n)) = Inr (Some [])"
      using q(3) by (auto simp: upt_conv_Cons)
  qed (use n in simp_all)
  moreover have "cookies_only env declared docs h {..<64} st st2"
    using cookies_only_trans[OF p(2) q(2)] n(2) by (elim back_subst[of "\<lambda>s. cookies_only env declared docs h s st st2"]) auto
  ultimately show ?thesis using p(1) q(1) n
    by (auto simp: put_cookies_def st_bind_def Let_def MAX_COOKIES_PER_SERVER_def n_def)
qed


section \<open>Sessions\<close>

text \<open>What a reader of the entries makes of a host's session.\<close>

definition session_at :: "(bytes \<Rightarrow> bytes \<Rightarrow> StoreError + bytes option) \<Rightarrow> bytes \<Rightarrow> StoreError + StoredClientSession option" where
  "session_at ent h =
     (case ent C_KEYS (compound_key (ascii ''client_keys'') h 0) of Inl e \<Rightarrow> Inl e
      | Inr None \<Rightarrow> Inr None
      | Inr (Some raw) \<Rightarrow>
          if length raw \<noteq> 64 then Inr None
          else (case ent C_KEYS (compound_key (ascii ''client_meta'') h 0) of Inl e \<Rightarrow> Inl e
          | Inr None \<Rightarrow> Inr None
          | Inr (Some meta) \<Rightarrow>
              if \<not> utf8_ok meta then Inl (StoreCorrupt ''client meta is not utf-8'')
              else (case parse_meta meta of None \<Rightarrow> Inr None
              | Some (server, port) \<Rightarrow>
                  (case cookies_at (\<lambda>i. ent C_COOKIES (cookie_key h i)) [0..<64] [] of Inl e \<Rightarrow> Inl e
                   | Inr cookies \<Rightarrow> if cookies = [] then Inr None
                       else Inr (Some \<lparr> ss_keys = \<lparr> k_c2s = take 32 raw, k_s2c = drop 32 raw \<rparr>, ss_cookies = cookies,
                         ss_ntp_server = server, ss_ntp_port = port \<rparr>)))))"

lemma get_client_session_at:
  assumes "sdk_ok (ev_sdk env) declared docs" "host_ok h" "store_ok env declared docs st"
  shows "\<exists>st'. get_client_session env h st = (session_at (entry env docs st) h, st') \<and> kept env declared docs st st'"
proof -
  obtain st1 where a: "get_sealed env C_KEYS (compound_key (ascii ''client_keys'') h 0) st =
      (entry env docs st C_KEYS (compound_key (ascii ''client_keys'') h 0), st1)" "kept env declared docs st st1"
    using get_sealed_ok[OF assms(1,3) collections(3) host_keys(2)[OF assms(2)]] by blast
  obtain st2 where b: "get_sealed env C_KEYS (compound_key (ascii ''client_meta'') h 0) st1 =
      (entry env docs st C_KEYS (compound_key (ascii ''client_meta'') h 0), st2)" "kept env declared docs st st2"
    using get_sealed_ok[OF assms(1) kept_ok[OF a(2)] collections(3) host_keys(3)[OF assms(2)]] kept_entry[OF a(2)] kept_trans[OF a(2)] by metis
  obtain st3 where c: "get_cookies env h st2 =
      (cookies_at (\<lambda>i. entry env docs st C_COOKIES (cookie_key h i)) [0..<64] [], st3)" "kept env declared docs st st3"
    using get_cookies_at[OF assms(1,2) kept_ok[OF b(2)]] kept_entry[OF b(2)] kept_trans[OF b(2)] by metis
  show ?thesis using a b c
    by (auto simp: get_client_session_def session_at_def st_bind_def st_return_def st_fail_def finish_session_def
        split: sum.splits option.splits if_splits prod.splits)
qed

lemma compound_kinds:
  "compound_key (ascii ''client_keys'') h i \<noteq> compound_key (ascii ''client_meta'') g j"
  by (simp add: compound_key_def ascii_def)

lemma put_client_session_ok:
  assumes env: "env_ok env declared docs" and h: "host_ok h" and st: "store_ok env declared docs st"
    and keys: "keys_ok keys" and cs: "cookies \<noteq> []" "\<forall>k\<in>set cookies. k \<noteq> [] \<and> length k < 2 ^ 30"
    and server: "plain_word server" "utf8_ok server" "length server < 2 ^ 20"
  shows "\<exists>st'. put_client_session env h keys cookies server port st = (Inr (), st') \<and> store_ok env declared docs st' \<and> st_key st' = st_key st \<and>
    session_at (entry env docs st') h = Inr (Some \<lparr> ss_keys = keys, ss_cookies = take 64 cookies, ss_ntp_server = server, ss_ntp_port = port \<rparr>) \<and>
    (\<forall>g. g \<noteq> h \<longrightarrow> session_at (entry env docs st') g = session_at (entry env docs st) g)"
proof -
  let ?kf = "compound_key (ascii ''client_keys'') h 0" and ?mf = "compound_key (ascii ''client_meta'') h 0"
  let ?raw = "k_c2s keys @ k_s2c keys" and ?meta = "server @ [0x20] @ digits_of (unat port)"
  have dl: "length (digits_of n) \<le> 5" if "n < 100000" for n
    using that digits_of.simps[of n] digits_of.simps[of "n div 10"] digits_of.simps[of "n div 100"]
      digits_of.simps[of "n div 1000"] digits_of.simps[of "n div 10000"] by (auto simp: div_mult2_eq[symmetric] split: if_splits)
  have port: "unat port < 65536" using unsigned_less[of port] by simp
  obtain st1 where p1: "put_sealed env C_KEYS ?kf ?raw st = (Inr (), st1)" "sets env declared docs st C_KEYS ?kf ?raw st1"
    using put_sealed_ok[OF env st collections(3) host_keys(2)[OF h], of ?raw] keys by (auto simp: keys_ok_def)
  have o1: "store_ok env declared docs st1" using p1(2) by (simp add: sets_def)
  have ml: "length ?meta < 2 ^ 30" using server(3) dl[of "unat port"] port by simp
  obtain st2 where p2: "put_sealed env C_KEYS ?mf ?meta st1 = (Inr (), st2)" "sets env declared docs st1 C_KEYS ?mf ?meta st2"
    using put_sealed_ok[OF env o1 collections(3) host_keys(3)[OF h] ml] by blast
  have o2: "store_ok env declared docs st2" using p2(2) by (simp add: sets_def)
  obtain st3 where p3: "put_cookies env h cookies st2 = (Inr (), st3)" "cookies_only env declared docs h {..<64} st2 st3"
    "cookies_at (\<lambda>i. entry env docs st3 C_COOKIES (cookie_key h i)) [0..<64] [] = Inr (take 64 cookies)"
    using put_cookies_ok[OF env h o2 cs(2)] by blast
  have k: "entry env docs st3 C_KEYS ?kf = Inr (Some ?raw)" "entry env docs st3 C_KEYS ?mf = Inr (Some ?meta)"
    using p1(2) p2(2) p3(2) compound_kinds[of h 0 h 0] by (simp_all add: sets_def cookies_only_def)
  have sp: "split_ws ?meta = [server, digits_of (unat port)]"
    using split_words(2)[of "[server, digits_of (unat port)]"] server(1) digits_plain by simp
  have m: "parse_meta ?meta = Some (server, port)"
    unfolding parse_meta_def sp using parse_unsigned_of[OF port] by simp
  have u: "utf8_ok ?meta" by (intro utf8_ok_append server(2) digits_ascii) simp
  have raw: "length ?raw = 64" "take 32 ?raw = k_c2s keys" "drop 32 ?raw = k_s2c keys" using keys by (simp_all add: keys_ok_def)
  have "session_at (entry env docs st3) h = Inr (Some \<lparr> ss_keys = keys, ss_cookies = take 64 cookies, ss_ntp_server = server, ss_ntp_port = port \<rparr>)"
    unfolding session_at_def k p3(3) using raw u m cs(1) by (simp del: append_assoc append_Cons)
  moreover have "session_at (entry env docs st3) g = session_at (entry env docs st) g" if "g \<noteq> h" for g
  proof -
    have "cookie_key g i \<notin> cookie_key h ` {..<64}" for i using that by (auto simp: cookie_key_eq)
    then have a: "(\<lambda>i. entry env docs st3 C_COOKIES (cookie_key g i)) = (\<lambda>i. entry env docs st C_COOKIES (cookie_key g i))"
      using p1(2) p2(2) p3(2) by (simp add: sets_def cookies_only_def)
    have "compound_key kind g 0 \<noteq> compound_key kind h 0" for kind using that compound_key_owner by blast
    then have b: "entry env docs st3 C_KEYS (compound_key (ascii ''client_keys'') g 0) = entry env docs st C_KEYS (compound_key (ascii ''client_keys'') g 0)"
      "entry env docs st3 C_KEYS (compound_key (ascii ''client_meta'') g 0) = entry env docs st C_KEYS (compound_key (ascii ''client_meta'') g 0)"
      using p1(2) p2(2) p3(2) compound_kinds compound_kinds[symmetric] by (auto simp: sets_def cookies_only_def)
    show ?thesis unfolding session_at_def a b ..
  qed
  ultimately show ?thesis using p1 p2 p3 by (auto simp: put_client_session_def st_bind_def cookies_only_def sets_def)
qed

section \<open>The record log\<close>

lemma take_text_back:
  "text_ok s \<Longrightarrow> take_text what (to_be 4 (of_nat (length s) :: u32) @ s @ rest) = Inr (s, rest)"
proof -
  assume s: "text_ok s"
  have "of_be (to_be 4 (of_nat (length s) :: u32)) = (of_nat (length s) :: u32)" by (rule of_be_to_be_id) simp
  moreover have "unat (of_nat (length s) :: u32) = length s" using s by (simp add: text_ok_def unat_of_nat)
  ultimately show ?thesis using s by (simp add: take_text_def take_bytes_def text_ok_def)
qed

lemma take_entry_back:
  assumes "i < length COLLECTIONS" "text_ok k" "text_ok v"
  shows "take_entry (encode_entry i k v @ rest) = Inr ((COLLECTIONS ! i, k, v), rest)"
proof -
  have "of_be (to_be 2 (of_nat i :: u16)) = (of_nat i :: u16)" by (rule of_be_to_be_id) simp
  moreover have "unat (of_nat i :: u16) = i" using assms(1) by (simp add: COLLECTIONS_def unat_of_nat)
  ultimately show ?thesis using assms(1) take_text_back[OF assms(2)] take_text_back[OF assms(3)]
    by (simp add: take_entry_def encode_entry_def take_bytes_def Let_def)
qed

definition log_of :: "(nat \<times> bytes \<times> bytes) list \<Rightarrow> bytes" where
  "log_of es = concat (map (\<lambda>(i, k, v). encode_entry i k v) es)"

lemma flush_keys_log:
  assumes "sdk_ok (ev_sdk env) declared docs" "i < length COLLECTIONS"
  shows "store_ok env declared docs st \<Longrightarrow> \<forall>k\<in>set ks. text_ok k \<Longrightarrow> \<exists>st'. flush_keys env i ks blob st =
    (Inr (blob @ log_of (concat (map (\<lambda>k. case docs (st_db st) (COLLECTIONS ! i) k of None \<Rightarrow> [] | Some v \<Rightarrow> [(i, k, v)]) ks))), st') \<and>
    kept env declared docs st st'"
proof (induction ks arbitrary: st blob)
  case Nil
  then show ?case by (simp add: st_return_def log_of_def kept_refl)
next
  case (Cons k ks)
  have c: "COLLECTIONS ! i \<in> set COLLECTIONS" using assms(2) by simp
  obtain st1 where g: "get_raw env (COLLECTIONS ! i) k st = (Inr (docs (st_db st) (COLLECTIONS ! i) k), st1)" "kept env declared docs st st1"
    using get_raw_ok[OF assms(1) Cons.prems(1) c, of k] Cons.prems(2) by auto
  have v: "docs (st_db st1) = docs (st_db st)" using g(2) by (simp add: kept_def)
  have ks: "\<forall>k\<in>set ks. text_ok k" using Cons.prems(2) by simp
  let ?blob = "case docs (st_db st) (COLLECTIONS ! i) k of None \<Rightarrow> blob | Some val \<Rightarrow> blob @ encode_entry i k val"
  obtain st2 where "flush_keys env i ks ?blob st1 =
      (Inr (?blob @ log_of (concat (map (\<lambda>k. case docs (st_db st) (COLLECTIONS ! i) k of None \<Rightarrow> [] | Some v \<Rightarrow> [(i, k, v)]) ks))), st2)"
    "kept env declared docs st st2"
    using Cons.IH[OF kept_ok[OF g(2)] ks, of ?blob] kept_trans[OF g(2)] unfolding v by blast
  then show ?case using g(1) by (auto simp: st_bind_def log_of_def split: option.splits)
qed


definition entries_of :: "(bytes \<Rightarrow> bytes \<Rightarrow> bytes option) \<Rightarrow> (nat \<times> bytes list) list \<Rightarrow> (nat \<times> bytes \<times> bytes) list" where
  "entries_of m plan = concat (map (\<lambda>(i, ks). concat (map (\<lambda>k. case m (COLLECTIONS ! i) k of None \<Rightarrow> [] | Some v \<Rightarrow> [(i, k, v)]) ks)) plan)"

lemma flush_plan_log:
  assumes "sdk_ok (ev_sdk env) declared docs"
  shows "store_ok env declared docs st \<Longrightarrow> \<forall>(i, ks)\<in>set plan. i < length COLLECTIONS \<and> (\<forall>k\<in>set ks. text_ok k) \<Longrightarrow>
    \<exists>st'. flush_plan env plan blob st = (Inr (blob @ log_of (entries_of (docs (st_db st)) plan)), st') \<and> kept env declared docs st st'"
proof (induction plan arbitrary: st blob)
  case Nil
  then show ?case by (simp add: st_return_def log_of_def entries_of_def kept_refl)
next
  case (Cons p plan)
  obtain i ks where p: "p = (i, ks)" by (cases p)
  then have ik: "i < length COLLECTIONS" "\<forall>k\<in>set ks. text_ok k"
    and rest: "\<forall>(i, ks)\<in>set plan. i < length COLLECTIONS \<and> (\<forall>k\<in>set ks. text_ok k)" using Cons.prems(2) by auto
  let ?b = "blob @ log_of (entries_of (docs (st_db st)) [(i, ks)])"
  obtain st1 where f: "flush_keys env i ks blob st = (Inr ?b, st1)" "kept env declared docs st st1"
    using flush_keys_log[OF assms ik(1) Cons.prems(1) ik(2), of blob] by (auto simp: entries_of_def)
  have v: "docs (st_db st1) = docs (st_db st)" using f(2) by (simp add: kept_def)
  obtain st2 where "flush_plan env plan ?b st1 = (Inr (?b @ log_of (entries_of (docs (st_db st)) plan)), st2)" "kept env declared docs st st2"
    using Cons.IH[OF kept_ok[OF f(2)] rest, of ?b] kept_trans[OF f(2)] unfolding v by blast
  then show ?case using f(1) by (simp add: p st_bind_def log_of_def entries_of_def)
qed

text \<open>The entries the log holds are the entries of the store.\<close>

lemma entries_of_plan:
  assumes "store_ok env declared docs st"
  shows "(i, k, v) \<in> set (entries_of (docs (st_db st)) (key_plan st)) \<longleftrightarrow> i < length COLLECTIONS \<and> docs (st_db st) (COLLECTIONS ! i) k = Some v"
proof -
  have "\<exists>fs. st_fields st (COLLECTIONS ! j) = Some fs \<and> declared (st_db st) (COLLECTIONS ! j) = fs" if "j < length COLLECTIONS" for j
    using assms that unfolding store_ok_def by (metis nth_mem)
  then have "docs (st_db st) (COLLECTIONS ! j) k = Some v \<Longrightarrow> j < length COLLECTIONS \<Longrightarrow>
      \<exists>fs. st_fields st (COLLECTIONS ! j) = Some fs \<and> k \<in> set fs" for j
    using assms unfolding store_ok_def by metis
  then show ?thesis unfolding entries_of_def key_plan_def by (fastforce split: option.splits)
qed

lemma load_log:
  assumes "sdk_ok (ev_sdk env) declared docs"
  shows "store_ok env declared docs st \<Longrightarrow> \<forall>(i, k, v)\<in>set es. i < length COLLECTIONS \<and> text_ok k \<and> value_ok env (st_key st) k v \<and>
      m (COLLECTIONS ! i) k = Some v \<Longrightarrow>
    \<forall>c k. docs (st_db st) c k = m c k \<or> docs (st_db st) c k = None \<and> (\<exists>i v. (i, k, v) \<in> set es \<and> COLLECTIONS ! i = c) \<Longrightarrow>
    \<exists>st'. load_entries env (log_of es) st = (Inr (), st') \<and> store_ok env declared docs st' \<and> st_key st' = st_key st \<and> docs (st_db st') = m"
proof (induction es arbitrary: st)
  case Nil
  then have "docs (st_db st) = m" by (simp add: fun_eq_iff)
  then show ?case using Nil by (simp add: log_of_def load_entries.simps[of env "[]"] st_return_def)
next
  case (Cons e es)
  obtain i k v where e: "e = (i, k, v)" by (cases e) auto
  have p: "i < length COLLECTIONS" "text_ok k" "value_ok env (st_key st) k v" "m (COLLECTIONS ! i) k = Some v" using Cons.prems(2) e by auto
  have c: "COLLECTIONS ! i \<in> set COLLECTIONS" using p(1) by simp
  obtain st1 where w: "put_raw env (COLLECTIONS ! i) k v st = (Inr (), st1)" "store_ok env declared docs st1" "st_key st1 = st_key st"
    "docs (st_db st1) = (docs (st_db st))(COLLECTIONS ! i := (docs (st_db st) (COLLECTIONS ! i))(k \<mapsto> v))"
    using put_raw_ok[OF assms Cons.prems(1) c p(2,3)] by blast
  have r: "\<forall>(i, k, v)\<in>set es. i < length COLLECTIONS \<and> text_ok k \<and> value_ok env (st_key st1) k v \<and> m (COLLECTIONS ! i) k = Some v"
    using Cons.prems(2) w(3) by simp
  have s: "\<forall>c k. docs (st_db st1) c k = m c k \<or> docs (st_db st1) c k = None \<and> (\<exists>i v. (i, k, v) \<in> set es \<and> COLLECTIONS ! i = c)"
  proof (intro allI)
    fix c' k'
    show "docs (st_db st1) c' k' = m c' k' \<or> docs (st_db st1) c' k' = None \<and> (\<exists>i v. (i, k', v) \<in> set es \<and> COLLECTIONS ! i = c')"
    proof (cases "c' = COLLECTIONS ! i \<and> k' = k")
      case True
      then show ?thesis using p(4) w(4) by simp
    next
      case False
      then show ?thesis using Cons.prems(3)[rule_format, of c' k'] e w(4) by auto
    qed
  qed
  obtain st2 where l: "load_entries env (log_of es) st1 = (Inr (), st2)" "store_ok env declared docs st2" "st_key st2 = st_key st1"
    "docs (st_db st2) = m" using Cons.IH[OF w(2) r s] by blast
  have b: "log_of (e # es) = encode_entry i k v @ log_of es" "log_of (e # es) \<noteq> []"
    by (simp_all add: log_of_def e encode_entry_def numeral_2_eq_2)
  have "value_ok env (st_key st) k v \<Longrightarrow> text_ok v" by (simp add: value_ok_def)
  then have "take_entry (log_of (e # es)) = Inr ((COLLECTIONS ! i, k, v), log_of es)"
    unfolding b(1) using take_entry_back p by blast
  then show ?case using b(2) w l by (simp add: load_entries.simps[of env "log_of (e # es)"] st_bind_def)
qed

lemma new_store_ok:
  assumes "sdk_ok (ev_sdk env) declared docs" "length key = 32"
  shows "store_ok env declared docs (new_store env key n)" "docs (st_db (new_store env key n)) c k = None" "st_key (new_store env key n) = key"
  using assms by (simp_all add: store_ok_def new_store_def COLLECTIONS_def sdk_ok_def)

text \<open>A flush that the operating system lets through.\<close>

definition io_ok :: "Io \<Rightarrow> bool" where
  "io_ok io \<longleftrightarrow> io_mkdir io = None \<and> io_read_salt io = None \<and> io_write_salt io = None \<and> io_read_store io = None \<and>
     io_write_tmp io = None \<and> io_rename io = None"

definition holds_store :: "'d StoreEnv \<Rightarrow> bytes \<Rightarrow> Disk \<Rightarrow> 'd Store \<Rightarrow> bool" where
  "holds_store env pass disk st \<longleftrightarrow>
     (\<exists>salt. dk_salt disk = Some salt \<and> length salt = SALT_LEN \<and> ev_kdf env pass salt = Some (st_key st))"

text \<open>Flushed and opened again, a store has the same entries.\<close>

lemma restart_same:
  assumes env: "env_ok env declared docs" and st: "store_ok env declared docs st" and disk: "holds_store env pass disk st"
    and io: "io_ok io" "io_ok io'"
  shows "\<exists>disk' st1 st2. flush env io disk st = ((Inr (), disk'), st1) \<and> store_open env io' pass disk' = (Inr st2, disk') \<and>
    holds_store env pass disk' st2 \<and> kept env declared docs st st1 \<and> kept env declared docs st st2"
proof -
  have sdk: "sdk_ok (ev_sdk env) declared docs" using env by (simp add: env_ok_def)
  let ?es = "entries_of (docs (st_db st)) (key_plan st)"
  have plan: "\<forall>(i, ks)\<in>set (key_plan st). i < length COLLECTIONS \<and> (\<forall>k\<in>set ks. text_ok k)"
  proof -
    have "\<forall>k\<in>set fs. text_ok k" if "st_fields st (COLLECTIONS ! j) = Some fs" "j < length COLLECTIONS" for fs j
      using st that unfolding store_ok_def by (metis nth_mem option.inject)
    then show ?thesis by (auto simp: key_plan_def split: option.splits dest!: sym[of "Some _"])
  qed
  obtain st1 where f: "flush_plan env (key_plan st) [] st = (Inr (log_of ?es), st1)" "kept env declared docs st st1"
    using flush_plan_log[OF sdk st plan, of "[]"] by auto
  let ?disk = "disk\<lparr> dk_store := Some (log_of ?es), dk_tmp := None \<rparr>"
  obtain salt where salt: "dk_salt disk = Some salt" "length salt = SALT_LEN" "ev_kdf env pass salt = Some (st_key st)"
    using disk unfolding holds_store_def by blast
  have k32: "length (st_key st) = 32" using st by (simp add: store_ok_def)
  note new = new_store_ok[OF sdk k32, of 0]
  have mem: "\<forall>(i, k, v)\<in>set ?es. i < length COLLECTIONS \<and> text_ok k \<and> value_ok env (st_key (new_store env (st_key st) 0)) k v \<and>
      docs (st_db st) (COLLECTIONS ! i) k = Some v"
  proof (intro ballI, clarify)
    fix i k v assume "(i, k, v) \<in> set ?es"
    then have h: "i < length COLLECTIONS" "docs (st_db st) (COLLECTIONS ! i) k = Some v" using entries_of_plan[OF st] by auto
    then have "k \<in> set (declared (st_db st) (COLLECTIONS ! i))" "value_ok env (st_key st) k v" using st unfolding store_ok_def by metis+
    moreover have "\<forall>k\<in>set (declared (st_db st) (COLLECTIONS ! i)). text_ok k" using st h(1) unfolding store_ok_def by (metis nth_mem)
    ultimately show "i < length COLLECTIONS \<and> text_ok k \<and> value_ok env (st_key (new_store env (st_key st) 0)) k v \<and>
        docs (st_db st) (COLLECTIONS ! i) k = Some v" using h new(3) by auto
  qed
  have cover: "\<forall>c k. docs (st_db (new_store env (st_key st) 0)) c k = docs (st_db st) c k \<or>
      docs (st_db (new_store env (st_key st) 0)) c k = None \<and> (\<exists>i v. (i, k, v) \<in> set ?es \<and> COLLECTIONS ! i = c)"
  proof (intro allI)
    fix c k
    show "docs (st_db (new_store env (st_key st) 0)) c k = docs (st_db st) c k \<or>
      docs (st_db (new_store env (st_key st) 0)) c k = None \<and> (\<exists>i v. (i, k, v) \<in> set ?es \<and> COLLECTIONS ! i = c)"
    proof (cases "docs (st_db st) c k")
      case (Some v)
      then have "c \<in> set COLLECTIONS" using st unfolding store_ok_def by metis
      then obtain i where "i < length COLLECTIONS" "COLLECTIONS ! i = c" by (auto simp: in_set_conv_nth)
      then show ?thesis using entries_of_plan[OF st, of i k v] Some new(2) by auto
    qed (simp add: new(2))
  qed
  obtain st2 where l: "load_entries env (log_of ?es) (new_store env (st_key st) 0) = (Inr (), st2)" "store_ok env declared docs st2"
    "st_key st2 = st_key st" "docs (st_db st2) = docs (st_db st)"
    using load_log[OF sdk new(1) mem cover] new(3) by auto
  have "flush env io disk st = ((Inr (), ?disk), st1)" using f(1) io by (simp add: flush_def replace_file_def io_ok_def)
  moreover have "store_open env io' pass ?disk = (Inr st2, ?disk)"
    using io(2) salt env k32 l(1) by (simp add: store_open_def obtain_salt_def derive_key_def load_from_disk_def io_ok_def env_ok_def)
  moreover have "holds_store env pass ?disk st2" using salt l(3) by (auto simp: holds_store_def)
  ultimately show ?thesis using f(2) l by (auto simp: kept_def)
qed


text \<open>The first start: no file, and a salt to be made or made already.\<close>

lemma fresh_open:
  assumes env: "env_ok env declared docs" and io: "io_ok io" and disk: "dk_store disk = None" "\<forall>salt. dk_salt disk = Some salt \<longrightarrow> length salt = SALT_LEN"
  shows "\<exists>key n disk'. length key = 32 \<and> store_open env io pass disk = (Inr (new_store env key n), disk') \<and>
    holds_store env pass disk' (new_store env key n) \<and> store_ok env declared docs (new_store env key n) \<and>
    (\<forall>c k. entry env docs (new_store env key n) c k = Inr None)"
proof -
  have sdk: "sdk_ok (ev_sdk env) declared docs" using env by (simp add: env_ok_def)
  obtain salt n disk' where s: "obtain_salt env io disk = (Inr (salt, n), disk')" "length salt = SALT_LEN" "dk_salt disk' = Some salt" "dk_store disk' = None"
  proof (cases "dk_salt disk")
    case None
    then obtain b where "ev_rand env 0 SALT_LEN = Some b" "length b = SALT_LEN" using env unfolding env_ok_def by blast
    with None show ?thesis using that[of b 1 "disk\<lparr> dk_salt := Some b \<rparr>"] io disk(1) by (simp add: obtain_salt_def io_ok_def)
  next
    case (Some b)
    then show ?thesis using that[of b 0 disk] io disk by (simp add: obtain_salt_def io_ok_def)
  qed
  obtain key where k: "ev_kdf env pass salt = Some key" "length key = 32" using env s(2) unfolding env_ok_def by blast
  note new = new_store_ok[OF sdk k(2), of n]
  have "store_open env io pass disk = (Inr (new_store env key n), disk')"
    using env io s k by (simp add: store_open_def derive_key_def load_from_disk_def io_ok_def env_ok_def st_return_def)
  moreover have "holds_store env pass disk' (new_store env key n)" using s k(1) new(3) by (auto simp: holds_store_def)
  ultimately show ?thesis using k(2) new
    by (intro exI[of _ key] exI[of _ n] exI[of _ disk']) (simp add: entry_def)
qed

text \<open>C35: a saved NTS client session survives a restart.  Save it, flush, and open the file
again with the same passphrase: reading it back gives the same keys, the endpoint and the cookies in their order, the
first sixty-four of them, and every other host's session reads as it did before.\<close>

theorem session_survives_restart:
  assumes "env_ok env declared docs" "store_ok env declared docs st" "holds_store env pass disk st" "io_ok io" "io_ok io'" "host_ok h"
    "keys_ok keys" "cookies \<noteq> []" "\<forall>k\<in>set cookies. k \<noteq> [] \<and> length k < 2 ^ 30"
    "plain_word server" "utf8_ok server" "length server < 2 ^ 20"
  shows "\<exists>st1 disk' st2 st3. put_client_session env h keys cookies server port st = (Inr (), st1) \<and>
    flush env io disk st1 = ((Inr (), disk'), st2) \<and> store_open env io' pass disk' = (Inr st3, disk') \<and>
    fst (get_client_session env h st3) =
      Inr (Some \<lparr> ss_keys = keys, ss_cookies = take 64 cookies, ss_ntp_server = server, ss_ntp_port = port \<rparr>) \<and>
    (\<forall>g. host_ok g \<and> g \<noteq> h \<longrightarrow> fst (get_client_session env g st3) = fst (get_client_session env g st))"
proof -
  have sdk: "sdk_ok (ev_sdk env) declared docs" using assms(1) by (simp add: env_ok_def)
  obtain st1 where p: "put_client_session env h keys cookies server port st = (Inr (), st1)" "store_ok env declared docs st1" "st_key st1 = st_key st"
    "session_at (entry env docs st1) h = Inr (Some \<lparr> ss_keys = keys, ss_cookies = take 64 cookies, ss_ntp_server = server, ss_ntp_port = port \<rparr>)"
    "\<forall>g. g \<noteq> h \<longrightarrow> session_at (entry env docs st1) g = session_at (entry env docs st) g"
    using put_client_session_ok[OF assms(1,6,2,7-12)] by blast
  have "holds_store env pass disk st1" using assms(3) p(3) by (simp add: holds_store_def)
  then obtain disk' st2 st3 where r: "flush env io disk st1 = ((Inr (), disk'), st2)" "store_open env io' pass disk' = (Inr st3, disk')"
    "kept env declared docs st1 st3" using restart_same[OF assms(1) p(2) _ assms(4,5)] by blast
  have g: "fst (get_client_session env g st3) = session_at (entry env docs st1) g" if "host_ok g" for g
    using get_client_session_at[OF sdk that kept_ok[OF r(3)]] kept_entry[OF r(3)] by auto
  have "fst (get_client_session env g st) = session_at (entry env docs st) g" if "host_ok g" for g
    using get_client_session_at[OF sdk that assms(2)] by auto
  then show ?thesis using p(1,4,5) r(1,2) g g[OF assms(6)] by auto
qed

section \<open>Master keys\<close>

definition master_at :: "StoreError + bytes option \<Rightarrow> StoreError + StoredMasterKey option" where
  "master_at x = (case x of Inl e \<Rightarrow> Inl e | Inr None \<Rightarrow> Inr None
     | Inr (Some plain) \<Rightarrow> if length plain \<noteq> 36 then Inr None else Inr (Some \<lparr> sk_id = of_be (take 4 plain), sk_key = drop 4 plain \<rparr>))"

lemma master_text: "text_ok (master_field slot)"
  unfolding master_field_def MASTER_KEY_SLOTS_def by (rule compound_key_text) (auto simp: ascii_def intro: less_trans[OF mod_less_divisor])

lemma get_master_key_at:
  assumes "sdk_ok (ev_sdk env) declared docs" "store_ok env declared docs st"
  shows "\<exists>st'. get_master_key env slot st = (master_at (entry env docs st C_KEYS (master_field slot)), st') \<and> kept env declared docs st st'"
  using get_sealed_ok[OF assms collections(3) master_text[of slot]]
  by (auto simp: get_master_key_def master_at_def st_bind_def st_return_def split: sum.splits option.splits)

lemma keys_in_at:
  assumes "sdk_ok (ev_sdk env) declared docs"
  shows "store_ok env declared docs st \<Longrightarrow> \<forall>s\<in>set slots. master_at (entry env docs st C_KEYS (master_field s)) = Inr (f s) \<Longrightarrow>
    \<exists>st'. keys_in env slots out st = (Inr (out @ concat (map (\<lambda>s. case f s of None \<Rightarrow> [] | Some k \<Rightarrow> [k]) slots)), st') \<and> kept env declared docs st st'"
proof (induction slots arbitrary: st out)
  case Nil
  then show ?case by (simp add: st_return_def kept_refl)
next
  case (Cons s slots)
  obtain st1 where g: "get_master_key env s st = (Inr (f s), st1)" "kept env declared docs st st1"
    using get_master_key_at[OF assms Cons.prems(1), of s] Cons.prems(2) by auto
  let ?out = "case f s of None \<Rightarrow> out | Some k \<Rightarrow> out @ [k]"
  have "\<forall>s\<in>set slots. master_at (entry env docs st1 C_KEYS (master_field s)) = Inr (f s)"
    using Cons.prems(2) kept_entry[OF g(2)] by simp
  then obtain st2 where "keys_in env slots ?out st1 = (Inr (?out @ concat (map (\<lambda>s. case f s of None \<Rightarrow> [] | Some k \<Rightarrow> [k]) slots)), st2)"
    "kept env declared docs st st2" using Cons.IH[OF kept_ok[OF g(2)], of ?out] kept_trans[OF g(2)] by blast
  then show ?case using g(1) by (auto simp: st_bind_def split: option.splits)
qed

lemma put_master_key_ok:
  assumes "env_ok env declared docs" "store_ok env declared docs st" "length (sk_key k) = 32"
  shows "\<exists>st'. put_master_key env slot k st = (Inr (), st') \<and> store_ok env declared docs st' \<and> st_key st' = st_key st \<and>
    (\<forall>s. master_at (entry env docs st' C_KEYS (master_field s)) =
       (if master_field s = master_field slot then Inr (Some k) else master_at (entry env docs st C_KEYS (master_field s))))"
proof -
  let ?p = "to_be 4 (sk_id k) @ sk_key k"
  have "of_be (to_be 4 (sk_id k)) = sk_id k" by (rule of_be_to_be_id) simp
  then have m: "master_at (Inr (Some ?p)) = Inr (Some k)" using assms(3) by (simp add: master_at_def)
  obtain st' where "put_sealed env C_KEYS (master_field slot) ?p st = (Inr (), st')" "sets env declared docs st C_KEYS (master_field slot) ?p st'"
    using put_sealed_ok[OF assms(1,2) collections(3) master_text[of slot], of ?p] assms(3) by auto
  then show ?thesis using m by (auto simp: put_master_key_def sets_def)
qed

lemma master_field_eq: "master_field s = master_field t \<longleftrightarrow> s mod 3 = t mod 3"
  by (simp add: master_field_def compound_key_inj MASTER_KEY_SLOTS_def)

text \<open>C36: cookies minted before a restart still redeem after it.  A server that starts with no
state file makes a master key and saves it; every later start with the same passphrase, whatever the random source
then gives, restores the very same key ring and leaves the file as it is, and each cookie minted from the ring redeems
to its session keys.\<close>

theorem cookies_survive_restart:
  assumes env: "env_ok env declared docs" and io: "io_ok io" and disk: "dk_store disk = None" "\<forall>salt. dk_salt disk = Some salt \<longrightarrow> length salt = SALT_LEN"
    and rand: "\<forall>i n. \<exists>b. rand i n = Some b \<and> length b = n"
  shows "\<exists>ring st disk'. load_or_create_ring env io rand True (Some pass) disk = (Inr (ring, Some st), disk') \<and> ring_len ring = 1 \<and>
    (\<forall>io' rand'. io_ok io' \<longrightarrow> (\<exists>st'. load_or_create_ring env io' rand' True (Some pass) disk' = (Inr (ring, Some st'), disk'))) \<and>
    (\<forall>c keys nonce cookie. aead_ok c \<and> keys_ok keys \<and> length nonce = COOKIE_NONCE_LEN \<and> mint c ring keys nonce = Inr cookie \<longrightarrow>
      redeem c ring cookie = Inr keys)"
proof -
  have sdk: "sdk_ok (ev_sdk env) declared docs" using env by (simp add: env_ok_def)
  obtain key n disk1 where o: "store_open env io pass disk = (Inr (new_store env key n), disk1)" "holds_store env pass disk1 (new_store env key n)"
    "store_ok env declared docs (new_store env key n)" "\<forall>c k. entry env docs (new_store env key n) c k = Inr None"
    using fresh_open[OF env io disk, of pass] by blast
  have slots: "[0..<MASTER_KEY_SLOTS] = [0, 1, 2]" by (simp add: MASTER_KEY_SLOTS_def upt_rec)
  obtain st1 where a: "all_master_keys env (new_store env key n) = (Inr [], st1)" "kept env declared docs (new_store env key n) st1"
    using keys_in_at[OF sdk o(3), of "[0, 1, 2]" "\<lambda>_. None" "[]"] o(4) unfolding all_master_keys_def slots by (auto simp: master_at_def)
  obtain mkey idb where r: "rand 0 32 = Some mkey" "length mkey = 32" "rand 1 4 = Some idb" using rand by metis
  define m where "m = \<lparr> mk_id = of_be idb, mk_key = mkey \<rparr>"
  define ring where "ring = rotate_in (ring_new 3) m"
  have rk: "ring_keys ring = [m]" "ring_max ring = 3" by (simp_all add: ring_def rotate_in_def ring_new_def)
  have fresh: "fresh_key_ring rand = Some ring" using r by (simp add: fresh_key_ring_def ring_def m_def)
  have st1: "store_ok env declared docs st1" "holds_store env pass disk1 st1" "entry env docs st1 c k = Inr None" for c k
    using a(2) o(2,4) kept_entry[OF a(2)] by (simp_all add: kept_def holds_store_def)
  obtain st2 where p: "put_master_key env 0 (stored_key m) st1 = (Inr (), st2)" "store_ok env declared docs st2" "st_key st2 = st_key st1"
    "\<forall>s. master_at (entry env docs st2 C_KEYS (master_field s)) = (if master_field s = master_field 0 then Inr (Some (stored_key m)) else Inr None)"
    using put_master_key_ok[OF env st1(1), of "stored_key m" 0] r(2) by (auto simp: stored_key_def m_def st1(3) master_at_def)
  have h2: "holds_store env pass disk1 st2" using st1(2) p(3) by (simp add: holds_store_def)
  have "\<exists>disk2 st3. flush env io disk1 st2 = ((Inr (), disk2), st3) \<and> (\<forall>io'. io_ok io' \<longrightarrow> (\<exists>st4. store_open env io' pass disk2 = (Inr st4, disk2) \<and>
      kept env declared docs st2 st4))"
    using restart_same[OF env p(2) h2 io] io by (metis prod.inject)
  then obtain disk2 st3 where f: "flush env io disk1 st2 = ((Inr (), disk2), st3)"
    "\<And>io'. io_ok io' \<Longrightarrow> \<exists>st4. store_open env io' pass disk2 = (Inr st4, disk2) \<and> kept env declared docs st2 st4" by blast
  have first: "load_or_create_ring env io rand True (Some pass) disk = (Inr (ring, Some st3), disk2)"
    using o(1) a(1) fresh p(1) f(1) rk by (simp add: load_or_create_ring_def create_ring_def ring_current_def)
  have again: "\<exists>st'. load_or_create_ring env io' rand' True (Some pass) disk2 = (Inr (ring, Some st'), disk2)" if io': "io_ok io'" for io' rand'
  proof -
    obtain st4 where s: "store_open env io' pass disk2 = (Inr st4, disk2)" "kept env declared docs st2 st4" using f(2)[OF io'] by blast
    obtain st5 where "all_master_keys env st4 = (Inr [stored_key m], st5)"
      using keys_in_at[OF sdk kept_ok[OF s(2)], of "[0, 1, 2]" "\<lambda>s. if s = 0 then Some (stored_key m) else None" "[]"] p(4) kept_entry[OF s(2)]
      unfolding all_master_keys_def slots by (auto simp: master_field_eq)
    then show ?thesis using s(1) by (simp add: load_or_create_ring_def ring_of_stored_def stored_key_def ring_def MASTER_KEY_SLOTS_def m_def)
  qed
  have "redeem c ring cookie = Inr keys" if h: "aead_ok c \<and> keys_ok keys \<and> length nonce = COOKIE_NONCE_LEN \<and> mint c ring keys nonce = Inr cookie" for c keys nonce cookie
  proof -
    obtain sealed where s: "encrypt c (mk_key m) [cookie_header m nonce] (key_payload keys) = Some sealed" "cookie = cookie_header m nonce @ sealed"
      using h rk unfolding mint_Inr by (auto simp: ring_current_def)
    then show ?thesis using redeem_minted[of c keys nonce m sealed ring] h rk by (simp add: by_id_def)
  qed
  then show ?thesis using first again rk by (intro exI[of _ ring] exI[of _ st3] exI[of _ disk2]) (auto simp: ring_len_def)
qed


section \<open>An instance\<close>

type_synonym DemoDb = "(bytes \<Rightarrow> bytes list) \<times> (bytes \<Rightarrow> bytes \<Rightarrow> bytes option)"

definition demo_sdk :: "DemoDb Sdk" where
  "demo_sdk = \<lparr> sd_empty = (\<lambda>_. [], \<lambda>_ _. None), sd_define = (\<lambda>c fs (s, m). (s(c := fs), m)),
     sd_put = (\<lambda>c k v (s, m). if k \<in> set (s c) then (None, (s, m(c := (m c)(k \<mapsto> v)))) else (Some ''undeclared field'', (s, m))),
     sd_read = (\<lambda>c k (s, m). if k \<in> set (s c) then Inr (m c k) else Inl ''undeclared field''),
     sd_export = (\<lambda>_ _. []), sd_import = (\<lambda>_ _ d. (Some None, d)) \<rparr>"

definition demo_gcm :: Gcm where
  "demo_gcm = \<lparr> gcm_encrypt = (\<lambda>k n a m. Some (m @ take 16 k)),
     gcm_decrypt = (\<lambda>k n a c. if drop (length c - 16) c = take 16 k then Some (take (length c - 16) c) else None) \<rparr>"

definition demo_store_env :: "DemoDb StoreEnv" where
  "demo_store_env = \<lparr> ev_sdk = demo_sdk, ev_gcm = demo_gcm, ev_kdf = (\<lambda>p s. Some (replicate 32 (of_nat (length p)))), ev_rand = (\<lambda>i n. Some (replicate n (of_nat i))),
     ev_setup = None, ev_show = (\<lambda>_. []) \<rparr>"

definition demo_io :: Io where
  "demo_io = \<lparr> io_mkdir = None, io_read_salt = None, io_write_salt = None, io_read_store = None, io_write_tmp = None, io_rename = None,
     io_partial = [] \<rparr>"

definition no_files :: Disk where "no_files = \<lparr> dk_store = None, dk_salt = None, dk_tmp = None \<rparr>"

lemma demo_store_env_ok: "env_ok demo_store_env fst snd"
  by (simp add: env_ok_def demo_store_env_def sdk_ok_def demo_sdk_def gcm_ok_def demo_gcm_def split_beta)

lemma demo_io_ok: "io_ok demo_io" by (simp add: io_ok_def demo_io_def)

lemma session_survives_restart_witness:
  "\<exists>st0 disk0 st1 disk' st2 st3. store_open demo_store_env demo_io [1] no_files = (Inr st0, disk0) \<and>
     put_client_session demo_store_env [104] demo_keys [[7], [8]] [110] 123 st0 = (Inr (), st1) \<and>
     flush demo_store_env demo_io disk0 st1 = ((Inr (), disk'), st2) \<and> store_open demo_store_env demo_io [1] disk' = (Inr st3, disk') \<and>
     fst (get_client_session demo_store_env [104] st3) =
       Inr (Some \<lparr> ss_keys = demo_keys, ss_cookies = [[7], [8]], ss_ntp_server = [110], ss_ntp_port = 123 \<rparr>)"
proof -
  obtain key n disk0 where o: "store_open demo_store_env demo_io [1] no_files = (Inr (new_store demo_store_env key n), disk0)"
    "holds_store demo_store_env [1] disk0 (new_store demo_store_env key n)" "store_ok demo_store_env fst snd (new_store demo_store_env key n)"
    using fresh_open[OF demo_store_env_ok demo_io_ok, of no_files "[1]"] by (auto simp: no_files_def)
  have h: "host_ok [104]" "keys_ok demo_keys" "plain_word [110]" "utf8_ok [110]"
    by (simp_all add: host_ok_def keys_ok_def demo_keys_def plain_word_def no_ws_def)
  show ?thesis using session_survives_restart[OF demo_store_env_ok o(3,2) demo_io_ok demo_io_ok h(1,2), of "[[7], [8]]" "[110]" 123] h(3,4) o(1) by auto
qed

lemma cookies_survive_restart_witness:
  "\<exists>ring st disk' st' cookie. load_or_create_ring demo_store_env demo_io (\<lambda>i n. Some (zeros n)) True (Some [1]) no_files = (Inr (ring, Some st), disk') \<and>
     load_or_create_ring demo_store_env demo_io (\<lambda>i n. None) True (Some [1]) disk' = (Inr (ring, Some st'), disk') \<and>
     mint null_cipher ring demo_keys (zeros 16) = Inr cookie \<and> redeem null_cipher ring cookie = Inr demo_keys"
proof -
  have d: "dk_store no_files = None" "\<forall>salt. dk_salt no_files = Some salt \<longrightarrow> length salt = SALT_LEN" by (simp_all add: no_files_def)
  have r: "\<forall>i n. \<exists>b. (\<lambda>i n. Some (zeros n)) i n = Some b \<and> length b = n" by (simp add: zeros_def)
  obtain ring st disk' where x: "load_or_create_ring demo_store_env demo_io (\<lambda>i n. Some (zeros n)) True (Some [1]) no_files = (Inr (ring, Some st), disk')"
    "ring_len ring = 1"
    "\<forall>io' rand'. io_ok io' \<longrightarrow> (\<exists>st'. load_or_create_ring demo_store_env io' rand' True (Some [1]) disk' = (Inr (ring, Some st'), disk'))"
    "\<forall>c keys nonce cookie. aead_ok c \<and> keys_ok keys \<and> length nonce = COOKIE_NONCE_LEN \<and> mint c ring keys nonce = Inr cookie \<longrightarrow> redeem c ring cookie = Inr keys"
    using cookies_survive_restart[OF demo_store_env_ok demo_io_ok d r, of "[1]"] by blast
  have "ring_keys ring \<noteq> []" using x(2) by (auto simp: ring_len_def)
  then obtain cookie where m: "mint null_cipher ring demo_keys (zeros 16) = Inr cookie" using mint_some[OF null_cipher_ok] by blast
  have "keys_ok demo_keys" "length (zeros 16) = COOKIE_NONCE_LEN" by (simp_all add: keys_ok_def demo_keys_def zeros_def COOKIE_NONCE_LEN_def)
  then have "redeem null_cipher ring cookie = Inr demo_keys" using x(4) m null_cipher_ok by blast
  then show ?thesis using x(1,3) m demo_io_ok by blast
qed

section \<open>Failures\<close>

text \<open>A flush that fails, wherever it fails, leaves the store file and the salt as they were.\<close>

lemma failed_flush_keeps_file:
  "flush env io disk st = ((Inl e, disk'), st') \<Longrightarrow> dk_store disk' = dk_store disk \<and> dk_salt disk' = dk_salt disk"
  by (auto simp: flush_def replace_file_def split: prod.splits sum.splits option.splits)

text \<open>The salt is written in place: a write cut short leaves a salt that no later start accepts.\<close>

lemma torn_salt_locks_out:
  assumes "dk_salt disk = None" "io_mkdir io = None" "io_write_salt io = Some e" "length (io_partial io) \<noteq> SALT_LEN" "ev_rand env 0 SALT_LEN = Some b"
    "store_open env io pass disk = (r, disk')"
  shows "\<exists>err. store_open env io' pass' disk' = (Inl err, disk')"
proof -
  have "dk_salt disk' = Some (io_partial io)" using assms by (auto simp: store_open_def obtain_salt_def split: prod.splits)
  then show ?thesis using assms(4) by (auto simp: store_open_def obtain_salt_def split: option.splits)
qed

text \<open>What is merged in is not flushed: a flush writes the declared keys, and merging declares none.  Into an empty
store, merging a peer and flushing writes an empty file.\<close>

lemma merge_collections_plan: "merge_collections env other cs st = (r, st') \<Longrightarrow> st_fields st' = st_fields st"
  by (induction cs arbitrary: st)
    (auto simp: st_return_def st_bind_def import_guarded_def Let_def split: prod.splits sum.splits option.splits if_splits)

lemma merge_is_not_flushed:
  assumes "merge_from env other (new_store env key n) = (r, st')" "io_write_tmp io = None" "io_rename io = None"
  shows "flush env io disk st' = ((Inr (), disk\<lparr> dk_store := Some [], dk_tmp := None \<rparr>), st')"
proof -
  have "st_fields st' = st_fields (new_store env key n)" using merge_collections_plan assms(1) by (metis merge_from_def)
  then have "key_plan st' = [(0, []), (1, []), (2, [])]"
    by (simp add: key_plan_def new_store_def COLLECTIONS_def upt_rec)
  then show ?thesis using assms(2,3) by (simp add: flush_def replace_file_def st_bind_def st_return_def)
qed

text \<open>One entry that does not open fails the whole read.\<close>

lemma damaged_cookie_loses_all:
  "ent (k + n) = Inl e \<Longrightarrow> \<forall>i<n. \<exists>v. ent (k + i) = Inr (Some v) \<and> v \<noteq> [] \<Longrightarrow> k + n < m \<Longrightarrow> cookies_at ent [k..<m] out = Inl e"
proof (induction n arbitrary: k out)
  case 0
  then show ?case by (simp add: upt_conv_Cons)
next
  case (Suc n)
  obtain v where v: "ent k = Inr (Some v)" "v \<noteq> []" using Suc.prems(2)[rule_format, of 0] by auto
  have "\<forall>i<n. \<exists>v. ent (Suc k + i) = Inr (Some v) \<and> v \<noteq> []" using Suc.prems(2) by (metis Suc_less_eq add_Suc_shift)
  then have "cookies_at ent [Suc k..<m] (out @ [v]) = Inl e" using Suc.IH[of "Suc k"] Suc.prems(1,3) by simp
  moreover have "[k..<m] = k # [Suc k..<m]" using Suc.prems(3) by (simp add: upt_conv_Cons)
  ultimately show ?case using v by simp
qed

end
