(* ===== verification/Query.thy ===== *)
theory Query
  imports StoreRuns SyncExchange
begin

text \<open>The one-shot measurement, \<open>crates/rusty_time-daemon/src/query.rs\<close>: the options, the era of a timestamp, a run of
exchanges with one address, the walk over the addresses, and the saved state a run starts from and leaves.  The clocks,
the nonces, the network and key establishment are arguments.  What is printed is not modelled.\<close>

section \<open>Options\<close>

record QueryOptions =
  qo_server :: bytes
  qo_count :: u32
  qo_interval_ms :: u64
  qo_timeout_ms :: u64
  qo_port :: u16
  qo_json :: bool
  qo_nts :: bool
  qo_ke_port :: u16
  qo_nts_ca_pem :: "bytes option"
  qo_state_path :: "bytes option"
  qo_state_passphrase :: "bytes option"

definition option_num :: "nat \<Rightarrow> bytes \<Rightarrow> bytes list \<Rightarrow> bytes + 'a::len word" where
  "option_num limit flag args =
     (case args of [] \<Rightarrow> Inl (flag @ ascii '' needs a value'')
      | v # _ \<Rightarrow> (case parse_unsigned limit v of None \<Rightarrow> Inl (flag @ ascii '': cannot parse value'') | Some n \<Rightarrow> Inr (of_nat n)))"

text \<open>The flags; \<open>read_file\<close> is the file system's answer for the trust anchors.\<close>

fun query_flags :: "(bytes \<Rightarrow> bytes + bytes) \<Rightarrow> bytes list \<Rightarrow> QueryOptions \<Rightarrow> bytes + QueryOptions" where
  "query_flags read_file [] opts = Inr opts"
| "query_flags read_file (flag # rest) opts =
     (if flag = ascii ''--json'' then query_flags read_file rest (opts\<lparr> qo_json := True \<rparr>)
      else if flag = ascii ''--nts'' then query_flags read_file rest (opts\<lparr> qo_nts := True \<rparr>)
      else if flag = ascii ''--count'' then (case option_num (2 ^ 32) flag rest of Inl e \<Rightarrow> Inl e
        | Inr v \<Rightarrow> query_flags read_file (drop 1 rest) (opts\<lparr> qo_count := v \<rparr>))
      else if flag = ascii ''--interval-ms'' then (case option_num (2 ^ 64) flag rest of Inl e \<Rightarrow> Inl e
        | Inr v \<Rightarrow> query_flags read_file (drop 1 rest) (opts\<lparr> qo_interval_ms := v \<rparr>))
      else if flag = ascii ''--timeout-ms'' then (case option_num (2 ^ 64) flag rest of Inl e \<Rightarrow> Inl e
        | Inr v \<Rightarrow> query_flags read_file (drop 1 rest) (opts\<lparr> qo_timeout_ms := v \<rparr>))
      else if flag = ascii ''--port'' then (case option_num (2 ^ 16) flag rest of Inl e \<Rightarrow> Inl e
        | Inr v \<Rightarrow> query_flags read_file (drop 1 rest) (opts\<lparr> qo_port := v \<rparr>))
      else if flag = ascii ''--ke-port'' then (case option_num (2 ^ 16) flag rest of Inl e \<Rightarrow> Inl e
        | Inr v \<Rightarrow> query_flags read_file (drop 1 rest) (opts\<lparr> qo_ke_port := v \<rparr>))
      else if flag = ascii ''--state'' then (case rest of [] \<Rightarrow> Inl (ascii ''--state needs a file path'')
        | path # _ \<Rightarrow> query_flags read_file (drop 1 rest) (opts\<lparr> qo_state_path := Some path \<rparr>))
      else if flag = ascii ''--nts-ca'' then (case rest of [] \<Rightarrow> Inl (ascii ''--nts-ca needs a file path'')
        | path # _ \<Rightarrow> (case read_file path of Inl e \<Rightarrow> Inl (path @ ascii '': '' @ e)
            | Inr pem \<Rightarrow> query_flags read_file (drop 1 rest) (opts\<lparr> qo_nts_ca_pem := Some pem \<rparr>)))
      else Inl (ascii ''unknown flag '' @ [0x27] @ flag @ [0x27]))"

definition KE_PORT :: u16 where "KE_PORT = 4460"

definition query_options :: "(bytes \<Rightarrow> bytes + bytes) \<Rightarrow> bytes option \<Rightarrow> bytes list \<Rightarrow> bytes + QueryOptions" where
  "query_options read_file passphrase args =
     (case args of [] \<Rightarrow> Inl (ascii ''a server name is required'')
      | server # rest \<Rightarrow>
          if take 2 server = ascii ''--'' then Inl (ascii ''a server name is required'')
          else (case query_flags read_file rest \<lparr> qo_server = server, qo_count = 4, qo_interval_ms = 1000, qo_timeout_ms = 2000, qo_port = 123,
                    qo_json = False, qo_nts = False, qo_ke_port = KE_PORT, qo_nts_ca_pem = None, qo_state_path = None,
                    qo_state_passphrase = passphrase \<rparr> of Inl e \<Rightarrow> Inl e
                | Inr opts \<Rightarrow> if qo_count opts = 0 \<or> qo_count opts > 64 then Inl (ascii ''--count must be 1..=64'') else Inr opts))"

section \<open>Times and names\<close>

definition era_span :: f64 where "era_span = FFin 4294967296"

definition era_step :: "f64 \<Rightarrow> f64 \<Rightarrow> f64 \<Rightarrow> f64 \<times> f64 \<Rightarrow> f64 \<times> f64" where
  "era_step base pivot k = (\<lambda>(nearest, dist).
     let cand = fadd base (fmul k era_span); d = fabs (fsub cand pivot) in
     if flt d dist then (cand, d) else (nearest, dist))"

definition ntp_to_unix_near :: "NtpTimestamp \<Rightarrow> f64 \<Rightarrow> f64" where
  "ntp_to_unix_near ts pivot =
     (let base = fadd (fsub (f_of_int (uint (ts_seconds ts))) (f_of_int (uint UNIX_EPOCH_OFFSET)))
            (fdiv (f_of_int (uint (ts_fraction ts))) era_span)
      in fst (fold (era_step base pivot) [FFin (- 1), FFin 1] (base, fabs (fsub base pivot))))"

definition leap_str :: "LeapIndicator \<Rightarrow> bytes" where
  "leap_str leap = (case leap of NoWarning \<Rightarrow> ascii ''no-warning'' | LastMinute61 \<Rightarrow> ascii ''last-minute-61''
     | LastMinute59 \<Rightarrow> ascii ''last-minute-59'' | Unsynchronized \<Rightarrow> ascii ''unsynchronized'')"

definition graphic_or_mark :: "u8 \<Rightarrow> u8" where
  "graphic_or_mark b = (if 0x21 \<le> b \<and> b \<le> 0x7E then b else 0x3F)"

definition refid_str :: "u8 \<Rightarrow> bytes \<Rightarrow> bytes" where
  "refid_str stratum ident =
     (let text = map graphic_or_mark (takeWhile (\<lambda>b. b \<noteq> 0) ident) in
      if stratum = 1 \<and> text \<noteq> [] then text else to_hex ident)"

section \<open>A run of exchanges\<close>

record SampleReport =
  rp_offset_s :: f64
  rp_delay_s :: f64
  rp_stratum :: u8
  rp_root_delay_s :: f64
  rp_root_dispersion_s :: f64

record NtsReport =
  nr_ke_host :: bytes
  nr_ntp_server :: bytes
  nr_ntp_port :: u16
  nr_authenticated :: u32
  nr_rejected :: u32
  nr_cookies_after :: nat

record QueryReport =
  qr_server :: bytes
  qr_address :: bytes
  qr_sent :: u32
  qr_received :: u32
  qr_samples :: "SampleReport list"
  qr_best_offset_s :: "f64 option"
  qr_best_delay_s :: "f64 option"
  qr_regress_offset_s :: "f64 option"
  qr_regress_freq_ppm :: "f64 option"
  qr_regress_sd_s :: "f64 option"
  qr_reference_id :: bytes
  qr_leap :: bytes
  qr_nts :: "NtsReport option"

text \<open>What one exchange meets: a turn of the receive loop brings a datagram, a race with the readiness poll, or an end
(deadline or socket error).\<close>

datatype QueryRecv = QrDatagram bytes | QrRetry | QrEnd

record QueryEnv =
  qe_nonce :: u64
  qe_rand :: "nat \<Rightarrow> nat \<Rightarrow> KeError + bytes"
  qe_t1_wall :: "int option"
  qe_t1_mono :: "f64 option"
  qe_send :: bool
  qe_receive :: "QueryRecv list"
  qe_t4_wall :: "int option"
  qe_t4_mono :: "f64 option"

datatype QueryError = QueryProtect NtsSessionError | QueryClock | QuerySocket | QueryNoAddress | QueryEstablish NtsSessionError | QueryCa

record QueryRun =
  qn_report :: QueryReport
  qn_register :: SampleRegister
  qn_nts :: "NtsSession option"

definition RECV_BUFFER :: nat where "RECV_BUFFER = 1024"

text \<open>The reply and the bytes it came in; a datagram longer than the buffer is cut.\<close>

fun await_query :: "NtpTimestamp \<Rightarrow> QueryRecv list \<Rightarrow> (NtpPacket \<times> bytes) option" where
  "await_query tx_nonce [] = None"
| "await_query tx_nonce (QrEnd # _) = None"
| "await_query tx_nonce (QrRetry # rs) = await_query tx_nonce rs"
| "await_query tx_nonce (QrDatagram b # rs) =
     (case our_reply tx_nonce (take RECV_BUFFER b) of Some p \<Rightarrow> Some (p, take RECV_BUFFER b) | None \<Rightarrow> await_query tx_nonce rs)"

definition protect_query :: "Aead \<Rightarrow> QueryEnv \<Rightarrow> bytes \<Rightarrow> QueryRun \<Rightarrow> (QueryError + bytes) \<times> QueryRun" where
  "protect_query c env header run =
     (case qn_nts run of None \<Rightarrow> (Inr header, run)
      | Some session \<Rightarrow>
          (case session_protect c (qe_rand env) header session of
             (Inl e, s') \<Rightarrow> (Inl (QueryProtect e), run\<lparr> qn_nts := Some s' \<rparr>)
           | (Inr packet, s') \<Rightarrow> (Inr packet, run\<lparr> qn_nts := Some s' \<rparr>)))"

definition wall_seconds :: "int \<Rightarrow> f64" where "wall_seconds ns = fmul (f_of_int ns) e_minus9"

definition count_nts :: "bool \<Rightarrow> nat \<Rightarrow> NtsReport \<Rightarrow> NtsReport" where
  "count_nts ok held n =
     (if ok then n\<lparr> nr_authenticated := nr_authenticated n + 1, nr_cookies_after := held \<rparr>
      else n\<lparr> nr_rejected := nr_rejected n + 1, nr_cookies_after := held \<rparr>)"

text \<open>Authentication comes first: the verdict, and the run with its counts.\<close>

definition authenticate :: "Aead \<Rightarrow> bytes \<Rightarrow> QueryRun \<Rightarrow> bool \<times> QueryRun" where
  "authenticate c b run =
     (case qn_nts run of None \<Rightarrow> (True, run)
      | Some session \<Rightarrow>
          (case session_verify c b session of (r, s') \<Rightarrow>
             (\<not> isl r, run\<lparr> qn_nts := Some s', qn_report := (qn_report run)\<lparr> qr_nts :=
                map_option (count_nts (\<not> isl r) (cookies_held s')) (qr_nts (qn_report run)) \<rparr> \<rparr>)))"

definition query_offset_delay :: "NtpPacket \<Rightarrow> int \<Rightarrow> int \<Rightarrow> f64 \<times> f64" where
  "query_offset_delay p t1 t4 =
     offset_delay (wall_seconds t1) (ntp_to_unix_near (p_receive_ts p) (wall_seconds t1))
       (ntp_to_unix_near (p_transmit_ts p) (wall_seconds t4)) (wall_seconds t4)"

definition report_sample :: "NtpPacket \<Rightarrow> f64 \<times> f64 \<Rightarrow> SampleReport" where
  "report_sample p od = \<lparr> rp_offset_s = fst od, rp_delay_s = snd od, rp_stratum = p_stratum p,
     rp_root_delay_s = short_to_seconds (p_root_delay p), rp_root_dispersion_s = short_to_seconds (p_root_dispersion p) \<rparr>"

definition take_sample :: "NtpPacket \<Rightarrow> f64 \<times> f64 \<Rightarrow> f64 \<Rightarrow> f64 \<Rightarrow> QueryRun \<Rightarrow> QueryRun" where
  "take_sample p od t1_mono t4_mono run = run\<lparr>
     qn_report := (qn_report run)\<lparr> qr_received := qr_received (qn_report run) + 1,
       qr_reference_id := refid_str (p_stratum p) (p_reference_id p), qr_leap := leap_str (p_leap p),
       qr_samples := qr_samples (qn_report run) @ [report_sample p od] \<rparr>,
     qn_register := push \<lparr> sm_t = fdiv (fadd t1_mono t4_mono) (FFin 2), sm_offset = fst od, sm_delay = snd od,
       sm_dispersion = short_to_seconds (p_root_dispersion p) \<rparr> (qn_register run) \<rparr>"

definition judge :: "NtpPacket \<Rightarrow> int \<Rightarrow> f64 \<Rightarrow> int \<Rightarrow> f64 \<Rightarrow> QueryRun \<Rightarrow> QueryRun" where
  "judge p t1 t1_mono t4 t4_mono run =
     (if \<not> usable_reply p then run
      else let od = query_offset_delay p t1 t4 in
        if flt (snd od) (FFin 0) then run else take_sample p od t1_mono t4_mono run)"

definition after_send :: "Aead \<Rightarrow> QueryEnv \<Rightarrow> int \<Rightarrow> f64 \<Rightarrow> QueryRun \<Rightarrow> QueryError + QueryRun" where
  "after_send c env t1 t1_mono run =
     (case await_query (NtpTimestamp (qe_nonce env)) (qe_receive env) of None \<Rightarrow> Inr run
      | Some (p, b) \<Rightarrow>
          (case qe_t4_wall env of None \<Rightarrow> Inl QueryClock | Some t4 \<Rightarrow>
            (case qe_t4_mono env of None \<Rightarrow> Inl QueryClock | Some t4_mono \<Rightarrow>
              (case authenticate c b run of (ok, run') \<Rightarrow>
                 Inr (if ok then judge p t1 t1_mono t4 t4_mono run' else run')))))"

definition query_once :: "Aead \<Rightarrow> QueryEnv \<Rightarrow> QueryRun \<Rightarrow> QueryError + QueryRun" where
  "query_once c env run0 =
     (case protect_query c env (to_bytes (client_request 4 (NtpTimestamp (qe_nonce env)))) run0 of
        (Inl e, _) \<Rightarrow> Inl e
      | (Inr request, run) \<Rightarrow>
          (case qe_t1_wall env of None \<Rightarrow> Inl QueryClock | Some t1 \<Rightarrow>
            (case qe_t1_mono env of None \<Rightarrow> Inl QueryClock | Some t1_mono \<Rightarrow>
              if \<not> qe_send env then Inr run
              else after_send c env t1 t1_mono
                (run\<lparr> qn_report := (qn_report run)\<lparr> qr_sent := qr_sent (qn_report run) + 1 \<rparr> \<rparr>))))"

fun query_all :: "Aead \<Rightarrow> QueryEnv list \<Rightarrow> QueryRun \<Rightarrow> QueryError + QueryRun" where
  "query_all c [] run = Inr run"
| "query_all c (env # envs) run = (case query_once c env run of Inl e \<Rightarrow> Inl e | Inr run' \<Rightarrow> query_all c envs run')"

definition nts_start :: "NtsSession \<Rightarrow> NtsReport" where
  "nts_start s = \<lparr> nr_ke_host = ns_ke_host s, nr_ntp_server = ns_ntp_server s, nr_ntp_port = ns_ntp_port s,
     nr_authenticated = 0, nr_rejected = 0, nr_cookies_after = cookies_held s \<rparr>"

definition report_start :: "bytes \<Rightarrow> bytes \<Rightarrow> NtsSession option \<Rightarrow> QueryReport" where
  "report_start server address nts = \<lparr> qr_server = server, qr_address = address, qr_sent = 0, qr_received = 0, qr_samples = [],
     qr_best_offset_s = None, qr_best_delay_s = None, qr_regress_offset_s = None, qr_regress_freq_ppm = None, qr_regress_sd_s = None,
     qr_reference_id = [], qr_leap = [], qr_nts = map_option nts_start nts \<rparr>"

text \<open>The headline numbers; \<open>pw\<close> is \<open>powf\<close>, \<open>now\<close> the monotonic clock at the end.\<close>

definition finish_report :: "(f64 \<Rightarrow> f64 \<Rightarrow> f64) \<Rightarrow> f64 \<Rightarrow> QueryRun \<Rightarrow> QueryReport" where
  "finish_report pw now run =
     (let r1 = (case best (qn_register run) of None \<Rightarrow> qn_report run
          | Some s \<Rightarrow> (qn_report run)\<lparr> qr_best_offset_s := Some (sm_offset s), qr_best_delay_s := Some (sm_delay s) \<rparr>)
      in case fst (regress pw now (qn_register run)) of None \<Rightarrow> r1
      | Some fitted \<Rightarrow> r1\<lparr> qr_regress_offset_s := Some (re_offset fitted), qr_regress_freq_ppm := re_freq_ppm fitted,
          qr_regress_sd_s := Some (re_offset_sd fitted) \<rparr>)"

record AddressEnv =
  ae_address :: bytes
  ae_socket :: bool
  ae_exchanges :: "QueryEnv list"
  ae_end_mono :: "f64 option"

definition measure_against :: "Aead \<Rightarrow> (f64 \<Rightarrow> f64 \<Rightarrow> f64) \<Rightarrow> QueryOptions \<Rightarrow> AddressEnv \<Rightarrow> NtsSession option \<Rightarrow>
    QueryError + QueryReport \<times> NtsSession option" where
  "measure_against c pw opts ae nts =
     (if \<not> ae_socket ae then Inl QuerySocket
      else case query_all c (take (unat (qo_count opts)) (ae_exchanges ae))
          \<lparr> qn_report = report_start (qo_server opts) (ae_address ae) nts, qn_register = register_new 64, qn_nts = nts \<rparr> of
        Inl e \<Rightarrow> Inl e
      | Inr run \<Rightarrow> (case ae_end_mono ae of None \<Rightarrow> Inl QueryClock | Some now \<Rightarrow> Inr (finish_report pw now run, qn_nts run)))"

text \<open>The addresses in turn until one answers; the caller refuses an empty list.\<close>

fun try_addresses :: "Aead \<Rightarrow> (f64 \<Rightarrow> f64 \<Rightarrow> f64) \<Rightarrow> QueryOptions \<Rightarrow> AddressEnv list \<Rightarrow> NtsSession option \<Rightarrow>
    QueryError + QueryReport \<times> NtsSession option" where
  "try_addresses c pw opts [] nts = Inl QueryNoAddress"
| "try_addresses c pw opts (ae # aes) nts =
     (case measure_against c pw opts ae nts of Inl e \<Rightarrow> Inl e
      | Inr (report, nts') \<Rightarrow> if qr_received report > 0 \<or> aes = [] then Inr (report, nts') else try_addresses c pw opts aes nts')"

section \<open>Saved state\<close>

text \<open>The files, the passphrase apart; \<open>sv_unix\<close> is the time of saving.\<close>

definition resume_session :: "'d StoreEnv \<Rightarrow> Io \<Rightarrow> QueryOptions \<Rightarrow> Disk \<Rightarrow> NtsSession option \<times> Disk" where
  "resume_session env io opts disk =
     (case (qo_state_path opts, qo_state_passphrase opts) of
        (Some _, Some pass) \<Rightarrow>
          (case store_open env io pass disk of
             (Inl _, disk') \<Rightarrow> (None, disk')
           | (Inr st, disk') \<Rightarrow>
               (case fst (get_client_session env (qo_server opts) st) of
                  Inr (Some saved) \<Rightarrow> (Some (session_resume (ss_keys saved) (ss_cookies saved) (ss_ntp_server saved) (ss_ntp_port saved)
                    (qo_server opts)), disk')
                | _ \<Rightarrow> (None, disk')))
      | _ \<Rightarrow> (None, disk))"

text \<open>\<open>pem_ok\<close> says that the trust anchors parse as certificates; they are parsed even when a session is resumed.\<close>

definition obtain_session :: "'d StoreEnv \<Rightarrow> Io \<Rightarrow> (bytes \<Rightarrow> bool) \<Rightarrow> QueryOptions \<Rightarrow> NtsSessionError + NtsSession \<Rightarrow> Disk \<Rightarrow>
    (QueryError + NtsSession option) \<times> Disk" where
  "obtain_session env io pem_ok opts established disk =
     (if \<not> qo_nts opts then (Inr None, disk)
      else if (case qo_nts_ca_pem opts of None \<Rightarrow> False | Some pem \<Rightarrow> \<not> pem_ok pem) then (Inl QueryCa, disk)
      else case resume_session env io opts disk of
        (Some s, disk') \<Rightarrow> (Inr (Some s), disk')
      | (None, disk') \<Rightarrow> (case established of Inl e \<Rightarrow> (Inl (QueryEstablish e), disk') | Inr s \<Rightarrow> (Inr (Some s), disk')))"

definition save_drift :: "'d StoreEnv \<Rightarrow> bytes \<Rightarrow> u64 \<Rightarrow> QueryReport \<Rightarrow> ('d, unit) storeop" where
  "save_drift env host updated_unix report =
     (case qr_best_offset_s report of None \<Rightarrow> st_return ()
      | Some offset \<Rightarrow> put_drift env host \<lparr> dr_freq_ppm = (case qr_regress_freq_ppm report of None \<Rightarrow> FFin 0 | Some f \<Rightarrow> f),
          dr_offset_s = offset, dr_updated_unix = updated_unix \<rparr>)"

definition save_session :: "'d StoreEnv \<Rightarrow> NtsSession option \<Rightarrow> ('d, unit) storeop" where
  "save_session env nts =
     (case nts of None \<Rightarrow> st_return ()
      | Some s \<Rightarrow> put_client_session env (ns_ke_host s) (ns_keys s) (unspent_cookies s) (ns_ntp_server s) (ns_ntp_port s))"

definition persist_state :: "'d StoreEnv \<Rightarrow> Io \<Rightarrow> bytes option \<Rightarrow> bytes \<Rightarrow> u64 \<Rightarrow> QueryReport \<Rightarrow> NtsSession option \<Rightarrow> Disk \<Rightarrow> bool \<times> Disk" where
  "persist_state env io passphrase host updated_unix report nts disk =
     (case passphrase of None \<Rightarrow> (False, disk)
      | Some pass \<Rightarrow>
          (case store_open env io pass disk of
             (Inl _, disk1) \<Rightarrow> (False, disk1)
           | (Inr st, disk1) \<Rightarrow>
               (case st_bind (save_drift env host updated_unix report) (\<lambda>_. save_session env nts) st of
                  (Inl _, _) \<Rightarrow> (False, disk1)
                | (Inr _, st1) \<Rightarrow> (case flush env io disk1 st1 of ((r, disk2), _) \<Rightarrow> (\<not> isl r, disk2)))))"

record 'd MeasureEnv =
  me_store :: "'d StoreEnv"
  me_io_load :: Io
  me_io_save :: Io
  me_pem_ok :: "bytes \<Rightarrow> bool"
  me_established :: "NtsSessionError + NtsSession"
  me_addresses :: "bytes \<Rightarrow> u16 \<Rightarrow> AddressEnv list"
  me_unix :: u64

definition query_target :: "QueryOptions \<Rightarrow> NtsSession option \<Rightarrow> bytes \<times> u16" where
  "query_target opts nts = (case nts of Some s \<Rightarrow> (ns_ntp_server s, ns_ntp_port s) | None \<Rightarrow> (qo_server opts, qo_port opts))"

definition close_report :: "NtsSession option \<Rightarrow> QueryReport \<Rightarrow> QueryReport" where
  "close_report nts report =
     (case nts of None \<Rightarrow> report
      | Some s \<Rightarrow> report\<lparr> qr_nts := map_option (\<lambda>n. n\<lparr> nr_cookies_after := cookies_held s \<rparr>) (qr_nts report) \<rparr>)"

text \<open>A measurement is not failed by state that could not be saved.\<close>

definition query_measure :: "Aead \<Rightarrow> (f64 \<Rightarrow> f64 \<Rightarrow> f64) \<Rightarrow> 'd MeasureEnv \<Rightarrow> QueryOptions \<Rightarrow> Disk \<Rightarrow>
    (QueryError + QueryReport \<times> NtsSession option) \<times> Disk" where
  "query_measure c pw env opts disk =
     (case obtain_session (me_store env) (me_io_load env) (me_pem_ok env) opts (me_established env) disk of
        (Inl e, disk1) \<Rightarrow> (Inl e, disk1)
      | (Inr nts, disk1) \<Rightarrow>
          (case query_target opts nts of (host, port) \<Rightarrow>
            (case try_addresses c pw opts (me_addresses env host port) nts of
               Inl e \<Rightarrow> (Inl e, disk1)
             | Inr (report0, nts') \<Rightarrow>
                 (let report = close_report nts' report0 in
                  (Inr (report, nts'),
                   if qo_state_path opts = None then disk1
                   else snd (persist_state (me_store env) (me_io_save env) (qo_state_passphrase opts) host (me_unix env) report nts' disk1))))))"

text \<open>The exit status of the command; \<open>json_ok\<close> says that the report serialises.\<close>

definition query_exit :: "(QueryReport \<Rightarrow> bool) \<Rightarrow> QueryOptions \<Rightarrow> QueryError + QueryReport \<Rightarrow> int" where
  "query_exit json_ok opts result =
     (case result of Inl e \<Rightarrow> 1
      | Inr report \<Rightarrow> if qo_json opts \<and> \<not> json_ok report then 1 else if qr_received report = 0 then 1 else 0)"


section \<open>What a report rests on\<close>

text \<open>A sample of the report: an exchange of the run received a datagram that answers that exchange's request, is usable
and, under NTS, verified under the session's server-to-client key; the sample is its offset and delay.\<close>

definition vouched :: "Aead \<Rightarrow> NtsSession option \<Rightarrow> QueryEnv list \<Rightarrow> SampleReport \<Rightarrow> bool" where
  "vouched c nts envs s \<longleftrightarrow>
     (\<exists>env\<in>set envs. \<exists>b p t1 t4. QrDatagram b \<in> set (qe_receive env) \<and> parse (take RECV_BUFFER b) = Inr p \<and>
        p_origin_ts p = NtpTimestamp (qe_nonce env) \<and> p_mode p = Server \<and> usable_reply p \<and>
        qe_t1_wall env = Some t1 \<and> qe_t4_wall env = Some t4 \<and> \<not> flt (rp_delay_s s) (FFin 0) \<and>
        s = report_sample p (query_offset_delay p t1 t4) \<and>
        (\<forall>session. nts = Some session \<longrightarrow>
          (\<exists>uid cookies. verify_response c (take RECV_BUFFER b) (k_s2c (ns_keys session)) uid = Inr cookies)))"

lemma await_query_Some:
  "await_query nonce rs = Some (p, b) \<Longrightarrow> \<exists>d. QrDatagram d \<in> set rs \<and> b = take RECV_BUFFER d \<and> our_reply nonce b = Some p"
  by (induction nonce rs rule: await_query.induct) (auto split: option.splits)

lemma push_samples: "set (r_samples (push s r)) \<subseteq> insert s (set (r_samples r))"
  by (auto simp: push_def Let_def compact_def evict_oldest_def dest: in_set_dropD)

lemma best_sample: "best r = Some s \<Longrightarrow> s \<in> set (r_samples r)"
proof -
  have "foldl (\<lambda>b s. case b of None \<Rightarrow> Some s | Some m \<Rightarrow> if sm_delay s < sm_delay m then Some s else Some m) b0 ss = Some s \<Longrightarrow>
      s \<in> set ss \<or> b0 = Some s" for b0 ss
    by (induction ss arbitrary: b0) (fastforce split: option.splits if_splits)+
  then show "best r = Some s \<Longrightarrow> s \<in> set (r_samples r)"
    by (fastforce simp: best_def Let_def min_by_delay_def window_def dest: in_set_dropD)
qed

lemma protect_query_shape:
  "protect_query c env header run = (Inr request, run') \<Longrightarrow>
     \<exists>x. run' = run\<lparr> qn_nts := x \<rparr> \<and> map_option ns_keys x = map_option ns_keys (qn_nts run)"
  by (cases "qn_nts run") (auto simp: protect_query_def dest: keys_of_protect split: prod.splits sum.splits)

lemma authenticate_shape:
  assumes "authenticate c b run = (ok, run')"
  shows "qn_nts run = None \<and> ok \<and> run' = run \<or>
    (\<exists>s s'. qn_nts run = Some s \<and> ns_keys s' = ns_keys s \<and> run' = run\<lparr> qn_nts := Some s', qn_report := (qn_report run)\<lparr> qr_nts :=
        map_option (count_nts ok (cookies_held s')) (qr_nts (qn_report run)) \<rparr> \<rparr> \<and>
      (ok \<longrightarrow> (\<exists>cookies. verify_response c b (k_s2c (ns_keys s)) (ns_pending s) = Inr cookies)))"
proof (cases "qn_nts run")
  case None
  then show ?thesis using assms by (simp add: authenticate_def)
next
  case (Some s)
  obtain r s' where v: "session_verify c b s = (r, s')" by fastforce
  then have "ns_keys s' = ns_keys s" "\<not> isl r \<longrightarrow> (\<exists>cookies. verify_response c b (k_s2c (ns_keys s)) (ns_pending s) = Inr cookies)"
    by (auto simp: session_verify_def split: sum.splits)
  then show ?thesis using Some assms v by (auto simp: authenticate_def)
qed

lemma judge_cases:
  "judge p t1 t1_mono t4 t4_mono run = run \<or>
   usable_reply p \<and> \<not> flt (snd (query_offset_delay p t1 t4)) (FFin 0) \<and>
   judge p t1 t1_mono t4 t4_mono run = take_sample p (query_offset_delay p t1 t4) t1_mono t4_mono run"
  by (simp add: judge_def Let_def)

lemma unat_plus1: "unat w < 2 ^ 31 \<Longrightarrow> unat (w + 1 :: u32) = unat w + 1"
  by (simp add: unat_word_ariths)

text \<open>The parts of the invariant that a report alone decides.\<close>

definition counts_ok :: "nat \<Rightarrow> bool \<Rightarrow> QueryReport \<Rightarrow> bool" where
  "counts_ok k authenticated r \<longleftrightarrow> qr_received r = of_nat (length (qr_samples r)) \<and>
     length (qr_samples r) \<le> unat (qr_sent r) \<and> unat (qr_sent r) \<le> k \<and>
     (case qr_nts r of None \<Rightarrow> \<not> authenticated
      | Some n \<Rightarrow> authenticated \<and> length (qr_samples r) \<le> unat (nr_authenticated n) \<and>
          unat (nr_authenticated n) + unat (nr_rejected n) \<le> unat (qr_sent r))"

text \<open>Between sending and judging there is room for one more sample.\<close>

definition room_ok :: "nat \<Rightarrow> bool \<Rightarrow> QueryReport \<Rightarrow> bool" where
  "room_ok k authenticated r \<longleftrightarrow> qr_received r = of_nat (length (qr_samples r)) \<and>
     length (qr_samples r) < unat (qr_sent r) \<and> unat (qr_sent r) \<le> k \<and>
     (case qr_nts r of None \<Rightarrow> \<not> authenticated
      | Some n \<Rightarrow> authenticated \<and> length (qr_samples r) \<le> unat (nr_authenticated n) \<and>
          unat (nr_authenticated n) + unat (nr_rejected n) < unat (qr_sent r))"

definition full_ok :: "nat \<Rightarrow> bool \<Rightarrow> QueryReport \<Rightarrow> bool" where
  "full_ok k authenticated r \<longleftrightarrow> qr_received r = of_nat (length (qr_samples r)) \<and>
     length (qr_samples r) < unat (qr_sent r) \<and> unat (qr_sent r) \<le> k \<and>
     (case qr_nts r of None \<Rightarrow> \<not> authenticated
      | Some n \<Rightarrow> authenticated \<and> length (qr_samples r) < unat (nr_authenticated n) \<and>
          unat (nr_authenticated n) + unat (nr_rejected n) \<le> unat (qr_sent r))"

lemma counts_send:
  "counts_ok k a r \<Longrightarrow> k < 64 \<Longrightarrow> room_ok (Suc k) a (r\<lparr> qr_sent := qr_sent r + 1 \<rparr>)"
  using unat_plus1[of "qr_sent r"] by (auto simp: counts_ok_def room_ok_def split: option.splits)

lemma counts_weaken: "counts_ok k a r \<Longrightarrow> counts_ok (Suc k) a r" "room_ok k a r \<Longrightarrow> counts_ok k a r" "full_ok k a r \<Longrightarrow> counts_ok k a r"
  by (auto simp: counts_ok_def room_ok_def full_ok_def split: option.splits)

lemma counts_authentic:
  assumes "room_ok k a r" "k \<le> 64"
  shows "a \<Longrightarrow> full_ok k a (r\<lparr> qr_nts := map_option (count_nts True held) (qr_nts r) \<rparr>)"
    "a \<Longrightarrow> counts_ok k a (r\<lparr> qr_nts := map_option (count_nts False held) (qr_nts r) \<rparr>)"
    "\<not> a \<Longrightarrow> full_ok k a r"
proof -
  show "\<not> a \<Longrightarrow> full_ok k a r" using assms by (auto simp: room_ok_def full_ok_def split: option.splits)
  assume a
  then obtain n where n: "qr_nts r = Some n" "length (qr_samples r) \<le> unat (nr_authenticated n)" "unat (nr_authenticated n) + unat (nr_rejected n) < unat (qr_sent r)"
    using assms(1) by (auto simp: room_ok_def split: option.splits)
  have "unat (qr_sent r) \<le> 64" using assms by (simp add: room_ok_def)
  then have "unat (nr_authenticated n) < 2 ^ 31" "unat (nr_rejected n) < 2 ^ 31" using n(3) by simp_all
  then have u: "unat (nr_authenticated n + 1) = unat (nr_authenticated n) + 1" "unat (nr_rejected n + 1) = unat (nr_rejected n) + 1"
    by (simp_all only: unat_plus1)
  show "full_ok k a (r\<lparr> qr_nts := map_option (count_nts True held) (qr_nts r) \<rparr>)"
    "counts_ok k a (r\<lparr> qr_nts := map_option (count_nts False held) (qr_nts r) \<rparr>)"
    using n u assms by (simp_all add: room_ok_def full_ok_def counts_ok_def count_nts_def)
qed

lemma counts_sample:
  assumes "full_ok k a (qn_report run)"
  shows "counts_ok k a (qn_report (take_sample p od t1 t4 run))"
  using assms by (auto simp: full_ok_def counts_ok_def take_sample_def split: option.splits)

definition samples_ok :: "Aead \<Rightarrow> NtsSession option \<Rightarrow> QueryEnv list \<Rightarrow> QueryRun \<Rightarrow> bool" where
  "samples_ok c nts envs run \<longleftrightarrow> map_option ns_keys (qn_nts run) = map_option ns_keys nts \<and>
     sm_offset ` set (r_samples (qn_register run)) \<subseteq> rp_offset_s ` set (qr_samples (qn_report run)) \<and>
     (\<forall>s\<in>set (qr_samples (qn_report run)). vouched c nts envs s)"

lemma samples_take:
  assumes "samples_ok c nts envs run" "vouched c nts envs (report_sample p od)"
  shows "samples_ok c nts envs (take_sample p od t1_mono t4_mono run)"
proof -
  let ?s = "\<lparr> sm_t = fdiv (fadd t1_mono t4_mono) (FFin 2), sm_offset = fst od, sm_delay = snd od, sm_dispersion = short_to_seconds (p_root_dispersion p) \<rparr>"
  have "sm_offset ` set (r_samples (push ?s (qn_register run))) \<subseteq> insert (fst od) (sm_offset ` set (r_samples (qn_register run)))"
    using push_samples[of ?s "qn_register run"] by auto
  then show ?thesis using assms by (auto simp: samples_ok_def take_sample_def report_sample_def)
qed

lemma query_once_ok:
  assumes ok: "counts_ok k (nts \<noteq> None) (qn_report run)" "samples_ok c nts envs run" and k: "k < 64" and env: "env \<in> set envs"
    and q: "query_once c env run = Inr run'"
  shows "counts_ok (Suc k) (nts \<noteq> None) (qn_report run') \<and> samples_ok c nts envs run'"
proof -
  obtain request x where p: "protect_query c env (to_bytes (client_request 4 (NtpTimestamp (qe_nonce env)))) run = (Inr request, run\<lparr> qn_nts := x \<rparr>)"
    "map_option ns_keys x = map_option ns_keys (qn_nts run)"
    using q protect_query_shape by (fastforce simp: query_once_def split: prod.splits sum.splits)
  obtain t1 t1m where t: "qe_t1_wall env = Some t1" "qe_t1_mono env = Some t1m"
    using q p(1) by (auto simp: query_once_def split: option.splits)
  let ?r1 = "(qn_report run)\<lparr> qr_sent := qr_sent (qn_report run) + 1 \<rparr>"
  let ?run1 = "run\<lparr> qn_nts := x, qn_report := ?r1 \<rparr>"
  have keys: "map_option ns_keys x = map_option ns_keys nts" using p(2) ok(2) by (simp add: samples_ok_def)
  show ?thesis
  proof (cases "qe_send env")
    case False
    then have "run' = run\<lparr> qn_nts := x \<rparr>" using q p(1) t by (simp add: query_once_def)
    then show ?thesis using ok counts_weaken(1) keys by (auto simp: samples_ok_def)
  next
    case True
    have room: "room_ok (Suc k) (nts \<noteq> None) ?r1" by (rule counts_send[OF ok(1) k])
    have s1: "samples_ok c nts envs ?run1" using ok(2) keys by (auto simp: samples_ok_def)
    have a: "after_send c env t1 t1m ?run1 = Inr run'" using q p(1) t True by (simp add: query_once_def)
    show ?thesis
    proof (cases "await_query (NtpTimestamp (qe_nonce env)) (qe_receive env)")
      case None
      then have "run' = ?run1" using a by (simp add: after_send_def)
      then show ?thesis using counts_weaken(2)[OF room] s1 by simp
    next
      case (Some pb)
      obtain pk b where pb: "pb = (pk, b)" by fastforce
      obtain d where d: "QrDatagram d \<in> set (qe_receive env)" "b = take RECV_BUFFER d" "our_reply (NtpTimestamp (qe_nonce env)) b = Some pk"
        using await_query_Some Some pb by blast
      obtain t4 t4m where t4: "qe_t4_wall env = Some t4" "qe_t4_mono env = Some t4m"
        using a Some pb by (auto simp: after_send_def split: option.splits)
      obtain good run2 where au: "authenticate c b ?run1 = (good, run2)" by fastforce
      have run': "run' = (if good then judge pk t1 t1m t4 t4m run2 else run2)" using a Some pb t4 au by (simp add: after_send_def)
      have shape: "x = None \<and> good \<and> run2 = ?run1 \<or>
          (\<exists>s s'. x = Some s \<and> ns_keys s' = ns_keys s \<and> run2 = ?run1\<lparr> qn_nts := Some s', qn_report := ?r1\<lparr> qr_nts :=
             map_option (count_nts good (cookies_held s')) (qr_nts ?r1) \<rparr> \<rparr> \<and>
           (good \<longrightarrow> (\<exists>cookies. verify_response c b (k_s2c (ns_keys s)) (ns_pending s) = Inr cookies)))"
        using authenticate_shape[OF au] by simp
      have nx: "(nts = None) = (x = None)" using keys by (cases nts; cases x) auto
      have sk: "\<And>s session. x = Some s \<Longrightarrow> nts = Some session \<Longrightarrow> ns_keys session = ns_keys s" using keys by simp
      have s2: "samples_ok c nts envs run2"
        using shape s1 keys unfolding samples_ok_def by (elim disjE exE conjE) simp_all
      have c2: "if good then full_ok (Suc k) (nts \<noteq> None) (qn_report run2) else counts_ok (Suc k) (nts \<noteq> None) (qn_report run2)"
        using shape
      proof
        assume "x = None \<and> good \<and> run2 = ?run1"
        then show ?thesis using counts_authentic(3)[OF room] k nx by simp
      next
        assume "\<exists>s s'. x = Some s \<and> ns_keys s' = ns_keys s \<and> run2 = ?run1\<lparr> qn_nts := Some s', qn_report := ?r1\<lparr> qr_nts :=
             map_option (count_nts good (cookies_held s')) (qr_nts ?r1) \<rparr> \<rparr> \<and>
           (good \<longrightarrow> (\<exists>cookies. verify_response c b (k_s2c (ns_keys s)) (ns_pending s) = Inr cookies))"
        then obtain s s' where s: "x = Some s" "qn_report run2 = ?r1\<lparr> qr_nts := map_option (count_nts good (cookies_held s')) (qr_nts ?r1) \<rparr>" by auto
        then show ?thesis using counts_authentic(1,2)[OF room, of "cookies_held s'"] k nx by (cases good) simp_all
      qed
      show ?thesis
      proof (cases good)
        case False
        then show ?thesis using run' c2 s2 by simp
      next
        case True
        have auth: "\<forall>session. nts = Some session \<longrightarrow> (\<exists>uid cookies. verify_response c b (k_s2c (ns_keys session)) uid = Inr cookies)"
        proof (intro allI impI)
          fix session assume n: "nts = Some session"
          then obtain s where "x = Some s" using nx by (cases x) auto
          then show "\<exists>uid cookies. verify_response c b (k_s2c (ns_keys session)) uid = Inr cookies"
            using shape True sk[OF _ n] by auto
        qed
        show ?thesis using judge_cases[of pk t1 t1m t4 t4m run2]
        proof
          assume "judge pk t1 t1m t4 t4m run2 = run2"
          then show ?thesis using run' True c2 s2 counts_weaken(3) by simp
        next
          let ?od = "query_offset_delay pk t1 t4"
          assume j: "usable_reply pk \<and> \<not> flt (snd ?od) (FFin 0) \<and> judge pk t1 t1m t4 t4m run2 = take_sample pk ?od t1m t4m run2"
          have o: "parse b = Inr pk" "p_origin_ts pk = NtpTimestamp (qe_nonce env)" "p_mode pk = Server" using d(3) by (simp_all add: our_reply_Some)
          have "rp_delay_s (report_sample pk ?od) = snd ?od" by (simp add: report_sample_def)
          then have "vouched c nts envs (report_sample pk ?od)"
            unfolding vouched_def using env d(1,2) o j t(1) t4(1) auth
            by (intro bexI[of _ env] exI[of _ d] exI[of _ pk] exI[of _ t1] exI[of _ t4]) auto
          then show ?thesis using run' True j counts_sample[of "Suc k"] samples_take[OF s2] c2 by simp
        qed
      qed
    qed
  qed
qed

lemma query_all_ok:
  "counts_ok k (nts \<noteq> None) (qn_report run) \<Longrightarrow> samples_ok c nts all run \<Longrightarrow> set envs \<subseteq> set all \<Longrightarrow> k + length envs \<le> 64 \<Longrightarrow>
    query_all c envs run = Inr run' \<Longrightarrow> counts_ok (k + length envs) (nts \<noteq> None) (qn_report run') \<and> samples_ok c nts all run'"
proof (induction envs arbitrary: k run)
  case (Cons env envs)
  obtain run1 where r: "query_once c env run = Inr run1" "query_all c envs run1 = Inr run'" using Cons.prems(5) by (auto split: sum.splits)
  have "counts_ok (Suc k) (nts \<noteq> None) (qn_report run1) \<and> samples_ok c nts all run1"
    using query_once_ok[OF Cons.prems(1,2) _ _ r(1)] Cons.prems(3,4) by simp
  then show ?case using Cons.IH[of "Suc k" run1] Cons.prems(3,4) r(2) by simp
qed simp


text \<open>C39: a report holds only what the run earned.  In the report of a run of at most 64 exchanges with
one address, the answers counted are the samples listed, no more than the requests sent, which are no more than asked
for; every sample is the offset and delay of a datagram that answered its own exchange's request from a synchronised
source and, under NTS, verified under the session's key; the headline offset is one of them; and the answers
authenticated cover the samples and, with the rejected ones, do not exceed the requests.\<close>

theorem query_report_honest:
  assumes "measure_against c pw opts ae nts = Inr (report, nts')" "unat (qo_count opts) \<le> 64"
  shows "qr_received report = of_nat (length (qr_samples report)) \<and> length (qr_samples report) \<le> unat (qr_sent report) \<and>
    unat (qr_sent report) \<le> unat (qo_count opts) \<and>
    (\<forall>s\<in>set (qr_samples report). vouched c nts (ae_exchanges ae) s \<and> 0 < rp_stratum s \<and> rp_stratum s \<le> 15) \<and>
    (\<forall>x. qr_best_offset_s report = Some x \<longrightarrow> x \<in> rp_offset_s ` set (qr_samples report)) \<and>
    (case qr_nts report of None \<Rightarrow> nts = None
     | Some n \<Rightarrow> nts \<noteq> None \<and> length (qr_samples report) \<le> unat (nr_authenticated n) \<and>
         unat (nr_authenticated n) + unat (nr_rejected n) \<le> unat (qr_sent report))"
proof -
  let ?envs = "take (unat (qo_count opts)) (ae_exchanges ae)"
  let ?run0 = "\<lparr> qn_report = report_start (qo_server opts) (ae_address ae) nts, qn_register = register_new 64, qn_nts = nts \<rparr>"
  obtain run now where r: "query_all c ?envs ?run0 = Inr run" "report = finish_report pw now run"
    using assms(1) by (auto simp: measure_against_def split: if_splits sum.splits option.splits)
  have c0: "counts_ok 0 (nts \<noteq> None) (qn_report ?run0)" by (cases nts) (simp_all add: counts_ok_def report_start_def nts_start_def)
  have s0: "samples_ok c nts (ae_exchanges ae) ?run0" by (simp add: samples_ok_def report_start_def register_new_def)
  have len: "0 + length ?envs \<le> 64" using assms(2) by simp
  note inv = query_all_ok[OF c0 s0 set_take_subset len r(1)]
  have f: "qr_samples report = qr_samples (qn_report run)" "qr_received report = qr_received (qn_report run)" "qr_sent report = qr_sent (qn_report run)"
    "qr_nts report = qr_nts (qn_report run)" unfolding r(2) by (simp_all add: finish_report_def Let_def split: option.splits)
  have b0: "qr_best_offset_s (qn_report run) = None"
  proof -
    have "query_once c env x = Inr y \<Longrightarrow> qr_best_offset_s (qn_report y) = qr_best_offset_s (qn_report x)" for env x y
      by (auto simp: query_once_def after_send_def protect_query_def authenticate_def judge_def take_sample_def Let_def
          split: prod.splits sum.splits option.splits if_splits)
    then have "query_all c es x = Inr y \<Longrightarrow> qr_best_offset_s (qn_report y) = qr_best_offset_s (qn_report x)" for es x y
      by (induction es arbitrary: x) (auto split: sum.splits)
    from this[OF r(1)] show ?thesis by (simp add: report_start_def)
  qed
  have best: "x \<in> rp_offset_s ` set (qr_samples report)" if x: "qr_best_offset_s report = Some x" for x
  proof -
    obtain s where "best (qn_register run) = Some s" "x = sm_offset s"
      using x b0 unfolding r(2) by (auto simp: finish_report_def Let_def split: option.splits)
    then have "x \<in> sm_offset ` set (r_samples (qn_register run))" using best_sample by blast
    then show ?thesis using inv f(1) by (auto simp: samples_ok_def)
  qed
  have st: "0 < rp_stratum s \<and> rp_stratum s \<le> 15" if "vouched c nts (ae_exchanges ae) s" for s
    using that by (auto simp: vouched_def usable_reply_def report_sample_def word_gt_0 not_less)
  show ?thesis using inv f best st by (auto simp: counts_ok_def samples_ok_def split: option.splits)
qed

section \<open>Saving and resuming\<close>

lemma digits_length: "n < 10 ^ k \<Longrightarrow> length (digits_of n) \<le> max k 1"
proof (induction n arbitrary: k rule: digits_of.induct)
  case (1 n)
  show ?case
  proof (cases "n < 10")
    case False
    then obtain j where k: "k = Suc j" using "1.prems" by (cases k) auto
    have "n div 10 < 10 ^ j" using "1.prems" k by (simp add: less_mult_imp_div_less mult.commute)
    moreover have "j \<noteq> 0" using "1.prems" False k by (cases j) auto
    ultimately have "length (digits_of (n div 10)) \<le> j" using "1.IH"[OF False, of j] by simp
    then show ?thesis using False k by (simp add: digits_of.simps[of n])
  qed (simp add: digits_of.simps[of n])
qed

lemma put_drift_ok:
  assumes env: "env_ok env declared docs" and st: "store_ok env declared docs st" and h: "host_ok h"
    and short: "\<And>x. length (ev_show env x) < 2 ^ 20"
  shows "\<exists>st'. put_drift env h rec st = (Inr (), st') \<and> store_ok env declared docs st' \<and> st_key st' = st_key st \<and>
    (\<forall>g. session_at (entry env docs st') g = session_at (entry env docs st) g)"
proof -
  let ?p = "ev_show env (dr_freq_ppm rec) @ [0x20] @ ev_show env (dr_offset_s rec) @ [0x20] @ u64_display (dr_updated_unix rec)"
  have "unat (dr_updated_unix rec) < 10 ^ 20" using unsigned_less[of "dr_updated_unix rec"] by (rule less_trans) simp
  then have "length (u64_display (dr_updated_unix rec)) \<le> 20" using digits_length[of _ 20] by (simp add: u64_display_def)
  then have "length ?p < 2 ^ 30" using short[of "dr_freq_ppm rec"] short[of "dr_offset_s rec"] by simp
  then obtain st' where p: "put_sealed env C_DRIFT (compound_key (ascii ''drift'') h 0) ?p st = (Inr (), st')"
    "sets env declared docs st C_DRIFT (compound_key (ascii ''drift'') h 0) ?p st'"
    using put_sealed_ok[OF env st collections(1) host_keys(4)[OF h]] by blast
  have "entry env docs st' C_KEYS = entry env docs st C_KEYS" "entry env docs st' C_COOKIES = entry env docs st C_COOKIES"
    using p(2) by (simp_all add: sets_def)
  then have "session_at (entry env docs st') g = session_at (entry env docs st) g" for g unfolding session_at_def by (simp only:)
  then show ?thesis using p by (auto simp: put_drift_def sets_def)
qed

text \<open>Files a run can start from: none yet, or those of a store.\<close>

definition disk_ok :: "'d StoreEnv \<Rightarrow> ('d \<Rightarrow> bytes \<Rightarrow> bytes list) \<Rightarrow> ('d \<Rightarrow> bytes \<Rightarrow> bytes \<Rightarrow> bytes option) \<Rightarrow> bytes \<Rightarrow> Disk \<Rightarrow> bool" where
  "disk_ok env declared docs pass disk \<longleftrightarrow>
     dk_store disk = None \<and> (\<forall>salt. dk_salt disk = Some salt \<longrightarrow> length salt = SALT_LEN) \<or>
     (\<forall>io. io_ok io \<longrightarrow> (\<exists>st. store_ok env declared docs st \<and> holds_store env pass disk st \<and> store_open env io pass disk = (Inr st, disk)))"

lemma open_ok:
  assumes env: "env_ok env declared docs" and io: "io_ok io" and disk: "disk_ok env declared docs pass disk"
  shows "\<exists>st disk'. store_open env io pass disk = (Inr st, disk') \<and> store_ok env declared docs st \<and> holds_store env pass disk' st \<and>
    disk_ok env declared docs pass disk'"
proof -
  consider "dk_store disk = None \<and> (\<forall>salt. dk_salt disk = Some salt \<longrightarrow> length salt = SALT_LEN)"
    | "\<exists>st. store_ok env declared docs st \<and> holds_store env pass disk st \<and> store_open env io pass disk = (Inr st, disk)"
    using disk io unfolding disk_ok_def by auto
  then show ?thesis
  proof cases
    case 1
    then have none: "dk_store disk = None" and salt: "\<forall>salt. dk_salt disk = Some salt \<longrightarrow> length salt = SALT_LEN" by auto
    obtain key n disk' where o: "store_open env io pass disk = (Inr (new_store env key n), disk')"
      "holds_store env pass disk' (new_store env key n)" "store_ok env declared docs (new_store env key n)"
      using fresh_open[OF env io none salt, of pass] by blast
    have kept: "dk_store (snd (obtain_salt env io disk)) = dk_store disk" by (auto simp: obtain_salt_def split: option.splits)
    have "dk_store (snd (store_open env io pass disk)) = dk_store disk"
      using kept by (auto simp: store_open_def split: option.splits prod.splits sum.splits)
    then have "dk_store disk' = None" using o(1) none by simp
    then have "disk_ok env declared docs pass disk'" using o(2) by (auto simp: disk_ok_def holds_store_def)
    then show ?thesis using o by blast
  next
    case 2
    then show ?thesis using disk by auto
  qed
qed

text \<open>A session the store can hold.\<close>

definition storable :: "QueryOptions \<Rightarrow> NtsSession \<Rightarrow> bool" where
  "storable opts s \<longleftrightarrow> ns_ke_host s = qo_server opts \<and> keys_ok (ns_keys s) \<and> ns_cookies s \<noteq> [] \<and>
     (\<forall>k\<in>set (ns_cookies s). k \<noteq> [] \<and> length k < 2 ^ 30) \<and>
     plain_word (ns_ntp_server s) \<and> utf8_ok (ns_ntp_server s) \<and> length (ns_ntp_server s) < 2 ^ 20"

lemma persist_ok:
  assumes env: "env_ok es declared docs" and short: "\<And>x. length (ev_show es x) < 2 ^ 20" and io: "io_ok io" "io_ok io'"
    and disk: "disk_ok es declared docs pass disk" and h: "host_ok (qo_server opts)" and s: "storable opts s" and u: "utf8_ok host" "length host < 2 ^ 31"
    and opts: "qo_state_path opts = Some path" "qo_state_passphrase opts = Some pass"
  shows "\<exists>disk'. persist_state es io (Some pass) host now report (Some s) disk = (True, disk') \<and> disk_ok es declared docs pass disk' \<and>
    resume_session es io' opts disk' =
      (Some (session_resume (ns_keys s) (take 64 (ns_cookies s)) (ns_ntp_server s) (ns_ntp_port s) (qo_server opts)), disk')"
proof -
  have sdk: "sdk_ok (ev_sdk es) declared docs" using env by (simp add: env_ok_def)
  obtain st disk1 where o: "store_open es io pass disk = (Inr st, disk1)" "store_ok es declared docs st" "holds_store es pass disk1 st"
    using open_ok[OF env io(1) disk] by blast
  have hh: "host_ok host" using u by (simp add: host_ok_def)
  have "\<exists>st1. save_drift es host now report st = (Inr (), st1) \<and> store_ok es declared docs st1 \<and> st_key st1 = st_key st"
    using put_drift_ok[OF env o(2) hh short] o(2) by (auto simp: save_drift_def st_return_def split: option.splits)
  then obtain st1 where d: "save_drift es host now report st = (Inr (), st1)" "store_ok es declared docs st1" "st_key st1 = st_key st" by blast
  have ss: "ns_ke_host s = qo_server opts" "keys_ok (ns_keys s)" "ns_cookies s \<noteq> []" "\<forall>k\<in>set (ns_cookies s). k \<noteq> [] \<and> length k < 2 ^ 30"
    "plain_word (ns_ntp_server s)" "utf8_ok (ns_ntp_server s)" "length (ns_ntp_server s) < 2 ^ 20" using s by (simp_all add: storable_def)
  obtain st2 where p: "put_client_session es (qo_server opts) (ns_keys s) (ns_cookies s) (ns_ntp_server s) (ns_ntp_port s) st1 = (Inr (), st2)"
    "store_ok es declared docs st2" "st_key st2 = st_key st1"
    "session_at (entry es docs st2) (qo_server opts) = Inr (Some \<lparr> ss_keys = ns_keys s, ss_cookies = take 64 (ns_cookies s),
       ss_ntp_server = ns_ntp_server s, ss_ntp_port = ns_ntp_port s \<rparr>)"
    using put_client_session_ok[OF env h d(2) ss(2-7), of "ns_ntp_port s"] by blast
  have hs: "holds_store es pass disk1 st2" using o(3) d(3) p(3) by (simp add: holds_store_def)
  have again: "\<forall>io2. io_ok io2 \<longrightarrow> (\<exists>disk2 st3 st4. flush es io disk1 st2 = ((Inr (), disk2), st3) \<and> store_open es io2 pass disk2 = (Inr st4, disk2) \<and>
      holds_store es pass disk2 st4 \<and> kept es declared docs st2 st4)"
    using restart_same[OF env p(2) hs io(1)] by blast
  then obtain disk2 st3 where f: "flush es io disk1 st2 = ((Inr (), disk2), st3)" using io(1) by blast
  have open2: "\<exists>st4. store_open es io2 pass disk2 = (Inr st4, disk2) \<and> holds_store es pass disk2 st4 \<and> kept es declared docs st2 st4" if i: "io_ok io2" for io2
    using again i f by auto
  have "persist_state es io (Some pass) host now report (Some s) disk = (True, disk2)"
    using o(1) d(1) p(1) f ss(1) by (simp add: persist_state_def st_bind_def save_session_def unspent_cookies_def)
  moreover have "disk_ok es declared docs pass disk2" using open2 kept_ok unfolding disk_ok_def by blast
  moreover have "resume_session es io' opts disk2 =
      (Some (session_resume (ns_keys s) (take 64 (ns_cookies s)) (ns_ntp_server s) (ns_ntp_port s) (qo_server opts)), disk2)"
  proof -
    obtain st4 where q: "store_open es io' pass disk2 = (Inr st4, disk2)" "kept es declared docs st2 st4" using open2[OF io(2)] by blast
    have "fst (get_client_session es (qo_server opts) st4) = session_at (entry es docs st2) (qo_server opts)"
      using get_client_session_at[OF sdk h kept_ok[OF q(2)]] kept_entry[OF q(2)] by auto
    then show ?thesis using q(1) p(4) opts by (simp add: resume_session_def)
  qed
  ultimately show ?thesis by blast
qed

text \<open>C40: what a run of \<open>rtimed query --nts --state\<close> leaves, the next one resumes from.  Start from no files or
from those of an earlier run: when the measurement completes with a session that holds cookies, the files it leaves
make the next run resume exactly that session, its keys, the first sixty-four of its unspent cookies and its endpoint,
without key establishment, and they are again files a run can start from.\<close>

theorem query_resumes:
  assumes "env_ok (me_store env) declared docs" "\<And>x. length (ev_show (me_store env) x) < 2 ^ 20"
    "io_ok (me_io_load env)" "io_ok (me_io_save env)" "io_ok io'" "disk_ok (me_store env) declared docs pass disk"
    "qo_nts opts" "qo_state_path opts = Some path" "qo_state_passphrase opts = Some pass" "host_ok (qo_server opts)"
    "query_measure c pw env opts disk = (Inr (report, Some s), disk')" "storable opts s"
    "\<And>nts disk1. obtain_session (me_store env) (me_io_load env) (me_pem_ok env) opts (me_established env) disk = (Inr nts, disk1) \<Longrightarrow> host_ok (fst (query_target opts nts))"
  shows "obtain_session (me_store env) io' (me_pem_ok env) opts established' disk' =
      (Inr (Some (session_resume (ns_keys s) (take 64 (ns_cookies s)) (ns_ntp_server s) (ns_ntp_port s) (qo_server opts))), disk') \<and>
    disk_ok (me_store env) declared docs pass disk'"
proof -
  obtain nts disk1 where a: "obtain_session (me_store env) (me_io_load env) (me_pem_ok env) opts (me_established env) disk = (Inr nts, disk1)"
    using assms(11) by (auto simp: query_measure_def split: prod.splits sum.splits)
  obtain host port where t: "query_target opts nts = (host, port)" by fastforce
  obtain report0 where m: "disk' = snd (persist_state (me_store env) (me_io_save env) (Some pass) host (me_unix env) report (Some s) disk1)"
    using assms(8,9,11) a t by (auto simp: query_measure_def Let_def split: sum.splits prod.splits)
  obtain st disk0 where o: "store_open (me_store env) (me_io_load env) pass disk = (Inr st, disk0)" "disk_ok (me_store env) declared docs pass disk0"
    using open_ok[OF assms(1,3,6)] by blast
  have "snd (resume_session (me_store env) (me_io_load env) opts disk) = disk0"
    using o(1) assms(8,9) by (auto simp: resume_session_def split: sum.splits option.splits)
  then have same: "disk1 = disk0" "\<not> (case qo_nts_ca_pem opts of None \<Rightarrow> False | Some pem \<Rightarrow> \<not> me_pem_ok env pem)" using a assms(7)
    by (auto simp: obtain_session_def split: prod.splits option.splits sum.splits if_splits)
  then have d1: "disk_ok (me_store env) declared docs pass disk1" using o(2) same(1) by simp
  have h: "utf8_ok host" "length host < 2 ^ 31" using assms(13)[OF a] t by (simp_all add: host_ok_def)
  obtain disk2 where p: "persist_state (me_store env) (me_io_save env) (Some pass) host (me_unix env) report (Some s) disk1 = (True, disk2)"
    "disk_ok (me_store env) declared docs pass disk2"
    "resume_session (me_store env) io' opts disk2 =
      (Some (session_resume (ns_keys s) (take 64 (ns_cookies s)) (ns_ntp_server s) (ns_ntp_port s) (qo_server opts)), disk2)"
    using persist_ok[OF assms(1,2,4,5) d1 assms(10,12) h assms(8,9)] by blast
  then have "disk' = disk2" using m by simp
  then show ?thesis using p(2,3) assms(7) same(2) by (simp add: obtain_session_def)
qed

section \<open>Concrete runs\<close>

definition demo_query :: QueryOptions where
  "demo_query = \<lparr> qo_server = [104], qo_count = 1, qo_interval_ms = 0, qo_timeout_ms = 1, qo_port = 123, qo_json = False, qo_nts = True,
     qo_ke_port = KE_PORT, qo_nts_ca_pem = None, qo_state_path = Some [115], qo_state_passphrase = Some [1] \<rparr>"

text \<open>One exchange: answered by the packet of \<open>demo_xe\<close>, or never sent.\<close>

definition demo_address :: "bool \<Rightarrow> AddressEnv" where
  "demo_address sent = \<lparr> ae_address = [], ae_socket = True, ae_exchanges =
     [\<lparr> qe_nonce = 3, qe_rand = (\<lambda>i n. Inr (zeros n)), qe_t1_wall = Some 5000000000, qe_t1_mono = Some (FFin 1), qe_send = sent,
        qe_receive = [QrDatagram [1], QrRetry, QrDatagram (to_bytes demo_reply_packet)], qe_t4_wall = Some 5004000000, qe_t4_mono = Some (FFin 1) \<rparr>], ae_end_mono = Some (FFin 2) \<rparr>"

definition demo_measure :: "DemoDb MeasureEnv" where
  "demo_measure = \<lparr> me_store = demo_store_env, me_io_load = demo_io, me_io_save = demo_io, me_pem_ok = (\<lambda>_. True),
     me_established = Inr (session_resume demo_keys [[7], [8]] [110] 123 [104]), me_addresses = (\<lambda>_ _. [demo_address False]), me_unix = 0 \<rparr>"

lemma demo_answered:
  "case measure_against null_cipher (\<lambda>_ x. x) demo_query (demo_address True) None of
     Inr (r, n) \<Rightarrow> qr_sent r = 1 \<and> length (qr_samples r) = 1 | Inl _ \<Rightarrow> False"
  by code_simp

lemma query_report_honest_witness:
  "\<exists>report nts' s. measure_against null_cipher (\<lambda>_ x. x) demo_query (demo_address True) None = Inr (report, nts') \<and>
     qr_samples report = [s] \<and> qr_received report = 1 \<and> vouched null_cipher None (ae_exchanges (demo_address True)) s"
proof -
  obtain report nts' where m: "measure_against null_cipher (\<lambda>_ x. x) demo_query (demo_address True) None = Inr (report, nts')"
    "length (qr_samples report) = 1" using demo_answered by (auto split: sum.splits)
  have "unat (qo_count demo_query) \<le> 64" by (simp add: demo_query_def)
  with query_report_honest[OF m(1)] m show ?thesis by (auto simp: length_Suc_conv)
qed

lemma demo_unsent:
  "case try_addresses null_cipher (\<lambda>_ x. x) demo_query [demo_address False] (Some (session_resume demo_keys [[7], [8]] [110] 123 [104])) of
     Inr (r, Some s) \<Rightarrow> ns_cookies s = [[8]] \<and> ns_ke_host s = [104] \<and> ns_keys s = demo_keys \<and> ns_ntp_server s = [110] \<and> ns_ntp_port s = 123 | _ \<Rightarrow> False"
  by code_simp

lemma demo_resume: "\<exists>disk'. resume_session demo_store_env demo_io demo_query no_files = (None, disk')"
proof -
  obtain key n disk' where o: "store_open demo_store_env demo_io [1] no_files = (Inr (new_store demo_store_env key n), disk')"
    "store_ok demo_store_env fst snd (new_store demo_store_env key n)" "\<forall>c k. entry demo_store_env snd (new_store demo_store_env key n) c k = Inr None"
    using fresh_open[OF demo_store_env_ok demo_io_ok, of no_files "[1]"] by (auto simp: no_files_def)
  have "sdk_ok (ev_sdk demo_store_env) fst snd" "host_ok [104]" using demo_store_env_ok by (simp_all add: env_ok_def host_ok_def)
  from get_client_session_at[OF this o(2)] have "fst (get_client_session demo_store_env [104] (new_store demo_store_env key n)) = Inr None"
    using o(3) by (auto simp: session_at_def)
  then show ?thesis using o(1) by (simp add: resume_session_def demo_query_def)
qed

lemma query_resumes_witness:
  "\<exists>report s disk'. query_measure null_cipher (\<lambda>_ x. x) demo_measure demo_query no_files = (Inr (report, Some s), disk') \<and>
     obtain_session demo_store_env demo_io (\<lambda>_. True) demo_query (Inl CookiesExhausted) disk' =
       (Inr (Some (session_resume demo_keys [[8]] [110] 123 [104])), disk')"
proof -
  let ?s0 = "session_resume demo_keys [[7], [8]] [110] 123 [104]"
  obtain disk1 where r: "resume_session demo_store_env demo_io demo_query no_files = (None, disk1)" using demo_resume by blast
  have o: "obtain_session demo_store_env demo_io (\<lambda>_. True) demo_query (Inr ?s0) no_files = (Inr (Some ?s0), disk1)"
    using r by (simp add: obtain_session_def) (simp add: demo_query_def)
  obtain report0 s where t: "try_addresses null_cipher (\<lambda>_ x. x) demo_query [demo_address False] (Some ?s0) = Inr (report0, Some s)"
    "ns_cookies s = [[8]]" "ns_ke_host s = [104]" "ns_keys s = demo_keys" "ns_ntp_server s = [110]" "ns_ntp_port s = 123"
    using demo_unsent by (auto split: sum.splits option.splits prod.splits)
  have tgt: "query_target demo_query (Some ?s0) = ([110], 123)" by (simp add: query_target_def session_resume_def)
  obtain report disk' where q: "query_measure null_cipher (\<lambda>_ x. x) demo_measure demo_query no_files = (Inr (report, Some s), disk')"
    using o t(1) tgt by (simp add: query_measure_def demo_measure_def Let_def)
  have e: "me_store demo_measure = demo_store_env" "me_io_load demo_measure = demo_io" "me_io_save demo_measure = demo_io"
    "me_pem_ok demo_measure = (\<lambda>_. True)" "me_established demo_measure = Inr ?s0" by (simp_all add: demo_measure_def)
  have opts: "qo_nts demo_query" "qo_state_path demo_query = Some [115]" "qo_state_passphrase demo_query = Some [1]" "qo_server demo_query = [104]"
    by (simp_all add: demo_query_def)
  have st: "storable demo_query s" by (simp add: storable_def t opts keys_ok_def demo_keys_def plain_word_def no_ws_def)
  have d: "disk_ok demo_store_env fst snd [1] no_files" by (simp add: disk_ok_def no_files_def)
  have h: "host_ok (qo_server demo_query)" by (simp add: opts host_ok_def)
  have "obtain_session demo_store_env demo_io (\<lambda>_. True) demo_query (Inl CookiesExhausted) disk' =
       (Inr (Some (session_resume (ns_keys s) (take 64 (ns_cookies s)) (ns_ntp_server s) (ns_ntp_port s) (qo_server demo_query))), disk')"
    using query_resumes[of demo_measure fst snd demo_io "[1]" no_files demo_query "[115]" null_cipher "\<lambda>_ x. x" report s disk' "Inl CookiesExhausted"]
      demo_store_env_ok demo_io_ok d opts(1-3) h q st o tgt by (simp add: e host_ok_def) (simp add: demo_store_env_def)
  then show ?thesis using q t opts by auto
qed

end
