(* ===== verification/ConfigText.thy ===== *)
theory ConfigText
  imports TextBytes
begin

text \<open>The configuration file (\<open>crates/rusty_time-core/src/config.rs\<close>), the documented subset of chrony's: the parser
line by line with its errors, what it reports as ignored, and a printer it is compared with.  A string is its UTF-8
bytes; an \<open>i8\<close> is the integer it stands for.\<close>

section \<open>Data\<close>

record ServerDirective =
  cs_host :: bytes
  cs_is_pool :: bool
  cs_iburst :: bool
  cs_min_poll :: "int option"
  cs_max_poll :: "int option"

record Config =
  cf_servers :: "ServerDirective list"
  cf_makestep :: "(f64 \<times> u32) option"
  cf_max_slew_ppm :: "f64 option"
  cf_allow :: "bytes list"
  cf_deny :: "bytes list"
  cf_ignored :: "(nat \<times> bytes) list"

record ConfigError =
  ce_line :: nat
  ce_message :: bytes

definition config_default :: Config where
  "config_default = \<lparr> cf_servers = [], cf_makestep = None, cf_max_slew_ppm = None, cf_allow = [], cf_deny = [], cf_ignored = [] \<rparr>"

section \<open>The parser\<close>

text \<open>\<open>str::lines\<close>: each line feed ends a line, with a carriage return before it.\<close>

definition strip_cr :: "bytes \<Rightarrow> bytes" where
  "strip_cr line = (if line \<noteq> [] \<and> last line = 0x0D then butlast line else line)"

fun lines_go :: "bytes \<Rightarrow> bytes \<Rightarrow> bytes list" where
  "lines_go line [] = (if line = [] then [] else [line])"
| "lines_go line (b # bs) = (if b = 0x0A then strip_cr line # lines_go [] bs else lines_go (line @ [b]) bs)"

definition text_lines :: "bytes \<Rightarrow> bytes list" where "text_lines text = lines_go [] text"

definition config_err :: "nat \<Rightarrow> bytes \<Rightarrow> ConfigError" where
  "config_err line message = \<lparr> ce_line = line, ce_message = message \<rparr>"

definition parse_num :: "(bytes \<Rightarrow> 'a option) \<Rightarrow> nat \<Rightarrow> bytes \<Rightarrow> bytes option \<Rightarrow> ConfigError + 'a" where
  "parse_num reader line what val =
     (case val of None \<Rightarrow> Inl (config_err line (what @ ascii '' needs a value''))
      | Some v \<Rightarrow> (case reader v of
          None \<Rightarrow> Inl (config_err line (what @ ascii '': cannot parse '' @ [0x27] @ v @ [0x27]))
        | Some x \<Rightarrow> Inr x))"

definition first_arg :: "bytes list \<Rightarrow> bytes option" where "first_arg args = (case args of [] \<Rightarrow> None | a # _ \<Rightarrow> Some a)"

definition takes_value :: "bytes \<Rightarrow> bool" where
  "takes_value option = (option \<in> {ascii ''key'', ascii ''maxdelay'', ascii ''maxdelayratio'', ascii ''presend''})"

definition option_text :: "bytes \<Rightarrow> bytes \<Rightarrow> bytes" where
  "option_text d option = d @ ascii '' option '' @ [0x27] @ option @ [0x27]"

text \<open>The options of a server line; the second result is what they add to the ignored list.\<close>

fun server_options ::
  "nat \<Rightarrow> bytes \<Rightarrow> bytes list \<Rightarrow> ServerDirective \<Rightarrow> (nat \<times> bytes) list \<Rightarrow> ConfigError + ServerDirective \<times> (nat \<times> bytes) list" where
  "server_options line d [] s ignored = Inr (s, ignored)"
| "server_options line d (opt # rest) s ignored =
     (let low = ascii_lower opt in
      if low = ascii ''iburst'' then server_options line d rest (s\<lparr> cs_iburst := True \<rparr>) ignored
      else if low = ascii ''minpoll'' then
        (case parse_num (parse_signed 128) line (ascii ''minpoll'') (first_arg rest) of Inl e \<Rightarrow> Inl e
         | Inr v \<Rightarrow> server_options line d (drop 1 rest) (s\<lparr> cs_min_poll := Some v \<rparr>) ignored)
      else if low = ascii ''maxpoll'' then
        (case parse_num (parse_signed 128) line (ascii ''maxpoll'') (first_arg rest) of Inl e \<Rightarrow> Inl e
         | Inr v \<Rightarrow> server_options line d (drop 1 rest) (s\<lparr> cs_max_poll := Some v \<rparr>) ignored)
      else server_options line d (if takes_value low then drop 1 rest else rest) s (ignored @ [(line, option_text d low)]))"

definition server_line :: "nat \<Rightarrow> bytes \<Rightarrow> bytes list \<Rightarrow> Config \<Rightarrow> ConfigError + Config" where
  "server_line line d args cfg =
     (case args of [] \<Rightarrow> Inl (config_err line (d @ ascii '' needs a host''))
      | host # rest \<Rightarrow>
          (case server_options line d rest \<lparr> cs_host = host, cs_is_pool = (d = ascii ''pool''), cs_iburst = False,
                  cs_min_poll = None, cs_max_poll = None \<rparr> (cf_ignored cfg) of Inl e \<Rightarrow> Inl e
           | Inr (s, ignored) \<Rightarrow> Inr (cfg\<lparr> cf_servers := cf_servers cfg @ [s], cf_ignored := ignored \<rparr>)))"

text \<open>A negative limit is always; otherwise the cast keeps the low 32 bits.\<close>

definition makestep_limit :: "int \<Rightarrow> u32" where
  "makestep_limit limit = (if limit < 0 then - 1 else word_of_int limit)"

definition makestep_line :: "nat \<Rightarrow> bytes list \<Rightarrow> Config \<Rightarrow> ConfigError + Config" where
  "makestep_line line args cfg =
     (case parse_num parse_f64 line (ascii ''makestep threshold'') (first_arg args) of Inl e \<Rightarrow> Inl e
      | Inr threshold \<Rightarrow>
          (case parse_num (parse_signed (2 ^ 63)) line (ascii ''makestep limit'') (first_arg (drop 1 args)) of Inl e \<Rightarrow> Inl e
           | Inr limit \<Rightarrow> Inr (cfg\<lparr> cf_makestep := Some (threshold, makestep_limit limit) \<rparr>)))"

definition all_or :: "bytes list \<Rightarrow> bytes" where "all_or args = (case args of [] \<Rightarrow> ascii ''all'' | a # _ \<Rightarrow> a)"

definition apply_directive :: "nat \<Rightarrow> bytes \<Rightarrow> bytes list \<Rightarrow> Config \<Rightarrow> ConfigError + Config" where
  "apply_directive line d args cfg =
     (if d = ascii ''server'' \<or> d = ascii ''pool'' then server_line line d args cfg
      else if d = ascii ''makestep'' then makestep_line line args cfg
      else if d = ascii ''maxslewrate'' then
        (case parse_num parse_f64 line (ascii ''maxslewrate'') (first_arg args) of Inl e \<Rightarrow> Inl e
         | Inr v \<Rightarrow> Inr (cfg\<lparr> cf_max_slew_ppm := Some v \<rparr>))
      else if d = ascii ''allow'' then Inr (cfg\<lparr> cf_allow := cf_allow cfg @ [all_or args] \<rparr>)
      else if d = ascii ''deny'' then Inr (cfg\<lparr> cf_deny := cf_deny cfg @ [all_or args] \<rparr>)
      else Inr (cfg\<lparr> cf_ignored := cf_ignored cfg @ [(line, d)] \<rparr>))"

definition skipped :: "bytes \<Rightarrow> bool" where
  "skipped line \<longleftrightarrow> line = [] \<or> hd line \<in> {0x21, 0x3B, 0x23, 0x25}"

definition parse_line :: "nat \<Rightarrow> bytes \<Rightarrow> Config \<Rightarrow> ConfigError + Config" where
  "parse_line line_no raw cfg =
     (let line = trim raw in
      if skipped line then Inr cfg
      else case split_ws line of [] \<Rightarrow> Inr cfg
      | directive # args \<Rightarrow> apply_directive line_no (ascii_lower directive) args cfg)"

fun parse_lines :: "nat \<Rightarrow> bytes list \<Rightarrow> Config \<Rightarrow> ConfigError + Config" where
  "parse_lines idx [] cfg = Inr cfg"
| "parse_lines idx (raw # rest) cfg =
     (case parse_line (idx + 1) raw cfg of Inl e \<Rightarrow> Inl e | Inr cfg' \<Rightarrow> parse_lines (Suc idx) rest cfg')"

definition parse_config :: "bytes \<Rightarrow> ConfigError + Config" where
  "parse_config text = parse_lines 0 (text_lines text) config_default"

section \<open>Nothing is eaten silently\<close>

definition known_directives :: "bytes set" where
  "known_directives = {ascii ''server'', ascii ''pool'', ascii ''makestep'', ascii ''maxslewrate'', ascii ''allow'', ascii ''deny''}"

text \<open>The directive of a line that has one.\<close>

definition directive_of :: "bytes \<Rightarrow> bytes option" where
  "directive_of raw = (if skipped (trim raw) then None else map_option ascii_lower (first_arg (split_ws (trim raw))))"

lemma server_options_ignored:
  "server_options line d opts s ignored = Inr (s', ignored') \<Longrightarrow> \<exists>more. ignored' = ignored @ more"
proof (induction line d opts s ignored rule: server_options.induct)
  case (2 line d opt rest s ignored)
  let ?low = "ascii_lower opt"
  consider "?low = ascii ''iburst''" | "?low \<noteq> ascii ''iburst''" "?low = ascii ''minpoll''"
    | "?low \<noteq> ascii ''iburst''" "?low \<noteq> ascii ''minpoll''" "?low = ascii ''maxpoll''"
    | "?low \<noteq> ascii ''iburst''" "?low \<noteq> ascii ''minpoll''" "?low \<noteq> ascii ''maxpoll''" by blast
  then show ?case
  proof cases
    case 1
    then show ?thesis using "2.IH"(1)[OF refl 1] "2.prems" by (simp add: Let_def)
  next
    case two: 2
    then obtain v where v: "parse_num (parse_signed 128) line (ascii ''minpoll'') (first_arg rest) = Inr v"
      using "2.prems" by (simp add: Let_def split: sum.splits)
    then show ?thesis using "2.IH"(2)[OF refl two v] "2.prems" two by (simp add: Let_def)
  next
    case three: 3
    then obtain v where v: "parse_num (parse_signed 128) line (ascii ''maxpoll'') (first_arg rest) = Inr v"
      using "2.prems" by (simp add: Let_def split: sum.splits)
    then show ?thesis using "2.IH"(3)[OF refl three v] "2.prems" three by (simp add: Let_def)
  next
    case four: 4
    then obtain more where "ignored' = (ignored @ [(line, option_text d ?low)]) @ more"
      using "2.IH"(4)[OF refl four] "2.prems" by (auto simp: Let_def)
    then show ?thesis by simp
  qed
qed simp

lemma parse_num_line: "parse_num reader line what v = Inl e \<Longrightarrow> ce_line e = line"
  by (auto simp: parse_num_def config_err_def split: option.splits)

text \<open>An error does not depend on what has been read so far.\<close>

lemma server_options_error:
  "server_options line d opts s ignored = Inl e \<Longrightarrow> server_options line d opts s' ignored' = Inl e \<and> ce_line e = line"
proof (induction line d opts s ignored arbitrary: s' ignored' rule: server_options.induct)
  case (2 line d opt rest s ignored)
  let ?low = "ascii_lower opt"
  consider "?low = ascii ''iburst''" | "?low \<noteq> ascii ''iburst''" "?low = ascii ''minpoll''"
    | "?low \<noteq> ascii ''iburst''" "?low \<noteq> ascii ''minpoll''" "?low = ascii ''maxpoll''"
    | "?low \<noteq> ascii ''iburst''" "?low \<noteq> ascii ''minpoll''" "?low \<noteq> ascii ''maxpoll''" by blast
  then show ?case
  proof cases
    case 1
    then show ?thesis using "2.IH"(1)[OF refl 1] "2.prems" by (simp add: Let_def)
  next
    case two: 2
    then show ?thesis using "2.IH"(2)[OF refl two] "2.prems"
      by (cases "parse_num (parse_signed 128) line (ascii ''minpoll'') (first_arg rest)") (simp_all add: Let_def parse_num_line)
  next
    case three: 3
    then show ?thesis using "2.IH"(3)[OF refl three] "2.prems"
      by (cases "parse_num (parse_signed 128) line (ascii ''maxpoll'') (first_arg rest)") (simp_all add: Let_def parse_num_line)
  next
    case four: 4
    then show ?thesis using "2.IH"(4)[OF refl four] "2.prems" by (simp add: Let_def)
  qed
qed simp

lemma server_line_ignored:
  "server_line line d args cfg = Inr cfg' \<Longrightarrow> \<exists>more. cf_ignored cfg' = cf_ignored cfg @ more"
  by (auto simp: server_line_def dest!: server_options_ignored split: list.splits sum.splits prod.splits)

lemma server_line_error:
  assumes "server_line line d args cfg = Inl e"
  shows "server_line line d args cfg2 = Inl e \<and> ce_line e = line"
proof (cases args)
  case Nil
  then show ?thesis using assms by (auto simp: server_line_def config_err_def)
next
  case (Cons host rest)
  let ?s = "\<lparr> cs_host = host, cs_is_pool = (d = ascii ''pool''), cs_iburst = False, cs_min_poll = None, cs_max_poll = None \<rparr>"
  have "server_options line d rest ?s (cf_ignored cfg) = Inl e"
    using assms Cons by (simp add: server_line_def split: sum.splits prod.splits)
  then have "server_options line d rest ?s (cf_ignored cfg2) = Inl e \<and> ce_line e = line" by (rule server_options_error)
  then show ?thesis using Cons by (simp add: server_line_def)
qed

lemma makestep_line_cases:
  "makestep_line line args cfg = Inr cfg' \<Longrightarrow> cf_ignored cfg' = cf_ignored cfg"
  "makestep_line line args cfg = Inl e \<Longrightarrow> makestep_line line args cfg2 = Inl e \<and> ce_line e = line"
  by (auto simp: makestep_line_def dest: parse_num_line split: sum.splits)

lemma apply_directive_ignored:
  assumes "apply_directive n d args cfg = Inr cfg'"
  shows "\<exists>more. cf_ignored cfg' = cf_ignored cfg @ more \<and> (d \<in> known_directives \<or> (n, d) \<in> set more)"
proof (cases "d \<in> known_directives")
  case True
  then show ?thesis using assms server_line_ignored[of n d args cfg cfg'] makestep_line_cases(1)[of n args cfg cfg']
    by (simp add: apply_directive_def split: if_splits sum.splits) auto
next
  case False
  then have "cfg' = cfg\<lparr> cf_ignored := cf_ignored cfg @ [(n, d)] \<rparr>"
    using assms by (simp add: apply_directive_def known_directives_def)
  then show ?thesis by simp
qed

lemma apply_directive_error:
  "apply_directive n d args cfg = Inl e \<Longrightarrow> apply_directive n d args cfg2 = Inl e \<and> ce_line e = n"
proof -
  assume a: "apply_directive n d args cfg = Inl e"
  consider "d = ascii ''server'' \<or> d = ascii ''pool''" | "\<not> (d = ascii ''server'' \<or> d = ascii ''pool'')" "d = ascii ''makestep''"
    | "\<not> (d = ascii ''server'' \<or> d = ascii ''pool'')" "d \<noteq> ascii ''makestep''" by blast
  then show ?thesis
  proof cases
    case 1
    then show ?thesis using a server_line_error[of n d args cfg e cfg2] by (simp only: apply_directive_def if_True)
  next
    case 2
    then show ?thesis using a makestep_line_cases(2)[of n args cfg e cfg2] by (simp only: apply_directive_def refl if_True if_False)
  next
    case 3
    then show ?thesis using a parse_num_line[of parse_f64 n "ascii ''maxslewrate''" "first_arg args" e]
      by (cases "parse_num parse_f64 n (ascii ''maxslewrate'') (first_arg args)") (simp_all add: apply_directive_def split: if_splits)
  qed
qed

lemma parse_line_ignored:
  assumes "parse_line n raw cfg = Inr cfg'"
  shows "\<exists>more. cf_ignored cfg' = cf_ignored cfg @ more \<and>
    (\<forall>d. directive_of raw = Some d \<longrightarrow> d \<in> known_directives \<or> (n, d) \<in> set more)"
proof (cases "skipped (trim raw) \<or> split_ws (trim raw) = []")
  case True
  then show ?thesis using assms by (auto simp: parse_line_def directive_of_def first_arg_def)
next
  case False
  then obtain d args where l: "split_ws (trim raw) = d # args" "\<not> skipped (trim raw)" by (cases "split_ws (trim raw)") auto
  then have "apply_directive n (ascii_lower d) args cfg = Inr cfg'" using assms by (simp add: parse_line_def)
  then show ?thesis using apply_directive_ignored l by (auto simp: directive_of_def first_arg_def)
qed

lemma parse_line_error:
  assumes "parse_line n raw cfg = Inl e"
  shows "parse_line n raw cfg' = Inl e \<and> ce_line e = n"
proof -
  obtain d args where l: "\<not> skipped (trim raw)" "split_ws (trim raw) = d # args" "apply_directive n (ascii_lower d) args cfg = Inl e"
    using assms by (auto simp: parse_line_def Let_def split: if_splits list.splits)
  have "apply_directive n (ascii_lower d) args cfg' = Inl e \<and> ce_line e = n" by (rule apply_directive_error[OF l(3)])
  then show ?thesis using l(1,2) by (simp add: parse_line_def)
qed

lemma parse_lines_ignored:
  "parse_lines idx ls cfg = Inr cfg' \<Longrightarrow> (\<exists>more. cf_ignored cfg' = cf_ignored cfg @ more) \<and>
    (\<forall>i<length ls. \<forall>d. directive_of (ls ! i) = Some d \<longrightarrow> d \<in> known_directives \<or> (idx + i + 1, d) \<in> set (cf_ignored cfg'))"
proof (induction ls arbitrary: idx cfg)
  case (Cons raw ls)
  obtain cfg1 where p: "parse_line (idx + 1) raw cfg = Inr cfg1" "parse_lines (Suc idx) ls cfg1 = Inr cfg'"
    using Cons.prems by (auto split: sum.splits)
  obtain more where m: "cf_ignored cfg1 = cf_ignored cfg @ more"
    "\<forall>d. directive_of raw = Some d \<longrightarrow> d \<in> known_directives \<or> (idx + 1, d) \<in> set more" using parse_line_ignored[OF p(1)] by blast
  obtain more2 where m2: "cf_ignored cfg' = cf_ignored cfg1 @ more2" using Cons.IH[OF p(2)] by blast
  have "d \<in> known_directives \<or> (idx + i + 1, d) \<in> set (cf_ignored cfg')" if "i < length (raw # ls)" "directive_of ((raw # ls) ! i) = Some d" for i d
    using that m m2 Cons.IH[OF p(2)] by (cases i) auto
  then show ?case using m(1) m2 by auto
qed simp

lemma parse_lines_error:
  "parse_lines idx ls cfg = Inl e \<Longrightarrow> \<exists>i<length ls. ce_line e = idx + i + 1 \<and> (\<forall>cfg'. parse_line (ce_line e) (ls ! i) cfg' = Inl e) \<and>
    (\<exists>cfg'. parse_lines idx (take i ls) cfg = Inr cfg')"
proof (induction ls arbitrary: idx cfg)
  case (Cons raw ls)
  show ?case
  proof (cases "parse_line (idx + 1) raw cfg")
    case (Inl e')
    then have e: "e' = e" using Cons.prems by simp
    have "\<forall>cfg'. parse_line (idx + 1) raw cfg' = Inl e" "ce_line e = idx + 1" using parse_line_error[OF Inl] e by blast+
    then show ?thesis by (intro exI[of _ 0]) simp
  next
    case (Inr cfg1)
    then have "parse_lines (Suc idx) ls cfg1 = Inl e" using Cons.prems by simp
    then obtain i where "i < length ls" "ce_line e = Suc idx + i + 1" "\<forall>cfg'. parse_line (ce_line e) (ls ! i) cfg' = Inl e"
      "\<exists>cfg'. parse_lines (Suc idx) (take i ls) cfg1 = Inr cfg'" using Cons.IH by blast
    then show ?thesis using Inr by (intro exI[of _ "Suc i"]) simp
  qed
qed simp

text \<open>C37: the parser reports what it drops and where it fails.  When a file parses, every line with a
directive the program does not implement is in the ignored list with its number.  When it does not, the error names a
line of the file that is wrong whatever stands around it, and every line before it parses.\<close>

theorem config_reports:
  shows "case parse_config text of
      Inr cfg \<Rightarrow> (\<forall>i d. i < length (text_lines text) \<and> directive_of (text_lines text ! i) = Some d \<longrightarrow>
        d \<in> known_directives \<or> (i + 1, d) \<in> set (cf_ignored cfg))
    | Inl e \<Rightarrow> (\<exists>i<length (text_lines text). ce_line e = i + 1 \<and>
        (\<forall>cfg. parse_line (ce_line e) (text_lines text ! i) cfg = Inl e) \<and>
        (\<exists>cfg. parse_lines 0 (take i (text_lines text)) config_default = Inr cfg))"
proof (cases "parse_config text")
  case (Inl e)
  then show ?thesis using parse_lines_error[of 0 "text_lines text" config_default e] by (simp add: parse_config_def)
next
  case (Inr cfg)
  then show ?thesis using parse_lines_ignored[of 0 "text_lines text" config_default cfg] by (simp add: parse_config_def)
qed


lemma config_reports_witness:
  "(\<exists>cfg. parse_config (ascii ''rtcsync'') = Inr cfg \<and> (1, ascii ''rtcsync'') \<in> set (cf_ignored cfg)) \<and>
   (\<exists>e. parse_config (ascii ''allow'' @ [0x0A] @ ascii ''Server'') = Inl e \<and> ce_line e \<in> {1, 2})"
proof
  have l: "text_lines (ascii ''rtcsync'') = [ascii ''rtcsync'']" "directive_of (ascii ''rtcsync'') = Some (ascii ''rtcsync'')"
    "ascii ''rtcsync'' \<notin> known_directives" by code_simp+
  have "\<not> isl (parse_config (ascii ''rtcsync''))" by code_simp
  then obtain cfg where c: "parse_config (ascii ''rtcsync'') = Inr cfg" by (cases "parse_config (ascii ''rtcsync'')") auto
  then show "\<exists>cfg. parse_config (ascii ''rtcsync'') = Inr cfg \<and> (1, ascii ''rtcsync'') \<in> set (cf_ignored cfg)"
    using config_reports[of "ascii ''rtcsync''"] l by auto
  have t: "length (text_lines (ascii ''allow'' @ [0x0A] @ ascii ''Server'')) = 2" by code_simp
  have "isl (parse_config (ascii ''allow'' @ [0x0A] @ ascii ''Server''))" by code_simp
  then obtain e where e: "parse_config (ascii ''allow'' @ [0x0A] @ ascii ''Server'') = Inl e"
    by (cases "parse_config (ascii ''allow'' @ [0x0A] @ ascii ''Server'')") auto
  then show "\<exists>e. parse_config (ascii ''allow'' @ [0x0A] @ ascii ''Server'') = Inl e \<and> ce_line e \<in> {1, 2}"
    using config_reports[of "ascii ''allow'' @ [0x0A] @ ascii ''Server''"] t by (auto simp: less_Suc_eq numeral_2_eq_2)
qed

section \<open>Printing\<close>

definition join_words :: "bytes list \<Rightarrow> bytes" where
  "join_words ws = concat (map (\<lambda>w. w @ [0x20]) (butlast ws)) @ last ws"

definition int_text :: "int \<Rightarrow> bytes" where
  "int_text v = (if v < 0 then [0x2D] @ digits_of (nat (- v)) else digits_of (nat v))"

definition poll_words :: "bytes \<Rightarrow> int option \<Rightarrow> bytes list" where
  "poll_words name v = (case v of None \<Rightarrow> [] | Some p \<Rightarrow> [name, int_text p])"

definition server_words :: "ServerDirective \<Rightarrow> bytes list" where
  "server_words s = [if cs_is_pool s then ascii ''pool'' else ascii ''server'', cs_host s] @
     (if cs_iburst s then [ascii ''iburst''] else []) @ poll_words (ascii ''minpoll'') (cs_min_poll s) @
     poll_words (ascii ''maxpoll'') (cs_max_poll s)"

definition makestep_words :: "(f64 \<Rightarrow> bytes) \<Rightarrow> f64 \<times> u32 \<Rightarrow> bytes list" where
  "makestep_words display m = [ascii ''makestep'', display (fst m), digits_of (unat (snd m))]"

definition config_words :: "(f64 \<Rightarrow> bytes) \<Rightarrow> Config \<Rightarrow> bytes list list" where
  "config_words display cfg = map server_words (cf_servers cfg) @
     (case cf_makestep cfg of None \<Rightarrow> [] | Some m \<Rightarrow> [makestep_words display m]) @
     (case cf_max_slew_ppm cfg of None \<Rightarrow> [] | Some v \<Rightarrow> [[ascii ''maxslewrate'', display v]]) @
     map (\<lambda>a. [ascii ''allow'', a]) (cf_allow cfg) @ map (\<lambda>a. [ascii ''deny'', a]) (cf_deny cfg)"

definition print_config :: "(f64 \<Rightarrow> bytes) \<Rightarrow> Config \<Rightarrow> bytes" where
  "print_config display cfg = concat (map (\<lambda>ws. join_words ws @ [0x0A]) (config_words display cfg))"

text \<open>What a file can say: names are words, polls are \<open>i8\<close>s.\<close>

definition server_ok :: "ServerDirective \<Rightarrow> bool" where
  "server_ok s \<longleftrightarrow> plain_word (cs_host s) \<and> (\<forall>v\<in>set_option (cs_min_poll s) \<union> set_option (cs_max_poll s). - 128 \<le> v \<and> v < 128)"

definition config_ok :: "Config \<Rightarrow> bool" where
  "config_ok cfg \<longleftrightarrow> list_all server_ok (cf_servers cfg) \<and> list_all plain_word (cf_allow cfg) \<and> list_all plain_word (cf_deny cfg) \<and> cf_ignored cfg = []"

definition config_floats :: "Config \<Rightarrow> f64 set" where
  "config_floats cfg = set_option (map_option fst (cf_makestep cfg)) \<union> set_option (cf_max_slew_ppm cfg)"

definition display_ok :: "(f64 \<Rightarrow> bytes) \<Rightarrow> f64 \<Rightarrow> bool" where
  "display_ok display x \<longleftrightarrow> plain_word (display x) \<and> parse_f64 (display x) = Some x"

lemma trim_words:
  assumes "list_all (\<lambda>b. no_ws b \<or> b = 0x20) s" "s \<noteq> []" "no_ws (hd s)" "no_ws (last s)"
  shows "trim s = s"
proof -
  have keep: "trim_start 0 (b # bs) = b # bs" if "no_ws b" for b bs using ws_len_no[OF that] by (simp del: ws_len.simps)
  have some: "list_all (\<lambda>b. no_ws b \<or> b = 0x20) t \<Longrightarrow> t \<noteq> [] \<Longrightarrow> no_ws (last t) \<Longrightarrow> trim_start 0 t \<noteq> []" for t
  proof (induction t)
    case (Cons b t)
    show ?case
    proof (cases "no_ws b")
      case True
      then show ?thesis using keep by simp
    next
      case False
      then have "b = 0x20" "t \<noteq> []" using Cons.prems by auto
      then show ?thesis using Cons by (auto split: if_splits)
    qed
  qed simp
  have whole_end: "list_all (\<lambda>b. no_ws b \<or> b = 0x20) t \<Longrightarrow> t \<noteq> [] \<Longrightarrow> no_ws (last t) \<Longrightarrow> trim_end t = t" for t
  proof (induction t)
    case (Cons b t)
    have "trim_start 0 (b # t) \<noteq> []" by (rule some[OF Cons.prems])
    moreover have "trim_end t = t" using Cons by (cases "t = []") simp_all
    ultimately show ?case by simp
  qed simp
  obtain b bs where s: "s = b # bs" using assms(2) by (cases s) auto
  then have "trim_start 0 s = s" using keep assms(3) by simp
  then show ?thesis using whole_end[OF assms(1,2,4)] by (simp add: trim_def)
qed

lemma join_words_facts:
  assumes "list_all plain_word ws" "ws \<noteq> []"
  shows "list_all (\<lambda>b. no_ws b \<or> b = 0x20) (join_words ws)" "join_words ws \<noteq> []" "hd (join_words ws) = hd (hd ws)"
    "last (join_words ws) = last (last ws)" "no_ws (hd (join_words ws))" "no_ws (last (join_words ws))"
proof -
  have p: "plain_word w" if "w \<in> set ws" for w using assms(1) that by (simp add: list_all_iff)
  have l: "last ws \<noteq> []" "list_all no_ws (last ws)" using p[OF last_in_set[OF assms(2)]] by (simp_all add: plain_word_def)
  have f: "hd ws \<noteq> []" "list_all no_ws (hd ws)" using p[OF hd_in_set[OF assms(2)]] by (simp_all add: plain_word_def)
  show "list_all (\<lambda>b. no_ws b \<or> b = 0x20) (join_words ws)"
    using p l by (fastforce simp: join_words_def list_all_iff plain_word_def dest: in_set_butlastD)
  show ne: "join_words ws \<noteq> []" using l by (simp add: join_words_def)
  show h: "hd (join_words ws) = hd (hd ws)" using assms(2) f by (cases ws) (auto simp: join_words_def hd_append)
  show t: "last (join_words ws) = last (last ws)" using l by (simp add: join_words_def)
  show "no_ws (hd (join_words ws))" unfolding h using f by (simp add: list_all_iff)
  show "no_ws (last (join_words ws))" unfolding t using l by (simp add: list_all_iff)
qed

lemma lines_of_words:
  assumes "\<forall>l\<in>set ls. 0x0A \<notin> set l \<and> (l \<noteq> [] \<longrightarrow> last l \<noteq> 0x0D)"
  shows "text_lines (concat (map (\<lambda>l. l @ [0x0A]) ls)) = ls"
proof -
  have one: "0x0A \<notin> set l \<Longrightarrow> lines_go pre (l @ 0x0A # rest) = strip_cr (pre @ l) # lines_go [] rest" for l pre rest
    by (induction l arbitrary: pre) auto
  show ?thesis using assms unfolding text_lines_def
    by (induction ls) (auto simp: one strip_cr_def)
qed

lemma parse_words:
  assumes "list_all plain_word ws" "ws \<noteq> []" "hd (hd ws) \<notin> {0x21, 0x3B, 0x23, 0x25}"
  shows "parse_line n (join_words ws) cfg = apply_directive n (ascii_lower (hd ws)) (tl ws) cfg"
proof -
  note f = join_words_facts[OF assms(1,2)]
  have "trim (join_words ws) = join_words ws" by (rule trim_words[OF f(1,2,5,6)])
  moreover have "\<not> skipped (join_words ws)" using f(2,3) assms(3) by (simp add: skipped_def)
  moreover have "split_ws (join_words ws) = ws" unfolding join_words_def by (rule split_words(2)[OF assms(1,2)])
  moreover obtain d args where "ws = d # args" using assms(2) by (cases ws) auto
  ultimately show ?thesis by (simp add: parse_line_def)
qed

lemma int_text_back:
  assumes "- int limit \<le> v" "v < int limit"
  shows "parse_signed limit (int_text v) = Some v" "plain_word (int_text v)"
proof -
  obtain d ds where e: "digits_of (nat v) = d # ds" using digits_of_plain(2)[of "nat v"] by (cases "digits_of (nat v)") auto
  then have d: "d \<noteq> 0x2D" using digits_of_plain(1)[of "nat v"] by (auto simp: is_digit_def)
  show "parse_signed limit (int_text v) = Some v"
  proof (cases "v < 0")
    case True
    then show ?thesis using assms(1) parse_digits_of[of "nat (- v)"] by (simp add: int_text_def nat_le_iff)
  next
    case False
    then have "parse_unsigned limit (digits_of (nat v)) = Some (nat v)" using assms(2) by (intro parse_unsigned_of) linarith
    then show ?thesis using False d by (simp add: int_text_def e del: parse_unsigned.simps)
  qed
  have "no_ws 0x2D" by (simp add: no_ws_def)
  then show "plain_word (int_text v)" using digits_plain by (simp add: int_text_def plain_word_def)
qed


section \<open>Reading back\<close>

lemma low_words [simp]:
  "ascii_lower (ascii ''server'') = ascii ''server''" "ascii_lower (ascii ''pool'') = ascii ''pool''"
  "ascii_lower (ascii ''iburst'') = ascii ''iburst''" "ascii_lower (ascii ''minpoll'') = ascii ''minpoll''"
  "ascii_lower (ascii ''maxpoll'') = ascii ''maxpoll''" "ascii_lower (ascii ''makestep'') = ascii ''makestep''"
  "ascii_lower (ascii ''maxslewrate'') = ascii ''maxslewrate''" "ascii_lower (ascii ''allow'') = ascii ''allow''"
  "ascii_lower (ascii ''deny'') = ascii ''deny''"
  by code_simp+

lemma keyword_words:
  "list_all plain_word [ascii ''server'', ascii ''pool'', ascii ''iburst'', ascii ''minpoll'', ascii ''maxpoll'', ascii ''makestep'',
     ascii ''maxslewrate'', ascii ''allow'', ascii ''deny'']"
  by code_simp

lemma keywords_apart:
  "distinct [ascii ''server'', ascii ''pool'', ascii ''iburst'', ascii ''minpoll'', ascii ''maxpoll'', ascii ''makestep'',
     ascii ''maxslewrate'', ascii ''allow'', ascii ''deny'']"
  by code_simp

lemma not_comments:
  "list_all (\<lambda>w. hd w \<notin> {0x21, 0x3B, 0x23, 0x25}) [ascii ''server'', ascii ''pool'', ascii ''makestep'', ascii ''maxslewrate'', ascii ''allow'', ascii ''deny'']"
  by code_simp

lemma parse_poll:
  assumes "- 128 \<le> v" "v < 128"
  shows "parse_num (parse_signed 128) line what (first_arg (int_text v # rest)) = Inr v"
proof -
  have "parse_signed 128 (int_text v) = Some v" using int_text_back(1)[of 128 v] assms by (simp del: parse_signed.simps)
  then show ?thesis by (simp add: parse_num_def first_arg_def del: parse_signed.simps)
qed

lemma poll_words_read:
  assumes "\<forall>v\<in>set_option p. - 128 \<le> v \<and> v < 128"
  shows "server_options line d (poll_words (ascii ''minpoll'') p @ rest) s ignored =
      server_options line d rest (case p of None \<Rightarrow> s | Some v \<Rightarrow> s\<lparr> cs_min_poll := Some v \<rparr>) ignored"
    "server_options line d (poll_words (ascii ''maxpoll'') p @ rest) s ignored =
      server_options line d rest (case p of None \<Rightarrow> s | Some v \<Rightarrow> s\<lparr> cs_max_poll := Some v \<rparr>) ignored"
proof -
  have k: "ascii ''minpoll'' \<noteq> ascii ''iburst''" "ascii ''maxpoll'' \<noteq> ascii ''iburst''" "ascii ''maxpoll'' \<noteq> ascii ''minpoll''"
    by code_simp+
  show "server_options line d (poll_words (ascii ''minpoll'') p @ rest) s ignored =
      server_options line d rest (case p of None \<Rightarrow> s | Some v \<Rightarrow> s\<lparr> cs_min_poll := Some v \<rparr>) ignored"
    using assms by (cases p) (simp_all add: poll_words_def k Let_def parse_poll del: parse_signed.simps)
  show "server_options line d (poll_words (ascii ''maxpoll'') p @ rest) s ignored =
      server_options line d rest (case p of None \<Rightarrow> s | Some v \<Rightarrow> s\<lparr> cs_max_poll := Some v \<rparr>) ignored"
    using assms by (cases p) (simp_all add: poll_words_def k Let_def parse_poll del: parse_signed.simps)
qed

lemma server_words_plain:
  assumes "server_ok s"
  shows "list_all plain_word (server_words s)"
proof -
  have "list_all plain_word (poll_words k p)" if p: "plain_word k" "\<forall>v\<in>set_option p. - 128 \<le> v \<and> v < 128" for k p
    using p int_text_back(2)[of 128] by (cases p) (simp_all add: poll_words_def)
  then show ?thesis using assms keyword_words by (simp add: server_words_def server_ok_def)
qed

lemma server_words_read:
  assumes "server_ok s"
  shows "parse_line n (join_words (server_words s)) cfg = Inr (cfg\<lparr> cf_servers := cf_servers cfg @ [s] \<rparr>)"
proof -
  let ?d = "if cs_is_pool s then ascii ''pool'' else ascii ''server''"
  let ?opts = "(if cs_iburst s then [ascii ''iburst''] else []) @ poll_words (ascii ''minpoll'') (cs_min_poll s) @ poll_words (ascii ''maxpoll'') (cs_max_poll s)"
  have polls: "\<forall>v\<in>set_option (cs_min_poll s). - 128 \<le> v \<and> v < 128" "\<forall>v\<in>set_option (cs_max_poll s). - 128 \<le> v \<and> v < 128"
    using assms by (auto simp: server_ok_def)
  have d: "?d = ascii ''server'' \<or> ?d = ascii ''pool''" "ascii_lower ?d = ?d" "(?d = ascii ''pool'') = cs_is_pool s"
    using keywords_apart by auto
  have w: "list_all plain_word (server_words s)" by (rule server_words_plain[OF assms])
  have c: "hd (hd (server_words s)) \<notin> {0x21, 0x3B, 0x23, 0x25}" using not_comments by (simp add: server_words_def)
  let ?s0 = "\<lparr> cs_host = cs_host s, cs_is_pool = cs_is_pool s, cs_iburst = False, cs_min_poll = None, cs_max_poll = None \<rparr>"
  have "server_options n ?d ?opts ?s0 (cf_ignored cfg) =
      server_options n ?d (poll_words (ascii ''minpoll'') (cs_min_poll s) @ poll_words (ascii ''maxpoll'') (cs_max_poll s) @ [])
        (?s0\<lparr> cs_iburst := cs_iburst s \<rparr>) (cf_ignored cfg)"
    by (simp add: Let_def)
  also have "\<dots> = Inr (s, cf_ignored cfg)"
    unfolding poll_words_read(1)[OF polls(1)] poll_words_read(2)[OF polls(2)] by (simp split: option.splits)
  finally have o: "server_options n ?d ?opts ?s0 (cf_ignored cfg) = Inr (s, cf_ignored cfg)" .
  have "parse_line n (join_words (server_words s)) cfg = apply_directive n ?d (cs_host s # ?opts) cfg"
    using parse_words[OF w _ c, of n cfg] d(2) by (simp add: server_words_def)
  also have "\<dots> = server_line n ?d (cs_host s # ?opts) cfg" using d(1) by (simp only: apply_directive_def if_True)
  also have "\<dots> = Inr (cfg\<lparr> cf_servers := cf_servers cfg @ [s] \<rparr>)" unfolding server_line_def list.case d(3) o by simp
  finally show ?thesis .
qed

lemma word_line:
  assumes "k \<in> {ascii ''makestep'', ascii ''maxslewrate'', ascii ''allow'', ascii ''deny''}" "list_all plain_word args"
  shows "parse_line n (join_words (k # args)) cfg = apply_directive n k args cfg"
proof -
  have "list_all plain_word (k # args)" "hd (hd (k # args)) \<notin> {0x21, 0x3B, 0x23, 0x25}" "ascii_lower k = k"
    using assms keyword_words not_comments by auto
  then show ?thesis using parse_words[of "k # args" n cfg] by simp
qed

lemma makestep_words_read:
  assumes "display_ok display (fst m)"
  shows "parse_line n (join_words (makestep_words display m)) cfg = Inr (cfg\<lparr> cf_makestep := Some m \<rparr>)"
proof -
  have "unat (snd m) < 2 ^ 32" using unsigned_less[of "snd m"] by simp
  then have "unat (snd m) < 2 ^ 63" by simp
  then have "int (unat (snd m)) < int (2 ^ 63)" by (simp only: of_nat_less_iff)
  moreover have "- int (2 ^ 63) \<le> int (unat (snd m))" by (rule order_trans[of _ 0]) simp_all
  ultimately have i: "parse_signed (2 ^ 63) (digits_of (unat (snd m))) = Some (int (unat (snd m)))"
    using int_text_back(1)[of "2 ^ 63" "int (unat (snd m))"] by (simp add: int_text_def del: parse_signed.simps)
  have l: "makestep_limit (int (unat (snd m))) = snd m" by (simp add: makestep_limit_def)
  have "parse_line n (join_words (makestep_words display m)) cfg = makestep_line n [display (fst m), digits_of (unat (snd m))] cfg"
    using assms digits_plain keywords_apart unfolding makestep_words_def
    by (subst word_line) (auto simp: display_ok_def apply_directive_def)
  then show ?thesis using assms i l by (simp add: makestep_line_def parse_num_def first_arg_def display_ok_def del: parse_signed.simps)
qed

lemma slew_words_read:
  assumes "display_ok display v"
  shows "parse_line n (join_words [ascii ''maxslewrate'', display v]) cfg = Inr (cfg\<lparr> cf_max_slew_ppm := Some v \<rparr>)"
  using assms keywords_apart
  by (subst word_line) (auto simp: display_ok_def apply_directive_def parse_num_def first_arg_def)

lemma access_words_read:
  assumes "plain_word a"
  shows "parse_line n (join_words [ascii ''allow'', a]) cfg = Inr (cfg\<lparr> cf_allow := cf_allow cfg @ [a] \<rparr>)"
    "parse_line n (join_words [ascii ''deny'', a]) cfg = Inr (cfg\<lparr> cf_deny := cf_deny cfg @ [a] \<rparr>)"
  using assms keywords_apart by (subst word_line; auto simp: apply_directive_def all_or_def)+

text \<open>Lines that each update the configuration, in order.\<close>

lemma parse_lines_fold:
  assumes "\<And>n c x. x \<in> set xs \<Longrightarrow> parse_line n (f x) c = Inr (upd x c)"
  shows "parse_lines idx (map f xs @ rest) cfg = parse_lines (idx + length xs) rest (fold upd xs cfg)"
  using assms by (induction xs arbitrary: idx cfg) (simp_all add: add_ac)

lemma fold_appends:
  "fold (\<lambda>s c. c\<lparr> cf_servers := cf_servers c @ [s] \<rparr>) ss cfg = cfg\<lparr> cf_servers := cf_servers cfg @ ss \<rparr>"
  "fold (\<lambda>a c. c\<lparr> cf_allow := cf_allow c @ [a] \<rparr>) as cfg = cfg\<lparr> cf_allow := cf_allow cfg @ as \<rparr>"
  "fold (\<lambda>a c. c\<lparr> cf_deny := cf_deny c @ [a] \<rparr>) ds cfg = cfg\<lparr> cf_deny := cf_deny cfg @ ds \<rparr>"
proof -
  show "fold (\<lambda>s c. c\<lparr> cf_servers := cf_servers c @ [s] \<rparr>) ss cfg = cfg\<lparr> cf_servers := cf_servers cfg @ ss \<rparr>"
    by (induction ss arbitrary: cfg) simp_all
  show "fold (\<lambda>a c. c\<lparr> cf_allow := cf_allow c @ [a] \<rparr>) as cfg = cfg\<lparr> cf_allow := cf_allow cfg @ as \<rparr>"
    by (induction as arbitrary: cfg) simp_all
  show "fold (\<lambda>a c. c\<lparr> cf_deny := cf_deny c @ [a] \<rparr>) ds cfg = cfg\<lparr> cf_deny := cf_deny cfg @ ds \<rparr>"
    by (induction ds arbitrary: cfg) simp_all
qed

text \<open>C38: a printed configuration reads back as itself.  Print any configuration whose names are words
and whose polls are in range, with a display of floats that the float parser inverts on the two it holds: the parser
returns the same servers with their options, step policy, slew rate and access lists, and ignores nothing.\<close>

theorem config_round_trip:
  assumes "config_ok cfg" "\<forall>x\<in>config_floats cfg. display_ok display x"
  shows "parse_config (print_config display cfg) = Inr cfg"
proof -
  have s: "\<And>s. s \<in> set (cf_servers cfg) \<Longrightarrow> server_ok s" and a: "\<And>w. w \<in> set (cf_allow cfg) \<union> set (cf_deny cfg) \<Longrightarrow> plain_word w"
    and ig: "cf_ignored cfg = []" using assms(1) by (auto simp: config_ok_def list_all_iff)
  let ?line = "\<lambda>ws. join_words ws"
  have wf: "list_all plain_word ws \<and> ws \<noteq> []" if ws: "ws \<in> set (config_words display cfg)" for ws
  proof -
    have "ws \<in> server_words ` set (cf_servers cfg) \<or> (\<exists>m. cf_makestep cfg = Some m \<and> ws = makestep_words display m) \<or>
        (\<exists>v. cf_max_slew_ppm cfg = Some v \<and> ws = [ascii ''maxslewrate'', display v]) \<or>
        ws \<in> (\<lambda>a. [ascii ''allow'', a]) ` set (cf_allow cfg) \<or> ws \<in> (\<lambda>a. [ascii ''deny'', a]) ` set (cf_deny cfg)"
      using ws by (cases "cf_makestep cfg"; cases "cf_max_slew_ppm cfg") (simp_all only: config_words_def option.case set_append set_map Un_iff list.set empty_iff insert_iff option.inject option.distinct, blast+)
    then consider s where "s \<in> set (cf_servers cfg)" "ws = server_words s" | m where "cf_makestep cfg = Some m" "ws = makestep_words display m"
      | v where "cf_max_slew_ppm cfg = Some v" "ws = [ascii ''maxslewrate'', display v]"
      | w k where "w \<in> set (cf_allow cfg) \<union> set (cf_deny cfg)" "k \<in> {ascii ''allow'', ascii ''deny''}" "ws = [k, w]"
      by (elim disjE imageE exE conjE) (blast | (metis UnI1 UnI2 insertI1 insertI2))+
    then show ?thesis
    proof cases
      case 1
      then show ?thesis using server_words_plain[OF s[OF 1(1)]] by (simp add: server_words_def)
    next
      case 2
      then show ?thesis using assms(2) keyword_words digits_plain by (simp add: makestep_words_def display_ok_def config_floats_def)
    next
      case 3
      then show ?thesis using assms(2) keyword_words by (simp add: display_ok_def config_floats_def)
    next
      case 4
      then show ?thesis using a[OF 4(1)] keyword_words by auto
    qed
  qed
  have "text_lines (concat (map (\<lambda>l. l @ [0x0A]) (map ?line (config_words display cfg)))) = map ?line (config_words display cfg)"
  proof (rule lines_of_words, intro ballI)
    fix l assume "l \<in> set (map ?line (config_words display cfg))"
    then obtain ws where "list_all plain_word ws" "ws \<noteq> []" "l = join_words ws" using wf by auto
    then have "list_all (\<lambda>b. no_ws b \<or> b = 0x20) l" "no_ws (last l)" using join_words_facts by blast+
    moreover have "\<not> no_ws 0x0A" "\<not> no_ws 0x0D" "(0x0A :: u8) \<noteq> 0x20" by (simp_all add: no_ws_def)
    ultimately show "0x0A \<notin> set l \<and> (l \<noteq> [] \<longrightarrow> last l \<noteq> 0x0D)" unfolding list_all_iff by metis
  qed
  then have "parse_config (print_config display cfg) = parse_lines 0 (map ?line (config_words display cfg)) config_default"
    by (simp add: parse_config_def print_config_def comp_def)
  also have "\<dots> = Inr cfg"
  proof -
    let ?c1 = "config_default\<lparr> cf_servers := cf_servers cfg \<rparr>" and ?i = "length (cf_servers cfg)"
    let ?ms = "case cf_makestep cfg of None \<Rightarrow> [] | Some m \<Rightarrow> [makestep_words display m]"
    let ?sl = "case cf_max_slew_ppm cfg of None \<Rightarrow> [] | Some v \<Rightarrow> [[ascii ''maxslewrate'', display v]]"
    let ?rest = "map (\<lambda>w. ?line [ascii ''allow'', w]) (cf_allow cfg) @ map (\<lambda>w. ?line [ascii ''deny'', w]) (cf_deny cfg)"
    have "parse_lines 0 (map ?line (config_words display cfg)) config_default =
        parse_lines 0 (map (\<lambda>s. ?line (server_words s)) (cf_servers cfg) @ map ?line ?ms @ map ?line ?sl @ ?rest) config_default"
      by (simp add: config_words_def comp_def)
    also have "\<dots> = parse_lines ?i (map ?line ?ms @ map ?line ?sl @ ?rest) ?c1"
      using parse_lines_fold[of "cf_servers cfg" "\<lambda>s. ?line (server_words s)" "\<lambda>s c. c\<lparr> cf_servers := cf_servers c @ [s] \<rparr>"]
        server_words_read s by (simp add: fold_appends config_default_def)
    also have "\<dots> = parse_lines (?i + length ?ms) (map ?line ?sl @ ?rest) (?c1\<lparr> cf_makestep := cf_makestep cfg \<rparr>)"
      using makestep_words_read[of display] assms(2) by (cases "cf_makestep cfg") (simp_all add: config_floats_def config_default_def)
    also have "\<dots> = parse_lines (?i + length ?ms + length ?sl) ?rest (?c1\<lparr> cf_makestep := cf_makestep cfg, cf_max_slew_ppm := cf_max_slew_ppm cfg \<rparr>)"
      using slew_words_read[of display] assms(2) by (cases "cf_max_slew_ppm cfg") (simp_all add: config_floats_def config_default_def)
    also have "\<dots> = parse_lines (?i + length ?ms + length ?sl + length (cf_allow cfg)) (map (\<lambda>w. ?line [ascii ''deny'', w]) (cf_deny cfg) @ [])
        (?c1\<lparr> cf_makestep := cf_makestep cfg, cf_max_slew_ppm := cf_max_slew_ppm cfg, cf_allow := cf_allow cfg \<rparr>)"
      using parse_lines_fold[of "cf_allow cfg" "\<lambda>w. ?line [ascii ''allow'', w]" "\<lambda>w c. c\<lparr> cf_allow := cf_allow c @ [w] \<rparr>"]
        access_words_read(1) a by (simp add: fold_appends config_default_def)
    also have "\<dots> = Inr (?c1\<lparr> cf_makestep := cf_makestep cfg, cf_max_slew_ppm := cf_max_slew_ppm cfg, cf_allow := cf_allow cfg, cf_deny := cf_deny cfg \<rparr>)"
      using parse_lines_fold[of "cf_deny cfg" "\<lambda>w. ?line [ascii ''deny'', w]" "\<lambda>w c. c\<lparr> cf_deny := cf_deny c @ [w] \<rparr>" _ "[]"]
        access_words_read(2) a by (simp add: fold_appends config_default_def)
    also have "\<dots> = Inr cfg" using ig by (cases cfg) (simp add: config_default_def)
    finally show ?thesis .
  qed
  finally show ?thesis .
qed


definition demo_config :: Config where
  "demo_config = \<lparr> cf_servers = [\<lparr> cs_host = [97], cs_is_pool = False, cs_iburst = True, cs_min_poll = Some (- 4), cs_max_poll = None \<rparr>],
     cf_makestep = Some (FInf False, 3), cf_max_slew_ppm = None, cf_allow = [[98]], cf_deny = [], cf_ignored = [] \<rparr>"

lemma config_round_trip_witness:
  "print_config (\<lambda>_. ascii ''inf'') demo_config = ascii ''server a iburst minpoll -4'' @ [0x0A] @ ascii ''makestep inf 3'' @ [0x0A] @ ascii ''allow b'' @ [0x0A] \<and>
   parse_config (print_config (\<lambda>_. ascii ''inf'') demo_config) = Inr demo_config"
proof
  show "print_config (\<lambda>_. ascii ''inf'') demo_config = ascii ''server a iburst minpoll -4'' @ [0x0A] @ ascii ''makestep inf 3'' @ [0x0A] @ ascii ''allow b'' @ [0x0A]"
    by code_simp
  have "config_ok demo_config" by (simp add: demo_config_def config_ok_def server_ok_def plain_word_def no_ws_def)
  moreover have "\<forall>x\<in>config_floats demo_config. display_ok (\<lambda>_. ascii ''inf'') x"
    by (simp add: demo_config_def config_floats_def display_ok_def plain_word_def no_ws_def ascii_def parse_f64_def ascii_lower_def)
  ultimately show "parse_config (print_config (\<lambda>_. ascii ''inf'') demo_config) = Inr demo_config" by (rule config_round_trip)
qed

section \<open>Where the parser surprises\<close>

text \<open>A limit of \<open>2 ^ 32\<close> or more wraps: the cast from \<open>i64\<close> keeps the low bits, and such a file never steps.\<close>

lemma makestep_limit_wraps: "makestep_limit (2 ^ 32) = 0" "0 \<le> v \<Longrightarrow> makestep_limit (v + 2 ^ 32) = makestep_limit v"
proof -
  have "(word_of_int (v + 2 ^ 32) :: u32) = word_of_int v + word_of_int (2 ^ 32)" by (simp only: of_int_add)
  also have "(word_of_int (2 ^ 32) :: u32) = 0" by simp
  finally show "makestep_limit (2 ^ 32) = 0" "0 \<le> v \<Longrightarrow> makestep_limit (v + 2 ^ 32) = makestep_limit v"
    by (simp_all add: makestep_limit_def)
qed

text \<open>Arguments past the ones a directive takes are dropped without a report.\<close>

lemma extra_arguments_dropped:
  "apply_directive n (ascii ''allow'') (a # xs) cfg = apply_directive n (ascii ''allow'') [a] cfg"
  "makestep_line n (a # b # xs) cfg = makestep_line n [a, b] cfg"
proof -
  show "apply_directive n (ascii ''allow'') (a # xs) cfg = apply_directive n (ascii ''allow'') [a] cfg"
    using keywords_apart by (auto simp: apply_directive_def all_or_def)
  have "first_arg (drop 1 (a # b # xs)) = first_arg (drop 1 [a, b])" "first_arg (a # b # xs) = first_arg [a, b]"
    by (simp_all add: first_arg_def)
  then show "makestep_line n (a # b # xs) cfg = makestep_line n [a, b] cfg" by (simp only: makestep_line_def)
qed

end
