(* ===== verification/Spec2Isabelle.thy ===== *)
theory Spec2Isabelle
  imports VClock Slew Refclock TableRuns ServerPairing SyncRuns Dates Query ConfigText
begin

text \<open>
\<^bold>\<open>rusty_time: a verification library.\<close>

The program is an NTP/NTS client and server suite in Rust.  A client measures a source by an exchange of
packets, keeps the samples in a register, estimates offset and frequency by weighted regression, selects
among the sources, and lets one discipline loop plan what the system clock is told.  A server answers
requests from a table of clients with rate limits and interleaved mode, and protects its replies with NTS
(cookies, extension fields, authenticators) once a client has established keys.

\<^bold>\<open>Parts and theories\<close> (paths under \<open>src/crates/\<close>).
 \<^item> \<open>Float64\<close>: binary64 as the program uses it.  A value is a rational, negative zero, an infinity or NaN;
   each operation rounds to nearest even, so overflow, NaN, comparison and the sign of zero behave as in the
   code.
 \<^item> \<open>Prelude\<close>: words, byte encodings, slices, and the locale of component runs.
 \<^item> \<open>Ntp\<close> (\<open>rusty_time-core/src/ntp.rs\<close>): timestamps, short format, header codec, extension fields.
 \<^item> \<open>Select\<close> (\<open>select.rs\<close>), \<open>VClock\<close> (\<open>vclock.rs\<close>), \<open>Refclock\<close> (\<open>refclock.rs\<close>): source selection, the
   monotone clock handed to applications, reference-clock samples.
 \<^item> \<open>Slew\<close> (\<open>rusty_time-clock/src/slew.rs\<close>): platform slew arithmetic.
 \<^item> \<open>Discipline\<close> (\<open>discipline.rs\<close>): \<open>on_estimate_with_leap\<close> branch by branch, with its state record.
 \<^item> \<open>SampleFilter\<close> (\<open>filter.rs\<close>): the ring register, weights, regression and trims.
 \<^item> \<open>Controller\<close> (\<open>client.rs\<close>): registers plus one discipline, the drain budget and the undo record.
 \<^item> \<open>KeyIndex\<close>, \<open>ClientTable\<close>, \<open>TableRuns\<close> (\<open>server.rs\<close> of the core): the seeded hasher, the open-addressed
   index, slots with the intrusive recency list, token buckets, handles, and runs of the table.
 \<^item> \<open>NtsRecords\<close>, \<open>NtsFields\<close>, \<open>KeyExchange\<close>, \<open>NtsCookie\<close> (\<open>rusty_time-nts/src/\<close> \<open>records.rs\<close>, \<open>ef.rs\<close> with
   \<open>aead.rs\<close>, \<open>ke.rs\<close>, \<open>cookie.rs\<close>): the NTS codecs, key establishment and cookies.
 \<^item> \<open>KeServer\<close> (\<open>handle_ke\<close> of \<open>rusty_time-daemon/src/server.rs\<close>), \<open>Dates\<close> (\<open>rusty_time-nts/src/dates.rs\<close>): the
   server half of key establishment, and the validity window of a certificate.
 \<^item> \<open>Store\<close>, \<open>StoreRuns\<close> (\<open>rusty_time-daemon/src/store.rs\<close>, \<open>load_or_create_ring\<close> of \<open>server.rs\<close>): the durable state
   with its record log, and what survives a restart.
 \<^item> \<open>Query\<close> (\<open>query.rs\<close>): the one-shot measurement, its report, and the state it resumes from and leaves.
 \<^item> \<open>ConfigText\<close> (\<open>rusty_time-core/src/config.rs\<close>): the configuration file.
 \<^item> \<open>TextBytes\<close>: the standard library's text operations (splitting, trimming, numbers) on UTF-8 bytes.
 \<^item> \<open>ServerReply\<close>, \<open>ServerRuns\<close>, \<open>ServerPairing\<close> (\<open>rusty_time-daemon/src/server.rs\<close>): one reply on every path, one
   turn of the serving loop; what the responder guarantees; interleaved exchanges over runs of many clients.
 \<^item> \<open>NtsSession\<close> (\<open>nts_session.rs\<close>): the client's cookie store, and the exchange of both halves.
 \<^item> \<open>SyncExchange\<close>, \<open>SyncLoop\<close>, \<open>SyncRuns\<close> (\<open>sync.rs\<close>): one exchange with a source, the loop that steers the
   clock, and what its runs guarantee, interleaved with the requests of \<open>--serve\<close> clients.
 \<^item> \<open>ControlPlane\<close> (\<open>control.rs\<close>, \<open>rusty_time-api/src/lib.rs\<close>), \<open>RefId\<close> (\<open>refid.rs\<close>): the answers of the
   control socket, reference identifiers.

\<^bold>\<open>Conventions.\<close>  A struct is a record with a prefix per type, an enum a datatype.  Machine integers are words;
\<open>usize\<close> lengths are naturals.  An operation that can panic returns an option, a \<open>Result\<close> is a sum with the
error on the left.  Operating-system calls and third-party code are arguments: what the clocks, the random
source, the sockets and TLS return, the addresses' \<open>Hash\<close> writes, and the AES-SIV cipher as a record \<open>Aead\<close>
with the laws \<open>aead_ok\<close> (decryption inverts encryption and accepts nothing else, sealing succeeds and adds
sixteen bytes).

\<^bold>\<open>Loops.\<close>  Every loop is a total function: structural recursion over a list, or a function with a
decreasing measure over the remaining bytes.  The hash probe takes as fuel the number of buckets; the
index invariant keeps an empty bucket, so that fuel is proved to suffice and the theorems speak of the
unfuelled outcome.

\<^bold>\<open>What the lemmas show.\<close>  Codecs: both directions of each round trip, and what a parser accepts.  Selection
and discipline: majority, limits, and the licence for a step.  Register, index and table: refinement of a
bounded window, of a finite map, and of an LRU list of clients, for any sequence of calls.  NTS: binding and
authenticity of what is accepted, the lifetime of cookies, and an exchange that refills the store.
Responder: no panic, bounded replies only to client requests, and, over any run of requests and noted transmit
times, interleaved replies that only speak of exchanges with the same address.
Client daemon: what an accepted sample rests on, no command without a majority, no vouching for the time before an
accepted correction was taken by the driver or long after one, and an end when the driver keeps refusing.

\<^bold>\<open>Bounds.\<close>  The limits of discipline and controller hold for any configuration with a finite frequency ceiling that
is not negative, a slew ceiling that is not NaN and has no minus sign, a longest correction time with no minus
sign, a finite integral gain of any value, and poll bounds ordered within an \<open>i8\<close> (\<open>cfg_ok\<close>); the command line
accepts values outside it.  Handles and interleaved pairings are followed for fewer than \<open>2 ^ 32\<close> events, the range
of a slot's generation.

\<^bold>\<open>Not modelled.\<close>  Sockets and system calls, threads and locks (each operation is the body run under its
lock), text formatting, command lines, the web page, the wasm and bare-metal bindings, and TLS itself.
\<close>

end
